(* ===== verification/Rust_Base.thy ===== *)
theory Rust_Base
  imports Main "HOL-Library.AList" "HOL-Library.Char_ord" "HOL-Library.List_Lexorder"
    "HOL-Library.Word"
begin

text \<open>
  The parts of Rust's language and standard library that the modelled code uses, shared by
  every component of the development: results and the question-mark operator, strings and
  their ASCII operations, slices and iterators, ordered and insertion-ordered maps, saturating
  integers.

  A Rust \<^verbatim>\<open>str\<close> is the list of its bytes, HOL's \<^typ>\<open>string\<close>. Byte-wise operations
  (\<^verbatim>\<open>len\<close>, \<^verbatim>\<open>starts_with\<close>, \<^verbatim>\<open>eq_ignore_ascii_case\<close>, comparisons) are exact on every
  string; operations the source asks of Unicode (\<^verbatim>\<open>trim\<close>, \<^verbatim>\<open>to_lowercase\<close>,
  \<^verbatim>\<open>char::is_whitespace\<close>) are modelled on the ASCII range, on which they are exact.
\<close>

named_theorems rust_simps \<open>equations of the string and slice helpers, for evaluation\<close>

section \<open>Results\<close>

text \<open>\<^verbatim>\<open>Result<T, E>\<close> is \<^typ>\<open>'e + 'a\<close>; \<open>Inl\<close> is \<^verbatim>\<open>Err\<close>. The operator \<^verbatim>\<open>?\<close> is
  \<open>and_then\<close>.\<close>

definition and_then :: "'e + 'a \<Rightarrow> ('a \<Rightarrow> 'e + 'b) \<Rightarrow> 'e + 'b" where
  "and_then m f = (case m of Inl e \<Rightarrow> Inl e | Inr x \<Rightarrow> f x)"

lemma and_then_simps [simp]: "and_then (Inl e) f = Inl e" "and_then (Inr x) f = f x"
  by (simp_all add: and_then_def)

lemma and_then_Inr_iff: "and_then m f = Inr y \<longleftrightarrow> (\<exists>x. m = Inr x \<and> f x = Inr y)"
  by (cases m) auto

lemma and_then_Inl_iff:
  "and_then m f = Inl e \<longleftrightarrow> m = Inl e \<or> (\<exists>x. m = Inr x \<and> f x = Inl e)"
  by (cases m) auto

lemma and_then_assoc: "and_then (and_then m f) g = and_then m (\<lambda>v. and_then (f v) g)"
  by (cases m) auto

lemma and_then_cong [fundef_cong]:
  "m = m' \<Longrightarrow> (\<And>x. m' = Inr x \<Longrightarrow> f x = g x) \<Longrightarrow> and_then m f = and_then m' g"
  by (cases m') auto

text \<open>\<^verbatim>\<open>iter().map(f).collect::<Result<Vec<_>, _>>()\<close>: stops at the first error.\<close>

fun try_map :: "('a \<Rightarrow> 'e + 'b) \<Rightarrow> 'a list \<Rightarrow> 'e + 'b list" where
  "try_map f [] = Inr []"
| "try_map f (x # xs) = and_then (f x) (\<lambda>y. and_then (try_map f xs) (\<lambda>ys. Inr (y # ys)))"

lemma try_map_cong [fundef_cong]:
  "xs = ys \<Longrightarrow> (\<And>x. x \<in> set ys \<Longrightarrow> f x = g x) \<Longrightarrow> try_map f xs = try_map g ys"
  by (induction ys arbitrary: xs) auto

lemma try_map_length: "try_map f xs = Inr ys \<Longrightarrow> length ys = length xs"
  by (induction xs arbitrary: ys) (auto simp: and_then_Inr_iff)

text \<open>\<^verbatim>\<open>Option::filter\<close> and \<^verbatim>\<open>unwrap_or\<close>.\<close>

definition opt_filter :: "('a \<Rightarrow> bool) \<Rightarrow> 'a option \<Rightarrow> 'a option" where
  "opt_filter P x = (case x of None \<Rightarrow> None | Some v \<Rightarrow> if P v then Some v else None)"

definition unwrap_or :: "'a option \<Rightarrow> 'a \<Rightarrow> 'a" where
  "unwrap_or x d = (case x of None \<Rightarrow> d | Some v \<Rightarrow> v)"

definition or_else :: "'a option \<Rightarrow> 'a option \<Rightarrow> 'a option" where
  "or_else x y = (case x of None \<Rightarrow> y | Some v \<Rightarrow> Some v)"

fun opt_iter :: "'a option \<Rightarrow> 'a list" where
  "opt_iter None = []"
| "opt_iter (Some v) = [v]"

lemma opt_simps [simp]:
  "opt_filter P None = None" "opt_filter P (Some v) = (if P v then Some v else None)"
  "unwrap_or None d = d" "unwrap_or (Some v) d = v"
  "or_else None y = y" "or_else (Some v) y = Some v"
  by (simp_all add: opt_filter_def unwrap_or_def or_else_def)

section \<open>Slices and iterators\<close>

text \<open>\<^verbatim>\<open>iter().position(p)\<close>, \<^verbatim>\<open>slice::get\<close> and \<^verbatim>\<open>slice::join\<close>.\<close>

fun position :: "('a \<Rightarrow> bool) \<Rightarrow> 'a list \<Rightarrow> nat option" where
  "position P [] = None"
| "position P (x # xs) = (if P x then Some 0 else map_option Suc (position P xs))"

definition slice_get :: "'a list \<Rightarrow> nat \<Rightarrow> 'a option" where
  "slice_get xs i = (if i < length xs then Some (xs ! i) else None)"

fun join :: "string \<Rightarrow> string list \<Rightarrow> string" where
  "join sep [] = []"
| "join sep [x] = x"
| "join sep (x # y # xs) = x @ sep @ join sep (y # xs)"

lemma position_Some:
  "position P xs = Some i \<Longrightarrow> i < length xs \<and> P (xs ! i) \<and> (\<forall>j < i. \<not> P (xs ! j))"
proof (induction xs arbitrary: i)
  case (Cons x xs)
  then show ?case by (auto simp: less_Suc_eq_0_disj split: if_splits)
qed simp

lemma position_None: "position P xs = None \<longleftrightarrow> (\<forall>x \<in> set xs. \<not> P x)"
  by (induction xs) auto

lemma position_complete: "x \<in> set xs \<Longrightarrow> P x \<Longrightarrow> \<exists>i. position P xs = Some i"
  using position_None [of P xs] by (cases "position P xs") auto

lemma max_fold_le: "fold max xs (a::nat) \<le> n \<longleftrightarrow> a \<le> n \<and> list_all (\<lambda>x. x \<le> n) xs"
  by (induction xs arbitrary: a) auto

lemma in_set_concat_nth: "x \<in> set (concat ls) \<longleftrightarrow> (\<exists>i < length ls. x \<in> set (ls ! i))"
  by (metis UN_iff in_set_conv_nth set_concat)

lemma in_set_concat_take: "x \<in> set (concat (take n ls)) \<longleftrightarrow> (\<exists>i < length ls. i < n \<and> x \<in> set (ls ! i))"
  by (auto simp: in_set_concat_nth simp del: set_concat)

section \<open>Strings\<close>

definition is_ascii_digit :: "char \<Rightarrow> bool" where
  "is_ascii_digit c \<longleftrightarrow> 48 \<le> (of_char c :: nat) \<and> (of_char c :: nat) \<le> 57"

definition is_ascii_alphabetic :: "char \<Rightarrow> bool" where
  "is_ascii_alphabetic c \<longleftrightarrow>
     (65 \<le> (of_char c :: nat) \<and> (of_char c :: nat) \<le> 90) \<or>
     (97 \<le> (of_char c :: nat) \<and> (of_char c :: nat) \<le> 122)"

definition is_ascii_alphanumeric :: "char \<Rightarrow> bool" where
  "is_ascii_alphanumeric c \<longleftrightarrow> is_ascii_alphabetic c \<or> is_ascii_digit c"

text \<open>\<^verbatim>\<open>char::is_whitespace\<close> on ASCII: tab, line feed, vertical tab, form feed, carriage
  return and space.\<close>

definition is_whitespace :: "char \<Rightarrow> bool" where
  "is_whitespace c \<longleftrightarrow> (9 \<le> (of_char c :: nat) \<and> (of_char c :: nat) \<le> 13) \<or> (of_char c :: nat) = 32"

definition char_lower :: "char \<Rightarrow> char" where
  "char_lower c = (if 65 \<le> (of_char c :: nat) \<and> (of_char c :: nat) \<le> 90
                   then char_of ((of_char c :: nat) + 32) else c)"

definition char_upper :: "char \<Rightarrow> char" where
  "char_upper c = (if 97 \<le> (of_char c :: nat) \<and> (of_char c :: nat) \<le> 122
                   then char_of ((of_char c :: nat) - 32) else c)"

abbreviation to_lower :: "string \<Rightarrow> string" where
  "to_lower \<equiv> map char_lower"

abbreviation to_upper :: "string \<Rightarrow> string" where
  "to_upper \<equiv> map char_upper"

definition eq_ignore_ascii_case :: "string \<Rightarrow> string \<Rightarrow> bool" where
  "eq_ignore_ascii_case a b \<longleftrightarrow> to_lower a = to_lower b"

lemma of_char_char_of_nat [simp]: "n < 256 \<Longrightarrow> (of_char (char_of (n::nat)) :: nat) = n"
  by (simp add: of_char_of)

lemma char_lower_idem [simp]: "char_lower (char_lower c) = char_lower c"
  by (simp add: char_lower_def)

lemma to_lower_idem [simp]: "to_lower (to_lower s) = to_lower s"
  by simp

lemma char_lower_low: "(of_char (char_lower c) :: nat) < 97 \<Longrightarrow> char_lower c = c"
  by (auto simp: char_lower_def of_char_of split: if_splits)

lemma eq_ignore_ascii_case_refl [simp]: "eq_ignore_ascii_case a a"
  by (simp add: eq_ignore_ascii_case_def)

lemma eq_ignore_ascii_case_length: "eq_ignore_ascii_case a b \<Longrightarrow> length a = length b"
  unfolding eq_ignore_ascii_case_def by (metis length_map)

definition trim_start :: "string \<Rightarrow> string" where
  "trim_start = dropWhile is_whitespace"

definition trim_end :: "string \<Rightarrow> string" where
  "trim_end s = rev (dropWhile is_whitespace (rev s))"

definition trim :: "string \<Rightarrow> string" where
  "trim s = trim_end (trim_start s)"

definition strip_prefix :: "string \<Rightarrow> string \<Rightarrow> string option" where
  "strip_prefix p s = (if take (length p) s = p then Some (drop (length p) s) else None)"

definition strip_suffix :: "string \<Rightarrow> string \<Rightarrow> string option" where
  "strip_suffix p s = map_option rev (strip_prefix (rev p) (rev s))"

definition starts_with :: "string \<Rightarrow> string \<Rightarrow> bool" where
  "starts_with p s \<longleftrightarrow> take (length p) s = p"

text \<open>\<^verbatim>\<open>str::find(pat)\<close>: the least offset at which \<open>p\<close> occurs in \<open>s\<close>; \<^verbatim>\<open>contains\<close>.\<close>

fun find_sub :: "string \<Rightarrow> string \<Rightarrow> nat option" where
  "find_sub p [] = (if p = [] then Some 0 else None)"
| "find_sub p (c # s) = (if starts_with p (c # s) then Some 0 else map_option Suc (find_sub p s))"

definition str_contains :: "string \<Rightarrow> string \<Rightarrow> bool" where
  "str_contains s p \<longleftrightarrow> find_sub p s \<noteq> None"

lemma strip_prefix_append [simp]: "strip_prefix p (p @ s) = Some s"
  by (simp add: strip_prefix_def)

lemma strip_prefix_Some: "strip_prefix p s = Some r \<longleftrightarrow> s = p @ r"
  by (auto simp: strip_prefix_def split: if_splits) (metis append_take_drop_id)

lemma strip_prefix_None: "strip_prefix p s = None \<longleftrightarrow> (\<nexists>r. s = p @ r)"
  using strip_prefix_Some [of p s] by (cases "strip_prefix p s") auto

lemma strip_suffix_Some: "strip_suffix p s = Some r \<longleftrightarrow> s = r @ p"
  by (auto simp: strip_suffix_def strip_prefix_Some)
     (metis rev_append rev_rev_ident)

lemma starts_with_iff: "starts_with p s \<longleftrightarrow> (\<exists>r. s = p @ r)"
  unfolding starts_with_def by (metis append_eq_conv_conj)

lemma find_sub_Some:
  "find_sub p s = Some i \<Longrightarrow> i \<le> length s \<and> starts_with p (drop i s) \<and> (\<forall>j < i. \<not> starts_with p (drop j s))"
proof (induction s arbitrary: i)
  case Nil
  then show ?case by (simp add: starts_with_def split: if_splits)
next
  case (Cons c s)
  then show ?case by (auto simp: less_Suc_eq_0_disj split: if_splits)
qed

lemma find_sub_None: "find_sub p s = None \<longleftrightarrow> (\<forall>i \<le> length s. \<not> starts_with p (drop i s))"
proof (induction s)
  case Nil
  then show ?case by (simp add: starts_with_def)
next
  case (Cons c s)
  have "(\<forall>i \<le> Suc (length s). \<not> starts_with p (drop i (c # s))) \<longleftrightarrow>
      \<not> starts_with p (c # s) \<and> (\<forall>i \<le> length s. \<not> starts_with p (drop i s))"
    by (simp add: less_Suc_eq_le [symmetric] All_less_Suc2)
  with Cons.IH show ?case by simp
qed

lemmas [rust_simps] = is_ascii_digit_def is_ascii_alphabetic_def is_ascii_alphanumeric_def
  is_whitespace_def char_lower_def char_upper_def eq_ignore_ascii_case_def trim_def
  trim_start_def trim_end_def strip_prefix_def strip_suffix_def starts_with_def
  str_contains_def slice_get_def

section \<open>UTF-8\<close>

text \<open>\<open>utf8_ok\<close> holds of the bytes of every \<^verbatim>\<open>str\<close>; \<open>utf8_chars\<close> are its characters, each as its bytes.\<close>

definition is_continuation :: "char \<Rightarrow> bool" where
  "is_continuation c \<longleftrightarrow> 128 \<le> (of_char c :: nat) \<and> (of_char c :: nat) < 192"

definition is_char_boundary :: "string \<Rightarrow> nat \<Rightarrow> bool" where
  "is_char_boundary s i \<longleftrightarrow> i = 0 \<or> i = length s \<or> (i < length s \<and> \<not> is_continuation (s ! i))"

definition utf8_len :: "char \<Rightarrow> nat" where
  "utf8_len c =
     (let n = (of_char c :: nat)
      in if n < 128 then 1 else if 194 \<le> n \<and> n < 224 then 2 else if 224 \<le> n \<and> n < 240 then 3
         else if 240 \<le> n \<and> n < 245 then 4 else 0)"

function utf8_ok :: "string \<Rightarrow> bool" where
  "utf8_ok [] = True"
| "utf8_ok (c # cs) =
     (utf8_len c \<noteq> 0 \<and> utf8_len c - 1 \<le> length cs \<and> list_all is_continuation (take (utf8_len c - 1) cs) \<and>
      utf8_ok (drop (utf8_len c - 1) cs))"
  by pat_completeness auto

termination by (relation "measure length") auto

function utf8_chars :: "string \<Rightarrow> string list" where
  "utf8_chars [] = []"
| "utf8_chars (c # cs) = (c # take (utf8_len c - 1) cs) # utf8_chars (drop (utf8_len c - 1) cs)"
  by pat_completeness auto

termination by (relation "measure length") auto

lemma utf8_cancel: "utf8_ok s \<Longrightarrow> utf8_ok (s @ t) \<Longrightarrow> utf8_ok t"
  by (induction s rule: utf8_ok.induct) auto

lemma utf8_hd: "utf8_ok (c # cs) \<Longrightarrow> \<not> is_continuation c"
  by (auto simp: utf8_len_def is_continuation_def Let_def split: if_splits)

lemma utf8_suffix:
  assumes "utf8_ok (u @ c # cs)" and "\<not> is_continuation c"
  shows "utf8_ok (c # cs)"
  using assms(1)
proof (induction u rule: length_induct)
  case (1 u)
  show ?case
  proof (cases u)
    case Nil
    then show ?thesis using 1 by simp
  next
    case (Cons x xs)
    let ?n = "utf8_len x - 1"
    have ok: "list_all is_continuation (take ?n (xs @ c # cs))" "utf8_ok (drop ?n (xs @ c # cs))" "?n \<le> length (xs @ c # cs)"
      using "1.prems" by (simp_all add: Cons)
    have "?n \<le> length xs"
    proof (rule ccontr)
      assume "\<not> ?n \<le> length xs"
      then have "take ?n (xs @ c # cs) = xs @ c # take (?n - length xs - 1) cs"
        by (cases "?n - length xs") auto
      then have "is_continuation c" using ok(1) by simp
      with assms(2) show False by simp
    qed
    then have "utf8_ok (drop ?n xs @ c # cs)" using ok(2) by simp
    moreover have "length (drop ?n xs) < length u" by (simp add: Cons)
    ultimately show ?thesis using "1.IH" by blast
  qed
qed

lemma utf8_prefix: "utf8_ok (s @ c # t) \<Longrightarrow> \<not> is_continuation c \<Longrightarrow> utf8_ok s"
proof (induction s rule: utf8_ok.induct)
  case (2 x xs)
  let ?n = "utf8_len x - 1"
  have ok: "utf8_len x \<noteq> 0" "list_all is_continuation (take ?n (xs @ c # t))" "utf8_ok (drop ?n (xs @ c # t))"
    using "2.prems"(1) by simp_all
  have n: "?n \<le> length xs"
  proof (rule ccontr)
    assume "\<not> ?n \<le> length xs"
    then have "take ?n (xs @ c # t) = xs @ c # take (?n - length xs - 1) t" by (cases "?n - length xs") auto
    then show False using ok(2) "2.prems"(2) by simp
  qed
  then have "utf8_ok (drop ?n xs)" using "2.IH" ok(3) "2.prems"(2) by simp
  then show ?case using ok n by simp
qed simp

lemma utf8_chars_append: "utf8_ok s \<Longrightarrow> utf8_chars (s @ t) = utf8_chars s @ utf8_chars t"
  by (induction s rule: utf8_ok.induct) auto

lemma utf8_chars_Nil [simp]: "utf8_chars s = [] \<longleftrightarrow> s = []"
  by (cases s) auto

lemma concat_utf8_chars [simp]: "concat (utf8_chars s) = s"
  by (induction s rule: utf8_chars.induct) auto

section \<open>Ordered maps\<close>

text \<open>
  \<^verbatim>\<open>BTreeMap\<close> iterates in key order: it is an association list kept sorted by
  \<open>btree_insert\<close>. \<^verbatim>\<open>IndexMap\<close> iterates in insertion order and an insertion of a present key
  keeps its place: that is \<open>AList.update\<close>.
\<close>

fun btree_insert :: "'k::linorder \<Rightarrow> 'v \<Rightarrow> ('k \<times> 'v) list \<Rightarrow> ('k \<times> 'v) list" where
  "btree_insert k v [] = [(k, v)]"
| "btree_insert k v ((k', v') # m) =
     (if k < k' then (k, v) # (k', v') # m
      else if k = k' then (k, v) # m
      else (k', v') # btree_insert k v m)"

definition btree_wf :: "('k::linorder \<times> 'v) list \<Rightarrow> bool" where
  "btree_wf m \<longleftrightarrow> sorted (map fst m) \<and> distinct (map fst m)"

abbreviation im_insert :: "'k \<Rightarrow> 'v \<Rightarrow> ('k \<times> 'v) list \<Rightarrow> ('k \<times> 'v) list" where
  "im_insert \<equiv> AList.update"

lemma im_insert_fresh: "k \<notin> fst ` set m \<Longrightarrow> im_insert k v m = m @ [(k, v)]"
  by (induction m) auto

lemma btree_wf_Nil [simp]: "btree_wf []"
  by (simp add: btree_wf_def)

lemma map_of_btree_insert [simp]:
  "map_of (btree_insert k v m) = (map_of m)(k \<mapsto> v)"
proof (induction k v m rule: btree_insert.induct)
  case (2 k v k' v' m)
  show ?case
  proof (cases "k < k'")
    case True
    then show ?thesis by (auto simp: fun_eq_iff)
  next
    case False
    with "2" show ?thesis by (auto simp: fun_upd_twist)
  qed
qed simp

lemma set_keys_btree_insert: "fst ` set (btree_insert k v m) = insert k (fst ` set m)"
  by (induction k v m rule: btree_insert.induct) auto

lemma btree_wf_insert: "btree_wf m \<Longrightarrow> btree_wf (btree_insert k v m)"
proof (induction k v m rule: btree_insert.induct)
  case (2 k v k' v' m)
  then show ?case
    using set_keys_btree_insert [of k v m]
    by (auto simp: btree_wf_def image_iff)
qed (simp add: btree_wf_def)

section \<open>Saturating integers\<close>

text \<open>\<^verbatim>\<open>i32\<close>, \<^verbatim>\<open>i64\<close> and \<^verbatim>\<open>u32\<close> values are integers in the type's range; saturating operations
  clamp to it.\<close>

definition clamp :: "'a::linorder \<Rightarrow> 'a \<Rightarrow> 'a \<Rightarrow> 'a" where
  "clamp lo hi x = (if x < lo then lo else if hi < x then hi else x)"

definition sat_i32 :: "int \<Rightarrow> int" where "sat_i32 = clamp (- (2 ^ 31)) (2 ^ 31 - 1)"
definition sat_i64 :: "int \<Rightarrow> int" where "sat_i64 = clamp (- (2 ^ 63)) (2 ^ 63 - 1)"
definition sat_u32 :: "nat \<Rightarrow> nat" where "sat_u32 n = min n (2 ^ 32 - 1)"
definition sat_u64 :: "nat \<Rightarrow> nat" where "sat_u64 n = min n (2 ^ 64 - 1)"

lemma clamp_in: "lo \<le> hi \<Longrightarrow> lo \<le> clamp lo hi x \<and> clamp lo hi x \<le> hi"
  by (auto simp: clamp_def)

lemma clamp_id: "lo \<le> x \<Longrightarrow> x \<le> hi \<Longrightarrow> clamp lo hi x = x"
  by (auto simp: clamp_def)

section \<open>Decimal numbers\<close>

text \<open>\<^verbatim>\<open>to_string\<close> of an unsigned integer, and \<^verbatim>\<open>str::parse::<i64>\<close>: an optional sign and at
  least one digit, in range.\<close>

fun nat_to_string :: "nat \<Rightarrow> string" where
  "nat_to_string n =
     (if n < 10 then [char_of (48 + n)]
      else nat_to_string (n div 10) @ [char_of (48 + n mod 10)])"

declare nat_to_string.simps [simp del]

definition int_to_string :: "int \<Rightarrow> string" where
  "int_to_string i = (if i < 0 then CHR ''-'' # nat_to_string (nat (- i)) else nat_to_string (nat i))"

definition digits_value :: "string \<Rightarrow> nat" where
  "digits_value s = foldl (\<lambda>v c. 10 * v + ((of_char c :: nat) - 48)) 0 s"

definition parse_digits :: "string \<Rightarrow> nat option" where
  "parse_digits s = (if s \<noteq> [] \<and> list_all is_ascii_digit s then Some (digits_value s) else None)"

definition in_i64 :: "int \<Rightarrow> int option" where
  "in_i64 i = (if - (2 ^ 63) \<le> i \<and> i < 2 ^ 63 then Some i else None)"

fun parse_i64 :: "string \<Rightarrow> int option" where
  "parse_i64 [] = None"
| "parse_i64 (c # s) =
     (if c = CHR ''-'' then Option.bind (parse_digits s) (\<lambda>v. in_i64 (- int v))
      else if c = CHR ''+'' then Option.bind (parse_digits s) (\<lambda>v. in_i64 (int v))
      else Option.bind (parse_digits (c # s)) (\<lambda>v. in_i64 (int v)))"

lemma digits_nat_to_string: "list_all is_ascii_digit (nat_to_string n) \<and> nat_to_string n \<noteq> []"
proof (induction n rule: nat_to_string.induct)
  case (1 n)
  have digit: "is_ascii_digit (char_of (48 + k))" if "k < 10" for k :: nat
    using that by (simp add: is_ascii_digit_def)
  show ?case by (subst (1 2) nat_to_string.simps) (use 1 digit in auto)
qed

lemma digits_value_nat_to_string [simp]: "digits_value (nat_to_string n) = n"
proof (induction n rule: nat_to_string.induct)
  case (1 n)
  have "digits_value (s @ [char_of (48 + k)]) = 10 * digits_value s + k" if "k < 10" for s and k :: nat
    using that by (simp add: digits_value_def)
  then show ?case using 1
    by (subst nat_to_string.simps) (auto simp: digits_value_def)
qed

lemma parse_digits_nat_to_string [simp]: "parse_digits (nat_to_string n) = Some n"
  using digits_nat_to_string by (simp add: parse_digits_def)

text \<open>\<^verbatim>\<open>str::parse\<close> into an unsigned integer of the given width.\<close>

definition parse_unsigned :: "nat \<Rightarrow> string \<Rightarrow> nat option" where
  "parse_unsigned width s =
     opt_filter (\<lambda>n. n < 2 ^ width)
       (parse_digits (case s of c # cs \<Rightarrow> if c = CHR ''+'' then cs else s | [] \<Rightarrow> []))"

end
