(* ===== verification/Needs_Graph.thy ===== *)
theory Needs_Graph
  imports Rust_Base
begin

text \<open>
  The needs graph of a workflow (crate \<^verbatim>\<open>preloop-gha-parser\<close>, file \<^verbatim>\<open>src/dag.rs\<close>): cycle
  detection by a three-colour depth-first search with an explicit frame stack, Kahn's
  topological layers, and the transitive closure of selected jobs. A graph is a
  \<^verbatim>\<open>BTreeMap\<close> from job ids to the ids they need, and an id that is only needed is an implicit
  leaf. The search is shown to accept exactly the acyclic graphs, its witness to lie on a
  cycle, the layers to be a topological order of every node, and the closure to be
  reachability.
\<close>

type_synonym job_name = string
type_synonym needs_graph = "(job_name \<times> job_name list) list"

datatype needs_cycle = NeedsCycle (witness: job_name)

section \<open>The graph\<close>

text \<open>\<^verbatim>\<open>edges.get(node).unwrap_or_default()\<close>, and \<^verbatim>\<open>BTreeMap::entry(k).or_insert(v)\<close>.\<close>

definition deps_of :: "needs_graph \<Rightarrow> job_name \<Rightarrow> job_name list" where
  "deps_of g n = unwrap_or (map_of g n) []"

definition btree_or_insert :: "'v \<Rightarrow> 'k::linorder \<Rightarrow> ('k \<times> 'v) list \<Rightarrow> ('k \<times> 'v) list" where
  "btree_or_insert v k m = (if map_of m k = None then btree_insert k v m else m)"

fun needs_graph_from_pairs_loop :: "(job_name \<times> job_name list) list \<Rightarrow> needs_graph \<Rightarrow> needs_graph" where
  "needs_graph_from_pairs_loop [] m = m"
| "needs_graph_from_pairs_loop ((i, needs) # jobs) m =
     needs_graph_from_pairs_loop jobs (btree_insert i (unwrap_or (map_of m i) [] @ needs) m)"

definition needs_graph_from_pairs :: "(job_name \<times> job_name list) list \<Rightarrow> needs_graph" where
  "needs_graph_from_pairs jobs = needs_graph_from_pairs_loop jobs []"

definition needs_edges :: "needs_graph \<Rightarrow> (job_name \<times> job_name) set" where
  "needs_edges g = {(n, d). d \<in> set (deps_of g n)}"

section \<open>Cycle detection\<close>

datatype color = White | Gray | Black

type_synonym frame = "job_name \<times> job_name list"

text \<open>The colour map before the walk: every key and every dependency, white.\<close>

definition initial_colors :: "needs_graph \<Rightarrow> (job_name \<times> color) list" where
  "initial_colors g =
     fold (btree_or_insert White) (concat (map snd g)) (map (\<lambda>(k, _). (k, White)) g)"

definition frame_for :: "needs_graph \<Rightarrow> job_name \<Rightarrow> frame" where
  "frame_for g n = (n, deps_of g n)"

text \<open>The \<^verbatim>\<open>while let Some(top) = stack.last_mut()\<close> loop; the head of the list is the top.\<close>

function dfs_walk :: "needs_graph \<Rightarrow> (job_name \<rightharpoonup> color) \<Rightarrow> frame list \<Rightarrow>
    needs_cycle + (job_name \<rightharpoonup> color)" where
  "dfs_walk g col [] = Inr col"
| "dfs_walk g col ((n, []) # st) = dfs_walk g (col(n \<mapsto> Black)) st"
| "dfs_walk g col ((n, d # ds) # st) =
     (case unwrap_or (col d) White of
        Gray \<Rightarrow> Inl (NeedsCycle d)
      | White \<Rightarrow> dfs_walk g (col(d \<mapsto> Gray)) (frame_for g d # (n, ds) # st)
      | Black \<Rightarrow> dfs_walk g col ((n, ds) # st))"
  by pat_completeness auto

definition stack_deps :: "frame list \<Rightarrow> job_name set" where
  "stack_deps st = (\<Union>f \<in> set st. set (snd f))"

definition white_nodes :: "needs_graph \<Rightarrow> (job_name \<rightharpoonup> color) \<Rightarrow> frame list \<Rightarrow> job_name set" where
  "white_nodes g col st =
     {d \<in> (\<Union>e \<in> set g. set (snd e)) \<union> stack_deps st. unwrap_or (col d) White = White}"

lemma finite_white_nodes [simp]: "finite (white_nodes g col st)"
  by (simp add: white_nodes_def stack_deps_def)

lemma set_deps_of: "set (deps_of g n) \<subseteq> (\<Union>e \<in> set g. set (snd e))"
proof (cases "map_of g n")
  case (Some ds)
  then show ?thesis by (auto simp: deps_of_def dest: map_of_SomeD intro: rev_bexI)
qed (simp add: deps_of_def)

lemma card_white_push:
  assumes "unwrap_or (col d) White = White"
  shows "card (white_nodes g (col(d \<mapsto> Gray)) (frame_for g d # (n, ds) # st))
    < card (white_nodes g col ((n, d # ds) # st))"
proof (rule psubset_card_mono)
  have "d \<notin> white_nodes g (col(d \<mapsto> Gray)) (frame_for g d # (n, ds) # st)"
    and "d \<in> white_nodes g col ((n, d # ds) # st)"
    using assms by (auto simp: white_nodes_def stack_deps_def)
  moreover have "white_nodes g (col(d \<mapsto> Gray)) (frame_for g d # (n, ds) # st)
      \<subseteq> white_nodes g col ((n, d # ds) # st)"
    using set_deps_of [of g d]
    by (auto simp: white_nodes_def stack_deps_def frame_for_def split: if_splits)
  ultimately show "white_nodes g (col(d \<mapsto> Gray)) (frame_for g d # (n, ds) # st)
      \<subset> white_nodes g col ((n, d # ds) # st)" by blast
qed simp

lemma card_white_le:
  assumes "stack_deps st \<subseteq> stack_deps st'"
    and "\<And>x. unwrap_or (col x) White = White \<Longrightarrow> unwrap_or (col' x) White = White"
  shows "card (white_nodes g col st) \<le> card (white_nodes g col' st')"
  using assms by (intro card_mono [OF finite_white_nodes]) (auto simp: white_nodes_def)

termination dfs_walk
proof (relation "measures [\<lambda>(g, col, st). card (white_nodes g col st),
    \<lambda>(g, col, st). \<Sum>f \<leftarrow> st. Suc (length (snd f))]", goal_cases)
  case (2 g col n st)
  have "card (white_nodes g (col(n \<mapsto> Black)) st) \<le> card (white_nodes g col ((n, []) # st))"
    by (rule card_white_le) (auto simp: stack_deps_def split: if_splits)
  then show ?case by auto
next
  case (3 g col n d ds st)
  then show ?case using card_white_push by auto
next
  case (4 g col n d ds st)
  have "card (white_nodes g col ((n, ds) # st)) \<le> card (white_nodes g col ((n, d # ds) # st))"
    by (rule card_white_le) (auto simp: stack_deps_def)
  then show ?case by auto
qed simp

text \<open>The \<^verbatim>\<open>for root in nodes\<close> loop, and the whole function.\<close>

fun dfs_roots :: "needs_graph \<Rightarrow> (job_name \<rightharpoonup> color) \<Rightarrow> job_name list \<Rightarrow> needs_cycle + unit" where
  "dfs_roots g col [] = Inr ()"
| "dfs_roots g col (r # rs) =
     (if col r \<noteq> Some White then dfs_roots g col rs
      else and_then (dfs_walk g (col(r \<mapsto> Gray)) [frame_for g r]) (\<lambda>col'. dfs_roots g col' rs))"

definition detect_needs_cycle :: "needs_graph \<Rightarrow> needs_cycle + unit" where
  "detect_needs_cycle g =
     (let color = initial_colors g in dfs_roots g (map_of color) (map fst color))"

section \<open>Topological layers and closure\<close>

text \<open>\<^verbatim>\<open>remaining\<close>: every node with its set of needs, in key order.\<close>

definition remaining_needs :: "needs_graph \<Rightarrow> (job_name \<times> job_name list) list" where
  "remaining_needs g =
     (let rem = map (\<lambda>(k, v). (k, sort (remdups v))) g
      in fold (btree_or_insert []) (concat (map snd rem)) rem)"

definition next_layer :: "(job_name \<times> job_name list) list \<Rightarrow> job_name list \<Rightarrow> job_name list" where
  "next_layer rem don =
     map fst (filter (\<lambda>(i, needs). i \<notin> set don \<and> list_all (\<lambda>n. n \<in> set don) needs) rem)"

function kahn_loop :: "(job_name \<times> job_name list) list \<Rightarrow> job_name list \<Rightarrow> job_name list list \<Rightarrow>
    job_name list list option" where
  "kahn_loop rem don layers =
     (if length don < length rem
      then let layer = next_layer rem don
           in if layer = [] then None
              else kahn_loop rem (fold List.insert layer don) (layers @ [layer])
      else Some layers)"
  by pat_completeness auto

lemma length_fold_insert_le: "length xs \<le> length (fold List.insert ys xs)"
proof (induction ys arbitrary: xs)
  case (Cons y ys)
  have "length xs \<le> length (List.insert y xs)" by (simp add: List.insert_def)
  also have "\<dots> \<le> length (fold List.insert (y # ys) xs)" using Cons.IH by simp
  finally show ?case .
qed simp

lemma next_layer_fresh: "i \<in> set (next_layer rem don) \<Longrightarrow> i \<notin> set don"
  by (auto simp: next_layer_def)

lemma next_layer_grows:
  assumes "next_layer rem don \<noteq> []"
  shows "length don < length (fold List.insert (next_layer rem don) don)"
proof -
  obtain i l where l: "next_layer rem don = i # l" using assms by (cases "next_layer rem don") auto
  then have "i \<notin> set don" using next_layer_fresh [of i rem don] by simp
  then have "length don < length (List.insert i don)" by simp
  also have "\<dots> \<le> length (fold List.insert (next_layer rem don) don)"
    using length_fold_insert_le l by simp
  finally show ?thesis .
qed

termination kahn_loop
  by (relation "measure (\<lambda>(rem, don, _). length rem - length don)")
     (auto dest: next_layer_grows intro: diff_less_mono2)

declare kahn_loop.simps [simp del]

definition topo_layers :: "needs_graph \<Rightarrow> job_name list list option" where
  "topo_layers g = kahn_loop (remaining_needs g) [] []"

text \<open>\<^verbatim>\<open>while let Some(node) = stack.pop()\<close>; the head of the list is the top.\<close>

definition push_unclosed :: "job_name list \<Rightarrow> job_name list \<Rightarrow> job_name list \<Rightarrow> job_name list" where
  "push_unclosed closed deps st =
     fold (\<lambda>dep st. if dep \<in> set closed then st else dep # st) deps st"

function closure_loop :: "needs_graph \<Rightarrow> job_name list \<Rightarrow> job_name list \<Rightarrow> job_name list" where
  "closure_loop g closed [] = closed"
| "closure_loop g closed (node # st) =
     (if node \<in> set closed then closure_loop g closed st
      else let closed' = List.insert node closed
           in closure_loop g closed' (push_unclosed closed' (deps_of g node) st))"
  by pat_completeness auto

lemma set_push_unclosed:
  "set (push_unclosed closed deps st) = set st \<union> (set deps - set closed)"
  unfolding push_unclosed_def by (induction deps arbitrary: st) auto

termination closure_loop
proof (relation "measures [\<lambda>(g, closed, st). card (((\<Union>e \<in> set g. set (snd e)) \<union> set st) - set closed),
    \<lambda>(g, closed, st). length st]", goal_cases)
  case (2 g closed node st)
  have "card ((\<Union>e \<in> set g. set (snd e)) \<union> set st - set closed)
      \<le> card ((\<Union>e \<in> set g. set (snd e)) \<union> set (node # st) - set closed)"
    by (intro card_mono) auto
  then show ?case by auto
next
  case (3 g closed node st closed')
  have "card ((\<Union>e \<in> set g. set (snd e)) \<union> set (push_unclosed closed' (deps_of g node) st) - set closed')
      < card ((\<Union>e \<in> set g. set (snd e)) \<union> set (node # st) - set closed)"
    using 3 set_deps_of [of g node] by (intro psubset_card_mono) (auto simp: set_push_unclosed)
  then show ?case by simp
qed simp

definition dependency_closure :: "needs_graph \<Rightarrow> job_name list \<Rightarrow> job_name set" where
  "dependency_closure g roots = set (closure_loop g [] (rev roots))"

section \<open>Correctness of cycle detection\<close>

text \<open>The nodes the searches start from are exactly the keys and the dependencies.\<close>

definition graph_nodes :: "needs_graph \<Rightarrow> job_name set" where
  "graph_nodes g = fst ` set g \<union> (\<Union>e \<in> set g. set (snd e))"

lemma keys_fold_or_insert:
  "fst ` set (fold (btree_or_insert v) ks m) = fst ` set m \<union> set ks"
proof (induction ks arbitrary: m)
  case (Cons k ks)
  have "fst ` set (btree_or_insert v k m) = insert k (fst ` set m)"
    by (auto simp: btree_or_insert_def set_keys_btree_insert map_of_eq_None_iff)
  with Cons.IH show ?case by simp
qed simp

lemma btree_wf_fold_or_insert: "btree_wf m \<Longrightarrow> btree_wf (fold (btree_or_insert v) ks m)"
  by (induction ks arbitrary: m) (auto simp: btree_or_insert_def btree_wf_insert)

lemma map_of_fold_or_insert:
  "btree_wf m \<Longrightarrow> map_of (fold (btree_or_insert v) ks m) k =
     (if map_of m k = None \<and> k \<in> set ks then Some v else map_of m k)"
proof (induction ks arbitrary: m)
  case (Cons a ks)
  have "btree_wf (btree_or_insert v a m)"
    using Cons.prems by (simp add: btree_or_insert_def btree_wf_insert)
  from Cons.IH [OF this] Cons.prems show ?case
    by (auto simp: btree_or_insert_def)
qed simp

lemma values_fold_or_insert:
  "snd ` set m \<subseteq> {v} \<Longrightarrow> snd ` set (fold (btree_or_insert v) ks m) \<subseteq> {v}"
proof (induction ks arbitrary: m)
  case (Cons k ks)
  have "snd ` set (btree_insert k v m) \<subseteq> insert v (snd ` set m)"
    by (induction k v m rule: btree_insert.induct) auto
  with Cons.prems have "snd ` set (btree_or_insert v k m) \<subseteq> {v}"
    unfolding btree_or_insert_def by (cases "map_of m k") (simp_all, blast)
  from Cons.IH [OF this] show ?case by simp
qed simp

lemma initial_colors_nodes: "fst ` set (initial_colors g) = graph_nodes g"
proof -
  have "fst ` set (map (\<lambda>(k, _). (k, White)) g) = fst ` set g" by force
  then show ?thesis by (simp add: initial_colors_def keys_fold_or_insert graph_nodes_def)
qed

lemma initial_colors_white: "map_of (initial_colors g) n = Some c \<Longrightarrow> c = White"
proof -
  assume "map_of (initial_colors g) n = Some c"
  then have "c \<in> snd ` set (initial_colors g)" by (force dest: map_of_SomeD)
  moreover have "snd ` set (initial_colors g) \<subseteq> {White}"
    unfolding initial_colors_def by (rule values_fold_or_insert) auto
  ultimately show ?thesis by auto
qed

lemma needs_edges_nodes: "(n, d) \<in> needs_edges g \<Longrightarrow> n \<in> graph_nodes g \<and> d \<in> graph_nodes g"
  unfolding needs_edges_def graph_nodes_def deps_of_def
  by (cases "map_of g n") (force dest: map_of_SomeD)+

text \<open>
  The invariant of the walk: the grey nodes are the frames of the stack, which is a path of
  the graph; a frame's consumed dependencies are black, but for the child on top of it; black
  nodes only need black nodes and lie on no cycle.
\<close>

fun frames_ok :: "needs_graph \<Rightarrow> (job_name \<rightharpoonup> color) \<Rightarrow> job_name option \<Rightarrow> frame list \<Rightarrow> bool" where
  "frames_ok g col child [] \<longleftrightarrow> True"
| "frames_ok g col child ((n, ds) # st) \<longleftrightarrow>
     (\<exists>pre. deps_of g n = pre @ ds \<and> (\<forall>p \<in> set pre. col p = Some Black \<or> child = Some p)) \<and>
     (\<forall>c. child = Some c \<longrightarrow> (n, c) \<in> needs_edges g) \<and>
     frames_ok g col (Some n) st"

definition black_closed :: "needs_graph \<Rightarrow> (job_name \<rightharpoonup> color) \<Rightarrow> bool" where
  "black_closed g col \<longleftrightarrow>
     (\<forall>b d. col b = Some Black \<longrightarrow> (b, d) \<in> needs_edges g \<longrightarrow> col d = Some Black) \<and>
     (\<forall>b. col b = Some Black \<longrightarrow> (b, b) \<notin> (needs_edges g)\<^sup>+)"

definition walk_inv :: "needs_graph \<Rightarrow> (job_name \<rightharpoonup> color) \<Rightarrow> frame list \<Rightarrow> bool" where
  "walk_inv g col st \<longleftrightarrow>
     {x. col x = Some Gray} = set (map fst st) \<and> distinct (map fst st) \<and>
     black_closed g col \<and> frames_ok g col None st"

lemma frames_ok_mono:
  assumes "\<And>p. col p = Some Black \<Longrightarrow> col' p = Some Black" "frames_ok g col child st"
  shows "frames_ok g col' child st"
  using assms(2)
proof (induction st arbitrary: child)
  case (Cons f st)
  obtain n ds where f: "f = (n, ds)" by (cases f)
  from Cons.prems f obtain pre where pre: "deps_of g n = pre @ ds"
    "\<forall>p \<in> set pre. col p = Some Black \<or> child = Some p" by auto
  with assms(1) have "\<forall>p \<in> set pre. col' p = Some Black \<or> child = Some p" by blast
  with pre have "\<exists>pre. deps_of g n = pre @ ds \<and> (\<forall>p \<in> set pre. col' p = Some Black \<or> child = Some p)"
    by blast
  with Cons f show ?case by simp
qed simp

lemma frames_ok_finish:
  assumes "\<And>p. col p = Some Black \<Longrightarrow> col' p = Some Black" "col' c = Some Black"
    and "frames_ok g col (Some c) st"
  shows "frames_ok g col' None st"
proof (cases st)
  case (Cons f st')
  obtain n ds where f: "f = (n, ds)" by (cases f)
  have "frames_ok g col' (Some c) st" using assms(1,3) by (rule frames_ok_mono)
  with assms(2) Cons f show ?thesis by fastforce
qed simp

lemma black_reaches_black:
  assumes "black_closed g col" "(b, d) \<in> (needs_edges g)\<^sup>*" "col b = Some Black"
  shows "col d = Some Black"
  using assms(2,3,1) by (induction rule: rtrancl_induct) (auto simp: black_closed_def)

lemma black_closed_cong:
  "(\<And>x. col' x = Some Black \<longleftrightarrow> col x = Some Black) \<Longrightarrow> black_closed g col' = black_closed g col"
  by (simp add: black_closed_def)

lemma black_closed_finish:
  assumes "black_closed g col" "\<forall>d \<in> set (deps_of g n). col d = Some Black" "col n \<noteq> Some Black"
  shows "black_closed g (col(n \<mapsto> Black))"
proof -
  have "(n, n) \<notin> (needs_edges g)\<^sup>+"
  proof
    assume "(n, n) \<in> (needs_edges g)\<^sup>+"
    then obtain d where "(n, d) \<in> needs_edges g" "(d, n) \<in> (needs_edges g)\<^sup>*"
      by (meson tranclD)
    with assms have "col n = Some Black"
      by (intro black_reaches_black [of g col d n]) (auto simp: needs_edges_def)
    with assms(3) show False by simp
  qed
  with assms show ?thesis by (auto simp: black_closed_def needs_edges_def)
qed

lemma frames_path:
  "frames_ok g col (Some c) st \<Longrightarrow> x \<in> set (map fst st) \<Longrightarrow> (x, c) \<in> (needs_edges g)\<^sup>+"
proof (induction st arbitrary: c)
  case (Cons f st)
  obtain n ds where f: "f = (n, ds)" by (cases f)
  have nc: "(n, c) \<in> needs_edges g" using Cons.prems f by simp
  show ?case
  proof (cases "x = n")
    case False
    with Cons f have "(x, n) \<in> (needs_edges g)\<^sup>+" by auto
    with nc show ?thesis by (rule trancl.trancl_into_trancl [rotated])
  qed (use nc in auto)
qed simp

lemma walk_inv_pop:
  assumes "walk_inv g col ((n, []) # st)"
  shows "walk_inv g (col(n \<mapsto> Black)) st"
proof -
  have gray: "col n = Some Gray" using assms by (auto simp: walk_inv_def)
  have "black_closed g (col(n \<mapsto> Black))"
    using assms gray by (intro black_closed_finish) (auto simp: walk_inv_def)
  moreover have "frames_ok g (col(n \<mapsto> Black)) None st"
    using assms gray by (intro frames_ok_finish [where col = col and c = n]) (auto simp: walk_inv_def)
  moreover have "{x. (col(n \<mapsto> Black)) x = Some Gray} = {x. col x = Some Gray} - {n}" by auto
  ultimately show ?thesis using assms by (auto simp: walk_inv_def)
qed

lemma walk_inv_push:
  assumes "walk_inv g col ((n, d # ds) # st)" "unwrap_or (col d) White = White"
  shows "walk_inv g (col(d \<mapsto> Gray)) (frame_for g d # (n, ds) # st)"
proof -
  let ?c = "col(d \<mapsto> Gray)"
  have nw: "col d \<noteq> Some Black" "col d \<noteq> Some Gray" using assms(2) by auto
  have "frames_ok g col (Some n) st" using assms(1) by (simp add: walk_inv_def)
  then have st: "frames_ok g ?c (Some n) st"
    by (rule frames_ok_mono [rotated]) (use nw in auto)
  have "black_closed g ?c = black_closed g col" using nw by (intro black_closed_cong) auto
  with assms(1) have "black_closed g ?c" by (simp add: walk_inv_def)
  moreover have "(n, d) \<in> needs_edges g" using assms(1) by (auto simp: walk_inv_def needs_edges_def)
  moreover obtain pre where "deps_of g n = pre @ d # ds" "\<forall>p \<in> set pre. col p = Some Black"
    using assms(1) by (auto simp: walk_inv_def)
  then have "deps_of g n = (pre @ [d]) @ ds"
    "\<forall>p \<in> set (pre @ [d]). ?c p = Some Black \<or> Some d = Some p" by auto
  then have "\<exists>pre. deps_of g n = pre @ ds \<and> (\<forall>p \<in> set pre. ?c p = Some Black \<or> Some d = Some p)"
    by blast
  moreover have "{x. ?c x = Some Gray} = insert d {x. col x = Some Gray}" by auto
  moreover have "d \<notin> set (map fst ((n, d # ds) # st))" using assms(1) nw by (auto simp: walk_inv_def)
  ultimately show ?thesis using assms(1) st by (auto simp: walk_inv_def frame_for_def)
qed

lemma walk_inv_skip:
  assumes "walk_inv g col ((n, d # ds) # st)" "unwrap_or (col d) White = Black"
  shows "walk_inv g col ((n, ds) # st)"
proof -
  have "col d = Some Black" using assms(2) by (cases "col d") auto
  moreover obtain pre where "deps_of g n = pre @ d # ds" "\<forall>p \<in> set pre. col p = Some Black"
    using assms(1) by (auto simp: walk_inv_def)
  ultimately have "deps_of g n = (pre @ [d]) @ ds" "\<forall>p \<in> set (pre @ [d]). col p = Some Black" by auto
  then have "\<exists>pre. deps_of g n = pre @ ds \<and> (\<forall>p \<in> set pre. col p = Some Black)" by blast
  with assms(1) show ?thesis by (auto simp: walk_inv_def)
qed

lemma walk_inv_cycle:
  assumes "walk_inv g col ((n, d # ds) # st)" "unwrap_or (col d) White = Gray"
  shows "(d, d) \<in> (needs_edges g)\<^sup>+"
proof -
  have nd: "(n, d) \<in> needs_edges g" using assms(1) by (auto simp: walk_inv_def needs_edges_def)
  have "col d = Some Gray" using assms(2) by (cases "col d") auto
  with assms(1) have "d \<in> insert n (set (map fst st))" by (auto simp: walk_inv_def)
  then have "d = n \<or> (d, n) \<in> (needs_edges g)\<^sup>+"
    using assms(1) frames_path [of g col n st d] by (auto simp: walk_inv_def)
  with nd show ?thesis by (auto intro: trancl.trancl_into_trancl)
qed

lemma dfs_walk_Inl:
  "walk_inv g col st \<Longrightarrow> dfs_walk g col st = Inl (NeedsCycle w) \<Longrightarrow> (w, w) \<in> (needs_edges g)\<^sup>+"
  by (induction g col st rule: dfs_walk.induct)
     (auto split: color.splits dest: walk_inv_pop walk_inv_push walk_inv_skip walk_inv_cycle)

lemma dfs_walk_Inr:
  "walk_inv g col st \<Longrightarrow> dfs_walk g col st = Inr col' \<Longrightarrow>
     walk_inv g col' [] \<and> (\<forall>x. col x = Some Black \<or> x \<in> set (map fst st) \<longrightarrow> col' x = Some Black)"
proof (induction g col st rule: dfs_walk.induct)
  case (2 g col n st)
  from "2.prems" have "dfs_walk g (col(n \<mapsto> Black)) st = Inr col'" by simp
  from "2.IH" [OF walk_inv_pop [OF "2.prems"(1)] this] show ?case by auto
next
  case (3 g col n d ds st)
  show ?case
  proof (cases "unwrap_or (col d) White")
    case White
    with "3.prems" have "dfs_walk g (col(d \<mapsto> Gray)) (frame_for g d # (n, ds) # st) = Inr col'" by simp
    note IH = "3.IH"(1) [OF White walk_inv_push [OF "3.prems"(1) White] this]
    have "col d \<noteq> Some Black" using White by auto
    then have "\<And>x. col x = Some Black \<Longrightarrow> (col(d \<mapsto> Gray)) x = Some Black" by auto
    with IH show ?thesis by (simp add: frame_for_def)
  next
    case Gray
    with "3.prems" show ?thesis by simp
  next
    case Black
    with "3.prems" have "dfs_walk g col ((n, ds) # st) = Inr col'" by simp
    from "3.IH"(2) [OF Black walk_inv_skip [OF "3.prems"(1) Black] this] show ?thesis by auto
  qed
qed simp

lemma walk_inv_start:
  assumes "walk_inv g col []" "col r \<noteq> Some Black"
  shows "walk_inv g (col(r \<mapsto> Gray)) [frame_for g r]"
proof -
  have "black_closed g (col(r \<mapsto> Gray)) = black_closed g col"
    using assms(2) by (intro black_closed_cong) auto
  with assms(1) show ?thesis by (auto simp: walk_inv_def frame_for_def)
qed

lemma dfs_roots_Inl:
  "walk_inv g col [] \<Longrightarrow> dfs_roots g col rs = Inl (NeedsCycle w) \<Longrightarrow> (w, w) \<in> (needs_edges g)\<^sup>+"
proof (induction rs arbitrary: col)
  case (Cons r rs)
  show ?case
  proof (cases "col r = Some White")
    case True
    with Cons.prems have "walk_inv g (col(r \<mapsto> Gray)) [frame_for g r]" by (simp add: walk_inv_start)
    from dfs_walk_Inl [OF this] dfs_walk_Inr [OF this] Cons True show ?thesis
      by (auto simp: and_then_Inl_iff)
  qed (use Cons in simp)
qed simp

lemma dfs_walk_dom: "dfs_walk g col st = Inr col' \<Longrightarrow> dom col \<subseteq> dom col'"
  by (induction g col st rule: dfs_walk.induct) (auto split: color.splits if_splits)

lemma dfs_roots_Inr:
  "walk_inv g col [] \<Longrightarrow> dfs_roots g col rs = Inr () \<Longrightarrow> set rs \<subseteq> dom col \<Longrightarrow>
     \<exists>col'. walk_inv g col' [] \<and> (\<forall>x. col x = Some Black \<or> x \<in> set rs \<longrightarrow> col' x = Some Black)"
proof (induction rs arbitrary: col)
  case (Cons r rs)
  show ?case
  proof (cases "col r = Some White")
    case True
    with Cons.prems obtain col1
      where w: "dfs_walk g (col(r \<mapsto> Gray)) [frame_for g r] = Inr col1" "dfs_roots g col1 rs = Inr ()"
      by (auto simp: and_then_Inr_iff)
    have "walk_inv g (col(r \<mapsto> Gray)) [frame_for g r]"
      using True Cons.prems by (simp add: walk_inv_start)
    note c0 = dfs_walk_Inr [OF this w(1)]
    have "\<And>x. col x = Some Black \<Longrightarrow> (col(r \<mapsto> Gray)) x = Some Black" using True by auto
    with c0 have c1: "walk_inv g col1 []"
      "\<forall>x. col x = Some Black \<or> x = r \<longrightarrow> col1 x = Some Black" by (simp_all add: frame_for_def)
    have "set rs \<subseteq> dom col1" using dfs_walk_dom [OF w(1)] Cons.prems(3) by (simp add: subset_iff)
    from Cons.IH [OF c1(1) w(2) this] c1(2) show ?thesis by auto
  next
    case False
    have "col r \<noteq> Some Gray" using Cons.prems(1) by (auto simp: walk_inv_def)
    with False Cons.prems(3) have "col r = Some Black" by (cases "col r") (auto intro: color.exhaust)
    with Cons.IH [of col] Cons.prems show ?thesis by fastforce
  qed
qed auto

lemma walk_inv_initial: "walk_inv g (map_of (initial_colors g)) []"
  by (auto simp: walk_inv_def black_closed_def dest: initial_colors_white)

lemma detect_needs_cycle_Inl:
  "detect_needs_cycle g = Inl (NeedsCycle w) \<Longrightarrow> (w, w) \<in> (needs_edges g)\<^sup>+"
  unfolding detect_needs_cycle_def Let_def by (rule dfs_roots_Inl [OF walk_inv_initial])

lemma detect_needs_cycle_Inr: "detect_needs_cycle g = Inr () \<Longrightarrow> acyclic (needs_edges g)"
proof -
  assume "detect_needs_cycle g = Inr ()"
  then have "dfs_roots g (map_of (initial_colors g)) (map fst (initial_colors g)) = Inr ()"
    by (simp add: detect_needs_cycle_def Let_def)
  from dfs_roots_Inr [OF walk_inv_initial this] obtain col where col: "walk_inv g col []"
    "\<forall>x \<in> graph_nodes g. col x = Some Black"
    by (force simp: dom_map_of_conv_image_fst simp flip: initial_colors_nodes)
  show ?thesis
  proof (rule acyclicI, intro allI notI)
    fix x assume c: "(x, x) \<in> (needs_edges g)\<^sup>+"
    then obtain d where "(x, d) \<in> needs_edges g" by (meson tranclD)
    with col(2) have "col x = Some Black" by (auto dest: needs_edges_nodes)
    with c col(1) show False by (auto simp: walk_inv_def black_closed_def)
  qed
qed

lemma detect_needs_cycle_iff: "detect_needs_cycle g = Inr () \<longleftrightarrow> acyclic (needs_edges g)"
proof
  assume "acyclic (needs_edges g)"
  then show "detect_needs_cycle g = Inr ()"
    by (cases "detect_needs_cycle g"; cases "projl (detect_needs_cycle g)")
       (auto dest: detect_needs_cycle_Inl simp: acyclic_def)
qed (rule detect_needs_cycle_Inr)

text \<open>C1. Cycle detection terminates on every needs graph and accepts it exactly when the
  graph of needs, implicit leaves included, has no cycle.\<close>

theorem detect_needs_cycle_correct:
  "detect_needs_cycle g = Inr () \<longleftrightarrow> acyclic (needs_edges g)"
  by (rule detect_needs_cycle_iff)

text \<open>The witness cycle detection reports is a job that takes part in a cycle.\<close>

theorem detect_needs_cycle_witness:
  assumes "detect_needs_cycle g = Inl c"
  shows "(witness c, witness c) \<in> (needs_edges g)\<^sup>+"
  using assms by (cases c) (auto intro: detect_needs_cycle_Inl)

theorem detect_needs_cycle_witness_example:
  "(''b'', ''b'') \<in> (needs_edges [(''a'', [''b'']), (''b'', [''c'']), (''c'', [''b''])])\<^sup>+"
  using detect_needs_cycle_witness
    [of "[(''a'', [''b'']), (''b'', [''c'']), (''c'', [''b''])]" "NeedsCycle ''b''"]
  by (simp add: detect_needs_cycle_def initial_colors_def btree_or_insert_def frame_for_def deps_of_def)

section \<open>Correctness of the layers\<close>

text \<open>What a topological layering of the nodes \<open>ns\<close> is: every node once, each after all its
  needs.\<close>

definition layers_topological :: "needs_graph \<Rightarrow> job_name list list \<Rightarrow> bool" where
  "layers_topological g layers \<longleftrightarrow>
     (\<forall>i < length layers. \<forall>n \<in> set (layers ! i). set (deps_of g n) \<subseteq> set (concat (take i layers)))"

definition rem_ok :: "needs_graph \<Rightarrow> (job_name \<times> job_name list) list \<Rightarrow> bool" where
  "rem_ok g rem \<longleftrightarrow> distinct (map fst rem) \<and> fst ` set rem = graph_nodes g \<and>
     (\<forall>(n, ns) \<in> set rem. set ns = set (deps_of g n))"

definition kahn_inv :: "needs_graph \<Rightarrow> job_name list \<Rightarrow> job_name list list \<Rightarrow> bool" where
  "kahn_inv g don layers \<longleftrightarrow> distinct don \<and> set don \<subseteq> graph_nodes g \<and>
     set don = set (concat layers) \<and> distinct (concat layers) \<and> layers_topological g layers"

lemma rem_ok_remaining:
  assumes "btree_wf g"
  shows "rem_ok g (remaining_needs g)"
proof -
  let ?r = "map (\<lambda>(k, v). (k, sort (remdups v))) g"
  have keys: "map fst ?r = map fst g" by (induction g) auto
  then have wf: "btree_wf ?r" using assms unfolding btree_wf_def by metis
  have get: "map_of ?r n = map_option (\<lambda>v. sort (remdups v)) (map_of g n)" for n
    by (induction g) auto
  have keys': "fst ` set ?r = fst ` set g" using keys by (metis set_map)
  have vals: "(\<Union>e \<in> set ?r. set (snd e)) = (\<Union>e \<in> set g. set (snd e))" by force
  have rem: "remaining_needs g = fold (btree_or_insert []) (concat (map snd ?r)) ?r"
    by (simp add: remaining_needs_def)
  have wf': "btree_wf (remaining_needs g)" unfolding rem by (rule btree_wf_fold_or_insert [OF wf])
  have "fst ` set (remaining_needs g) = graph_nodes g"
    unfolding rem using keys' vals by (simp add: keys_fold_or_insert graph_nodes_def)
  moreover have "set ns = set (deps_of g n)" if "(n, ns) \<in> set (remaining_needs g)" for n ns
  proof -
    have "map_of (remaining_needs g) n = Some ns" using wf' that by (simp add: btree_wf_def)
    then show ?thesis unfolding rem map_of_fold_or_insert [OF wf] get
      by (cases "map_of g n") (auto simp: deps_of_def split: if_splits)
  qed
  ultimately show ?thesis using wf' by (auto simp: rem_ok_def btree_wf_def)
qed

lemma set_next_layer:
  "n \<in> set (next_layer rem don) \<longleftrightarrow> (\<exists>ns. (n, ns) \<in> set rem \<and> n \<notin> set don \<and> set ns \<subseteq> set don)"
  unfolding next_layer_def by (simp add: image_iff list_all_iff subset_iff Bex_def Ball_def)

lemma rem_okD: "rem_ok g rem \<Longrightarrow> (n, ns) \<in> set rem \<Longrightarrow> n \<in> graph_nodes g \<and> set ns = set (deps_of g n)"
  unfolding rem_ok_def using image_eqI [of n fst "(n, ns)" "set rem"]
  by (auto dest!: bspec [where x = "(n, ns)"])

lemma next_layer_in:
  assumes "rem_ok g rem" "n \<in> set (next_layer rem don)"
  shows "n \<in> graph_nodes g" "n \<notin> set don" "set (deps_of g n) \<subseteq> set don"
  using assms(2) rem_okD [OF assms(1)] unfolding set_next_layer by metis+

lemma next_layer_complete:
  assumes "rem_ok g rem" "n \<in> graph_nodes g" "n \<notin> set don" "set (deps_of g n) \<subseteq> set don"
  shows "n \<in> set (next_layer rem don)"
proof -
  have "n \<in> fst ` set rem" using assms(1,2) by (simp add: rem_ok_def)
  then obtain ns where ns: "(n, ns) \<in> set rem" by (metis imageE prod.collapse)
  with rem_okD [OF assms(1) ns] assms(3,4) show ?thesis unfolding set_next_layer by blast
qed

lemma rem_ok_card: "rem_ok g rem \<Longrightarrow> card (graph_nodes g) = length rem"
  unfolding rem_ok_def by (metis distinct_card length_map set_map)

lemma distinct_next_layer: "rem_ok g rem \<Longrightarrow> distinct (next_layer rem don)"
  unfolding rem_ok_def next_layer_def by (auto intro: distinct_map_filter)

lemma set_fold_insert: "set (fold List.insert ys xs) = set ys \<union> set xs"
  by (induction ys arbitrary: xs) auto

lemma distinct_fold_insert: "distinct xs \<Longrightarrow> distinct (fold List.insert ys xs)"
  by (induction ys arbitrary: xs) auto

lemma layers_topological_snoc:
  assumes "layers_topological g layers" "\<forall>n \<in> set l. set (deps_of g n) \<subseteq> set (concat layers)"
  shows "layers_topological g (layers @ [l])"
  using assms unfolding layers_topological_def
  by (auto simp: less_Suc_eq nth_append)

lemma kahn_inv_step:
  assumes "rem_ok g rem" "kahn_inv g don layers"
  shows "kahn_inv g (fold List.insert (next_layer rem don) don) (layers @ [next_layer rem don])"
proof -
  note in_layer = next_layer_in [OF assms(1)]
  have "layers_topological g (layers @ [next_layer rem don])"
    using assms(2) in_layer(3) [of _ don] by (intro layers_topological_snoc) (simp_all add: kahn_inv_def)
  then show ?thesis
    using assms(2) in_layer(1,2) [of _ don] distinct_next_layer [OF assms(1), of don]
    unfolding kahn_inv_def by (simp add: set_fold_insert distinct_fold_insert) blast
qed

lemma acyclic_finite_sink:
  assumes "acyclic r" "finite U" "U \<noteq> {}"
  shows "\<exists>u \<in> U. \<forall>v \<in> U. (u, v) \<notin> r"
proof -
  let ?r = "r \<inter> U \<times> U"
  have "wf (?r\<inverse>)" using assms by (intro finite_acyclic_wf_converse) (auto intro: acyclic_subset)
  with assms(3) obtain u where "u \<in> U" "\<And>v. (v, u) \<in> ?r\<inverse> \<Longrightarrow> v \<notin> U"
    by (meson wfE_min ex_in_conv)
  then show ?thesis by blast
qed

lemma kahn_loop_progress:
  assumes "rem_ok g rem" "kahn_inv g don layers" "acyclic (needs_edges g)" "length don < length rem"
  shows "next_layer rem don \<noteq> []"
proof -
  have "card (graph_nodes g) = length rem" using assms(1) by (rule rem_ok_card)
  moreover have "card (set don) = length don" "set don \<subseteq> graph_nodes g"
    using assms(2) unfolding kahn_inv_def by (metis distinct_card, blast)
  ultimately have "graph_nodes g - set don \<noteq> {}" using assms(4) by auto
  then obtain u where u: "u \<in> graph_nodes g - set don"
    "\<forall>v \<in> graph_nodes g - set don. (u, v) \<notin> needs_edges g"
    using acyclic_finite_sink [OF assms(3), of "graph_nodes g - set don"] by (auto simp: graph_nodes_def)
  have "set (deps_of g u) \<subseteq> set don"
    using u needs_edges_nodes [of u _ g] by (auto simp: needs_edges_def)
  with u next_layer_complete [OF assms(1)] show ?thesis by force
qed

lemma kahn_loop_Some:
  "rem_ok g rem \<Longrightarrow> kahn_inv g don layers \<Longrightarrow> kahn_loop rem don layers = Some ls \<Longrightarrow>
     layers_topological g ls \<and> distinct (concat ls) \<and> set (concat ls) = graph_nodes g"
proof (induction rem don layers rule: kahn_loop.induct)
  case (1 rem don layers)
  show ?case
  proof (cases "length don < length rem")
    case True
    with "1.prems" "1.IH" [OF True refl] kahn_inv_step [OF "1.prems"(1,2)] show ?thesis
      by (subst (asm) kahn_loop.simps) (auto simp: Let_def split: if_splits)
  next
    case False
    have "card (graph_nodes g) = length rem" "finite (graph_nodes g)"
      using rem_ok_card [OF "1.prems"(1)] by (auto simp: graph_nodes_def)
    moreover have "card (set don) = length don" "set don \<subseteq> graph_nodes g"
      using "1.prems"(2) unfolding kahn_inv_def by (metis distinct_card, blast)
    ultimately have "set don = graph_nodes g" using False by (intro card_seteq) auto
    with "1.prems" False show ?thesis by (subst (asm) kahn_loop.simps) (auto simp: kahn_inv_def)
  qed
qed

lemma kahn_loop_total:
  "rem_ok g rem \<Longrightarrow> kahn_inv g don layers \<Longrightarrow> acyclic (needs_edges g) \<Longrightarrow>
     \<exists>ls. kahn_loop rem don layers = Some ls"
proof (induction rem don layers rule: kahn_loop.induct)
  case (1 rem don layers)
  show ?case
  proof (cases "length don < length rem")
    case True
    have "next_layer rem don \<noteq> []" using kahn_loop_progress "1.prems" True by blast
    with "1.IH" [OF True refl _ "1.prems"(1) kahn_inv_step [OF "1.prems"(1,2)] "1.prems"(3)] True
    show ?thesis by (subst kahn_loop.simps) (simp add: Let_def)
  qed (subst kahn_loop.simps, simp)
qed

lemma layers_topological_acyclic:
  assumes "layers_topological g ls" "set (concat ls) = graph_nodes g"
  shows "acyclic (needs_edges g)"
proof (rule acyclicI_order)
  define rank where "rank n = (LEAST i. i < length ls \<and> n \<in> set (ls ! i))" for n
  fix n d assume e: "(n, d) \<in> needs_edges g"
  then have "n \<in> set (concat ls)" using assms(2) needs_edges_nodes by blast
  then have "\<exists>i < length ls. n \<in> set (ls ! i)" by (simp only: in_set_concat_nth)
  then have n: "rank n < length ls \<and> n \<in> set (ls ! rank n)" unfolding rank_def by (rule LeastI_ex)
  with assms(1) e have "d \<in> set (concat (take (rank n) ls))"
    unfolding layers_topological_def needs_edges_def by blast
  then obtain j where "j < rank n" "j < length ls" "d \<in> set (ls ! j)"
    unfolding in_set_concat_take by blast
  then have "rank d \<le> j" unfolding rank_def by (intro Least_le) simp
  with \<open>j < rank n\<close> show "rank d < rank n" by simp
qed

lemma topo_layers_Some:
  "btree_wf g \<Longrightarrow> topo_layers g = Some ls \<Longrightarrow>
     layers_topological g ls \<and> distinct (concat ls) \<and> set (concat ls) = graph_nodes g"
  unfolding topo_layers_def
  by (rule kahn_loop_Some [OF rem_ok_remaining]) (auto simp: kahn_inv_def layers_topological_def)

lemma topo_layers_total: "btree_wf g \<Longrightarrow> acyclic (needs_edges g) \<Longrightarrow> \<exists>ls. topo_layers g = Some ls"
  unfolding topo_layers_def
  by (rule kahn_loop_total [OF rem_ok_remaining]) (auto simp: kahn_inv_def layers_topological_def)

text \<open>The layers, when there are any, hold every job of the graph exactly once and each job
  in a later layer than everything it needs.\<close>

theorem topo_layers_sound:
  assumes "btree_wf g" "topo_layers g = Some ls"
  shows "distinct (concat ls) \<and> set (concat ls) = graph_nodes g \<and>
    (\<forall>i < length ls. \<forall>n \<in> set (ls ! i). \<forall>d \<in> set (deps_of g n). \<exists>j < i. d \<in> set (ls ! j))"
proof -
  have "\<exists>j < i. d \<in> set (ls ! j)" if "d \<in> set (concat (take i ls))" for d i
    using that by (auto simp: in_set_concat_take simp del: set_concat)
  with topo_layers_Some [OF assms] show ?thesis unfolding layers_topological_def by blast
qed

theorem topo_layers_sound_witness:
  "distinct (concat [[''a''], [''b'', ''c'']]) \<and>
   set (concat [[''a''], [''b'', ''c'']]) = graph_nodes [(''b'', [''a'']), (''c'', [''a''])]"
proof -
  have "topo_layers [(''b'', [''a'']), (''c'', [''a''])] = Some [[''a''], [''b'', ''c'']]"
    by (simp add: topo_layers_def remaining_needs_def btree_or_insert_def kahn_loop.simps next_layer_def)
  moreover have "btree_wf [(''b'', [''a'']), (''c'', [''a''])]"
    by (simp add: btree_wf_def)
  ultimately show ?thesis
    using topo_layers_sound [of "[(''b'', [''a'']), (''c'', [''a''])]" "[[''a''], [''b'', ''c'']]"] by simp
qed

text \<open>Kahn's layers and the depth-first search agree: a layering exists for exactly the
  graphs cycle detection accepts.\<close>

theorem topo_layers_iff_no_cycle:
  assumes "btree_wf g"
  shows "topo_layers g \<noteq> None \<longleftrightarrow> detect_needs_cycle g = Inr ()"
proof
  assume "topo_layers g \<noteq> None"
  then obtain ls where "topo_layers g = Some ls" by blast
  from topo_layers_Some [OF assms this] have "acyclic (needs_edges g)"
    by (blast intro: layers_topological_acyclic)
  then show "detect_needs_cycle g = Inr ()" by (simp add: detect_needs_cycle_iff)
next
  assume "detect_needs_cycle g = Inr ()"
  then show "topo_layers g \<noteq> None"
    using topo_layers_total [OF assms] by (auto simp: detect_needs_cycle_iff)
qed

theorem topo_layers_iff_no_cycle_witness:
  "detect_needs_cycle [(''a'', [''a''])] = Inl (NeedsCycle ''a'') \<and> topo_layers [(''a'', [''a''])] = None"
proof -
  have "detect_needs_cycle [(''a'', [''a''])] = Inl (NeedsCycle ''a'')"
    by (simp add: detect_needs_cycle_def initial_colors_def btree_or_insert_def frame_for_def deps_of_def)
  with topo_layers_iff_no_cycle [of "[(''a'', [''a''])]"] show ?thesis by (simp add: btree_wf_def)
qed

section \<open>Correctness of the closure\<close>

lemma closure_loop_upper:
  "set (closure_loop g closed st) \<subseteq> set closed \<union> (needs_edges g)\<^sup>* `` set st"
proof (induction g closed st rule: closure_loop.induct)
  case (2 g closed node st)
  show ?case
  proof (cases "node \<in> set closed")
    case False
    let ?c = "List.insert node closed"
    have "\<forall>d \<in> set (deps_of g node). (node, d) \<in> (needs_edges g)\<^sup>*"
      by (auto simp: needs_edges_def)
    then have "(needs_edges g)\<^sup>* `` set (push_unclosed ?c (deps_of g node) st)
        \<subseteq> (needs_edges g)\<^sup>* `` set (node # st)"
      unfolding set_push_unclosed by (auto intro: rtrancl_trans)
    moreover have "node \<in> (needs_edges g)\<^sup>* `` set (node # st)" by auto
    ultimately show ?thesis using "2.IH"(2) [OF _ refl] False by (simp add: Let_def) blast
  qed (use 2 in auto)
qed simp

lemma closure_loop_lower: "set closed \<union> set st \<subseteq> set (closure_loop g closed st)"
proof (induction g closed st rule: closure_loop.induct)
  case (2 g closed node st)
  then show ?case by (auto simp: Let_def set_push_unclosed)
qed simp

lemma closure_loop_closed:
  "\<forall>c \<in> set closed. set (deps_of g c) \<subseteq> set closed \<union> set st \<Longrightarrow>
     \<forall>c \<in> set (closure_loop g closed st). set (deps_of g c) \<subseteq> set (closure_loop g closed st)"
proof (induction g closed st rule: closure_loop.induct)
  case (2 g closed node st)
  show ?case
  proof (cases "node \<in> set closed")
    case True
    with "2.prems" have "\<forall>c \<in> set closed. set (deps_of g c) \<subseteq> set closed \<union> set st" by auto
    with "2.IH"(1) True show ?thesis by simp
  next
    case False
    let ?c = "List.insert node closed"
    have "\<forall>c \<in> set ?c. set (deps_of g c) \<subseteq> set ?c \<union> set (push_unclosed ?c (deps_of g node) st)"
      using "2.prems" by (auto simp: set_push_unclosed)
    from "2.IH"(2) [OF _ refl this] False show ?thesis by (simp add: Let_def)
  qed
qed auto

text \<open>Selecting jobs selects exactly the jobs reachable from them along needs: the closure
  terminates on cyclic graphs too, and keeps unknown roots.\<close>

theorem dependency_closure_correct:
  "dependency_closure g roots = (needs_edges g)\<^sup>* `` set roots"
proof
  show "dependency_closure g roots \<subseteq> (needs_edges g)\<^sup>* `` set roots"
    using closure_loop_upper [of g "[]" "rev roots"] by (simp add: dependency_closure_def)
next
  have roots: "set roots \<subseteq> dependency_closure g roots"
    using closure_loop_lower [of "[]" "rev roots" g] by (simp add: dependency_closure_def)
  have "set (deps_of g c) \<subseteq> dependency_closure g roots" if "c \<in> dependency_closure g roots" for c
    using closure_loop_closed [of "[]" g "rev roots"] that by (simp add: dependency_closure_def)
  then have "needs_edges g `` dependency_closure g roots \<subseteq> dependency_closure g roots"
    by (auto simp: needs_edges_def)
  then show "(needs_edges g)\<^sup>* `` set roots \<subseteq> dependency_closure g roots"
    using roots by (metis Image_closed_trancl Image_mono subset_refl)
qed

section \<open>Building the graph\<close>

lemma needs_graph_from_pairs_loop_wf: "btree_wf m \<Longrightarrow> btree_wf (needs_graph_from_pairs_loop jobs m)"
  by (induction jobs m rule: needs_graph_from_pairs_loop.induct) (auto intro: btree_wf_insert)

lemma needs_graph_from_pairs_loop_deps:
  "btree_wf m \<Longrightarrow> deps_of (needs_graph_from_pairs_loop jobs m) i =
     deps_of m i @ concat (map snd (filter (\<lambda>j. fst j = i) jobs))"
  by (induction jobs m rule: needs_graph_from_pairs_loop.induct)
     (auto simp: deps_of_def btree_wf_insert)

lemma needs_graph_from_pairs_wf: "btree_wf (needs_graph_from_pairs jobs)"
  by (simp add: needs_graph_from_pairs_def needs_graph_from_pairs_loop_wf)

lemma needs_graph_from_pairs_deps:
  "deps_of (needs_graph_from_pairs jobs) i = concat (map snd (filter (\<lambda>j. fst j = i) jobs))"
  by (simp add: needs_graph_from_pairs_def needs_graph_from_pairs_loop_deps) (simp add: deps_of_def)

end
