(* ===== verification/Json_Value.thy ===== *)
theory Json_Value
  imports Complex_Main Rust_Base
begin

text \<open>
  \<^verbatim>\<open>serde_json::Value\<close>. A number is \<^verbatim>\<open>serde_json\<close>'s \<^verbatim>\<open>N\<close>: a non-negative \<^verbatim>\<open>u64\<close>, a negative
  \<^verbatim>\<open>i64\<close> or a finite \<^verbatim>\<open>f64\<close>, whose value is a rational; numbers of different variants are
  different values. The workspace builds \<^verbatim>\<open>serde_json\<close> with \<^verbatim>\<open>preserve_order\<close>: an object is an
  insertion-ordered association list.
\<close>

datatype jnum = PosInt nat | NegInt int | JFloat rat

datatype json =
  JNull
| JBool bool
| JNumber jnum
| JString string
| JArray "json list"
| JObject "(string \<times> json) list"

text \<open>\<^verbatim>\<open>Value::as_str\<close>, \<^verbatim>\<open>Value::get(key)\<close>, \<^verbatim>\<open>Value::as_u64\<close> and \<^verbatim>\<open>Map::extend\<close>.\<close>

fun as_str :: "json \<Rightarrow> string option" where
  "as_str (JString s) = Some s"
| "as_str _ = None"

fun json_get :: "json \<Rightarrow> string \<Rightarrow> json option" where
  "json_get (JObject m) k = map_of m k"
| "json_get _ k = None"

fun as_u64 :: "json \<Rightarrow> nat option" where
  "as_u64 (JNumber (PosInt n)) = Some n"
| "as_u64 _ = None"

definition map_extend :: "('k \<times> 'v) list \<Rightarrow> ('k \<times> 'v) list \<Rightarrow> ('k \<times> 'v) list" where
  "map_extend m kvs = fold (\<lambda>(k, v). im_insert k v) kvs m"

definition map_collect :: "('k \<times> 'v) list \<Rightarrow> ('k \<times> 'v) list" where
  "map_collect kvs = map_extend [] kvs"

lemma map_of_map_extend: "map_of (map_extend m kvs) = map_of m ++ map_of (rev kvs)"
proof (induction kvs arbitrary: m)
  case (Cons kv kvs)
  obtain k v where kv: "kv = (k, v)" by (cases kv)
  have "map_of (map_extend m (kv # kvs)) = map_of (map_extend (im_insert k v m) kvs)"
    by (simp add: map_extend_def kv)
  also have "\<dots> = (map_of m)(k \<mapsto> v) ++ map_of (rev kvs)" by (simp add: Cons.IH update_conv' fun_upd_def)
  finally show ?case by (simp add: kv map_add_upd_left [symmetric] map_add_assoc [symmetric])
qed (simp add: map_extend_def)

text \<open>Equality of values. Objects are compared as maps, in any order of their keys.\<close>

function (sequential) json_eq :: "json \<Rightarrow> json \<Rightarrow> bool" where
  "json_eq JNull JNull = True"
| "json_eq (JBool a) (JBool b) = (a = b)"
| "json_eq (JNumber a) (JNumber b) = (a = b)"
| "json_eq (JString a) (JString b) = (a = b)"
| "json_eq (JArray xs) (JArray ys) =
     (length xs = length ys \<and> list_all (\<lambda>(x, y). json_eq x y) (zip xs ys))"
| "json_eq (JObject m) (JObject n) =
     (length m = length n \<and>
      list_all (\<lambda>(k, v). case map_of n k of None \<Rightarrow> False | Some v' \<Rightarrow> json_eq v v') m)"
| "json_eq _ _ = False"
  by pat_completeness auto
termination
proof (relation "measure (\<lambda>p. size (fst p))", goal_cases)
  case (2 xs ys p x y)
  then have "x \<in> set xs" by (auto dest: set_zip_leftD)
  then have "size x < size_list size xs + 1" by (induction xs) auto
  then show ?case by simp
next
  case (3 m n p k v v')
  then have "(k, v) \<in> set m" by simp
  then have "size v < size_list (size_prod (\<lambda>_. 0) size) m + 1" by (induction m) auto
  then show ?case by simp
qed simp

end
