(* ===== verification/Run_Status.thy ===== *)
theory Run_Status
  imports Json_Value
begin

text \<open>
  Statuses of runs and jobs and the decisions the control plane takes from them: crate
  \<^verbatim>\<open>preloop-gha-protocol\<close> (\<^verbatim>\<open>ExecutionStatus\<close>) and, of crate \<^verbatim>\<open>preloop-runner-server\<close>, the
  pure decision functions of \<^verbatim>\<open>control/logic.rs\<close> and \<^verbatim>\<open>runtime_scheduling.rs\<close> on needs,
  completions, matrix legs, queue states and outbox stamps. Rows are records; an \<^verbatim>\<open>i32\<close> is an
  \<^typ>\<open>int\<close> in its range.
\<close>

section \<open>Statuses\<close>

datatype execution_status = Queued | Pending | InProgress | Success | Failure | Skipped | Cancelled

definition is_terminal :: "execution_status \<Rightarrow> bool" where
  "is_terminal s \<longleftrightarrow> s \<in> {Success, Failure, Skipped, Cancelled}"

fun status_str :: "execution_status \<Rightarrow> string" where
  "status_str Queued = ''queued''"
| "status_str Pending = ''pending''"
| "status_str InProgress = ''in_progress''"
| "status_str Success = ''success''"
| "status_str Failure = ''failure''"
| "status_str Skipped = ''skipped''"
| "status_str Cancelled = ''cancelled''"

definition status_parse :: "string \<Rightarrow> execution_status" where
  "status_parse s =
     (if s = ''pending'' then Pending
      else if s = ''in_progress'' then InProgress
      else if s = ''success'' then Success
      else if s = ''failure'' then Failure
      else if s = ''skipped'' then Skipped
      else if s = ''cancelled'' then Cancelled
      else Queued)"

definition status_string :: "execution_status \<Rightarrow> string" where
  "status_string s =
     (case s of Queued \<Rightarrow> ''in_progress'' | Pending \<Rightarrow> ''in_progress'' | InProgress \<Rightarrow> ''in_progress''
      | Success \<Rightarrow> ''success'' | Failure \<Rightarrow> ''failure'' | Skipped \<Rightarrow> ''skipped''
      | Cancelled \<Rightarrow> ''cancelled'')"

text \<open>The two aggregations of dependency statuses: \<^verbatim>\<open>aggregate_needs_status\<close> (backends) and
  \<^verbatim>\<open>aggregate_need_status\<close> (runtime scheduler).\<close>

definition aggregate_needs_status :: "execution_status list \<Rightarrow> execution_status option" where
  "aggregate_needs_status ss =
     (if ss = [] \<or> list_ex (\<lambda>s. \<not> is_terminal s) ss then None
      else if Failure \<in> set ss then Some Failure
      else if Cancelled \<in> set ss then Some Cancelled
      else if Skipped \<in> set ss then Some Skipped
      else if list_all (\<lambda>s. s = Success) ss then Some Success
      else None)"

definition aggregate_need_status :: "execution_status list \<Rightarrow> execution_status option" where
  "aggregate_need_status ss =
     (if Failure \<in> set ss then Some Failure
      else if Cancelled \<in> set ss then Some Cancelled
      else if Skipped \<in> set ss then Some Skipped
      else if ss \<noteq> [] \<and> list_all (\<lambda>s. s = Success) ss then Some Success
      else None)"

definition summarize_run :: "execution_status list \<Rightarrow> execution_status" where
  "summarize_run ss =
     (if list_ex (\<lambda>s. s \<in> {Queued, Pending, InProgress}) ss then InProgress
      else if Failure \<in> set ss then Failure
      else if Cancelled \<in> set ss then Cancelled
      else if ss \<noteq> [] \<and> list_all (\<lambda>s. s = Skipped) ss then Skipped
      else Success)"

fun count_run_statuses :: "execution_status list \<Rightarrow> nat \<times> nat \<times> nat" where
  "count_run_statuses [] = (0, 0, 0)"
| "count_run_statuses (s # ss) =
     (let (q, p, c) = count_run_statuses ss
      in case s of Queued \<Rightarrow> (Suc q, p, c)
         | Pending \<Rightarrow> (q, Suc p, c) | InProgress \<Rightarrow> (q, Suc p, c)
         | Success \<Rightarrow> (q, p, Suc c) | Failure \<Rightarrow> (q, p, Suc c)
         | Skipped \<Rightarrow> (q, p, Suc c) | Cancelled \<Rightarrow> (q, p, Suc c))"

section \<open>Needs decisions\<close>

datatype needs_decision_t = Wait | Promote | Skip | Error

datatype needs_condition = DefaultSuccess | Always | AnyFailure | AnyCancelled | Explicit bool

record need_row =
  need_job_id :: string
  need_status :: execution_status
  need_outputs :: "(string \<times> json) list"

fun needs_decision_from_bool :: "needs_condition \<Rightarrow> bool \<Rightarrow> needs_decision_t" where
  "needs_decision_from_bool c value =
     (case c of
        Explicit _ \<Rightarrow> if \<not> value then Skip else Promote
      | _ \<Rightarrow> if value then Promote else Skip)"

definition needs_decision :: "need_row list \<Rightarrow> needs_condition \<Rightarrow> needs_decision_t" where
  "needs_decision needs c =
     (if needs = [] then needs_decision_from_bool c True
      else if list_ex (\<lambda>n. \<not> is_terminal (need_status n)) needs then Wait
      else
        let success = list_all (\<lambda>n. need_status n = Success) needs;
            failure = list_ex (\<lambda>n. need_status n = Failure) needs;
            cancelled = list_ex (\<lambda>n. need_status n = Cancelled) needs;
            value = (case c of DefaultSuccess \<Rightarrow> success | Always \<Rightarrow> True | AnyFailure \<Rightarrow> failure
                     | AnyCancelled \<Rightarrow> cancelled | Explicit v \<Rightarrow> v)
        in needs_decision_from_bool c value)"

definition decrement_remaining_needs :: "int \<Rightarrow> bool \<Rightarrow> int \<times> bool" where
  "decrement_remaining_needs remaining settled =
     (let nxt = (if settled then sat_i32 (remaining - 1) else remaining)
      in (nxt, settled \<and> nxt = 0))"

definition dependent_promotions ::
    "(string \<times> need_row list \<times> needs_condition) list \<Rightarrow> (string \<times> needs_decision_t) list" where
  "dependent_promotions ds = map (\<lambda>(j, needs, c). (j, needs_decision needs c)) ds"

text \<open>The \<^verbatim>\<open>needs\<close> context sent to a runner; a non-terminal dependency is omitted.\<close>

definition needs_context :: "need_row list \<Rightarrow> json" where
  "needs_context needs = JObject (map_collect (List.map_filter (\<lambda>need.
     case aggregate_needs_status [need_status need] of
       None \<Rightarrow> None
     | Some result \<Rightarrow>
         let r = (case result of Success \<Rightarrow> ''success'' | Failure \<Rightarrow> ''failure''
                  | Cancelled \<Rightarrow> ''cancelled'' | Skipped \<Rightarrow> ''skipped'' | _ \<Rightarrow> ''unknown'')
         in Some (need_job_id need,
              JObject [(''result'', JString r), (''outputs'', JObject (need_outputs need))])) needs))"

section \<open>Completions\<close>

record completion_row =
  completed_job_id :: string
  prior_status :: execution_status
  reported_status :: execution_status
  continue_on_error :: bool
  run_will_be_terminal :: bool

record completion_decision_t =
  effective_status :: execution_status
  replayed :: bool
  release_workflow_hold :: bool
  promote_dependents :: bool

definition completion_decision :: "completion_row \<Rightarrow> completion_decision_t" where
  "completion_decision row =
     (let replay = is_terminal (prior_status row) \<and> prior_status row \<noteq> Cancelled;
          reported = (if continue_on_error row \<and> reported_status row = Failure then Success
                      else reported_status row);
          eff = (if prior_status row = Cancelled \<and> is_terminal reported then Cancelled
                 else if replay then prior_status row
                 else reported)
      in \<lparr>effective_status = eff, replayed = replay,
          release_workflow_hold = run_will_be_terminal row,
          promote_dependents = (\<not> replay \<and> is_terminal eff)\<rparr>)"

section \<open>Queue states, matrix legs, expansions\<close>

datatype queue_state_t = NoQueue | Ready | Claimed | Blocked | Held | PendingExpansion | Expanding

record queue_state_input =
  qs_status :: execution_status
  remaining_needs :: int
  ready :: bool
  claimed :: bool
  concurrency_wait :: bool
  max_parallel_wait :: bool
  pending_expansion :: bool
  expanding :: bool

definition queue_state :: "queue_state_input \<Rightarrow> queue_state_t" where
  "queue_state i =
     (if is_terminal (qs_status i) then NoQueue
      else if expanding i then Expanding
      else if pending_expansion i then PendingExpansion
      else if concurrency_wait i then Held
      else if claimed i then Claimed
      else if ready i then Ready
      else if remaining_needs i > 0 \<or> max_parallel_wait i then Blocked
      else NoQueue)"

record matrix_leg_row =
  leg_job_id :: string
  leg_status :: execution_status
  leg_queue_state :: queue_state_t
  leg_base_id :: string
  leg_order :: nat

definition leg_active :: "matrix_leg_row \<Rightarrow> bool" where
  "leg_active l \<longleftrightarrow> leg_status l = InProgress \<or> leg_queue_state l \<in> {Ready, Claimed}"

text \<open>The selection loop: it stops when \<open>available\<close> legs are selected.\<close>

fun select_legs :: "nat \<Rightarrow> matrix_leg_row list \<Rightarrow> string list \<Rightarrow> string list" where
  "select_legs available [] selected = selected"
| "select_legs available (l # ls) selected =
     (if length selected \<ge> available then selected
      else select_legs available ls (selected @ [leg_job_id l]))"

definition max_parallel_admission :: "matrix_leg_row list \<Rightarrow> nat option \<Rightarrow> string list" where
  "max_parallel_admission legs max_parallel =
     (let blocked = filter (\<lambda>l. leg_queue_state l = Blocked) legs
      in case max_parallel of
        None \<Rightarrow> map leg_job_id blocked
      | Some limit \<Rightarrow> select_legs (limit - length (filter leg_active legs)) blocked [])"

record fail_fast_sibling =
  sib_job_id :: string
  sib_base_id :: string
  sib_status :: execution_status
  sib_agent_job_id :: "128 word option"

definition matrix_fail_fast ::
    "string \<Rightarrow> string option \<Rightarrow> bool \<Rightarrow> fail_fast_sibling list \<Rightarrow> string list" where
  "matrix_fail_fast failed_job failed_base fail_fast siblings =
     (if \<not> fail_fast then []
      else case failed_base of
        None \<Rightarrow> []
      | Some base \<Rightarrow> map sib_job_id (filter (\<lambda>s. sib_job_id s \<noteq> failed_job \<and> sib_base_id s = base \<and>
            sib_status s \<in> {Queued, Pending, InProgress}) siblings))"

datatype expansion_decision_t =
  StaleExpansion | FailedExpansion execution_status | EmptyExpansion execution_status | Apply

record expansion_fence =
  expected_generation :: int
  current_generation :: int

definition expansion_decision :: "expansion_fence \<Rightarrow> execution_status + nat \<Rightarrow> expansion_decision_t" where
  "expansion_decision fence build =
     (if expected_generation fence \<noteq> current_generation fence then StaleExpansion
      else case build of
        Inl status \<Rightarrow> FailedExpansion status
      | Inr 0 \<Rightarrow> EmptyExpansion Skipped
      | Inr (Suc _) \<Rightarrow> Apply)"

section \<open>Outbox stamps\<close>

datatype event_stamp = Version int | Unversioned | Stale

definition job_event_stamp :: "execution_status \<Rightarrow> string \<Rightarrow> int \<Rightarrow> event_stamp" where
  "job_event_stamp event row_status row_version =
     (let row = (if row_status = ''timed_out'' then Failure else status_parse row_status)
      in if row = event then Version row_version
         else if is_terminal row then Stale
         else Unversioned)"

definition run_event_stamp :: "execution_status \<Rightarrow> string \<Rightarrow> string option \<Rightarrow> int \<Rightarrow> event_stamp" where
  "run_event_stamp event row_status row_conclusion row_version =
     (let settled = (row_status = ''completed'');
          row = (if settled then
                   (case row_conclusion of
                      None \<Rightarrow> Failure
                    | Some conclusion \<Rightarrow>
                        if conclusion = ''timed_out'' then Failure else status_parse conclusion)
                 else status_parse row_status);
          matches = (row = event \<or> row = Queued \<and> event = Pending)
      in if matches then Version row_version
         else if settled then Stale
         else Unversioned)"

section \<open>Lemmas\<close>

lemma is_terminal_simps [simp]:
  "is_terminal Success" "is_terminal Failure" "is_terminal Skipped" "is_terminal Cancelled"
  "\<not> is_terminal Queued" "\<not> is_terminal Pending" "\<not> is_terminal InProgress"
  by (simp_all add: is_terminal_def)

lemma not_terminal_iff: "\<not> is_terminal s \<longleftrightarrow> s \<in> {Queued, Pending, InProgress}"
  by (cases s) auto

lemma status_parse_str [simp]: "status_parse (status_str s) = s"
  by (cases s) (simp_all add: status_parse_def)

lemma status_str_not_timed_out [simp]: "status_str s \<noteq> ''timed_out''"
  by (cases s) simp_all

text \<open>GitHub's precedence among terminal results.\<close>

fun severity :: "execution_status \<Rightarrow> nat" where
  "severity Failure = 3"
| "severity Cancelled = 2"
| "severity Skipped = 1"
| "severity _ = 0"

lemma aggregate_needs_status_None:
  "aggregate_needs_status ss = None \<longleftrightarrow> ss = [] \<or> (\<exists>s \<in> set ss. \<not> is_terminal s)"
proof -
  have "list_all (\<lambda>s. s = Success) ss"
    if "\<forall>s \<in> set ss. is_terminal s" "Failure \<notin> set ss" "Cancelled \<notin> set ss" "Skipped \<notin> set ss"
    using that unfolding list_all_iff is_terminal_def by auto
  then show ?thesis by (auto simp: aggregate_needs_status_def list_ex_iff)
qed

lemma aggregate_needs_status_Some:
  assumes "aggregate_needs_status ss = Some s"
  shows "s \<in> set ss" "is_terminal s" "\<forall>t \<in> set ss. severity t \<le> severity s"
proof -
  have ne: "ss \<noteq> []" and tm: "\<forall>t \<in> set ss. is_terminal t"
    using aggregate_needs_status_None [of ss] assms by auto
  have ex: "Success \<in> set ss" if "\<forall>t \<in> set ss. t = Success" using ne that by (cases ss) auto
  show "s \<in> set ss" "is_terminal s"
    using assms ne ex by (auto simp: aggregate_needs_status_def list_all_iff split: if_splits)
  show "\<forall>t \<in> set ss. severity t \<le> severity s"
  proof
    fix t assume t: "t \<in> set ss"
    with tm have "is_terminal t" by blast
    with t assms show "severity t \<le> severity s"
      by (cases t rule: execution_status.exhaust)
        (auto simp: aggregate_needs_status_def list_all_iff split: if_splits)
  qed
qed

lemma aggregate_agree:
  "\<forall>s \<in> set ss. is_terminal s \<Longrightarrow> aggregate_needs_status ss = aggregate_need_status ss"
  by (auto simp: aggregate_needs_status_def aggregate_need_status_def list_ex_iff)

lemma length_select_legs:
  "length selected \<le> available \<Longrightarrow>
     select_legs available ls selected = selected @ map leg_job_id (take (available - length selected) ls)"
proof (induction available ls selected rule: select_legs.induct)
  case (2 available l ls selected)
  then show ?case by (simp add: take_Cons' Suc_diff_le)
qed simp

section \<open>Properties\<close>

text \<open>The backends' aggregation of needs is undecided exactly when there is no need or some
  need is not terminal; otherwise it is one of the needs' own results and the most severe of
  them, in the order failure, cancelled, skipped, success.\<close>

theorem aggregate_needs_status_correct:
  "(case aggregate_needs_status ss of
      None \<Rightarrow> ss = [] \<or> (\<exists>s \<in> set ss. \<not> is_terminal s)
    | Some s \<Rightarrow> s \<in> set ss \<and> (\<forall>t \<in> set ss. is_terminal t \<and> severity t \<le> severity s))"
  using aggregate_needs_status_None [of ss] aggregate_needs_status_Some [of ss]
  by (cases "aggregate_needs_status ss") auto

theorem aggregate_needs_status_correct_witness:
  "aggregate_needs_status [Success, Failure, Skipped] = Some Failure \<and>
   severity Success \<le> severity Failure \<and> severity Skipped \<le> severity Failure"
proof -
  have "aggregate_needs_status [Success, Failure, Skipped] = Some Failure"
    by (simp add: aggregate_needs_status_def)
  with aggregate_needs_status_correct [of "[Success, Failure, Skipped]"] show ?thesis by simp
qed

text \<open>On needs that are all terminal the runtime scheduler's aggregation agrees with the
  backends' one.\<close>

theorem aggregate_need_status_agrees:
  assumes "\<forall>s \<in> set ss. is_terminal s"
  shows "aggregate_need_status ss = aggregate_needs_status ss"
  using aggregate_agree [OF assms] by simp

theorem aggregate_need_status_agrees_witness:
  "aggregate_need_status [Success, Skipped, Cancelled] = aggregate_needs_status [Success, Skipped, Cancelled] \<and>
   aggregate_needs_status [Success, Skipped, Cancelled] = Some Cancelled"
  using aggregate_need_status_agrees [of "[Success, Skipped, Cancelled]"]
  by (simp add: aggregate_needs_status_def)

text \<open>A job with needs and no condition of its own is promoted, skipped or kept waiting by
  exactly the aggregated status of its needs.\<close>

theorem needs_decision_default:
  assumes "needs \<noteq> []"
  shows "needs_decision needs DefaultSuccess =
    (case aggregate_needs_status (map need_status needs) of
       None \<Rightarrow> Wait
     | Some s \<Rightarrow> if s = Success then Promote else Skip)"
proof (cases "aggregate_needs_status (map need_status needs)")
  case None
  with assms aggregate_needs_status_None [of "map need_status needs"] show ?thesis
    by (auto simp: needs_decision_def list_ex_iff)
next
  case (Some s)
  note agg = aggregate_needs_status_Some [OF Some]
  have tm: "\<forall>n \<in> set needs. is_terminal (need_status n)"
    using Some aggregate_needs_status_None [of "map need_status needs"] by auto
  have "list_all (\<lambda>n. need_status n = Success) needs \<longleftrightarrow> s = Success"
  proof
    assume "s = Success"
    with agg(3) have "\<forall>n \<in> set needs. severity (need_status n) = 0" by auto
    with tm show "list_all (\<lambda>n. need_status n = Success) needs"
      unfolding list_all_iff is_terminal_def by fastforce
  qed (use agg(1) in \<open>auto simp: list_all_iff\<close>)
  with Some assms tm show ?thesis by (auto simp: needs_decision_def list_ex_iff Let_def)
qed

theorem needs_decision_default_witness:
  "needs_decision [\<lparr>need_job_id = ''build'', need_status = Success, need_outputs = []\<rparr>,
     \<lparr>need_job_id = ''lint'', need_status = InProgress, need_outputs = []\<rparr>] DefaultSuccess = Wait"
  using needs_decision_default [of "[\<lparr>need_job_id = ''build'', need_status = Success, need_outputs = []\<rparr>,
     \<lparr>need_job_id = ''lint'', need_status = InProgress, need_outputs = []\<rparr>]"]
  by (simp add: aggregate_needs_status_def)

text \<open>The condition \<^verbatim>\<open>NeedsCondition::Always\<close> promotes a job whose need failed: it is the
  unconditional predicate and not the implicit \<^verbatim>\<open>success()\<close>, which skips that job.\<close>

theorem needs_condition_always_is_unconditional:
  "needs_decision [\<lparr>need_job_id = ''build'', need_status = Failure, need_outputs = []\<rparr>] Always = Promote \<and>
   needs_decision [\<lparr>need_job_id = ''build'', need_status = Failure, need_outputs = []\<rparr>] DefaultSuccess = Skip"
  by (simp add: needs_decision_def)

text \<open>Decrementing the count of a row that has no remaining need does not clamp at zero: the
  count becomes negative and the row is not reported promotable.\<close>

theorem decrement_remaining_needs_below_zero:
  "decrement_remaining_needs 0 True = (-1, False)"
  by (simp add: decrement_remaining_needs_def sat_i32_def clamp_def)

definition settle_needs :: "nat \<Rightarrow> int \<times> bool \<Rightarrow> int \<times> bool" where
  "settle_needs k = ((\<lambda>(r, _). decrement_remaining_needs r True) ^^ k)"

lemma settle_needs_value:
  "k \<le> n \<Longrightarrow> n < 2 ^ 31 \<Longrightarrow> fst (settle_needs k (int n, False)) = int n - int k"
proof (induction k)
  case (Suc k)
  then show ?case
    by (simp add: settle_needs_def decrement_remaining_needs_def sat_i32_def clamp_def split_beta Let_def)
qed (simp add: settle_needs_def)

text \<open>A row with \<open>n\<close> remaining needs becomes promotable at exactly the \<open>n\<close>-th settled
  dependency.\<close>

theorem decrement_remaining_needs_promotes_once:
  assumes "n < 2 ^ 31" "0 < k" "k \<le> n"
  shows "settle_needs k (int n, False) = (int n - int k, k = n)"
proof -
  obtain j where j: "k = Suc j" using assms(2) by (cases k) auto
  have "fst (settle_needs j (int n, False)) = int n - int j"
    using assms j by (intro settle_needs_value) auto
  with assms j show ?thesis
    by (auto simp: settle_needs_def decrement_remaining_needs_def sat_i32_def clamp_def split_beta Let_def)
qed

theorem decrement_remaining_needs_promotes_once_witness:
  "settle_needs 2 (2, False) = (0, True)"
  using decrement_remaining_needs_promotes_once [of 2 2] by simp

definition settle :: "execution_status \<Rightarrow> string \<times> execution_status \<times> bool \<times> bool \<Rightarrow> execution_status" where
  "settle prior = (\<lambda>(j, reported, coe, rt). effective_status (completion_decision
     \<lparr>completed_job_id = j, prior_status = prior, reported_status = reported,
      continue_on_error = coe, run_will_be_terminal = rt\<rparr>))"

lemma settle_terminal: "is_terminal p \<Longrightarrow> is_terminal (fst (snd r)) \<Longrightarrow> settle p r = p"
  by (cases r) (auto simp: settle_def completion_decision_def Let_def)

text \<open>C32. First result wins: once a job is terminal, no later sequence of terminal completion
  reports, whatever their flags, changes its status.\<close>

theorem completion_first_result_wins:
  assumes "is_terminal s" "\<forall>r \<in> set reports. is_terminal (fst (snd r))"
  shows "foldl settle s reports = s"
  using assms(2) by (induction reports) (auto simp: settle_terminal [OF assms(1)])

theorem completion_first_result_wins_witness:
  "foldl settle Cancelled [(''a'', Success, False, True), (''a'', Failure, True, False)] = Cancelled"
  using completion_first_result_wins [of Cancelled "[(''a'', Success, False, True), (''a'', Failure, True, False)]"]
  by simp

text \<open>Dependents are promoted by a completion only when it is the report that makes the job
  terminal (or confirms a cancellation), and \<^verbatim>\<open>continue-on-error\<close> turns exactly a first reported
  failure into a success.\<close>

theorem completion_decision_correct:
  "(promote_dependents (completion_decision row) \<longleftrightarrow>
      (\<not> is_terminal (prior_status row) \<or> prior_status row = Cancelled) \<and>
      is_terminal (effective_status (completion_decision row))) \<and>
   effective_status (completion_decision row) =
     (if is_terminal (prior_status row) \<and> (prior_status row = Cancelled \<longrightarrow> is_terminal (reported_status row))
      then prior_status row
      else if continue_on_error row \<and> reported_status row = Failure then Success
      else reported_status row)"
  by (auto simp: completion_decision_def Let_def)

theorem completion_decision_correct_witness:
  "effective_status (completion_decision \<lparr>completed_job_id = ''a'', prior_status = InProgress,
     reported_status = Failure, continue_on_error = True, run_will_be_terminal = False\<rparr>) = Success"
  using completion_decision_correct [of "\<lparr>completed_job_id = ''a'', prior_status = InProgress,
     reported_status = Failure, continue_on_error = True, run_will_be_terminal = False\<rparr>"] by simp

text \<open>Max-parallel admission keeps the limit and uses it fully: it selects, in row order, as
  many blocked legs as there are free slots, so that with the active legs the limit is not
  exceeded unless it already was.\<close>

theorem max_parallel_admission_correct:
  "let blocked = filter (\<lambda>l. leg_queue_state l = Blocked) legs;
       active = length (filter leg_active legs);
       sel = max_parallel_admission legs (Some limit)
   in sel = map leg_job_id (take (limit - active) blocked) \<and>
      length sel + active \<le> max limit active"
  by (simp add: max_parallel_admission_def length_select_legs Let_def)

text \<open>Status strings round-trip, and a job event that reports the row's own status is always
  published with the row's version, while one is dropped as stale only when the row has settled
  on another final status.\<close>

theorem job_event_stamp_correct:
  "job_event_stamp e (status_str s) v =
     (if s = e then Version v else if is_terminal s then Stale else Unversioned)"
  by (simp add: job_event_stamp_def Let_def)

end
