(* ===== verification/Runner_Match.thy ===== *)
theory Runner_Match
  imports Rust_Base
begin

text \<open>
  Which runner may take which job (crate \<^verbatim>\<open>preloop-runner-server\<close>, \<^verbatim>\<open>runtime_scheduling.rs\<close> and
  \<^verbatim>\<open>control/logic.rs\<close>): label and group matching, the four tiers of claim preference, the
  fail-fast rules for labels nothing can serve, and the starvation verdict of the sweep that
  fails queued jobs. Instants and durations are nanoseconds; \<^verbatim>\<open>duration_since(..)\<close> followed by
  \<^verbatim>\<open>unwrap_or_default()\<close> is a difference cut at zero.
\<close>

section \<open>Labels\<close>

definition hosted_label_os :: "string \<Rightarrow> string option" where
  "hosted_label_os required =
     (if starts_with ''ubuntu'' required then Some ''linux''
      else if starts_with ''macos'' required then Some ''macos''
      else if starts_with ''windows'' required then Some ''windows''
      else None)"

definition unhostable_platform :: "string list \<Rightarrow> string list \<Rightarrow> string option" where
  "unhostable_platform job_labels runners =
     (case List.find (\<lambda>os. os = ''macos'' \<or> os = ''windows'')
             (List.map_filter (\<lambda>label. hosted_label_os (to_lower label)) job_labels) of
        None \<Rightarrow> None
      | Some needed \<Rightarrow> if \<not> list_ex (\<lambda>os. os = needed) runners then Some needed else None)"

definition unhostable_reason :: "string \<Rightarrow> string list \<Rightarrow> string" where
  "unhostable_reason platform runs_on =
     ''no '' @ platform @ '' runner is registered with this server, so `runs-on: '' @
     join '', '' runs_on @ ''` cannot be scheduled''"

definition job_matches_runner :: "string list \<Rightarrow> string list \<Rightarrow> bool" where
  "job_matches_runner job_labels runner_labels =
     (if job_labels = [] then True
      else if runner_labels = [] then True
      else
        let runner_set = map to_lower runner_labels;
            runner_os = List.find (\<lambda>os. os \<in> set runner_set) [''linux'', ''macos'', ''windows'']
        in list_all (\<lambda>required.
             let req = to_lower required
             in if req \<in> set runner_set then True
                else case hosted_label_os req of
                  None \<Rightarrow> False
                | Some required_os \<Rightarrow>
                    (case runner_os of
                       Some os \<Rightarrow> os = required_os
                     | None \<Rightarrow> ''self-hosted'' \<in> set runner_set)) job_labels)"

definition job_labels_covered_exactly :: "string list \<Rightarrow> string list \<Rightarrow> bool" where
  "job_labels_covered_exactly job_labels runner_labels =
     (if job_labels = [] then True
      else if runner_labels = [] then False
      else list_all (\<lambda>required. (to_lower required) \<in> set (map to_lower runner_labels)) job_labels)"

section \<open>Groups\<close>

record runner_match_row =
  labels :: "string list"
  known :: bool
  group_id :: "int option"
  group_name :: "string option"

definition required_group_of :: "string option \<Rightarrow> string option" where
  "required_group_of required = opt_filter (\<lambda>v. v \<noteq> []) (map_option trim required)"

fun group_name_matches :: "string \<Rightarrow> int option \<Rightarrow> string option \<Rightarrow> bool" where
  "group_name_matches required _ (Some name) = eq_ignore_ascii_case name required"
| "group_name_matches required None None = eq_ignore_ascii_case ''Default'' required"
| "group_name_matches required (Some gid) None =
     (if gid = 1 then eq_ignore_ascii_case ''Default'' required else False)"

definition runner_group_matches :: "string option \<Rightarrow> runner_match_row \<Rightarrow> bool" where
  "runner_group_matches required_opt runner =
     (case required_group_of required_opt of
        None \<Rightarrow> True
      | Some required \<Rightarrow>
          if \<not> known runner then False
          else case parse_i64 required of
            Some gid \<Rightarrow> group_id runner = Some gid \<or>
              (group_id runner = None \<and> group_name runner = None \<and> gid = 1)
          | None \<Rightarrow> group_name_matches required (group_id runner) (group_name runner))"

record runner_capabilities =
  cap_known :: bool
  cap_labels :: "string list"
  runner_group_id :: "int option"
  runner_group_name :: "string option"

definition job_matches_runner_group :: "string option \<Rightarrow> runner_capabilities \<Rightarrow> bool" where
  "job_matches_runner_group required_opt runner =
     (case required_group_of required_opt of
        None \<Rightarrow> True
      | Some required \<Rightarrow>
          if \<not> cap_known runner then False
          else case parse_i64 required of
            Some required_id \<Rightarrow>
              (case runner_group_id runner of
                 Some actual_id \<Rightarrow> actual_id = required_id
               | None \<Rightarrow> runner_group_name runner = None \<and> required_id = 1)
          | None \<Rightarrow> group_name_matches required (runner_group_id runner) (runner_group_name runner))"

definition runner_matches :: "string list \<Rightarrow> string option \<Rightarrow> runner_match_row \<Rightarrow> bool" where
  "runner_matches job_labels required_group runner \<longleftrightarrow>
     job_matches_runner job_labels (labels runner) \<and> runner_group_matches required_group runner"

section \<open>Claim preference\<close>

record claim_candidate =
  cand_run_id :: "128 word"
  cand_job_id :: string
  cand_runs_on :: "string list"
  runner_group :: "string option"
  assigned_runner_id :: "int option"
  assignment_fresh :: bool
  queue_position :: nat
  claimable :: bool

definition cand_exact :: "string list \<Rightarrow> string option \<Rightarrow> runner_match_row \<Rightarrow> claim_candidate \<Rightarrow> bool" where
  "cand_exact runner_labels required_group runner c \<longleftrightarrow>
     job_labels_covered_exactly (cand_runs_on c) runner_labels \<and>
     runner_group_matches (or_else (runner_group c) required_group) runner"

definition cand_assigned :: "int option \<Rightarrow> claim_candidate \<Rightarrow> bool" where
  "cand_assigned runner_id c \<longleftrightarrow>
     runner_id \<noteq> None \<and> assigned_runner_id c = runner_id \<and> assignment_fresh c"

definition cand_eligible :: "runner_match_row \<Rightarrow> claim_candidate \<Rightarrow> bool" where
  "cand_eligible runner c \<longleftrightarrow> claimable c \<and> runner_matches (cand_runs_on c) (runner_group c) runner"

definition claim_preference :: "claim_candidate list \<Rightarrow> int option \<Rightarrow> string list \<Rightarrow> string option \<Rightarrow>
    runner_match_row \<Rightarrow> nat option" where
  "claim_preference candidates runner_id runner_labels required_group runner =
     (let exact = cand_exact runner_labels required_group runner;
          assigned = cand_assigned runner_id;
          eligible = cand_eligible runner
      in or_else (position (\<lambda>c. eligible c \<and> assigned c \<and> exact c) candidates)
           (or_else (position (\<lambda>c. eligible c \<and> assigned c) candidates)
             (or_else (position (\<lambda>c. eligible c \<and> exact c) candidates)
               (position eligible candidates))))"

section \<open>Jobs nothing can serve\<close>

definition INTERACTIVE_EVENTS :: "string list" where
  "INTERACTIVE_EVENTS = [''issue_comment'', ''workflow_dispatch'']"

definition run_priority :: "string \<Rightarrow> int" where
  "run_priority event = (if event \<in> set INTERACTIVE_EVENTS then 10 else 0)"

definition needs_external_host :: "string list \<Rightarrow> bool" where
  "needs_external_host runs_on \<longleftrightarrow>
     list_ex (\<lambda>label. starts_with ''macos'' (to_lower label) \<or> starts_with ''windows'' (to_lower label)) runs_on"

definition pool_unsatisfiable_reason :: "string list \<Rightarrow> string list \<Rightarrow> string option" where
  "pool_unsatisfiable_reason runs_on pool_labels =
     (if pool_labels \<noteq> [] \<and> \<not> job_matches_runner runs_on pool_labels
      then Some (''no runner is registered for `runs-on: '' @ join '', '' runs_on @
        ''` and the runner pool's advertised labels ('' @ join '', '' pool_labels @
        '') can never satisfy it, so the job cannot be scheduled'')
      else None)"

definition runs_on_deferred :: "string list \<Rightarrow> bool" where
  "runs_on_deferred runs_on \<longleftrightarrow> list_ex (\<lambda>label. str_contains label ''${{'') runs_on"

definition unschedulable_reason :: "string list \<Rightarrow> string list \<Rightarrow> bool \<Rightarrow> string option" where
  "unschedulable_reason runs_on pool_labels any_runner_matches =
     (if any_runner_matches \<or> needs_external_host runs_on \<or> runs_on_deferred runs_on then None
      else pool_unsatisfiable_reason runs_on pool_labels)"

definition promotion_unsatisfiable_reason ::
    "string list \<Rightarrow> string list \<Rightarrow> string list \<Rightarrow> bool \<Rightarrow> string option" where
  "promotion_unsatisfiable_reason runs_on platforms pool_labels any_runner_matches =
     (case unhostable_platform runs_on platforms of
        Some platform \<Rightarrow> Some (unhostable_reason platform runs_on)
      | None \<Rightarrow> unschedulable_reason runs_on pool_labels any_runner_matches)"

definition concludes_at_submit :: "bool \<Rightarrow> bool \<Rightarrow> bool \<Rightarrow> string list \<Rightarrow> bool \<Rightarrow> string list \<Rightarrow>
    string list \<Rightarrow> bool \<Rightarrow> bool" where
  "concludes_at_submit initially_skipped has_needs placeholder runs_on check_hostable platforms
     pool_labels any_runner_matches =
     (if initially_skipped then True
      else if placeholder \<or> has_needs then False
      else if check_hostable \<and> unhostable_platform runs_on platforms \<noteq> None then True
      else unschedulable_reason runs_on pool_labels any_runner_matches \<noteq> None)"

section \<open>Starvation\<close>

definition NANOS :: int where "NANOS = 1000000000"
definition QUEUED_JOB_GRACE :: int where "QUEUED_JOB_GRACE = 120 * NANOS"
definition MAX_QUEUED_GRACE :: int where "MAX_QUEUED_GRACE = 3600 * NANOS"

record starvation_candidate =
  runs_on :: "string list"
  enqueued_at :: int
  first_seen :: "int option"
  any_runner_matches :: bool

datatype starvation_verdict_t =
  ClearMark
| Mark int
| Starve string int
| Unschedulable string

definition duration_since :: "int \<Rightarrow> int \<Rightarrow> int" where
  "duration_since now t = max 0 (now - t)"

definition starve_reason :: "string list \<Rightarrow> int \<Rightarrow> string" where
  "starve_reason job_labels grace =
     ''no runner is registered for `runs-on: '' @ join '', '' job_labels @
     ''` and none appeared within '' @ int_to_string (grace div NANOS) @
     ''s, so the job cannot be scheduled''"

text \<open>The part of the verdict after the pool's advertised labels have been considered.\<close>

definition starvation_by_grace :: "starvation_candidate \<Rightarrow> int \<Rightarrow> bool \<Rightarrow> int \<Rightarrow> bool \<Rightarrow> starvation_verdict_t" where
  "starvation_by_grace job now pool_preparing waiting_since within_ceiling =
     (if pool_preparing then
        (if within_ceiling then Mark now
         else Starve (starve_reason (runs_on job) MAX_QUEUED_GRACE) MAX_QUEUED_GRACE)
      else
        let seen = unwrap_or (first_seen job) waiting_since
        in if duration_since now seen < QUEUED_JOB_GRACE then Mark seen
           else Starve (starve_reason (runs_on job) QUEUED_JOB_GRACE) QUEUED_JOB_GRACE)"

definition starvation_verdict :: "starvation_candidate \<Rightarrow> int \<Rightarrow> bool \<Rightarrow> int \<Rightarrow> string list \<Rightarrow> starvation_verdict_t" where
  "starvation_verdict job now pool_preparing booted_at pool_labels =
     (if any_runner_matches job \<or> needs_external_host (runs_on job) then ClearMark
      else
        let waiting_since = max (enqueued_at job) booted_at;
            within_ceiling = duration_since now waiting_since < MAX_QUEUED_GRACE
        in if pool_labels \<noteq> [] then
             (case pool_unsatisfiable_reason (runs_on job) pool_labels of
                Some reason \<Rightarrow> Unschedulable reason
              | None \<Rightarrow> if within_ceiling then ClearMark
                  else starvation_by_grace job now pool_preparing waiting_since within_ceiling)
           else starvation_by_grace job now pool_preparing waiting_since within_ceiling)"

section \<open>Properties\<close>

lemma or_else_position:
  "or_else (position P xs) y = Some i \<longleftrightarrow>
     position P xs = Some i \<or> (\<forall>x \<in> set xs. \<not> P x) \<and> y = Some i"
  using position_None [of P xs] by (cases "position P xs") auto

lemma or_else_position_None:
  "or_else (position P xs) y = None \<longleftrightarrow> (\<forall>x \<in> set xs. \<not> P x) \<and> y = None"
  using position_None [of P xs] by (cases "position P xs") auto

lemma position_not_before: "position P xs = Some i \<Longrightarrow> j < length xs \<Longrightarrow> P (xs ! j) \<Longrightarrow> i \<le> j"
  using position_Some [of P xs i] by (meson not_less)

text \<open>The tier of a candidate, 0 the most preferred; only eligible candidates have one.\<close>

definition claim_tier :: "int option \<Rightarrow> string list \<Rightarrow> string option \<Rightarrow> runner_match_row \<Rightarrow> claim_candidate \<Rightarrow> nat" where
  "claim_tier runner_id runner_labels required_group runner c =
     (if cand_assigned runner_id c \<and> cand_exact runner_labels required_group runner c then 0
      else if cand_assigned runner_id c then 1
      else if cand_exact runner_labels required_group runner c then 2
      else 3)"

lemma claim_preference_Some:
  assumes "claim_preference cs rid rl rg r = Some i"
  shows "i < length cs" "cand_eligible r (cs ! i)"
    "\<forall>j < length cs. cand_eligible r (cs ! j) \<longrightarrow>
       claim_tier rid rl rg r (cs ! i) < claim_tier rid rl rg r (cs ! j) \<or>
       claim_tier rid rl rg r (cs ! i) = claim_tier rid rl rg r (cs ! j) \<and> i \<le> j"
proof -
  let ?x = "cand_exact rl rg r" and ?a = "cand_assigned rid" and ?e = "cand_eligible r"
  consider (1) "position (\<lambda>c. ?e c \<and> ?a c \<and> ?x c) cs = Some i"
    | (2) "\<forall>c \<in> set cs. \<not> (?e c \<and> ?a c \<and> ?x c)" "position (\<lambda>c. ?e c \<and> ?a c) cs = Some i"
    | (3) "\<forall>c \<in> set cs. \<not> (?e c \<and> ?a c)" "position (\<lambda>c. ?e c \<and> ?x c) cs = Some i"
    | (4) "\<forall>c \<in> set cs. \<not> (?e c \<and> ?a c)" "\<forall>c \<in> set cs. \<not> (?e c \<and> ?x c)" "position ?e cs = Some i"
    using assms unfolding claim_preference_def Let_def or_else_position by blast
  then have "i < length cs \<and> ?e (cs ! i) \<and> (\<forall>j < length cs. ?e (cs ! j) \<longrightarrow>
      claim_tier rid rl rg r (cs ! i) < claim_tier rid rl rg r (cs ! j) \<or>
      claim_tier rid rl rg r (cs ! i) = claim_tier rid rl rg r (cs ! j) \<and> i \<le> j)"
  proof cases
    case 1
    from position_Some [OF this] position_not_before [OF this] show ?thesis
      by (auto simp: claim_tier_def)
  next
    case 2
    from position_Some [OF 2(2)] position_not_before [OF 2(2)] 2(1) show ?thesis
      by (auto simp: claim_tier_def dest: nth_mem)
  next
    case 3
    from position_Some [OF 3(2)] position_not_before [OF 3(2)] 3(1) show ?thesis
      by (auto simp: claim_tier_def dest: nth_mem)
  next
    case 4
    from position_Some [OF 4(3)] position_not_before [OF 4(3)] 4(1,2) show ?thesis
      by (auto simp: claim_tier_def dest: nth_mem)
  qed
  then show "i < length cs" "cand_eligible r (cs ! i)"
    "\<forall>j < length cs. cand_eligible r (cs ! j) \<longrightarrow>
       claim_tier rid rl rg r (cs ! i) < claim_tier rid rl rg r (cs ! j) \<or>
       claim_tier rid rl rg r (cs ! i) = claim_tier rid rl rg r (cs ! j) \<and> i \<le> j" by auto
qed

lemma claim_preference_None:
  "claim_preference cs rid rl rg r = None \<longleftrightarrow> (\<forall>c \<in> set cs. \<not> cand_eligible r c)"
  unfolding claim_preference_def Let_def or_else_position_None position_None by blast

text \<open>C33. Claim preference picks an eligible candidate whenever there is one, and the one it
  picks is the first, in queue order, of the most preferred tier that any eligible candidate is
  in.\<close>

theorem claim_preference_correct:
  "case claim_preference cs rid rl rg r of
     None \<Rightarrow> \<forall>c \<in> set cs. \<not> cand_eligible r c
   | Some i \<Rightarrow> i < length cs \<and> cand_eligible r (cs ! i) \<and>
       (\<forall>j < length cs. cand_eligible r (cs ! j) \<longrightarrow>
         claim_tier rid rl rg r (cs ! i) < claim_tier rid rl rg r (cs ! j) \<or>
         claim_tier rid rl rg r (cs ! i) = claim_tier rid rl rg r (cs ! j) \<and> i \<le> j)"
proof (cases "claim_preference cs rid rl rg r")
  case None
  with claim_preference_None [of cs rid rl rg r] show ?thesis by simp
next
  case (Some i)
  then show ?thesis using claim_preference_Some [OF Some] by simp
qed

abbreviation sample_candidate :: "string list \<Rightarrow> int option \<Rightarrow> claim_candidate" where
  "sample_candidate ro a \<equiv> \<lparr>cand_run_id = 0, cand_job_id = ''j'', cand_runs_on = ro, runner_group = None,
     assigned_runner_id = a, assignment_fresh = True, queue_position = 0, claimable = True\<rparr>"

abbreviation sample_runner :: runner_match_row where
  "sample_runner \<equiv> \<lparr>labels = [''linux''], known = True, group_id = None, group_name = None\<rparr>"

theorem claim_preference_correct_witness:
  "cand_eligible sample_runner (sample_candidate [''Linux''] (Some 7)) \<and>
   claim_preference [sample_candidate [''Linux''] None, sample_candidate [''Linux''] (Some 7)]
     (Some 7) [''linux''] None sample_runner = Some 1"
proof -
  have "claim_preference [sample_candidate [''Linux''] None, sample_candidate [''Linux''] (Some 7)]
     (Some 7) [''linux''] None sample_runner = Some 1"
    by code_simp
  with claim_preference_correct [where rid = "Some 7" and rl = "[''linux'']" and rg = None and r = sample_runner
    and cs = "[sample_candidate [''Linux''] None, sample_candidate [''Linux''] (Some 7)]"] show ?thesis by simp
qed

text \<open>The group check of the backends and the one of the runtime scheduler agree on every
  requirement and every runner.\<close>

theorem runner_group_matches_agrees:
  "runner_group_matches required r = job_matches_runner_group required
     \<lparr>cap_known = known r, cap_labels = labels r, runner_group_id = group_id r, runner_group_name = group_name r\<rparr>"
  by (auto simp: runner_group_matches_def job_matches_runner_group_def split: option.splits)

lemma job_matches_runnerD:
  assumes "job_matches_runner jl rl" "rl \<noteq> []" "l \<in> set jl"
  shows "to_lower l \<in> to_lower ` set rl \<or>
    (\<exists>os. hosted_label_os (to_lower l) = Some os \<and>
      (case List.find (\<lambda>os. os \<in> to_lower ` set rl) [''linux'', ''macos'', ''windows''] of
         Some ros \<Rightarrow> ros = os | None \<Rightarrow> ''self-hosted'' \<in> to_lower ` set rl))"
proof -
  have "jl \<noteq> []" using assms(3) by auto
  with assms(1,2) have "\<forall>l \<in> set jl. if to_lower l \<in> to_lower ` set rl then True
      else case hosted_label_os (to_lower l) of None \<Rightarrow> False
        | Some os \<Rightarrow> (case List.find (\<lambda>os. os \<in> to_lower ` set rl) [''linux'', ''macos'', ''windows''] of
            Some ros \<Rightarrow> ros = os | None \<Rightarrow> ''self-hosted'' \<in> to_lower ` set rl)"
    by (simp only: job_matches_runner_def Let_def list_all_iff if_False set_map)
  from bspec [OF this assms(3)] show ?thesis
    by (cases "hosted_label_os (to_lower l)"; cases "to_lower l \<in> to_lower ` set rl")
       (simp_all del: List.find.simps)
qed

text \<open>The hosted-image stand-in never crosses operating systems: a runner that declares an
  operating system is matched by a job only through its own labels or through image labels of
  that operating system.\<close>

theorem job_matches_runner_same_os:
  assumes "job_matches_runner jl rl" "l \<in> set jl" "to_lower l \<notin> to_lower ` set rl"
    "List.find (\<lambda>os. os \<in> to_lower ` set rl) [''linux'', ''macos'', ''windows''] = Some os"
  shows "hosted_label_os (to_lower l) = Some os"
proof -
  have "rl \<noteq> []" using assms(4) by (cases rl) simp_all
  from job_matches_runnerD [OF assms(1) this assms(2)] assms(3)
  show ?thesis unfolding assms(4) by simp
qed

theorem job_matches_runner_same_os_witness:
  "hosted_label_os (to_lower ''Ubuntu-latest'') = Some ''linux'' \<and>
   \<not> job_matches_runner [''ubuntu-latest''] [''self-hosted'', ''macOS'']"
proof
  have "job_matches_runner [''Ubuntu-latest''] [''self-hosted'', ''Linux'']" by code_simp
  moreover have "to_lower ''Ubuntu-latest'' \<notin> to_lower ` set [''self-hosted'', ''Linux'']" by code_simp
  moreover have "List.find (\<lambda>os. os \<in> to_lower ` set [''self-hosted'', ''Linux''])
    [''linux'', ''macos'', ''windows''] = Some ''linux''" by code_simp
  ultimately show "hosted_label_os (to_lower ''Ubuntu-latest'') = Some ''linux''"
    by (intro job_matches_runner_same_os [of "[''Ubuntu-latest'']" "[''self-hosted'', ''Linux'']"]) simp_all
  show "\<not> job_matches_runner [''ubuntu-latest''] [''self-hosted'', ''macOS'']" by code_simp
qed

text \<open>Submit, promotion and the sweep apply one rule: concrete labels are refused at submit
  exactly when the starvation sweep would call the same queued job unschedulable, for the same
  reason, whatever the clocks.\<close>

theorem unschedulable_iff_sweep_verdict:
  assumes "\<not> runs_on_deferred (runs_on job)"
  shows "unschedulable_reason (runs_on job) pool_labels (any_runner_matches job) = Some reason \<longleftrightarrow>
    starvation_verdict job now pool_preparing booted_at pool_labels = Unschedulable reason"
  using assms
  by (auto simp: unschedulable_reason_def starvation_verdict_def starvation_by_grace_def
      pool_unsatisfiable_reason_def Let_def)

theorem unschedulable_iff_sweep_verdict_witness:
  "\<exists>reason. starvation_verdict \<lparr>runs_on = [''gpu''], enqueued_at = 0, first_seen = None,
     any_runner_matches = False\<rparr> 1 False 0 [''linux''] = Unschedulable reason"
proof -
  let ?job = "\<lparr>runs_on = [''gpu''], enqueued_at = 0, first_seen = None, any_runner_matches = False\<rparr>"
  have "\<not> runs_on_deferred (runs_on ?job)" by code_simp
  moreover have "unschedulable_reason (runs_on ?job) [''linux''] (any_runner_matches ?job) \<noteq> None"
    by code_simp
  then have "\<exists>reason. unschedulable_reason (runs_on ?job) [''linux''] (any_runner_matches ?job) = Some reason"
    by simp
  ultimately show ?thesis using unschedulable_iff_sweep_verdict [of ?job "[''linux'']" _ 1 False 0] by blast
qed

text \<open>No job starves early: a starved job has no matching runner and no external host to
  wait for, and at least the stated grace has passed, the full hour when the pool could serve it
  or was still preparing.\<close>

theorem starvation_only_after_grace:
  assumes "starvation_verdict job now pool_preparing booted_at pool_labels = Starve reason grace"
  shows "\<not> any_runner_matches job \<and> \<not> needs_external_host (runs_on job) \<and>
    reason = starve_reason (runs_on job) grace \<and>
    (pool_preparing \<or> pool_labels \<noteq> [] \<longrightarrow>
       MAX_QUEUED_GRACE \<le> now - max (enqueued_at job) booted_at) \<and>
    (\<not> pool_preparing \<longrightarrow> grace = QUEUED_JOB_GRACE \<and>
       QUEUED_JOB_GRACE \<le> now - unwrap_or (first_seen job) (max (enqueued_at job) booted_at))"
proof -
  have pos: "0 < QUEUED_JOB_GRACE" "0 < MAX_QUEUED_GRACE"
    by (simp_all add: QUEUED_JOB_GRACE_def MAX_QUEUED_GRACE_def NANOS_def)
  have since: "g \<le> now - t" if "\<not> duration_since now t < g" "0 < g" for g t
    using that by (simp add: duration_since_def)
  show ?thesis using assms pos since
    by (auto simp: starvation_verdict_def starvation_by_grace_def Let_def
        split: if_splits option.splits)
qed

theorem starvation_only_after_grace_witness:
  "QUEUED_JOB_GRACE \<le> 130 * NANOS - max 0 0"
proof -
  have "starvation_verdict \<lparr>runs_on = [''gpu''], enqueued_at = 0, first_seen = None,
     any_runner_matches = False\<rparr> (130 * NANOS) False 0 [] = Starve (starve_reason [''gpu''] QUEUED_JOB_GRACE) QUEUED_JOB_GRACE"
    by code_simp
  from starvation_only_after_grace [OF this] show ?thesis by simp
qed

text \<open>No unmatched job waits forever: an hour after its clock started, with its mark two
  minutes old, the sweep concludes it.\<close>

theorem starvation_concludes:
  assumes "\<not> any_runner_matches job" "\<not> needs_external_host (runs_on job)"
    "max (enqueued_at job) booted_at + MAX_QUEUED_GRACE \<le> now"
    "unwrap_or (first_seen job) (max (enqueued_at job) booted_at) + QUEUED_JOB_GRACE \<le> now"
  shows "\<exists>reason. (\<exists>grace. starvation_verdict job now pool_preparing booted_at pool_labels = Starve reason grace) \<or>
    starvation_verdict job now pool_preparing booted_at pool_labels = Unschedulable reason"
proof -
  have "\<not> duration_since now (max (enqueued_at job) booted_at) < MAX_QUEUED_GRACE"
    "\<not> duration_since now (unwrap_or (first_seen job) (max (enqueued_at job) booted_at)) < QUEUED_JOB_GRACE"
    using assms(3,4) by (simp_all add: duration_since_def)
  with assms(1,2) show ?thesis
    by (auto simp: starvation_verdict_def starvation_by_grace_def Let_def split: option.splits)
qed

theorem starvation_concludes_witness:
  "\<exists>reason. (\<exists>grace. starvation_verdict \<lparr>runs_on = [''gpu''], enqueued_at = 0, first_seen = None,
     any_runner_matches = False\<rparr> (4000 * NANOS) True 0 [] = Starve reason grace) \<or>
   starvation_verdict \<lparr>runs_on = [''gpu''], enqueued_at = 0, first_seen = None,
     any_runner_matches = False\<rparr> (4000 * NANOS) True 0 [] = Unschedulable reason"
  by (rule starvation_concludes) code_simp+

end
