(* ===== verification/Rerun_Set.thy ===== *)
theory Rerun_Set
  imports Rust_Base
begin

text \<open>
  The set of job rows a re-run resets (\<^verbatim>\<open>rerun_set\<close> of \<^verbatim>\<open>control/logic.rs\<close>): GitHub's three
  re-run modes give the seeds, and a loop over the rows closes them under dependents, callees of
  selected reusable callers and callers of selected callees. The result is shown to be the least
  set that GitHub's rules, stated on their own, give.
\<close>

record rerun_job_row =
  row_job_id :: string
  row_kind :: string
  row_base_id :: string
  parent_job_id :: "string option"
  row_status :: string
  row_needs :: "string list"

datatype rerun_mode = AllJobs | FailedJobs | OneJob string

text \<open>\<^verbatim>\<open>ControlError\<close>; a backend failure is its message.\<close>

datatype control_error =
  NotFound string
| Conflict string
| Forbidden string
| BadRequest string
| StaleFence string
| QuotaExceeded string
| WidenScope
| Backend string

definition has_children :: "rerun_job_row list \<Rightarrow> string list" where
  "has_children jobs = List.map_filter parent_job_id jobs"

text \<open>\<^verbatim>\<open>collect()\<close> into a map: a later row with the same id wins.\<close>

definition kind_of :: "rerun_job_row list \<Rightarrow> string \<rightharpoonup> string" where
  "kind_of jobs = map_of (rev (map (\<lambda>j. (row_job_id j, row_kind j)) jobs))"

definition dead_parent :: "rerun_job_row list \<Rightarrow> rerun_job_row \<Rightarrow> bool" where
  "dead_parent jobs row \<longleftrightarrow> row_kind row = ''matrix_parent'' \<and> row_job_id row \<in> set (has_children jobs)"

definition matchable_rows :: "rerun_job_row list \<Rightarrow> rerun_job_row list" where
  "matchable_rows jobs = filter (\<lambda>row. \<not> dead_parent jobs row) jobs"

definition row_matches :: "rerun_job_row \<Rightarrow> string \<Rightarrow> bool" where
  "row_matches row need \<longleftrightarrow> row_job_id row = need \<or> row_base_id row = need"

definition rerun_seeds :: "rerun_mode \<Rightarrow> rerun_job_row list \<Rightarrow> control_error + string set" where
  "rerun_seeds mode jobs =
     (case mode of
        AllJobs \<Rightarrow> Inr (set (map row_job_id (matchable_rows jobs)))
      | FailedJobs \<Rightarrow>
          let S = set (map row_job_id (filter (\<lambda>row. row_status row \<in> {''failure'', ''cancelled'', ''timed_out''})
                    (matchable_rows jobs)))
          in if S = {} then Inl (Conflict ''run has no failed or cancelled jobs to re-run'') else Inr S
      | OneJob i \<Rightarrow>
          let seeds = map row_job_id (filter (\<lambda>row. row_matches row i) (matchable_rows jobs))
          in if seeds = [] then Inl (NotFound (''no job matching `'' @ i @ ''` in this run''))
             else Inr (set seeds))"

definition row_joins :: "rerun_job_row list \<Rightarrow> string set \<Rightarrow> rerun_job_row \<Rightarrow> bool" where
  "row_joins jobs S row \<longleftrightarrow>
     list_ex (\<lambda>need. list_ex (\<lambda>candidate. row_job_id candidate \<in> S)
                (filter (\<lambda>candidate. row_matches candidate need) jobs)) (row_needs row) \<or>
     (case parent_job_id row of
        None \<Rightarrow> False
      | Some parent \<Rightarrow> kind_of jobs parent = Some ''reusable_caller'' \<and> parent \<in> S) \<or>
     (row_kind row = ''reusable_caller'' \<and>
        list_ex (\<lambda>child. parent_job_id child = Some (row_job_id row) \<and> row_job_id child \<in> S) jobs)"

text \<open>One pass over the rows, which sees the rows it has just added, and the loop around it.\<close>

fun rerun_pass :: "rerun_job_row list \<Rightarrow> rerun_job_row list \<Rightarrow> string set \<times> bool \<Rightarrow> string set \<times> bool" where
  "rerun_pass jobs [] (S, added) = (S, added)"
| "rerun_pass jobs (row # rows) (S, added) =
     (if row_job_id row \<in> S then rerun_pass jobs rows (S, added)
      else if row_joins jobs S row then rerun_pass jobs rows (insert (row_job_id row) S, True)
      else rerun_pass jobs rows (S, added))"

function rerun_loop :: "rerun_job_row list \<Rightarrow> string set \<Rightarrow> string set" where
  "rerun_loop jobs S =
     (let (S', added) = rerun_pass jobs (matchable_rows jobs) (S, False)
      in if added then rerun_loop jobs S' else S')"
  by pat_completeness auto

lemma rerun_pass_mono: "S \<subseteq> fst (rerun_pass jobs rows (S, a))"
proof (induction rows arbitrary: S a)
  case (Cons row rows)
  show ?case using Cons [of S a] Cons [of "insert (row_job_id row) S" True] by auto
qed simp

lemma rerun_pass_upper: "fst (rerun_pass jobs rows (S, a)) \<subseteq> S \<union> row_job_id ` set rows"
proof (induction rows arbitrary: S a)
  case (Cons row rows)
  show ?case using Cons [of S a] Cons [of "insert (row_job_id row) S" True] by auto
qed simp

lemma rerun_pass_added:
  "snd (rerun_pass jobs rows (S, False)) \<Longrightarrow> \<exists>j \<in> row_job_id ` set rows - S. j \<in> fst (rerun_pass jobs rows (S, False))"
proof (induction rows arbitrary: S)
  case (Cons row rows)
  have "row_job_id row \<in> fst (rerun_pass jobs rows (insert (row_job_id row) S, True))"
    using rerun_pass_mono [of "insert (row_job_id row) S" jobs rows True] by auto
  with Cons show ?case by (auto split: if_splits)
qed simp

lemma rerun_pass_unchanged:
  "\<not> snd (rerun_pass jobs rows (S, a)) \<Longrightarrow>
     fst (rerun_pass jobs rows (S, a)) = S \<and> (\<forall>row \<in> set rows. row_joins jobs S row \<longrightarrow> row_job_id row \<in> S)"
proof (induction rows arbitrary: S a)
  case (Cons row rows)
  have keep: "snd (rerun_pass jobs rows (S, True))" for S
    by (induction rows arbitrary: S) auto
  with Cons show ?case by (auto split: if_splits)
qed simp

termination rerun_loop
proof (relation "measure (\<lambda>(jobs, S). card (row_job_id ` set (matchable_rows jobs) - S))", goal_cases)
  case (2 jobs S p S' added)
  then have p: "rerun_pass jobs (matchable_rows jobs) (S, False) = (S', True)" by simp
  have "S \<subseteq> S'" using rerun_pass_mono [of S jobs "matchable_rows jobs" False] p by simp
  moreover obtain j where "j \<in> row_job_id ` set (matchable_rows jobs) - S" "j \<in> S'"
    using rerun_pass_added [of jobs "matchable_rows jobs" S] p by auto
  ultimately have "row_job_id ` set (matchable_rows jobs) - S' \<subset> row_job_id ` set (matchable_rows jobs) - S"
    by blast
  then show ?case by (auto intro: psubset_card_mono)
qed simp

declare rerun_loop.simps [simp del]

definition rerun_set :: "rerun_mode \<Rightarrow> rerun_job_row list \<Rightarrow> control_error + string set" where
  "rerun_set mode jobs = and_then (rerun_seeds mode jobs) (\<lambda>S. Inr (rerun_loop jobs S))"

section \<open>The least closed set\<close>

definition rerun_closed :: "rerun_job_row list \<Rightarrow> string set \<Rightarrow> bool" where
  "rerun_closed jobs S \<longleftrightarrow> (\<forall>row \<in> set (matchable_rows jobs). row_joins jobs S row \<longrightarrow> row_job_id row \<in> S)"

lemma row_joins_mono: "row_joins jobs S row \<Longrightarrow> S \<subseteq> T \<Longrightarrow> row_joins jobs T row"
  unfolding row_joins_def by (auto simp: list_ex_iff split: option.splits)

lemma rerun_pass_least:
  "S \<subseteq> T \<Longrightarrow> \<forall>row \<in> set rows. row_joins jobs T row \<longrightarrow> row_job_id row \<in> T \<Longrightarrow>
     fst (rerun_pass jobs rows (S, a)) \<subseteq> T"
proof (induction rows arbitrary: S a)
  case (Cons row rows)
  then show ?case using row_joins_mono [of jobs S row T] by auto
qed simp

lemma rerun_loop_correct:
  "S \<subseteq> rerun_loop jobs S \<and> rerun_closed jobs (rerun_loop jobs S) \<and>
   rerun_loop jobs S \<subseteq> S \<union> row_job_id ` set (matchable_rows jobs) \<and>
   (\<forall>T. S \<subseteq> T \<longrightarrow> rerun_closed jobs T \<longrightarrow> rerun_loop jobs S \<subseteq> T)"
proof (induction jobs S rule: rerun_loop.induct)
  case (1 jobs S)
  obtain S' added where p: "rerun_pass jobs (matchable_rows jobs) (S, False) = (S', added)"
    by (cases "rerun_pass jobs (matchable_rows jobs) (S, False)")
  have mono: "S \<subseteq> S'" using rerun_pass_mono [of S jobs "matchable_rows jobs" False] p by simp
  have upper: "S' \<subseteq> S \<union> row_job_id ` set (matchable_rows jobs)"
    using rerun_pass_upper [of jobs "matchable_rows jobs" S False] p by simp
  have least: "S' \<subseteq> T" if "S \<subseteq> T" "rerun_closed jobs T" for T
    using rerun_pass_least [of S T "matchable_rows jobs" jobs False] that p by (simp add: rerun_closed_def)
  show ?case
  proof (cases added)
    case True
    have eq: "rerun_loop jobs S = rerun_loop jobs S'" by (subst rerun_loop.simps) (simp add: p True)
    note IH = "1.IH" [OF p [symmetric] refl True]
    have "S \<subseteq> rerun_loop jobs S'" using IH mono by (meson order_trans)
    moreover have "rerun_loop jobs S' \<subseteq> S \<union> row_job_id ` set (matchable_rows jobs)"
      using IH upper by (meson Un_least Un_upper2 order_trans)
    moreover have "\<forall>T. S \<subseteq> T \<longrightarrow> rerun_closed jobs T \<longrightarrow> rerun_loop jobs S' \<subseteq> T"
      using IH least by simp
    ultimately show ?thesis using IH unfolding eq by simp
  next
    case False
    have eq: "rerun_loop jobs S = S'" by (subst rerun_loop.simps) (simp add: p False)
    from rerun_pass_unchanged [of jobs "matchable_rows jobs" S False] p False
    have "S' = S" "rerun_closed jobs S'" by (auto simp: rerun_closed_def)
    then show ?thesis unfolding eq using least by blast
  qed
qed

lemma rerun_seeds_matchable:
  "rerun_seeds mode jobs = Inr S \<Longrightarrow> S \<subseteq> row_job_id ` set (matchable_rows jobs)"
  by (auto simp: rerun_seeds_def Let_def split: rerun_mode.splits if_splits)

section \<open>GitHub's rules\<close>

text \<open>The rows a re-run may reset are all but the matrix parents that have been expanded. The ids that are reset
  are given by the four rules: what the mode asks for, the dependents of a reset job, the callees of a
  reset caller and the callers of a reset callee.\<close>

definition selectable :: "rerun_job_row list \<Rightarrow> rerun_job_row \<Rightarrow> bool" where
  "selectable jobs row \<longleftrightarrow> row \<in> set jobs \<and>
     \<not> (row_kind row = ''matrix_parent'' \<and> (\<exists>child \<in> set jobs. parent_job_id child = Some (row_job_id row)))"

fun asked_for :: "rerun_mode \<Rightarrow> rerun_job_row \<Rightarrow> bool" where
  "asked_for AllJobs row \<longleftrightarrow> True"
| "asked_for FailedJobs row \<longleftrightarrow> row_status row = ''failure'' \<or> row_status row = ''cancelled'' \<or> row_status row = ''timed_out''"
| "asked_for (OneJob i) row \<longleftrightarrow> row_job_id row = i \<or> row_base_id row = i"

inductive reset_job :: "rerun_mode \<Rightarrow> rerun_job_row list \<Rightarrow> string \<Rightarrow> bool" for mode jobs where
  asked: "selectable jobs row \<Longrightarrow> asked_for mode row \<Longrightarrow> reset_job mode jobs (row_job_id row)"
| dependent: "selectable jobs row \<Longrightarrow> need \<in> set (row_needs row) \<Longrightarrow> dep \<in> set jobs \<Longrightarrow>
    row_job_id dep = need \<or> row_base_id dep = need \<Longrightarrow> reset_job mode jobs (row_job_id dep) \<Longrightarrow>
    reset_job mode jobs (row_job_id row)"
| callee: "selectable jobs row \<Longrightarrow> parent_job_id row = Some (row_job_id caller) \<Longrightarrow> caller \<in> set jobs \<Longrightarrow>
    row_kind caller = ''reusable_caller'' \<Longrightarrow> reset_job mode jobs (row_job_id caller) \<Longrightarrow> reset_job mode jobs (row_job_id row)"
| caller: "selectable jobs row \<Longrightarrow> row_kind row = ''reusable_caller'' \<Longrightarrow> child \<in> set jobs \<Longrightarrow>
    parent_job_id child = Some (row_job_id row) \<Longrightarrow> reset_job mode jobs (row_job_id child) \<Longrightarrow>
    reset_job mode jobs (row_job_id row)"

lemma selectable_matchable: "selectable jobs row \<longleftrightarrow> row \<in> set (matchable_rows jobs)"
  by (force simp: selectable_def matchable_rows_def dead_parent_def has_children_def List.map_filter_def)

lemma rerun_seeds_asked:
  assumes "rerun_seeds mode jobs = Inr S"
  shows "S = row_job_id ` {row. selectable jobs row \<and> asked_for mode row}"
  using assms by (cases mode) (auto simp: rerun_seeds_def Let_def selectable_matchable row_matches_def split: if_splits)

lemma kind_of_row:
  assumes "distinct (map row_job_id jobs)"
  shows "kind_of jobs i = Some k \<longleftrightarrow> (\<exists>row \<in> set jobs. row_job_id row = i \<and> row_kind row = k)"
proof -
  let ?ps = "rev (map (\<lambda>j. (row_job_id j, row_kind j)) jobs)"
  have "map fst ?ps = rev (map row_job_id jobs)" by (simp add: rev_map comp_def)
  then have "distinct (map fst ?ps)" using assms by simp
  then have "map_of ?ps i = Some k \<longleftrightarrow> (i, k) \<in> set ?ps" by (rule map_of_eq_Some_iff)
  then show ?thesis by (force simp: kind_of_def)
qed

lemma reset_least:
  assumes "distinct (map row_job_id jobs)" and "row_job_id ` {row. selectable jobs row \<and> asked_for mode row} \<subseteq> T"
    and "rerun_closed jobs T" and "reset_job mode jobs i"
  shows "i \<in> T"
  using assms(4)
proof (induction rule: reset_job.induct)
  case (asked row)
  then show ?case using assms(2) by blast
next
  case (dependent row need dep)
  then have "row_joins jobs T row" by (force simp: row_joins_def list_ex_iff row_matches_def)
  then show ?case using assms(3) dependent(1) by (auto simp: rerun_closed_def selectable_matchable)
next
  case (callee row caller)
  then have "kind_of jobs (row_job_id caller) = Some ''reusable_caller''" using kind_of_row [OF assms(1)] by blast
  then have "row_joins jobs T row" using callee by (simp add: row_joins_def)
  then show ?case using assms(3) callee(1) by (auto simp: rerun_closed_def selectable_matchable)
next
  case (caller row child)
  then have "row_joins jobs T row" by (force simp: row_joins_def list_ex_iff)
  then show ?case using assms(3) caller(1) by (auto simp: rerun_closed_def selectable_matchable)
qed

lemma reset_closed:
  assumes "distinct (map row_job_id jobs)"
  shows "rerun_closed jobs {i. reset_job mode jobs i}"
  unfolding rerun_closed_def
proof (intro ballI impI)
  fix row assume row: "row \<in> set (matchable_rows jobs)" and joins: "row_joins jobs {i. reset_job mode jobs i} row"
  note sel = row [folded selectable_matchable]
  from joins consider
      need dep where "need \<in> set (row_needs row)" "dep \<in> set jobs" "row_job_id dep = need \<or> row_base_id dep = need"
        "reset_job mode jobs (row_job_id dep)"
    | parent where "parent_job_id row = Some parent" "kind_of jobs parent = Some ''reusable_caller''" "reset_job mode jobs parent"
    | child where "row_kind row = ''reusable_caller''" "child \<in> set jobs" "parent_job_id child = Some (row_job_id row)"
        "reset_job mode jobs (row_job_id child)"
    unfolding row_joins_def list_ex_iff by (auto simp: row_matches_def split: option.splits)
  then show "row_job_id row \<in> {i. reset_job mode jobs i}"
  proof cases
    case (1 need dep)
    then show ?thesis using reset_job.dependent [OF sel] by blast
  next
    case (2 parent)
    then obtain c where "c \<in> set jobs" "row_job_id c = parent" "row_kind c = ''reusable_caller''"
      using kind_of_row [OF assms] by blast
    then show ?thesis using reset_job.callee [OF sel, of c] 2 by simp
  next
    case (3 child)
    then show ?thesis using reset_job.caller [OF sel] by blast
  qed
qed

text \<open>C35. A re-run resets exactly the jobs that GitHub's rules give: what its mode asks for, and from there the
  dependents of what is reset, the callees of a reusable caller that is reset and the caller of a
  callee that is reset; never a matrix parent that has been expanded. Ids are unique among the rows.\<close>

theorem rerun_set_least_closed:
  assumes "rerun_set mode jobs = Inr R" and "distinct (map row_job_id jobs)"
  shows "R = {i. reset_job mode jobs i}"
proof -
  from assms(1) obtain S where S: "rerun_seeds mode jobs = Inr S" "R = rerun_loop jobs S"
    by (auto simp: rerun_set_def and_then_Inr_iff)
  note seeds = rerun_seeds_asked [OF S(1)]
  have "S \<subseteq> {i. reset_job mode jobs i}" using reset_job.asked by (auto simp: seeds)
  then have "R \<subseteq> {i. reset_job mode jobs i}" using rerun_loop_correct [of S jobs] reset_closed [OF assms(2)] S(2) by blast
  moreover have "i \<in> R" if "reset_job mode jobs i" for i
    using reset_least [OF assms(2) _ _ that, of R] rerun_loop_correct [of S jobs] S(2) seeds by blast
  ultimately show ?thesis by blast
qed

abbreviation sample_row :: "string \<Rightarrow> string \<Rightarrow> string option \<Rightarrow> string \<Rightarrow> string list \<Rightarrow> rerun_job_row" where
  "sample_row j kind parent st ns \<equiv> \<lparr>row_job_id = j, row_kind = kind, row_base_id = j, parent_job_id = parent,
     row_status = st, row_needs = ns\<rparr>"

lemmas rerun_eval = rerun_set_def rerun_seeds_def matchable_rows_def dead_parent_def has_children_def
  rerun_loop.simps row_joins_def row_matches_def kind_of_def List.map_filter_def

text \<open>A failed callee \<^verbatim>\<open>k\<close> pulls in its caller \<^verbatim>\<open>c\<close>, the caller its other callee \<^verbatim>\<open>l\<close>, and the caller its
  dependent \<^verbatim>\<open>d\<close>; the job \<^verbatim>\<open>x\<close> stays.\<close>

definition sample_rows :: "rerun_job_row list" where
  "sample_rows = [sample_row ''d'' ''job'' None ''success'' [''c''], sample_row ''c'' ''reusable_caller'' None ''failure_of_callee'' [],
     sample_row ''k'' ''job'' (Some ''c'') ''failure'' [], sample_row ''l'' ''job'' (Some ''c'') ''success'' [],
     sample_row ''x'' ''job'' None ''success'' []]"

theorem rerun_set_least_closed_witness:
  "rerun_set FailedJobs sample_rows = Inr {''k'', ''c'', ''l'', ''d''} \<and>
   {i. reset_job FailedJobs sample_rows i} = {''k'', ''c'', ''l'', ''d''}"
proof -
  have set: "rerun_set FailedJobs sample_rows = Inr {''k'', ''c'', ''l'', ''d''}"
    by (simp add: rerun_eval sample_rows_def) auto
  have "{''k'', ''c'', ''l'', ''d''} = {i. reset_job FailedJobs sample_rows i}"
    by (rule rerun_set_least_closed [OF set]) (simp add: sample_rows_def)
  with set show ?thesis by simp
qed

text \<open>A re-run is refused exactly when its mode selects nothing: no failed, cancelled or timed
  out row for the failed mode, no row of that id or base id for the single-job mode. The mode
  for every job is never refused.\<close>

theorem rerun_set_refused:
  "(\<exists>e. rerun_set mode jobs = Inl e) \<longleftrightarrow>
     (case mode of
        AllJobs \<Rightarrow> False
      | FailedJobs \<Rightarrow> \<not> (\<exists>row \<in> set (matchable_rows jobs).
          row_status row \<in> {''failure'', ''cancelled'', ''timed_out''})
      | OneJob i \<Rightarrow> \<not> (\<exists>row \<in> set (matchable_rows jobs). row_job_id row = i \<or> row_base_id row = i))"
  by (auto simp: rerun_set_def and_then_Inl_iff rerun_seeds_def Let_def row_matches_def
      filter_empty_conv split: rerun_mode.splits)

end
