(* ===== verification/Glob_Trigger.thy ===== *)
theory Glob_Trigger
  imports Json_Value
begin

text \<open>
  Event triggers of a workflow (crate \<^verbatim>\<open>preloop-gha-parser\<close>, \<^verbatim>\<open>trigger.rs\<close> and the trigger part
  of \<^verbatim>\<open>models.rs\<close>): glob patterns, filters with negation, the decision whether an event runs a
  workflow with the reason it does not, and the validation of the \<^verbatim>\<open>on:\<close> block. The pattern
  matcher simulates a nondeterministic automaton with generation-stamped state sets; it is shown
  equal to the textbook recursive meaning of the patterns. It works on the characters of the two
  texts, each given by its UTF-8 bytes.
\<close>

section \<open>Glob patterns\<close>

datatype token = Literal string | AnyChar | Star | DoubleStar

fun tokenize_glob :: "string list \<Rightarrow> token list" where
  "tokenize_glob [] = []"
| "tokenize_glob (c # cs) =
     (if c = ''*'' then
        (case cs of
           d # ds \<Rightarrow> if d = ''*'' then DoubleStar # tokenize_glob ds else Star # tokenize_glob cs
         | [] \<Rightarrow> [Star])
      else if c = ''?'' then AnyChar # tokenize_glob cs
      else Literal c # tokenize_glob cs)"

definition is_star_at :: "token list \<Rightarrow> nat \<Rightarrow> bool" where
  "is_star_at tokens i \<longleftrightarrow> (slice_get tokens i = Some Star \<or> slice_get tokens i = Some DoubleStar)"

text \<open>\<^verbatim>\<open>add_state\<close>: the state sets are a list and a generation stamp per state. An index past the
  stamps, where the source would panic, is never reached.\<close>

function add_state :: "token list \<Rightarrow> nat \<Rightarrow> nat \<Rightarrow> nat list \<times> nat list \<Rightarrow> nat list \<times> nat list" where
  "add_state tokens index generation (seen, states) =
     (if index < length seen \<and> seen ! index \<noteq> generation then
        let seen' = seen[index := generation]; states' = states @ [index]
        in if is_star_at tokens index then add_state tokens (Suc index) generation (seen', states')
           else (seen', states')
      else (seen, states))"
  by pat_completeness auto
termination by (relation "measure (\<lambda>(_, i, _, seen, _). length seen - i)") auto

declare add_state.simps [simp del]

definition glob_target :: "token list \<Rightarrow> string \<Rightarrow> nat \<Rightarrow> nat option" where
  "glob_target tokens c state =
     (case slice_get tokens state of
        Some (Literal expected) \<Rightarrow> if expected = c then Some (state + 1) else None
      | Some AnyChar \<Rightarrow> if c \<noteq> ''/'' then Some (state + 1) else None
      | Some Star \<Rightarrow> if c \<noteq> ''/'' then Some state else None
      | Some DoubleStar \<Rightarrow> Some state
      | None \<Rightarrow> None)"

definition glob_step :: "token list \<Rightarrow> string \<Rightarrow> nat \<Rightarrow> nat list \<Rightarrow> nat list \<Rightarrow> nat list \<times> nat list" where
  "glob_step tokens c generation seen active =
     fold (\<lambda>state acc. case glob_target tokens c state of
         Some target \<Rightarrow> add_state tokens target generation acc
       | None \<Rightarrow> acc) active (seen, [])"

fun glob_run :: "token list \<Rightarrow> string list \<Rightarrow> nat \<Rightarrow> nat list \<Rightarrow> nat list \<Rightarrow> bool" where
  "glob_run tokens [] generation seen active \<longleftrightarrow> length tokens \<in> set active"
| "glob_run tokens (c # cs) generation seen active \<longleftrightarrow>
     (let (seen', active') = glob_step tokens c (generation + 1) seen active
      in if active' = [] then False else glob_run tokens cs (generation + 1) seen' active')"

definition match_wildcards :: "string \<Rightarrow> string \<Rightarrow> bool" where
  "match_wildcards pattern value =
     (let tokens = tokenize_glob (utf8_chars pattern);
          (seen, active) = add_state tokens 0 1 (replicate (length tokens + 1) 0, [])
      in glob_run tokens (utf8_chars value) 1 seen active)"

definition glob_match :: "string \<Rightarrow> string \<Rightarrow> bool" where
  "glob_match pattern value =
     (let wildcard = unwrap_or (position (\<lambda>c. c = CHR ''*'' \<or> c = CHR ''?'') pattern) (length pattern)
      in case strip_prefix (take wildcard pattern) value of
           None \<Rightarrow> False
         | Some rest \<Rightarrow>
             if wildcard = length pattern then rest = []
             else match_wildcards (drop wildcard pattern) rest)"

section \<open>Filters\<close>

fun filter_patterns :: "json \<Rightarrow> string list" where
  "filter_patterns (JString p) = [p]"
| "filter_patterns (JArray ps) = List.map_filter as_str ps"
| "filter_patterns _ = []"

definition split_negation :: "string \<Rightarrow> bool \<times> string" where
  "split_negation p = (case strip_prefix ''!'' p of None \<Rightarrow> (False, p) | Some q \<Rightarrow> (True, q))"

definition filter_loop :: "string \<Rightarrow> bool \<Rightarrow> string list \<Rightarrow> bool" where
  "filter_loop value dflt patterns =
     foldl (\<lambda>matched pat. let (negative, q) = split_negation pat
       in if glob_match q value then \<not> negative else matched) dflt patterns"

fun matches_filter_with_default :: "json \<Rightarrow> string \<Rightarrow> bool \<Rightarrow> bool" where
  "matches_filter_with_default (JString p) value dflt = filter_loop value dflt [p]"
| "matches_filter_with_default (JArray ps) value dflt =
     (let patterns = List.map_filter as_str ps
      in if patterns = [] then dflt else filter_loop value dflt patterns)"
| "matches_filter_with_default _ value dflt = False"

definition matches_filter :: "json \<Rightarrow> string \<Rightarrow> bool" where
  "matches_filter flt value = matches_filter_with_default flt value False"

section \<open>Triggers\<close>

datatype trigger = Single string | Many "string list" | Map "(string \<times> json) list"

datatype trigger_mismatch =
  EventNotDeclared "string list"
| ActivityTypeMissing "string list"
| ActivityTypeRejected string "string list"
| RefFiltered "string option" "string option" "(string \<times> string list) list"
| PathsUnmatched nat "string list"
| PathsAllIgnored nat "string list"
| UpstreamWorkflowUnmatched "string list"

text \<open>The variants of \<^verbatim>\<open>ParserError\<close> that the modelled operations raise.\<close>

datatype parser_error =
  InvalidTriggerEvent string
| InvalidFilterForKey string string
| ConflictingFilters string string string
| InvalidJobCondition string string
| UnknownNeed string string
| NeedsCycleError string
| InvalidMatrixEntry string string
| MatrixTooLarge string nat
| InvalidExpression string

fun as_object :: "json \<Rightarrow> (string \<times> json) list option" where
  "as_object (JObject m) = Some m"
| "as_object _ = None"

fun trigger_matches :: "trigger \<Rightarrow> string \<Rightarrow> bool" where
  "trigger_matches (Single v) event \<longleftrightarrow> v = event"
| "trigger_matches (Many vs) event \<longleftrightarrow> list_ex (\<lambda>v. v = event) vs"
| "trigger_matches (Map m) event \<longleftrightarrow> map_of m event \<noteq> None"

fun has_path_filters :: "trigger \<Rightarrow> string \<Rightarrow> bool" where
  "has_path_filters (Map m) event \<longleftrightarrow>
     (case Option.bind (map_of m event) as_object of
        None \<Rightarrow> False
      | Some config \<Rightarrow> map_of config ''paths'' \<noteq> None \<or> map_of config ''paths-ignore'' \<noteq> None)"
| "has_path_filters _ event \<longleftrightarrow> False"

fun declared_events :: "trigger \<Rightarrow> string list" where
  "declared_events (Single v) = [v]"
| "declared_events (Many vs) = vs"
| "declared_events (Map m) = map fst m"

definition normalize_activity_type :: "string \<Rightarrow> string" where
  "normalize_activity_type a = (if a = ''synchronized'' then ''synchronize'' else a)"

definition check_activity_type :: "string option \<Rightarrow> string list \<Rightarrow> trigger_mismatch + unit" where
  "check_activity_type activity_type defaults =
     (case activity_type of
        Some a \<Rightarrow>
          if normalize_activity_type a \<in> set defaults \<or> a \<in> set defaults then Inr ()
          else Inl (ActivityTypeRejected a defaults)
      | None \<Rightarrow> Inl (ActivityTypeMissing defaults))"

definition PR_DEFAULT_TYPES :: "string list" where
  "PR_DEFAULT_TYPES = [''opened'', ''synchronize'', ''reopened'']"

definition is_pr_event :: "string \<Rightarrow> bool" where
  "is_pr_event event \<longleftrightarrow> event = ''pull_request'' \<or> event = ''pull_request_target''"

text \<open>The checks of \<^verbatim>\<open>match_event\<close> on an object configuration, in order: activity type, branch
  and tag axes, paths, upstream workflows.\<close>

definition match_types :: "(string \<times> json) list \<Rightarrow> string \<Rightarrow> string option \<Rightarrow> trigger_mismatch + unit" where
  "match_types obj event activity_type =
     (case map_of obj ''types'' of
        Some types \<Rightarrow>
          (case activity_type of
             Some a \<Rightarrow>
               if \<not> matches_filter types a \<and> \<not> matches_filter types (normalize_activity_type a)
               then Inl (ActivityTypeRejected a (filter_patterns types)) else Inr ()
           | None \<Rightarrow> Inl (ActivityTypeMissing (filter_patterns types)))
      | None \<Rightarrow>
          if is_pr_event event then check_activity_type activity_type PR_DEFAULT_TYPES else Inr ())"

definition axis_ok :: "(string \<times> json) list \<Rightarrow> string \<Rightarrow> string \<Rightarrow> string option \<Rightarrow> bool" where
  "axis_ok obj key ignore_key name \<longleftrightarrow>
     (map_of obj key \<noteq> None \<or> map_of obj ignore_key \<noteq> None) \<and>
     (case name of
        None \<Rightarrow> False
      | Some n \<Rightarrow>
          (case map_of obj key of None \<Rightarrow> True | Some filters \<Rightarrow> matches_filter filters n) \<and>
          (case map_of obj ignore_key of None \<Rightarrow> True | Some ign \<Rightarrow> \<not> matches_filter ign n))"

definition match_refs :: "(string \<times> json) list \<Rightarrow> string option \<Rightarrow> string option \<Rightarrow> trigger_mismatch + unit" where
  "match_refs obj branch tag =
     (let branch_axis = map_of obj ''branches'' \<noteq> None \<or> map_of obj ''branches-ignore'' \<noteq> None;
          tag_axis = map_of obj ''tags'' \<noteq> None \<or> map_of obj ''tags-ignore'' \<noteq> None
      in if (branch_axis \<or> tag_axis) \<and>
            \<not> axis_ok obj ''branches'' ''branches-ignore'' branch \<and>
            \<not> axis_ok obj ''tags'' ''tags-ignore'' tag
         then Inl (RefFiltered branch tag
                (List.map_filter (\<lambda>key. map_option (\<lambda>v. (key, filter_patterns v)) (map_of obj key))
                   [''branches'', ''branches-ignore'', ''tags'', ''tags-ignore'']))
         else Inr ())"

definition match_paths :: "(string \<times> json) list \<Rightarrow> string list \<Rightarrow> trigger_mismatch + unit" where
  "match_paths obj paths =
     and_then (case map_of obj ''paths'' of
         Some fs \<Rightarrow> if paths = [] \<or> \<not> list_ex (matches_filter fs) paths
           then Inl (PathsUnmatched (length paths) (filter_patterns fs)) else Inr ()
       | None \<Rightarrow> Inr ())
     (\<lambda>_. case map_of obj ''paths-ignore'' of
         Some ign \<Rightarrow> if paths \<noteq> [] \<and> list_all (matches_filter ign) paths
           then Inl (PathsAllIgnored (length paths) (filter_patterns ign)) else Inr ()
       | None \<Rightarrow> Inr ())"

definition match_workflows :: "(string \<times> json) list \<Rightarrow> string list \<Rightarrow> trigger_mismatch + unit" where
  "match_workflows obj upstream =
     (case map_of obj ''workflows'' of
        Some f \<Rightarrow> if upstream = [] \<or> \<not> list_ex (matches_filter f) upstream
          then Inl (UpstreamWorkflowUnmatched (filter_patterns f)) else Inr ()
      | None \<Rightarrow> Inr ())"

fun match_event :: "trigger \<Rightarrow> string \<Rightarrow> string option \<Rightarrow> string option \<Rightarrow> string list \<Rightarrow>
    string option \<Rightarrow> string list \<Rightarrow> trigger_mismatch + unit" where
  "match_event (Single v) event branch tag paths activity_type upstream =
     (if v = event then Inr () else Inl (EventNotDeclared (declared_events (Single v))))"
| "match_event (Many vs) event branch tag paths activity_type upstream =
     (if list_ex (\<lambda>v. v = event) vs then Inr () else Inl (EventNotDeclared (declared_events (Many vs))))"
| "match_event (Map m) event branch tag paths activity_type upstream =
     (case map_of m event of
        None \<Rightarrow> Inl (EventNotDeclared (declared_events (Map m)))
      | Some config \<Rightarrow>
          (case as_object config of
             None \<Rightarrow> if is_pr_event event then check_activity_type activity_type PR_DEFAULT_TYPES else Inr ()
           | Some obj \<Rightarrow>
               and_then (match_types obj event activity_type) (\<lambda>_.
               and_then (match_refs obj branch tag) (\<lambda>_.
               and_then (match_paths obj paths) (\<lambda>_.
                 match_workflows obj upstream)))))"

definition matches_with_context :: "trigger \<Rightarrow> string \<Rightarrow> string option \<Rightarrow> string option \<Rightarrow> string list \<Rightarrow>
    string option \<Rightarrow> string list \<Rightarrow> bool" where
  "matches_with_context t event branch tag paths activity_type upstream \<longleftrightarrow>
     (case match_event t event branch tag paths activity_type upstream of Inr _ \<Rightarrow> True | Inl _ \<Rightarrow> False)"

text \<open>The reason shown to the user (\<^verbatim>\<open>impl Display for TriggerMismatch\<close>).\<close>

definition ref_filtered_display :: "string option \<Rightarrow> string option \<Rightarrow> (string \<times> string list) list \<Rightarrow> string" where
  "ref_filtered_display branch tag filters =
     (let is_branch_only = list_all (\<lambda>(label, _). starts_with ''branches'' label) filters;
          is_tag_only = list_all (\<lambda>(label, _). starts_with ''tags'' label) filters
      in if branch = None \<and> tag \<noteq> None \<and> is_branch_only then
           ''the workflow declares only branch filters; tag `'' @ unwrap_or tag ''tag'' @
           ''` cannot match `branches`''
         else if tag = None \<and> branch \<noteq> None \<and> is_tag_only then
           ''the workflow declares only tag filters; branch `'' @ unwrap_or branch ''branch'' @
           ''` cannot match `tags`''
         else
           (case (branch, tag) of
              (Some b, _) \<Rightarrow> ''branch `'' @ b @ ''`''
            | (None, Some t) \<Rightarrow> ''tag `'' @ t @ ''`''
            | (None, None) \<Rightarrow> ''the run's ref'') @
           '' is excluded by'' @
           concat (map (\<lambda>(index, label, patterns).
             (if index = (0::nat) then [] else '','') @ '' '' @ label @ '': ['' @ join '', '' patterns @ '']'')
             (zip [0..<length filters] filters)))"

fun mismatch_display :: "trigger_mismatch \<Rightarrow> string" where
  "mismatch_display (EventNotDeclared declared) =
     (if declared = [] then ''the workflow declares no events in `on:`''
      else ''the workflow declares only: '' @ join '', '' declared)"
| "mismatch_display (ActivityTypeMissing accepted) =
     ''this event is filtered by activity type ('' @ join '', '' accepted @ '') and none was supplied''"
| "mismatch_display (ActivityTypeRejected got accepted) =
     ''activity type `'' @ got @ ''` is not accepted; the workflow accepts: '' @ join '', '' accepted"
| "mismatch_display (RefFiltered branch tag filters) = ref_filtered_display branch tag filters"
| "mismatch_display (PathsUnmatched changed filters) =
     ''none of the '' @ nat_to_string changed @ '' changed file(s) match paths: ['' @ join '', '' filters @ '']''"
| "mismatch_display (PathsAllIgnored changed filters) =
     ''all '' @ nat_to_string changed @ '' changed file(s) match paths-ignore: ['' @ join '', '' filters @ '']''"
| "mismatch_display (UpstreamWorkflowUnmatched filters) =
     ''no upstream workflow name matches workflows: ['' @ join '', '' filters @ '']''"

section \<open>Validation of the on block\<close>

definition KNOWN_TRIGGER_EVENTS :: "string list" where
  "KNOWN_TRIGGER_EVENTS = [
     ''branch_protection_rule'', ''check_run'', ''check_suite'', ''create'', ''delete'', ''deployment'',
     ''deployment_status'', ''discussion'', ''discussion_comment'', ''fork'', ''gollum'',
     ''issue_comment'', ''issues'', ''label'', ''merge_group'', ''milestone'', ''page_build'',
     ''public'', ''pull_request'', ''pull_request_review'', ''pull_request_review_comment'',
     ''pull_request_target'', ''push'', ''registry_package'', ''release'', ''repository_dispatch'',
     ''schedule'', ''secret_scanning_alert'', ''status'', ''watch'', ''workflow_call'',
     ''workflow_dispatch'', ''workflow_run'']"

fun first_unknown :: "string list \<Rightarrow> parser_error + unit" where
  "first_unknown [] = Inr ()"
| "first_unknown (n # ns) =
     (if \<not> list_ex (\<lambda>k. eq_ignore_ascii_case k n) KNOWN_TRIGGER_EVENTS
      then Inl (InvalidTriggerEvent n) else first_unknown ns)"

definition validate_event_names :: "trigger \<Rightarrow> parser_error + unit" where
  "validate_event_names t =
     first_unknown (case t of Single n \<Rightarrow> [n] | Many ns \<Rightarrow> ns | Map m \<Rightarrow> map fst m)"

definition valid_filter_keys :: "string \<Rightarrow> string list" where
  "valid_filter_keys event =
     (if event = ''push'' then
        [''branches'', ''branches-ignore'', ''tags'', ''tags-ignore'', ''paths'', ''paths-ignore'']
      else if event = ''pull_request'' \<or> event = ''pull_request_target'' then
        [''types'', ''branches'', ''branches-ignore'', ''paths'', ''paths-ignore'']
      else if event = ''workflow_run'' then [''types'', ''branches'', ''branches-ignore'', ''workflows'']
      else if event = ''schedule'' then [''cron'', ''timezone'']
      else [''types''])"

definition event_config :: "trigger \<Rightarrow> string \<Rightarrow> (string \<times> json) list option" where
  "event_config t event = (case t of Map m \<Rightarrow> Option.bind (map_of m event) as_object | _ \<Rightarrow> None)"

definition validate_filters :: "trigger \<Rightarrow> string \<Rightarrow> parser_error + unit" where
  "validate_filters t event =
     (case event_config t event of
        None \<Rightarrow> Inr ()
      | Some obj \<Rightarrow>
          (case List.find (\<lambda>key. key \<notin> set (valid_filter_keys event)) (map fst obj) of
             Some key \<Rightarrow> Inl (InvalidFilterForKey event key)
           | None \<Rightarrow> Inr ()))"

definition filter_pairs :: "(string \<times> string) list" where
  "filter_pairs = [(''branches'', ''branches-ignore''), (''tags'', ''tags-ignore''), (''paths'', ''paths-ignore'')]"

definition check_conflicting_filters :: "trigger \<Rightarrow> string \<Rightarrow> parser_error + unit" where
  "check_conflicting_filters t event =
     (case event_config t event of
        None \<Rightarrow> Inr ()
      | Some obj \<Rightarrow>
          (case List.find (\<lambda>(a, b). map_of obj a \<noteq> None \<and> map_of obj b \<noteq> None) filter_pairs of
             Some (a, b) \<Rightarrow> Inl (ConflictingFilters event a b)
           | None \<Rightarrow> Inr ()))"

section \<open>The meaning of patterns\<close>

fun match_tokens :: "token list \<Rightarrow> string list \<Rightarrow> bool" where
  "match_tokens [] s \<longleftrightarrow> s = []"
| "match_tokens (Literal l # ts) [] \<longleftrightarrow> False"
| "match_tokens (Literal l # ts) (c # cs) \<longleftrightarrow> l = c \<and> match_tokens ts cs"
| "match_tokens (AnyChar # ts) [] \<longleftrightarrow> False"
| "match_tokens (AnyChar # ts) (c # cs) \<longleftrightarrow> c \<noteq> ''/'' \<and> match_tokens ts cs"
| "match_tokens (Star # ts) [] \<longleftrightarrow> match_tokens ts []"
| "match_tokens (Star # ts) (c # cs) \<longleftrightarrow>
     match_tokens ts (c # cs) \<or> c \<noteq> ''/'' \<and> match_tokens (Star # ts) cs"
| "match_tokens (DoubleStar # ts) [] \<longleftrightarrow> match_tokens ts []"
| "match_tokens (DoubleStar # ts) (c # cs) \<longleftrightarrow>
     match_tokens ts (c # cs) \<or> match_tokens (DoubleStar # ts) cs"

text \<open>The states reachable without input from \<open>i\<close>: those up to and including the first that
  is not a star.\<close>

definition eps_from :: "token list \<Rightarrow> nat \<Rightarrow> nat set" where
  "eps_from ts i = {j. i \<le> j \<and> (\<forall>k. i \<le> k \<and> k < j \<longrightarrow> is_star_at ts k)}"

definition eps_closed :: "token list \<Rightarrow> nat set \<Rightarrow> bool" where
  "eps_closed ts A \<longleftrightarrow> (\<forall>i \<in> A. is_star_at ts i \<longrightarrow> Suc i \<in> A)"

definition states_ok :: "token list \<Rightarrow> nat \<Rightarrow> nat list \<times> nat list \<Rightarrow> bool" where
  "states_ok ts gen = (\<lambda>(seen, A). length seen = Suc (length ts) \<and> (\<forall>g \<in> set seen. g \<le> gen) \<and>
     (\<forall>i. i \<in> set A \<longleftrightarrow> i \<le> length ts \<and> seen ! i = gen))"

lemma is_star_at_lt: "is_star_at ts i \<Longrightarrow> i < length ts"
  by (auto simp: is_star_at_def slice_get_def split: if_splits)

lemma eps_from_refl [simp]: "i \<in> eps_from ts i"
  by (auto simp: eps_from_def)

lemma eps_from_step: "is_star_at ts i \<Longrightarrow> eps_from ts (Suc i) \<subseteq> eps_from ts i"
  unfolding eps_from_def
  by (auto simp: Suc_le_eq) (metis le_neq_implies_less)

lemma add_state_correct:
  assumes "states_ok ts gen (seen, A)" "i \<le> length ts"
    and "\<forall>k \<in> set A. is_star_at ts k \<longrightarrow> Suc k \<in> set A \<or> Suc k = i"
  shows "states_ok ts gen (add_state ts i gen (seen, A)) \<and>
    (let B = set (snd (add_state ts i gen (seen, A))) in
       eps_closed ts B \<and> insert i (set A) \<subseteq> B \<and> B \<subseteq> set A \<union> eps_from ts i)"
  using assms
proof (induction ts i gen "(seen, A)" arbitrary: seen A rule: add_state.induct)
  case (1 ts i gen seen A)
  show ?case
  proof (cases "seen ! i = gen")
    case True
    with "1.prems" have "i \<in> set A" by (auto simp: states_ok_def)
    with True "1.prems" show ?thesis
      by (subst (1 2) add_state.simps) (auto simp: eps_closed_def Let_def)
  next
    case False
    have lt: "i < length seen" using "1.prems" by (auto simp: states_ok_def)
    let ?s = "seen[i := gen]" and ?A = "A @ [i]"
    have upd: "set ?s \<subseteq> insert gen (set seen)" by (rule set_update_subset_insert)
    have ok: "states_ok ts gen (?s, ?A)"
      using "1.prems"(1,2) lt upd by (auto simp: states_ok_def nth_list_update)
    show ?thesis
    proof (cases "is_star_at ts i")
      case True
      have next_ok: "Suc i \<le> length ts" "\<forall>k \<in> set ?A. is_star_at ts k \<longrightarrow> Suc k \<in> set ?A \<or> Suc k = Suc i"
        using is_star_at_lt [OF True] "1.prems"(3) by auto
      have eq: "add_state ts i gen (seen, A) = add_state ts (Suc i) gen (?s, ?A)"
        using lt False True by (subst add_state.simps) simp
      have "states_ok ts gen (add_state ts (Suc i) gen (?s, ?A)) \<and>
        (let B = set (snd (add_state ts (Suc i) gen (?s, ?A))) in
           eps_closed ts B \<and> insert (Suc i) (set ?A) \<subseteq> B \<and> B \<subseteq> set ?A \<union> eps_from ts (Suc i))"
        using "1.hyps" [OF conjI [OF lt False] refl refl True ok next_ok] .
      with eps_from_step [OF True] show ?thesis unfolding eq by (auto simp: Let_def)
    next
      case no_star: False
      have "add_state ts i gen (seen, A) = (?s, ?A)"
        using lt False no_star by (subst add_state.simps) simp
      with ok no_star "1.prems"(3) show ?thesis by (auto simp: eps_closed_def Let_def)
    qed
  qed
qed

text \<open>An epsilon-closed set accepts at the end of the input exactly when one of its states
  matches the empty rest, and one step turns the set for \<open>c # cs\<close> into the one for \<open>cs\<close>.\<close>

definition set_matches :: "token list \<Rightarrow> nat set \<Rightarrow> string list \<Rightarrow> bool" where
  "set_matches ts A s \<longleftrightarrow> (\<exists>i \<in> A. match_tokens (drop i ts) s)"

lemma drop_is_star: "is_star_at ts i \<Longrightarrow> (drop i ts = Star # drop (Suc i) ts \<or> drop i ts = DoubleStar # drop (Suc i) ts)"
  by (auto simp: is_star_at_def slice_get_def split: if_splits) (metis Cons_nth_drop_Suc)+

lemma match_tokens_skip: "is_star_at ts i \<Longrightarrow> match_tokens (drop (Suc i) ts) s \<Longrightarrow> match_tokens (drop i ts) s"
  using drop_is_star [of ts i] by (cases s) auto

lemma match_tokens_eps:
  assumes "j \<in> eps_from ts i" "match_tokens (drop j ts) s"
  shows "match_tokens (drop i ts) s"
proof -
  have "i \<le> j" "\<forall>k. i \<le> k \<and> k < j \<longrightarrow> is_star_at ts k" using assms(1) by (auto simp: eps_from_def)
  then show ?thesis using assms(2)
    by (induction i rule: inc_induct) (auto intro: match_tokens_skip)
qed

lemma eps_closed_accept:
  assumes "eps_closed ts A" "i \<in> A" "i \<le> length ts" "match_tokens (drop i ts) []"
  shows "length ts \<in> A"
  using assms(3,2,4)
proof (induction i rule: inc_induct)
  case (step i)
  have d: "drop i ts = ts ! i # drop (Suc i) ts" using step.hyps by (simp add: Cons_nth_drop_Suc)
  with step.prems(2) have "ts ! i = Star \<or> ts ! i = DoubleStar" "match_tokens (drop (Suc i) ts) []"
    by (cases "ts ! i"; simp)+
  moreover from this step.hyps have "is_star_at ts i" by (auto simp: is_star_at_def slice_get_def)
  ultimately show ?case using step assms(1) by (auto simp: eps_closed_def)
qed simp

lemma glob_target_sound:
  "glob_target ts c i = Some t \<Longrightarrow> match_tokens (drop t ts) cs \<Longrightarrow> match_tokens (drop i ts) (c # cs)"
  by (cases "i < length ts"; cases "ts ! i")
     (auto simp: glob_target_def slice_get_def Cons_nth_drop_Suc [symmetric] split: if_splits)

lemma glob_target_le: "glob_target ts c i = Some t \<Longrightarrow> t \<le> length ts"
  by (auto simp: glob_target_def slice_get_def split: if_splits token.splits)

lemma glob_target_complete:
  assumes "eps_closed ts A" "i \<in> A" "i \<le> length ts" "match_tokens (drop i ts) (c # cs)"
  shows "\<exists>j \<in> A. \<exists>t. glob_target ts c j = Some t \<and> match_tokens (drop t ts) cs"
  using assms(3,2,4)
proof (induction i rule: inc_induct)
  case (step i)
  have d: "drop i ts = ts ! i # drop (Suc i) ts" using step.hyps by (simp add: Cons_nth_drop_Suc)
  show ?case
  proof (cases "(\<exists>t. glob_target ts c i = Some t \<and> match_tokens (drop t ts) cs)")
    case False
    with d step.hyps step.prems(2) have "is_star_at ts i" "match_tokens (drop (Suc i) ts) (c # cs)"
      by (cases "ts ! i"; force simp: glob_target_def slice_get_def is_star_at_def)+
    with step.IH step.prems(1) assms(1) show ?thesis by (auto simp: eps_closed_def)
  qed (use step.prems in blast)
qed simp

lemma glob_step_correct:
  assumes "states_ok ts gen (seen, B)" "eps_closed ts (set B)"
  shows "let r = fold (\<lambda>state acc. case glob_target ts c state of
           Some t \<Rightarrow> add_state ts t gen acc | None \<Rightarrow> acc) active (seen, B);
           T = {t. \<exists>i \<in> set active. glob_target ts c i = Some t}
     in states_ok ts gen r \<and> eps_closed ts (set (snd r)) \<and> set B \<union> T \<subseteq> set (snd r) \<and>
        set (snd r) \<subseteq> set B \<union> (\<Union>t \<in> T. eps_from ts t)"
  using assms
proof (induction active arbitrary: seen B)
  case (Cons i active)
  show ?case
  proof (cases "glob_target ts c i")
    case None
    with Cons show ?thesis by (simp add: Let_def)
  next
    case (Some t)
    obtain seen' B' where r: "add_state ts t gen (seen, B) = (seen', B')"
      by (cases "add_state ts t gen (seen, B)")
    from add_state_correct [OF Cons.prems(1) glob_target_le [OF Some]] Cons.prems(2)
    have ok: "states_ok ts gen (seen', B')" "eps_closed ts (set B')" "insert t (set B) \<subseteq> set B'"
      "set B' \<subseteq> set B \<union> eps_from ts t"
      by (auto simp: r Let_def eps_closed_def)
    from Cons.IH [OF ok(1,2)] ok(3,4) Some r show ?thesis by (simp add: Let_def) blast
  qed
qed (simp add: Let_def)

lemma states_ok_next: "states_ok ts gen (seen, A) \<Longrightarrow> states_ok ts (Suc gen) (seen, [])"
  by (auto simp: states_ok_def le_SucI) (metis less_Suc_eq_le not_less_eq_eq nth_mem order_refl)

lemma glob_run_correct:
  "states_ok ts gen (seen, active) \<Longrightarrow> eps_closed ts (set active) \<Longrightarrow>
     glob_run ts s gen seen active \<longleftrightarrow> set_matches ts (set active) s"
proof (induction s arbitrary: gen seen active)
  case Nil
  have "\<forall>i \<in> set active. i \<le> length ts" using Nil.prems(1) by (simp add: states_ok_def)
  then show ?case using eps_closed_accept [OF Nil.prems(2)]
    by (auto simp: set_matches_def intro: bexI [of _ "length ts"])
next
  case (Cons c s)
  have le: "\<forall>i \<in> set active. i \<le> length ts" using Cons.prems(1) by (simp add: states_ok_def)
  obtain seen' active' where r: "glob_step ts c (gen + 1) seen active = (seen', active')"
    by (cases "glob_step ts c (gen + 1) seen active")
  let ?T = "{t. \<exists>i \<in> set active. glob_target ts c i = Some t}"
  from glob_step_correct [OF states_ok_next [OF Cons.prems(1)], of c active] r
  have ok: "states_ok ts (gen + 1) (seen', active')" "eps_closed ts (set active')" "?T \<subseteq> set active'"
    "set active' \<subseteq> (\<Union>t \<in> ?T. eps_from ts t)"
    by (simp_all add: glob_step_def Let_def eps_closed_def)
  have "set_matches ts (set active') s \<longleftrightarrow> set_matches ts (set active) (c # s)"
  proof
    assume "set_matches ts (set active') s"
    then obtain j where "j \<in> set active'" "match_tokens (drop j ts) s" by (auto simp: set_matches_def)
    with ok(4) obtain t i where "i \<in> set active" "glob_target ts c i = Some t" "match_tokens (drop t ts) s"
      by (blast intro: match_tokens_eps)
    then show "set_matches ts (set active) (c # s)"
      unfolding set_matches_def by (blast intro: glob_target_sound)
  next
    assume "set_matches ts (set active) (c # s)"
    with glob_target_complete [OF Cons.prems(2)] le ok(3) show "set_matches ts (set active') s"
      unfolding set_matches_def by blast
  qed
  with Cons.IH [OF ok(1,2)] r show ?case by (auto simp: set_matches_def Let_def)
qed

lemma match_wildcards_correct: "match_wildcards p v \<longleftrightarrow> match_tokens (tokenize_glob (utf8_chars p)) (utf8_chars v)"
proof -
  let ?ts = "tokenize_glob (utf8_chars p)"
  have init: "states_ok ?ts 1 (replicate (length ?ts + 1) 0, [])"
    by (auto simp: states_ok_def nth_Cons')
  obtain seen A where r: "add_state ?ts 0 1 (replicate (length ?ts + 1) 0, []) = (seen, A)"
    by (cases "add_state ?ts 0 1 (replicate (length ?ts + 1) 0, [])")
  from add_state_correct [OF init, of 0] r have ok: "states_ok ?ts 1 (seen, A)" "eps_closed ?ts (set A)"
    "0 \<in> set A" "set A \<subseteq> eps_from ?ts 0" by (auto simp: Let_def)
  have "set_matches ?ts (set A) (utf8_chars v) \<longleftrightarrow> match_tokens ?ts (utf8_chars v)"
    using ok(3,4) match_tokens_eps [of _ ?ts 0 "utf8_chars v"] unfolding set_matches_def by fastforce
  with glob_run_correct [OF ok(1,2), of "utf8_chars v"] r show ?thesis by (simp add: match_wildcards_def Let_def)
qed

lemma tokenize_glob_literal:
  "\<forall>c \<in> set p. c \<noteq> ''*'' \<and> c \<noteq> ''?'' \<Longrightarrow> tokenize_glob (p @ q) = map Literal p @ tokenize_glob q"
  by (induction p) auto

lemma match_tokens_literals:
  "match_tokens (map Literal p @ ts) v \<longleftrightarrow> (\<exists>r. v = p @ r \<and> match_tokens ts r)"
proof (induction p arbitrary: v)
  case (Cons c p)
  then show ?case by (cases v) auto
qed simp

lemma utf8_char_bytes: "c \<in> set (utf8_chars s) \<Longrightarrow> set c \<subseteq> set s"
  using set_concat [of "utf8_chars s"] unfolding concat_utf8_chars by blast

text \<open>A literal prefix that ends before an ASCII character is whole characters, in the pattern and in a
  value that begins with it.\<close>

lemma utf8_literal_prefix:
  assumes "utf8_ok p" and "drop w p = [] \<or> \<not> is_continuation (hd (drop w p))"
  shows "utf8_ok (take w p)"
proof (cases "drop w p")
  case Nil
  then show ?thesis using assms(1) by simp
next
  case (Cons c cs)
  then have "p = take w p @ c # cs" by (metis append_take_drop_id)
  then show ?thesis using utf8_prefix [of "take w p" c cs] assms by (simp add: Cons)
qed

text \<open>C4. The automaton with generation-stamped state sets, behind its literal-prefix shortcut,
  decides exactly the recursive meaning of the pattern on the characters of the value: a literal
  matches itself, \<^verbatim>\<open>?\<close> one character and \<^verbatim>\<open>*\<close> any run of characters other than a slash, \<^verbatim>\<open>**\<close> any
  run of characters. Pattern and value are any UTF-8 texts, as every \<^verbatim>\<open>str\<close> is.\<close>

theorem glob_match_correct:
  assumes "utf8_ok p" and "utf8_ok v"
  shows "glob_match p v \<longleftrightarrow> match_tokens (tokenize_glob (utf8_chars p)) (utf8_chars v)"
proof -
  let ?wild = "\<lambda>c. c = CHR ''*'' \<or> c = CHR ''?''"
  define w where "w = unwrap_or (position ?wild p) (length p)"
  have lit: "\<forall>c \<in> set (take w p). \<not> ?wild c" and stop: "drop w p = [] \<or> ?wild (hd (drop w p))"
  proof -
    have "(\<forall>c \<in> set (take w p). \<not> ?wild c) \<and> (drop w p = [] \<or> ?wild (hd (drop w p)))"
    proof (cases "position ?wild p")
      case None
      then show ?thesis using position_None [of ?wild p] by (simp add: w_def)
    next
      case (Some i)
      from position_Some [OF this] Some show ?thesis by (auto simp: w_def in_set_conv_nth hd_drop_conv_nth)
    qed
    then show "\<forall>c \<in> set (take w p). \<not> ?wild c" "drop w p = [] \<or> ?wild (hd (drop w p))" by blast+
  qed
  have "\<not> is_continuation c" if "?wild c" for c using that by (auto simp: is_continuation_def)
  then have pre: "utf8_ok (take w p)" using utf8_literal_prefix [OF assms(1)] stop by blast
  have chars: "\<forall>c \<in> set (utf8_chars (take w p)). c \<noteq> ''*'' \<and> c \<noteq> ''?''"
    using lit utf8_char_bytes [of _ "take w p"] by fastforce
  have "utf8_chars p = utf8_chars (take w p) @ utf8_chars (drop w p)"
    using utf8_chars_append [OF pre, of "drop w p"] by simp
  then have "match_tokens (tokenize_glob (utf8_chars p)) (utf8_chars v) \<longleftrightarrow>
      (\<exists>rs. utf8_chars v = utf8_chars (take w p) @ rs \<and> match_tokens (tokenize_glob (utf8_chars (drop w p))) rs)"
    using tokenize_glob_literal [OF chars] match_tokens_literals by simp
  also have "\<dots> \<longleftrightarrow> (\<exists>r. v = take w p @ r \<and> match_tokens (tokenize_glob (utf8_chars (drop w p))) (utf8_chars r))"
  proof
    assume "\<exists>rs. utf8_chars v = utf8_chars (take w p) @ rs \<and> match_tokens (tokenize_glob (utf8_chars (drop w p))) rs"
    then obtain rs where rs: "utf8_chars v = utf8_chars (take w p) @ rs" "match_tokens (tokenize_glob (utf8_chars (drop w p))) rs" by blast
    have v: "v = take w p @ concat rs" using arg_cong [OF rs(1), of concat] by simp
    then have "utf8_chars (concat rs) = rs" using utf8_chars_append [OF pre, of "concat rs"] rs(1) by simp
    then show "\<exists>r. v = take w p @ r \<and> match_tokens (tokenize_glob (utf8_chars (drop w p))) (utf8_chars r)"
      using v rs(2) by metis
  qed (use utf8_chars_append [OF pre] in auto)
  finally show ?thesis
    by (auto simp: glob_match_def w_def [symmetric] Let_def match_wildcards_correct strip_prefix_Some
        strip_prefix_None split: option.splits)
qed

text \<open>The \<^verbatim>\<open>e\<close> with an acute accent is two bytes and one character.\<close>

definition cafe :: string where "cafe = ''caf'' @ [CHR 0xC3, CHR 0xA9]"

theorem glob_match_correct_witness:
  "glob_match ''caf?'' cafe \<and> \<not> glob_match ''caf??'' cafe \<and> \<not> glob_match ''cafe*'' cafe"
proof -
  have "utf8_ok cafe" "utf8_ok ''caf?''" "utf8_ok ''caf??''" "utf8_ok ''cafe*''" by code_simp+
  moreover have "match_tokens (tokenize_glob (utf8_chars ''caf?'')) (utf8_chars cafe)"
    "\<not> match_tokens (tokenize_glob (utf8_chars ''caf??'')) (utf8_chars cafe)"
    "\<not> match_tokens (tokenize_glob (utf8_chars ''cafe*'')) (utf8_chars cafe)" by code_simp+
  ultimately show ?thesis by (simp add: glob_match_correct)
qed

definition last_match :: "string \<Rightarrow> string list \<Rightarrow> string option" where
  "last_match value patterns = List.find (\<lambda>p. glob_match (snd (split_negation p)) value) (rev patterns)"

lemma filter_loop_last_match:
  "filter_loop value dflt patterns =
     (case last_match value patterns of None \<Rightarrow> dflt | Some p \<Rightarrow> \<not> fst (split_negation p))"
  by (induction patterns rule: rev_induct) (auto simp: filter_loop_def last_match_def split_beta Let_def)

text \<open>Filters are decided by their last matching pattern: the value is selected when that
  pattern is positive, rejected when it starts with an exclamation mark, and the default holds
  when no pattern matches.\<close>

theorem matches_filter_last_match_wins:
  "matches_filter_with_default (JArray ps) value dflt =
     (case last_match value (filter_patterns (JArray ps)) of
        None \<Rightarrow> dflt
      | Some p \<Rightarrow> \<not> fst (split_negation p))"
  by (simp add: filter_loop_last_match Let_def) (simp add: last_match_def)

section \<open>What a filter selects\<close>

text \<open>A pattern with its exclamation mark, if it has one, and what a filter means: the last of its patterns that
  hits the value is a positive one.\<close>

fun negated :: "string \<Rightarrow> bool" where
  "negated (c # cs) \<longleftrightarrow> c = CHR ''!''"
| "negated [] \<longleftrightarrow> False"

definition hits :: "string \<Rightarrow> string \<Rightarrow> bool" where
  "hits p v \<longleftrightarrow> glob_match (if negated p then tl p else p) v"

definition selects :: "json \<Rightarrow> string \<Rightarrow> bool" where
  "selects f v \<longleftrightarrow>
     (let ps = filter_patterns f
      in \<exists>i < length ps. hits (ps ! i) v \<and> \<not> negated (ps ! i) \<and> (\<forall>j. i < j \<and> j < length ps \<longrightarrow> \<not> hits (ps ! j) v))"

lemma split_negation_parts: "split_negation p = (negated p, if negated p then tl p else p)"
  by (cases p) (auto simp: split_negation_def strip_prefix_def)

lemma filter_loop_snoc:
  "filter_loop v dflt (ps @ [p]) = (if hits p v then \<not> negated p else filter_loop v dflt ps)"
  by (simp add: filter_loop_def split_negation_parts hits_def)

lemma filter_loop_selects:
  "filter_loop v False ps \<longleftrightarrow>
     (\<exists>i < length ps. hits (ps ! i) v \<and> \<not> negated (ps ! i) \<and> (\<forall>j. i < j \<and> j < length ps \<longrightarrow> \<not> hits (ps ! j) v))"
proof (induction ps rule: rev_induct)
  case (snoc p ps)
  show ?case
  proof (cases "hits p v")
    case True
    have "(\<exists>i < length (ps @ [p]). hits ((ps @ [p]) ! i) v \<and> \<not> negated ((ps @ [p]) ! i) \<and>
        (\<forall>j. i < j \<and> j < length (ps @ [p]) \<longrightarrow> \<not> hits ((ps @ [p]) ! j) v)) \<longleftrightarrow> \<not> negated p" (is "?l \<longleftrightarrow> ?r")
    proof
      assume ?l
      then obtain i where i: "i < length (ps @ [p])" "\<not> negated ((ps @ [p]) ! i)"
        "\<forall>j. i < j \<and> j < length (ps @ [p]) \<longrightarrow> \<not> hits ((ps @ [p]) ! j) v" by blast
      then have "\<not> i < length ps" using True by (metis length_append_singleton lessI nth_append_length)
      then show ?r using i by (simp add: nth_append)
    next
      assume ?r
      then show ?l using True by (intro exI [of _ "length ps"]) auto
    qed
    then show ?thesis using True by (simp add: filter_loop_snoc)
  next
    case False
    then show ?thesis using snoc
      by (auto simp: filter_loop_snoc nth_append less_Suc_eq)
  qed
qed (simp add: filter_loop_def)

lemma matches_filter_selects: "matches_filter f v \<longleftrightarrow> selects f v"
  using filter_loop_selects [of v "filter_patterns f"]
  by (cases f rule: filter_patterns.cases) (auto simp: matches_filter_def selects_def Let_def filter_loop_def)

section \<open>When an event runs a workflow\<close>

definition accepted_types :: "(string \<times> json) list \<Rightarrow> string list" where
  "accepted_types obj =
     (case map_of obj ''types'' of Some ts \<Rightarrow> filter_patterns ts | None \<Rightarrow> [''opened'', ''synchronize'', ''reopened''])"

text \<open>The activity type: \<^verbatim>\<open>synchronized\<close> counts as \<^verbatim>\<open>synchronize\<close>, and pull requests have default types.\<close>

definition type_admitted :: "(string \<times> json) list \<Rightarrow> string \<Rightarrow> string option \<Rightarrow> bool" where
  "type_admitted obj event activity \<longleftrightarrow>
     (case map_of obj ''types'' of
        Some ts \<Rightarrow> (\<exists>a. activity = Some a \<and> (selects ts a \<or> a = ''synchronized'' \<and> selects ts ''synchronize''))
      | None \<Rightarrow> event \<in> {''pull_request'', ''pull_request_target''} \<longrightarrow>
          activity \<in> Some ` {''opened'', ''synchronize'', ''synchronized'', ''reopened''})"

text \<open>Branches and tags: one of the two must be admitted by the filters on it, and at least one filter on it
  must be there.\<close>

definition ref_admitted :: "(string \<times> json) list \<Rightarrow> string option \<Rightarrow> string option \<Rightarrow> bool" where
  "ref_admitted obj branch tag \<longleftrightarrow>
     (\<forall>k \<in> {''branches'', ''branches-ignore'', ''tags'', ''tags-ignore''}. map_of obj k = None) \<or>
     (\<exists>b. branch = Some b \<and> (map_of obj ''branches'' \<noteq> None \<or> map_of obj ''branches-ignore'' \<noteq> None) \<and>
        (\<forall>f. map_of obj ''branches'' = Some f \<longrightarrow> selects f b) \<and> (\<forall>f. map_of obj ''branches-ignore'' = Some f \<longrightarrow> \<not> selects f b)) \<or>
     (\<exists>t. tag = Some t \<and> (map_of obj ''tags'' \<noteq> None \<or> map_of obj ''tags-ignore'' \<noteq> None) \<and>
        (\<forall>f. map_of obj ''tags'' = Some f \<longrightarrow> selects f t) \<and> (\<forall>f. map_of obj ''tags-ignore'' = Some f \<longrightarrow> \<not> selects f t))"

definition ref_filters :: "(string \<times> json) list \<Rightarrow> (string \<times> string list) list" where
  "ref_filters obj =
     [(k, filter_patterns f). k \<leftarrow> [''branches'', ''branches-ignore'', ''tags'', ''tags-ignore''], f \<leftarrow> opt_iter (map_of obj k)]"

lemma activity_types:
  "match_types obj event activity =
     (if type_admitted obj event activity then Inr ()
      else Inl (case activity of None \<Rightarrow> ActivityTypeMissing (accepted_types obj) | Some a \<Rightarrow> ActivityTypeRejected a (accepted_types obj)))"
  by (cases "map_of obj ''types''"; cases activity)
    (auto simp: match_types_def type_admitted_def accepted_types_def matches_filter_selects normalize_activity_type_def
      is_pr_event_def check_activity_type_def PR_DEFAULT_TYPES_def)

lemma axis_admitted:
  "axis_ok obj key ignore_key name \<longleftrightarrow>
     (\<exists>n. name = Some n \<and> (map_of obj key \<noteq> None \<or> map_of obj ignore_key \<noteq> None) \<and>
        (\<forall>f. map_of obj key = Some f \<longrightarrow> selects f n) \<and> (\<forall>f. map_of obj ignore_key = Some f \<longrightarrow> \<not> selects f n))"
  by (cases name; cases "map_of obj key"; cases "map_of obj ignore_key") (auto simp: axis_ok_def matches_filter_selects)

lemma refs_admitted:
  "match_refs obj branch tag = (if ref_admitted obj branch tag then Inr () else Inl (RefFiltered branch tag (ref_filters obj)))"
proof -
  have keys: "List.map_filter (\<lambda>key. map_option (\<lambda>v. (key, filter_patterns v)) (map_of obj key))
      [''branches'', ''branches-ignore'', ''tags'', ''tags-ignore''] = ref_filters obj"
    by (simp add: ref_filters_def List.map_filter_simps split: option.split)
  show ?thesis
    unfolding match_refs_def Let_def keys ref_admitted_def axis_admitted [symmetric] by (auto simp: axis_ok_def)
qed

text \<open>C40. An event that a workflow declares with filters runs it exactly when the activity type, the refs, the
  paths and the upstream workflows are admitted; otherwise the refusal names the first filter, in that
  order, that does not admit it, with what that filter accepts. A filter admits a value when its last
  matching pattern is positive; under \<^verbatim>\<open>paths\<close> one changed path must be selected, under
  \<^verbatim>\<open>paths-ignore\<close> one must not be, unless none is known.\<close>

theorem match_event_object_correct:
  assumes "map_of m event = Some (JObject obj)"
  shows "match_event (Map m) event branch tag paths activity upstream =
    (if \<not> type_admitted obj event activity
     then Inl (case activity of None \<Rightarrow> ActivityTypeMissing (accepted_types obj) | Some a \<Rightarrow> ActivityTypeRejected a (accepted_types obj))
     else if \<not> ref_admitted obj branch tag then Inl (RefFiltered branch tag (ref_filters obj))
     else if \<exists>f. map_of obj ''paths'' = Some f \<and> (\<forall>p \<in> set paths. \<not> selects f p)
     then Inl (PathsUnmatched (length paths) (filter_patterns (the (map_of obj ''paths''))))
     else if \<exists>f. map_of obj ''paths-ignore'' = Some f \<and> paths \<noteq> [] \<and> (\<forall>p \<in> set paths. selects f p)
     then Inl (PathsAllIgnored (length paths) (filter_patterns (the (map_of obj ''paths-ignore''))))
     else if \<exists>f. map_of obj ''workflows'' = Some f \<and> (\<forall>w \<in> set upstream. \<not> selects f w)
     then Inl (UpstreamWorkflowUnmatched (filter_patterns (the (map_of obj ''workflows''))))
     else Inr ())"
proof -
  define unmatched where "unmatched \<longleftrightarrow> (\<exists>f. map_of obj ''paths'' = Some f \<and> (\<forall>p \<in> set paths. \<not> selects f p))"
  define ignored where "ignored \<longleftrightarrow> (\<exists>f. map_of obj ''paths-ignore'' = Some f \<and> paths \<noteq> [] \<and> (\<forall>p \<in> set paths. selects f p))"
  define upstreamless where "upstreamless \<longleftrightarrow> (\<exists>f. map_of obj ''workflows'' = Some f \<and> (\<forall>w \<in> set upstream. \<not> selects f w))"
  have paths: "match_paths obj paths =
      (if unmatched then Inl (PathsUnmatched (length paths) (filter_patterns (the (map_of obj ''paths''))))
       else if ignored then Inl (PathsAllIgnored (length paths) (filter_patterns (the (map_of obj ''paths-ignore''))))
       else Inr ())"
    by (cases "map_of obj ''paths''"; cases "map_of obj ''paths-ignore''")
      (auto simp: match_paths_def list_ex_iff list_all_iff matches_filter_selects unmatched_def ignored_def)
  have wf: "match_workflows obj upstream =
      (if upstreamless then Inl (UpstreamWorkflowUnmatched (filter_patterns (the (map_of obj ''workflows'')))) else Inr ())"
    by (cases "map_of obj ''workflows''") (auto simp: match_workflows_def list_ex_iff matches_filter_selects upstreamless_def)
  have "match_event (Map m) event branch tag paths activity upstream =
      and_then (match_types obj event activity) (\<lambda>_. and_then (match_refs obj branch tag) (\<lambda>_.
        and_then (match_paths obj paths) (\<lambda>_. match_workflows obj upstream)))"
    using assms by simp
  then show ?thesis
    unfolding activity_types refs_admitted paths wf unmatched_def [symmetric] ignored_def [symmetric] upstreamless_def [symmetric]
    by (cases "type_admitted obj event activity"; cases "ref_admitted obj branch tag"; cases unmatched; cases ignored; cases upstreamless)
      simp_all
qed

theorem match_event_object_correct_witness:
  "match_event (Map [(''push'', JObject [(''branches'', JArray [JString ''**'', JString ''!wip/*''])])])
     ''push'' (Some ''main'') None [] None [] = Inr () \<and>
   match_event (Map [(''push'', JObject [(''branches'', JArray [JString ''**'', JString ''!wip/*''])])])
     ''push'' (Some ''wip/a'') None [] None [] = Inl (RefFiltered (Some ''wip/a'') None [(''branches'', [''**'', ''!wip/*''])])"
proof -
  let ?obj = "[(''branches'', JArray [JString ''**'', JString ''!wip/*''])]"
  have cfg: "map_of [(''push'', JObject ?obj)] ''push'' = Some (JObject ?obj)" by simp
  have "matches_filter (JArray [JString ''**'', JString ''!wip/*'']) ''main''"
    "\<not> matches_filter (JArray [JString ''**'', JString ''!wip/*'']) ''wip/a''" by code_simp+
  then have "ref_admitted ?obj (Some ''main'') None" "\<not> ref_admitted ?obj (Some ''wip/a'') None"
    by (simp_all add: ref_admitted_def matches_filter_selects)
  moreover have "type_admitted ?obj ''push'' None" "ref_filters ?obj = [(''branches'', [''**'', ''!wip/*''])]"
    by (simp_all add: type_admitted_def ref_filters_def List.map_filter_simps)
  ultimately show ?thesis by (simp add: match_event_object_correct [OF cfg] del: match_event.simps)
qed

text \<open>The conflict check accepts a block exactly when no filter stands beside its ignoring
  counterpart, so that each ref and path axis has one polarity.\<close>

theorem check_conflicting_filters_correct:
  "check_conflicting_filters t event = Inr () \<longleftrightarrow>
     (case event_config t event of
        None \<Rightarrow> True
      | Some obj \<Rightarrow> \<forall>k. k \<in> {''branches'', ''tags'', ''paths''} \<longrightarrow>
          \<not> (map_of obj k \<noteq> None \<and> map_of obj (k @ ''-ignore'') \<noteq> None))"
  by (auto simp: check_conflicting_filters_def filter_pairs_def split: option.splits if_splits)

theorem check_conflicting_filters_correct_witness:
  "check_conflicting_filters (Map [(''push'', JObject [(''tags'', JString ''v*''), (''tags-ignore'', JString ''v0'')])])
     ''push'' \<noteq> Inr ()"
  using check_conflicting_filters_correct
    [of "Map [(''push'', JObject [(''tags'', JString ''v*''), (''tags-ignore'', JString ''v0'')])]" "''push''"]
  by (auto simp: event_config_def)

end
