(* ===== verification/Env_Gate.thy ===== *)
theory Env_Gate
  imports Glob_Trigger
begin

text \<open>
  Environment protection gates (\<^verbatim>\<open>runtime_scheduling.rs\<close>): the deployment branch policy, the wait
  timer and the required reviewers that hold a job before it may take a concurrency slot. The
  gate's stamps are state that travels with the job; an evaluation returns the outcome and the
  new stamps. Instants are \<^verbatim>\<open>i64\<close> nanoseconds. The lines the source logs are left out; what
  the resolver knows of an environment is an argument.
\<close>

datatype environment_gate_outcome = Proceed | WaitGate | FailedGate

record environment_rules =
  deployment_branches :: "string list"
  deployment_tags :: "string list"
  wait_timer_minutes :: nat
  required_reviewers :: nat
  reviewers :: "string list"
  prevent_self_review :: bool
  branch_policy_restricted :: bool
  protected_branches_only :: bool
  custom_protection_rules :: "string list"

record environment_approval_record =
  at_unix_nanos :: int
  actor :: "string option"
  admin_override :: bool
  approval_note :: "string option"

record environment_gate_state =
  environment_name :: "string option"
  wait_until_unix_nanos :: "int option"
  approval_requested_at_unix_nanos :: "int option"
  approval_announced :: bool
  approvals :: "environment_approval_record list"
  approvals_required :: "nat option"
  rejected_by :: "string option"
  rejected_at_unix_nanos :: "int option"
  rejected_note :: "string option"
  unresolvable_name :: "string option"

definition default_gate :: environment_gate_state where
  "default_gate = \<lparr>environment_name = None, wait_until_unix_nanos = None,
     approval_requested_at_unix_nanos = None, approval_announced = False, approvals = [],
     approvals_required = None, rejected_by = None, rejected_at_unix_nanos = None,
     rejected_note = None, unresolvable_name = None\<rparr>"

datatype environment_lookup = Resolved "environment_rules option" | LookupPending

definition ENVIRONMENT_APPROVAL_WINDOW_NANOS :: int where
  "ENVIRONMENT_APPROVAL_WINDOW_NANOS = 24 * 60 * 60 * 1000000000"

section \<open>Names and refs\<close>

definition environment_gate_name_of :: "json option \<Rightarrow> string option" where
  "environment_gate_name_of environment =
     (case environment of
        Some (JString name) \<Rightarrow> Some name
      | Some (JObject m) \<Rightarrow> Option.bind (map_of m ''name'') as_str
      | _ \<Rightarrow> None)"

definition has_expressions :: "string \<Rightarrow> bool" where
  "has_expressions input \<longleftrightarrow> str_contains input ''${{''"

definition resolved_environment_name_of :: "string \<Rightarrow> string option" where
  "resolved_environment_name_of name = (if \<not> has_expressions name then Some name else None)"

definition environment_url_literal :: "json \<Rightarrow> string option" where
  "environment_url_literal environment =
     (case json_get environment ''url'' of
        None \<Rightarrow> None
      | Some url \<Rightarrow>
          (case as_str url of
             Some raw \<Rightarrow> if trim raw \<noteq> [] \<and> \<not> str_contains raw ''${{'' then Some raw else None
           | None \<Rightarrow>
               (if Option.bind (json_get url ''type'') as_u64 = Some 0
                then opt_filter (\<lambda>l. l \<noteq> []) (Option.bind (json_get url ''lit'') as_str)
                else None)))"

definition pattern_matches :: "string \<Rightarrow> string \<Rightarrow> string \<Rightarrow> bool" where
  "pattern_matches prefix name pattern = glob_match (unwrap_or (strip_prefix prefix pattern) pattern) name"

definition ref_allowed :: "environment_rules \<Rightarrow> string \<Rightarrow> bool" where
  "ref_allowed rule git_ref =
     (let branch = strip_prefix ''refs/heads/'' git_ref;
          tag = strip_prefix ''refs/tags/'' git_ref;
          restricted = branch_policy_restricted rule \<or> deployment_branches rule \<noteq> [] \<or>
            deployment_tags rule \<noteq> []
      in if \<not> restricted then True
         else if protected_branches_only rule then
           (if deployment_branches rule = [] then
              branch \<noteq> None \<or> (\<not> starts_with ''refs/'' git_ref \<and> tag = None)
            else (case branch of
                    None \<Rightarrow> False
                  | Some b \<Rightarrow> list_ex (\<lambda>name. name = b) (deployment_branches rule)))
         else
           (case (branch, tag) of
              (Some b, _) \<Rightarrow> deployment_branches rule \<noteq> [] \<and>
                list_ex (pattern_matches ''refs/heads/'' b) (deployment_branches rule)
            | (None, Some t) \<Rightarrow> deployment_tags rule \<noteq> [] \<and>
                list_ex (pattern_matches ''refs/tags/'' t) (deployment_tags rule)
            | (None, None) \<Rightarrow> deployment_branches rule \<noteq> [] \<and>
                list_ex (pattern_matches ''refs/heads/'' git_ref) (deployment_branches rule)))"

definition rules_gate_anything :: "environment_rules \<Rightarrow> bool" where
  "rules_gate_anything rule \<longleftrightarrow>
     branch_policy_restricted rule \<or> protected_branches_only rule \<or>
     deployment_branches rule \<noteq> [] \<or> deployment_tags rule \<noteq> [] \<or>
     wait_timer_minutes rule > 0 \<or> required_reviewers rule > 0 \<or> custom_protection_rules rule \<noteq> []"

section \<open>Evaluation\<close>

text \<open>\<^verbatim>\<open>u64 as i64\<close>.\<close>

definition as_i64 :: "nat \<Rightarrow> int" where
  "as_i64 n = (if n mod 2 ^ 64 < 2 ^ 63 then int (n mod 2 ^ 64) else int (n mod 2 ^ 64) - 2 ^ 64)"

definition arm_wait :: "environment_rules \<Rightarrow> int \<Rightarrow> environment_gate_state \<Rightarrow> environment_gate_state" where
  "arm_wait rule now gate =
     (if wait_until_unix_nanos gate = None \<and> wait_timer_minutes rule > 0 then
        gate\<lparr>wait_until_unix_nanos :=
          Some (sat_i64 (now + sat_i64 (as_i64 (wait_timer_minutes rule) * 60000000000)))\<rparr>
      else gate)"

definition arm_approval :: "environment_rules \<Rightarrow> int \<Rightarrow> environment_gate_state \<Rightarrow> environment_gate_state" where
  "arm_approval rule now gate =
     (if approval_requested_at_unix_nanos gate = None \<and> required_reviewers rule > 0 then
        gate\<lparr>approval_requested_at_unix_nanos := Some now,
             approvals_required := (case approvals_required gate of
                None \<Rightarrow> Some (required_reviewers rule) | Some n \<Rightarrow> Some n)\<rparr>
      else gate)"

definition approval_outcome :: "environment_rules \<Rightarrow> int \<Rightarrow> environment_gate_state \<Rightarrow> environment_gate_outcome" where
  "approval_outcome rule now gate =
     (case approval_requested_at_unix_nanos gate of
        None \<Rightarrow> Proceed
      | Some requested_at \<Rightarrow>
          if length (approvals gate) mod 2 ^ 32 \<ge> max (unwrap_or (approvals_required gate) (required_reviewers rule)) 1
          then Proceed
          else if sat_i64 (now - requested_at) > ENVIRONMENT_APPROVAL_WINDOW_NANOS then FailedGate
          else WaitGate)"

definition evaluate_rules :: "environment_rules \<Rightarrow> string \<Rightarrow> environment_gate_state \<Rightarrow> int \<Rightarrow>
    environment_gate_outcome \<times> environment_gate_state" where
  "evaluate_rules rule git_ref gate now =
     (if rejected_by gate \<noteq> None then (FailedGate, gate)
      else if custom_protection_rules rule \<noteq> [] then (FailedGate, gate)
      else if \<not> ref_allowed rule git_ref then (FailedGate, gate)
      else
        let gate1 = arm_wait rule now gate
        in if (case wait_until_unix_nanos gate1 of None \<Rightarrow> False | Some deadline \<Rightarrow> now < deadline)
           then (WaitGate, gate1)
           else let gate2 = arm_approval rule now gate1
                in (approval_outcome rule now gate2, gate2))"

definition evaluate_environment_gate :: "environment_lookup \<Rightarrow> string \<Rightarrow> string \<Rightarrow>
    environment_gate_state option \<Rightarrow> int \<Rightarrow> environment_gate_outcome \<times> environment_gate_state option" where
  "evaluate_environment_gate lookup git_ref env_name gate now =
     (if Option.bind gate unresolvable_name \<noteq> None then (FailedGate, gate)
      else case lookup of
        LookupPending \<Rightarrow> (WaitGate, Some ((unwrap_or gate default_gate)\<lparr>environment_name := Some env_name\<rparr>))
      | Resolved rules \<Rightarrow>
          if resolved_environment_name_of env_name = None then
            (WaitGate, Some ((unwrap_or gate default_gate)\<lparr>environment_name := Some env_name\<rparr>))
          else case opt_filter rules_gate_anything rules of
            None \<Rightarrow> (Proceed, None)
          | Some rule \<Rightarrow>
              let (outcome, g) = evaluate_rules rule git_ref
                    ((unwrap_or gate default_gate)\<lparr>environment_name := Some env_name\<rparr>) now
              in (outcome, Some g))"

record gated_job =
  message_environment_name :: "string option"
  job_environment :: "json option"
  gated_needs :: "string list"
  environment_gate :: "environment_gate_state option"

definition check_environment_gates :: "(string \<Rightarrow> environment_lookup) \<Rightarrow> string \<Rightarrow> gated_job \<Rightarrow> int \<Rightarrow>
    environment_gate_outcome \<times> gated_job" where
  "check_environment_gates lookup_sync git_ref job now =
     (case or_else (message_environment_name job) (environment_gate_name_of (job_environment job)) of
        None \<Rightarrow> (Proceed, job)
      | Some env_name \<Rightarrow>
          if resolved_environment_name_of env_name = None \<and> gated_needs job \<noteq> [] then (Proceed, job)
          else let (outcome, gate) = evaluate_environment_gate (lookup_sync env_name) git_ref env_name
                     (environment_gate job) now
               in (outcome, job\<lparr>environment_gate := gate\<rparr>))"

section \<open>Properties\<close>

lemma arm_wait_fields [simp]:
  "rejected_by (arm_wait r n g) = rejected_by g" "approvals (arm_wait r n g) = approvals g"
  "approval_requested_at_unix_nanos (arm_wait r n g) = approval_requested_at_unix_nanos g"
  "approvals_required (arm_wait r n g) = approvals_required g"
  by (simp_all add: arm_wait_def)

lemma arm_approval_fields [simp]:
  "rejected_by (arm_approval r n g) = rejected_by g" "approvals (arm_approval r n g) = approvals g"
  "wait_until_unix_nanos (arm_approval r n g) = wait_until_unix_nanos g"
  by (simp_all add: arm_approval_def)

lemma evaluate_environment_gate_rule:
  assumes "Option.bind gate unresolvable_name = None" "\<not> has_expressions env" "rules_gate_anything rule"
  shows "evaluate_environment_gate (Resolved (Some rule)) ref env gate now =
    map_prod id Some (evaluate_rules rule ref ((unwrap_or gate default_gate)\<lparr>environment_name := Some env\<rparr>) now)"
  using assms
  by (simp add: evaluate_environment_gate_def resolved_environment_name_of_def split_beta map_prod_def Let_def)

lemma evaluate_rules_Proceed:
  assumes "evaluate_rules rule ref gate now = (Proceed, gate')"
  shows "rejected_by gate = None" "custom_protection_rules rule = []" "ref_allowed rule ref"
    "gate' = arm_approval rule now (arm_wait rule now gate)"
    "approval_outcome rule now gate' = Proceed"
    "\<forall>deadline. wait_until_unix_nanos gate' = Some deadline \<longrightarrow> deadline \<le> now"
  using assms by (auto simp: evaluate_rules_def Let_def split: if_splits option.splits)

text \<open>C9. The gate opens fail-closed: a job of a protected environment proceeds only when nobody
  rejected it, no custom rule stands, its ref is allowed, a declared wait timer is armed and has
  run out, and a declared reviewer rule has been requested and answered by at least the required
  number of approvals.\<close>

theorem environment_gate_fails_closed:
  assumes "evaluate_environment_gate (Resolved (Some rule)) ref env gate now = (Proceed, gate')"
    "rules_gate_anything rule"
  shows "\<exists>g. gate' = Some g \<and> rejected_by g = None \<and> custom_protection_rules rule = [] \<and> ref_allowed rule ref \<and>
    (wait_timer_minutes rule > 0 \<longrightarrow> (\<exists>d. wait_until_unix_nanos g = Some d \<and> d \<le> now)) \<and>
    (required_reviewers rule > 0 \<longrightarrow>
       max 1 (unwrap_or (approvals_required g) (required_reviewers rule)) \<le> length (approvals g))"
proof -
  have nb: "Option.bind gate unresolvable_name = None" "\<not> has_expressions env"
    using assms(1) by (auto simp: evaluate_environment_gate_def resolved_environment_name_of_def split: if_splits)
  let ?g0 = "(unwrap_or gate default_gate)\<lparr>environment_name := Some env\<rparr>"
  from assms(1) obtain g where g: "gate' = Some g" "evaluate_rules rule ref ?g0 now = (Proceed, g)"
    by (cases "evaluate_rules rule ref ?g0 now")
       (auto simp: evaluate_environment_gate_rule [OF nb assms(2)])
  note p = evaluate_rules_Proceed [OF g(2)]
  have wait: "\<exists>d. wait_until_unix_nanos g = Some d" if "wait_timer_minutes rule > 0"
    using that p(4) by (auto simp: arm_wait_def)
  have req: "\<exists>t. approval_requested_at_unix_nanos g = Some t" if "required_reviewers rule > 0"
    using that p(4) by (auto simp: arm_approval_def)
  have count: "max 1 (unwrap_or (approvals_required g) (required_reviewers rule)) \<le> length (approvals g)"
    if "approval_requested_at_unix_nanos g = Some t" for t
  proof -
    have "max (unwrap_or (approvals_required g) (required_reviewers rule)) 1 \<le> length (approvals g) mod 2 ^ 32"
      using p(5) that by (auto simp: approval_outcome_def split: if_splits)
    also have "\<dots> \<le> length (approvals g)" by (rule mod_less_eq_dividend)
    finally show ?thesis by (simp add: max.commute)
  qed
  have rej: "rejected_by g = None" using p(1,4) by simp
  have w: "\<exists>d. wait_until_unix_nanos g = Some d \<and> d \<le> now" if "wait_timer_minutes rule > 0"
    using wait [OF that] p(6) by blast
  have c: "max 1 (unwrap_or (approvals_required g) (required_reviewers rule)) \<le> length (approvals g)"
    if "required_reviewers rule > 0" using req [OF that] count by blast
  show ?thesis by (intro exI [of _ g] conjI impI) (fact g(1) rej p(2,3) w c)+
qed

theorem environment_gate_fails_closed_witness:
  "\<exists>g. snd (evaluate_environment_gate (Resolved (Some \<lparr>deployment_branches = [''main''], deployment_tags = [],
      wait_timer_minutes = 0, required_reviewers = 1, reviewers = [], prevent_self_review = False,
      branch_policy_restricted = False, protected_branches_only = False, custom_protection_rules = []\<rparr>))
      ''refs/heads/main'' ''prod''
      (Some (default_gate\<lparr>approval_requested_at_unix_nanos := Some 5, approvals := [\<lparr>at_unix_nanos = 6, actor = None,
        admin_override = True, approval_note = None\<rparr>]\<rparr>)) 9) = Some g \<and> 1 \<le> length (approvals g)"
proof -
  let ?rule = "\<lparr>deployment_branches = [''main''], deployment_tags = [],
      wait_timer_minutes = 0, required_reviewers = 1, reviewers = [], prevent_self_review = False,
      branch_policy_restricted = False, protected_branches_only = False, custom_protection_rules = []\<rparr>"
  let ?gate = "Some (default_gate\<lparr>approval_requested_at_unix_nanos := Some 5, approvals := [\<lparr>at_unix_nanos = 6, actor = None,
        admin_override = True, approval_note = None\<rparr>]\<rparr>)"
  let ?r = "evaluate_environment_gate (Resolved (Some ?rule)) ''refs/heads/main'' ''prod'' ?gate 9"
  have "ref_allowed ?rule ''refs/heads/main''" "\<not> has_expressions ''prod''" "rules_gate_anything ?rule"
    by code_simp+
  moreover from this have "fst ?r = Proceed"
    by (simp add: evaluate_environment_gate_rule default_gate_def evaluate_rules_def arm_wait_def
        arm_approval_def approval_outcome_def)
  ultimately have "fst ?r = Proceed" "rules_gate_anything ?rule" by blast+
  then have "?r = (Proceed, snd ?r)" "rules_gate_anything ?rule" by (simp_all add: prod_eq_iff)
  from environment_gate_fails_closed [OF this] show ?thesis by auto
qed

text \<open>An armed gate does not move: re-evaluating it, at any time and under any rules, keeps a
  stamped wait deadline, approval request and required count, the recorded approvals and a
  recorded rejection, or releases the gate as a whole because the environment no longer has
  rules.\<close>

theorem environment_gate_stamps_kept:
  assumes "snd (evaluate_environment_gate lookup ref env (Some g) now) = Some g'"
  shows "(\<forall>d. wait_until_unix_nanos g = Some d \<longrightarrow> wait_until_unix_nanos g' = Some d) \<and>
    (\<forall>t. approval_requested_at_unix_nanos g = Some t \<longrightarrow>
       approval_requested_at_unix_nanos g' = Some t \<and> approvals_required g' = approvals_required g) \<and>
    approvals g' = approvals g \<and> rejected_by g' = rejected_by g"
  using assms
  by (auto simp: evaluate_environment_gate_def evaluate_rules_def arm_wait_def arm_approval_def Let_def
      split: if_splits option.splits environment_lookup.splits)

theorem environment_gate_stamps_kept_witness:
  "\<exists>g'. snd (evaluate_environment_gate LookupPending ''refs/heads/main'' ''prod''
      (Some (default_gate\<lparr>wait_until_unix_nanos := Some 7\<rparr>)) 9) = Some g' \<and> wait_until_unix_nanos g' = Some 7"
proof -
  have "snd (evaluate_environment_gate LookupPending ''refs/heads/main'' ''prod''
      (Some (default_gate\<lparr>wait_until_unix_nanos := Some 7\<rparr>)) 9) =
      Some (default_gate\<lparr>wait_until_unix_nanos := Some 7, environment_name := Some ''prod''\<rparr>)"
    by (simp add: evaluate_environment_gate_def default_gate_def)
  from environment_gate_stamps_kept [OF this] this show ?thesis by simp
qed

definition timer_rules :: "nat \<Rightarrow> environment_rules" where
  "timer_rules m = \<lparr>deployment_branches = [], deployment_tags = [], wait_timer_minutes = m,
     required_reviewers = 0, reviewers = [], prevent_self_review = False,
     branch_policy_restricted = False, protected_branches_only = False, custom_protection_rules = []\<rparr>"

text \<open>A wait timer opens on time: a job first evaluated at \<open>t\<close> under rules with only a wait
  timer of \<open>m\<close> minutes waits at every evaluation before \<open>t + m\<close> minutes and proceeds at every
  evaluation from then on.\<close>

theorem environment_wait_timer:
  assumes "\<not> has_expressions env" "0 < m" "int m * 60000000000 < 2 ^ 62" "0 \<le> t" "t < 2 ^ 62" "t \<le> now"
    "evaluate_environment_gate (Resolved (Some (timer_rules m))) ref env None t = (o1, g1)"
    "evaluate_environment_gate (Resolved (Some (timer_rules m))) ref env g1 now = (o2, g2)"
  shows "o1 = WaitGate \<and> o2 = (if now < t + int m * 60000000000 then WaitGate else Proceed)"
proof -
  have m: "m < 2 ^ 62" using assms(3) by simp
  then have i: "as_i64 m = int m" by (simp add: as_i64_def)
  have sat: "sat_i64 (t + sat_i64 (as_i64 m * 60000000000)) = t + int m * 60000000000"
    using assms(3-5) unfolding i sat_i64_def by (simp add: clamp_def)
  have ga: "rules_gate_anything (timer_rules m)" using assms(2) by (simp add: rules_gate_anything_def timer_rules_def)
  have ref: "ref_allowed (timer_rules m) ref" by (simp add: ref_allowed_def timer_rules_def)
  let ?g = "default_gate\<lparr>environment_name := Some env, wait_until_unix_nanos := Some (t + int m * 60000000000)\<rparr>"
  have e1: "evaluate_environment_gate (Resolved (Some (timer_rules m))) ref env None t = (WaitGate, Some ?g)"
    using assms(2) ref sat
    by (simp add: evaluate_environment_gate_rule [OF _ assms(1) ga] evaluate_rules_def arm_wait_def Let_def)
       (simp add: default_gate_def timer_rules_def)
  have e2: "fst (evaluate_environment_gate (Resolved (Some (timer_rules m))) ref env (Some ?g) now) =
      (if now < t + int m * 60000000000 then WaitGate else Proceed)"
    using ref
    by (simp add: evaluate_environment_gate_rule [OF _ assms(1) ga] default_gate_def evaluate_rules_def
        arm_wait_def arm_approval_def approval_outcome_def Let_def)
       (simp add: timer_rules_def)
  show ?thesis using assms(7,8) e1 e2 by auto
qed

theorem environment_wait_timer_witness:
  "fst (evaluate_environment_gate (Resolved (Some (timer_rules 5))) ''refs/heads/main'' ''prod'' None 0) = WaitGate"
proof -
  obtain o1 g1 where e1: "evaluate_environment_gate (Resolved (Some (timer_rules 5))) ''refs/heads/main'' ''prod'' None 0 = (o1, g1)"
    by (cases "evaluate_environment_gate (Resolved (Some (timer_rules 5))) ''refs/heads/main'' ''prod'' None 0")
  obtain o2 g2 where e2: "evaluate_environment_gate (Resolved (Some (timer_rules 5))) ''refs/heads/main'' ''prod'' g1 1 = (o2, g2)"
    by (cases "evaluate_environment_gate (Resolved (Some (timer_rules 5))) ''refs/heads/main'' ''prod'' g1 1")
  have "\<not> has_expressions ''prod''" by code_simp
  from environment_wait_timer [OF this _ _ _ _ _ e1 e2] e1 show ?thesis by simp
qed

text \<open>A protected-branches policy never lets a tag deploy, and every other qualified ref that is
  not a branch is denied too.\<close>

theorem protected_branches_deny_tags:
  assumes "protected_branches_only rule" "branch_policy_restricted rule"
    "strip_prefix ''refs/heads/'' git_ref = None" "starts_with ''refs/'' git_ref"
  shows "\<not> ref_allowed rule git_ref"
  using assms by (simp add: ref_allowed_def)

theorem protected_branches_deny_tags_witness:
  "\<not> ref_allowed \<lparr>deployment_branches = [], deployment_tags = [''*''], wait_timer_minutes = 0,
     required_reviewers = 0, reviewers = [], prevent_self_review = False,
     branch_policy_restricted = True, protected_branches_only = True, custom_protection_rules = []\<rparr> ''refs/tags/v1''"
  by (rule protected_branches_deny_tags) (simp_all add: strip_prefix_def starts_with_def)

end
