(* ===== verification/Matrix_Expand.thy ===== *)
theory Matrix_Expand
  imports Glob_Trigger
begin

text \<open>
  Matrix expansion (crate \<^verbatim>\<open>preloop-gha-parser\<close>, \<^verbatim>\<open>matrix_expand.rs\<close>): the recursive expansion
  with its limits on rows, axes and work, the unbounded reference expansion the file keeps
  beside it, the conversion of matrix values into specifications, and the names of the expanded
  jobs. The bounded expansion is shown to return the reference's rows whenever it returns, never
  more than the limit of them, and to return whenever the limits are met. How \<^verbatim>\<open>serde_json\<close>
  prints a value is an argument.
\<close>

type_synonym row = "(string \<times> json) list"

record matrix_spec =
  axes :: "(string \<times> json list) list"
  exclude :: "row list"
  inclusions :: "row list"

record matrix_combination =
  row_values :: row
  include_only :: bool

definition MAX_MATRIX_COMBINATIONS :: nat where "MAX_MATRIX_COMBINATIONS = 256"
definition MAX_MATRIX_AXES :: nat where "MAX_MATRIX_AXES = 1024"
definition MAX_MATRIX_EXPANSION_WORK :: nat where "MAX_MATRIX_EXPANSION_WORK = 1000000"

section \<open>Shared pieces\<close>

definition matches_partial :: "row \<Rightarrow> row \<Rightarrow> bool" where
  "matches_partial candidate partial \<longleftrightarrow>
     list_all (\<lambda>(key, value). case map_of candidate key of None \<Rightarrow> False | Some c \<Rightarrow> json_eq c value) partial"

definition include_matches :: "matrix_spec \<Rightarrow> row \<Rightarrow> row \<Rightarrow> bool" where
  "include_matches spec current included \<longleftrightarrow>
     list_all (\<lambda>(key, value). map_of (axes spec) key = None \<or>
       (case map_of current key of None \<Rightarrow> False | Some c \<Rightarrow> json_eq c value)) included"

definition add_extras :: "matrix_spec \<Rightarrow> row \<Rightarrow> row \<Rightarrow> row" where
  "add_extras spec included extras =
     fold (\<lambda>(key, value) ex. if map_of (axes spec) key = None then im_insert key value ex else ex) included extras"

section \<open>The bounded expansion\<close>

record expansion_state =
  include_matched :: "bool list"
  work :: nat

text \<open>\<^verbatim>\<open>checked_add(1)\<close> and the work limit.\<close>

definition tick :: "nat \<Rightarrow> unit + nat" where
  "tick w = (if w + 1 \<ge> 2 ^ 64 then Inl ()
     else if w + 1 > MAX_MATRIX_EXPANSION_WORK then Inl ()
     else Inr (w + 1))"

definition push_matrix_row :: "matrix_combination list \<Rightarrow> matrix_combination \<Rightarrow> unit + matrix_combination list" where
  "push_matrix_row expanded row =
     (if length expanded \<ge> MAX_MATRIX_COMBINATIONS then Inl () else Inr (expanded @ [row]))"

fun exclude_loop :: "row \<Rightarrow> row list \<Rightarrow> nat \<Rightarrow> unit + nat \<times> bool" where
  "exclude_loop current [] w = Inr (w, False)"
| "exclude_loop current (exc # excs) w =
     and_then (tick w) (\<lambda>w'. if matches_partial current exc then Inr (w', True)
       else exclude_loop current excs w')"

fun include_loop_bounded :: "matrix_spec \<Rightarrow> row \<Rightarrow> nat \<Rightarrow> row list \<Rightarrow> nat \<times> bool list \<times> row \<Rightarrow>
    unit + nat \<times> bool list \<times> row" where
  "include_loop_bounded spec current index [] s = Inr s"
| "include_loop_bounded spec current index (included # rest) (w, matched, extras) =
     and_then (tick w) (\<lambda>w'.
       if include_matches spec current included
       then include_loop_bounded spec current (index + 1) rest
              (w', matched[index := True], add_extras spec included extras)
       else include_loop_bounded spec current (index + 1) rest (w', matched, extras))"

definition expand_leaf :: "matrix_spec \<Rightarrow> row \<Rightarrow> expansion_state \<times> matrix_combination list \<Rightarrow>
    unit + expansion_state \<times> matrix_combination list" where
  "expand_leaf spec current = (\<lambda>(state, expanded).
     and_then (tick (work state)) (\<lambda>w1.
     and_then (exclude_loop current (exclude spec) w1) (\<lambda>(w2, excluded).
     if excluded then Inr (state\<lparr>work := w2\<rparr>, expanded)
     else and_then (include_loop_bounded spec current 0 (inclusions spec) (w2, include_matched state, []))
       (\<lambda>(w3, matched, extras).
     and_then (push_matrix_row expanded
         \<lparr>row_values = map_extend current extras, include_only = False\<rparr>) (\<lambda>expanded'.
       Inr (\<lparr>include_matched = matched, work = w3\<rparr>, expanded'))))))"

text \<open>\<^verbatim>\<open>expand_axis_rows\<close>: the recursion over the axes and, inside it, the loop over the values
  of one axis, which inserts the value into \<^verbatim>\<open>current\<close> and removes it again.\<close>

function expand_axis_rows :: "matrix_spec \<Rightarrow> (string \<times> json list) list \<Rightarrow> row \<Rightarrow>
      expansion_state \<times> matrix_combination list \<Rightarrow>
      unit + row \<times> expansion_state \<times> matrix_combination list"
  and expand_values :: "matrix_spec \<Rightarrow> (string \<times> json list) list \<Rightarrow> string \<Rightarrow> json list \<Rightarrow> row \<Rightarrow>
      expansion_state \<times> matrix_combination list \<Rightarrow>
      unit + row \<times> expansion_state \<times> matrix_combination list" where
  "expand_axis_rows spec [] current s = and_then (expand_leaf spec current s) (\<lambda>s'. Inr (current, s'))"
| "expand_axis_rows spec ((axis, vals) # rest) current s = expand_values spec rest axis vals current s"
| "expand_values spec rest axis [] current s = Inr (current, s)"
| "expand_values spec rest axis (v # vs) current s =
     and_then (expand_axis_rows spec rest (im_insert axis v current) s) (\<lambda>(current', s').
       expand_values spec rest axis vs (AList.delete axis current') s')"
  by pat_completeness auto
termination
  by (relation "inv_image (less_than <*lex*> less_than) (\<lambda>x. case x of
        Inl (_, axs, _, _) \<Rightarrow> (length axs, 0) | Inr (_, axs, _, vs, _, _) \<Rightarrow> (length axs, Suc (length vs)))")
     auto

fun append_unmatched :: "(row \<times> bool) list \<Rightarrow> matrix_combination list \<Rightarrow> unit + matrix_combination list" where
  "append_unmatched [] expanded = Inr expanded"
| "append_unmatched ((included, matched) # rest) expanded =
     (if \<not> matched
      then and_then (push_matrix_row expanded \<lparr>row_values = included, include_only = True\<rparr>)
             (append_unmatched rest)
      else append_unmatched rest expanded)"

definition expand_matrix_spec_bounded :: "matrix_spec \<Rightarrow> unit + matrix_combination list" where
  "expand_matrix_spec_bounded spec =
     (let state = \<lparr>include_matched = replicate (length (inclusions spec)) False, work = 0\<rparr>
      in and_then (if axes spec \<noteq> [] \<and> list_all (\<lambda>(_, vals). vals \<noteq> []) (axes spec)
                   then and_then (expand_axis_rows spec (axes spec) [] (state, [])) (\<lambda>(_, s). Inr s)
                   else Inr (state, []))
         (\<lambda>(state', expanded). append_unmatched (zip (inclusions spec) (include_matched state')) expanded))"

definition try_expand_matrix_spec :: "string \<Rightarrow> matrix_spec \<Rightarrow> parser_error + matrix_combination list" where
  "try_expand_matrix_spec job_id spec =
     (if axes spec = [] \<and> length (inclusions spec) > MAX_MATRIX_COMBINATIONS
      then Inl (MatrixTooLarge job_id MAX_MATRIX_COMBINATIONS)
      else if length (axes spec) > MAX_MATRIX_AXES
      then Inl (MatrixTooLarge job_id MAX_MATRIX_COMBINATIONS)
      else case expand_matrix_spec_bounded spec of
        Inl _ \<Rightarrow> Inl (MatrixTooLarge job_id MAX_MATRIX_COMBINATIONS)
      | Inr rows \<Rightarrow> Inr rows)"

section \<open>The reference expansion\<close>

fun cartesian_loop :: "(string \<times> json list) list \<Rightarrow> row list \<Rightarrow> row list" where
  "cartesian_loop [] combinations = combinations"
| "cartesian_loop ((axis, vals) # rest) combinations =
     (if vals = [] then []
      else cartesian_loop rest (concat (map (\<lambda>existing. map (\<lambda>v. im_insert axis v existing) vals) combinations)))"

fun include_loop :: "matrix_spec \<Rightarrow> row \<Rightarrow> nat \<Rightarrow> row list \<Rightarrow> bool list \<times> row \<Rightarrow> bool list \<times> row" where
  "include_loop spec current index [] s = s"
| "include_loop spec current index (included # rest) (matched, extras) =
     (if \<not> include_matches spec current included
      then include_loop spec current (index + 1) rest (matched, extras)
      else include_loop spec current (index + 1) rest
             (matched[index := True], add_extras spec included extras))"

fun reference_rows :: "matrix_spec \<Rightarrow> row list \<Rightarrow> bool list \<times> matrix_combination list \<Rightarrow>
    bool list \<times> matrix_combination list" where
  "reference_rows spec [] s = s"
| "reference_rows spec (values # rest) (matched, expanded) =
     (let (matched', extras) = include_loop spec values 0 (inclusions spec) (matched, [])
      in reference_rows spec rest (matched', expanded @
           [\<lparr>row_values = map_extend values extras, include_only = False\<rparr>]))"

definition expand_matrix_spec :: "matrix_spec \<Rightarrow> matrix_combination list" where
  "expand_matrix_spec spec =
     (let start = (if axes spec \<noteq> [] \<and> list_all (\<lambda>(_, vals). vals \<noteq> []) (axes spec) then [[]] else []);
          combinations = cartesian_loop (axes spec) start;
          kept = fold (\<lambda>excluded cs. filter (\<lambda>c. \<not> matches_partial c excluded) cs) (exclude spec) combinations;
          (matched, expanded) = reference_rows spec kept (replicate (length (inclusions spec)) False, [])
      in expanded @ map (\<lambda>(included, _). \<lparr>row_values = included, include_only = True\<rparr>)
           (filter (\<lambda>(_, m). \<not> m) (zip (inclusions spec) matched)))"

text \<open>\<^verbatim>\<open>cartesian_count\<close> on \<^verbatim>\<open>usize\<close>: the product saturates, and is 0 when an axis is empty.\<close>

fun count_fold :: "(string \<times> json list) list \<Rightarrow> nat \<Rightarrow> nat option" where
  "count_fold [] count = Some count"
| "count_fold ((_, vals) # rest) count =
     (if vals \<noteq> [] then count_fold rest (sat_u64 (count * length vals)) else None)"

definition cartesian_count :: "matrix_spec \<Rightarrow> nat" where
  "cartesian_count spec = (if axes spec = [] then 0 else unwrap_or (count_fold (axes spec) 1) 0)"

section \<open>Names\<close>

definition value_key :: "(json \<Rightarrow> string) \<Rightarrow> json \<Rightarrow> string" where
  "value_key to_json v = (case v of JString s \<Rightarrow> s | _ \<Rightarrow> to_json v)"

definition expanded_job_id :: "(json \<Rightarrow> string) \<Rightarrow> string \<Rightarrow> row \<Rightarrow> string" where
  "expanded_job_id to_json base matrix =
     (if matrix = [] then base
      else base @ '' ('' @ join '', '' (map (\<lambda>(_, v). value_key to_json v) matrix) @ '')'')"

definition bool_to_string :: "bool \<Rightarrow> string" where
  "bool_to_string b = (if b then ''true'' else ''false'')"

fun display_segments :: "(json \<Rightarrow> string) \<Rightarrow> json \<Rightarrow> string list" where
  "display_segments to_json (JString s) = (if s \<noteq> [] then [s] else [])"
| "display_segments to_json (JNumber n) = [to_json (JNumber n)]"
| "display_segments to_json (JBool b) = [bool_to_string b]"
| "display_segments to_json (JArray vs) = concat (map (display_segments to_json) vs)"
| "display_segments to_json (JObject m) = concat (map (\<lambda>(_, v). display_segments to_json v) m)"
| "display_segments to_json JNull = []"

definition MAX_DISPLAY_NAME_LEN :: nat where "MAX_DISPLAY_NAME_LEN = 100"

text \<open>The scan for the longest prefix of 97 UTF-16 units; a character is the list of its bytes.\<close>

definition len_utf16 :: "string \<Rightarrow> nat" where
  "len_utf16 c = (if length c = 4 then 2 else 1)"

definition utf16_count :: "string list \<Rightarrow> nat" where
  "utf16_count cs = sum_list (map len_utf16 cs)"

fun keep_loop :: "string list \<Rightarrow> nat \<Rightarrow> nat \<Rightarrow> nat \<Rightarrow> nat" where
  "keep_loop [] index units keep = keep"
| "keep_loop (c # cs) index units keep =
     (if units + len_utf16 c > MAX_DISPLAY_NAME_LEN - 3 then keep
      else keep_loop cs (index + length c) (units + len_utf16 c) (index + length c))"

definition truncate_display_name :: "string \<Rightarrow> string" where
  "truncate_display_name name =
     (let keep = keep_loop (utf8_chars name) 0 0 0
      in if utf16_count (utf8_chars name) \<le> MAX_DISPLAY_NAME_LEN then name else take keep name @ ''...'')"

definition display_job_name :: "(json \<Rightarrow> string) \<Rightarrow> string \<Rightarrow> row \<Rightarrow> string" where
  "display_job_name to_json base matrix =
     (let segments = concat (map (\<lambda>(_, v). display_segments to_json v) matrix)
      in if segments = [] then truncate_display_name base
         else truncate_display_name (base @ '' ('' @ join '', '' segments @ '')''))"

section \<open>Specifications from values\<close>

fun value_object_indexed :: "json \<Rightarrow> row option" where
  "value_object_indexed (JObject m) = Some (map_collect m)"
| "value_object_indexed _ = None"

definition matrix_entry :: "string \<Rightarrow> string \<Rightarrow> json \<Rightarrow> parser_error + row" where
  "matrix_entry job_id field value =
     (case value_object_indexed value of None \<Rightarrow> Inl (InvalidMatrixEntry job_id field) | Some r \<Rightarrow> Inr r)"

definition axis_values :: "json \<Rightarrow> json list" where
  "axis_values v = (case v of JArray vs \<Rightarrow> vs | _ \<Rightarrow> [v])"

record matrix_syntax =
  syntax_include :: "json list"
  syntax_exclude :: "json list"
  syntax_axes :: "(string \<times> json) list"

definition matrix_to_spec :: "string \<Rightarrow> matrix_syntax \<Rightarrow> parser_error + matrix_spec" where
  "matrix_to_spec job_id matrix =
     (let axs = map_collect (map (\<lambda>(axis, v). (axis, axis_values v)) (syntax_axes matrix))
      in and_then (try_map (matrix_entry job_id ''exclude'') (syntax_exclude matrix)) (\<lambda>exc.
         and_then (try_map (matrix_entry job_id ''include'') (syntax_include matrix)) (\<lambda>inc.
           Inr \<lparr>axes = axs, exclude = exc, inclusions = inc\<rparr>)))"

definition entries_of :: "string \<Rightarrow> string \<Rightarrow> json \<Rightarrow> parser_error + row list" where
  "entries_of job_id field val =
     (case val of
        JArray arr \<Rightarrow> try_map (matrix_entry job_id field) arr
      | _ \<Rightarrow> Inl (InvalidMatrixEntry job_id field))"

fun matrix_spec_loop :: "string \<Rightarrow> (string \<times> json) list \<Rightarrow> matrix_spec \<Rightarrow> parser_error + matrix_spec" where
  "matrix_spec_loop job_id [] spec = Inr spec"
| "matrix_spec_loop job_id ((key, val) # rest) spec =
     (if key = ''include'' then
        and_then (entries_of job_id ''include'' val) (\<lambda>rs.
          matrix_spec_loop job_id rest (spec\<lparr>inclusions := inclusions spec @ rs\<rparr>))
      else if key = ''exclude'' then
        and_then (entries_of job_id ''exclude'' val) (\<lambda>rs.
          matrix_spec_loop job_id rest (spec\<lparr>exclude := exclude spec @ rs\<rparr>))
      else matrix_spec_loop job_id rest (spec\<lparr>axes := im_insert key (axis_values val) (axes spec)\<rparr>))"

definition value_to_matrix_spec :: "string \<Rightarrow> json \<Rightarrow> parser_error + matrix_spec" where
  "value_to_matrix_spec job_id value =
     (case value of
        JObject m \<Rightarrow> matrix_spec_loop job_id m \<lparr>axes = [], exclude = [], inclusions = []\<rparr>
      | _ \<Rightarrow> Inl (InvalidExpression (''job `'' @ job_id @ ''` matrix expression did not return a mapping'')))"

section \<open>The recursion is a loop over the Cartesian product\<close>

fun cart :: "(string \<times> json list) list \<Rightarrow> row \<Rightarrow> row list" where
  "cart [] current = [current]"
| "cart ((axis, vals) # rest) current = concat (map (\<lambda>v. cart rest (im_insert axis v current)) vals)"

fun leaf_fold :: "matrix_spec \<Rightarrow> row list \<Rightarrow> expansion_state \<times> matrix_combination list \<Rightarrow>
    unit + expansion_state \<times> matrix_combination list" where
  "leaf_fold spec [] s = Inr s"
| "leaf_fold spec (c # cs) s = and_then (expand_leaf spec c s) (leaf_fold spec cs)"

lemma leaf_fold_append: "leaf_fold spec (xs @ ys) s = and_then (leaf_fold spec xs s) (leaf_fold spec ys)"
proof (induction xs arbitrary: s)
  case (Cons c xs)
  then show ?case by (cases "expand_leaf spec c s") simp_all
qed simp

lemma delete_insert_fresh: "k \<notin> fst ` set m \<Longrightarrow> AList.delete k (im_insert k v m) = m"
  by (simp add: delete_id delete_update_same)

lemma expand_axis_rows_eq:
  "distinct (map fst axs) \<Longrightarrow> fst ` set axs \<inter> fst ` set current = {} \<Longrightarrow>
     expand_axis_rows spec axs current s = and_then (leaf_fold spec (cart axs current) s) (\<lambda>s'. Inr (current, s'))"
  "distinct (axis # map fst axs) \<Longrightarrow> insert axis (fst ` set axs) \<inter> fst ` set current = {} \<Longrightarrow>
     expand_values spec axs axis vals current s =
       and_then (leaf_fold spec (concat (map (\<lambda>v. cart axs (im_insert axis v current)) vals)) s) (\<lambda>s'. Inr (current, s'))"
proof (induction spec axs current s and spec axs axis vals current s rule: expand_axis_rows_expand_values.induct)
  case (1 spec current s)
  show ?case by (cases "expand_leaf spec current s") simp_all
next
  case (4 spec rest axis v vs current s)
  have fresh: "fst ` set rest \<inter> fst ` set (im_insert axis v current) = {}"
    using 4(3,4) by (simp add: dom_update)
  have del: "AList.delete axis (im_insert axis v current) = current"
    using 4(4) by (simp add: delete_insert_fresh)
  have IH1: "expand_axis_rows spec rest (im_insert axis v current) s =
      and_then (leaf_fold spec (cart rest (im_insert axis v current)) s) (\<lambda>s'. Inr (im_insert axis v current, s'))"
    using 4(1,3) fresh by simp
  show ?case
  proof (cases "leaf_fold spec (cart rest (im_insert axis v current)) s")
    case (Inl u)
    then show ?thesis by (simp add: IH1 leaf_fold_append)
  next
    case (Inr s')
    have "expand_values spec rest axis vs current s' =
        and_then (leaf_fold spec (concat (map (\<lambda>v. cart rest (im_insert axis v current)) vs)) s') (\<lambda>s'. Inr (current, s'))"
      using 4(2) [of "(im_insert axis v current, s')" "im_insert axis v current" s'] 4(3,4) Inr del
      by (simp add: IH1)
    with Inr show ?thesis by (simp add: IH1 leaf_fold_append del)
  qed
qed auto

lemma cartesian_loop_cart:
  "list_all (\<lambda>(_, vals). vals \<noteq> []) axs \<Longrightarrow> cartesian_loop axs cs = concat (map (cart axs) cs)"
proof (induction axs cs rule: cartesian_loop.induct)
  case (2 axis vals rest cs)
  have "concat (map (cart rest) (concat (map (\<lambda>e. map (\<lambda>v. im_insert axis v e) vals) cs))) =
      concat (map (\<lambda>e. concat (map (\<lambda>v. cart rest (im_insert axis v e)) vals)) cs)"
    by (induction cs) (simp_all add: comp_def)
  with "2" show ?case by simp
next
  case (1 cs)
  show ?case by (induction cs) simp_all
qed

lemma fold_filter: "fold (\<lambda>e cs. filter (\<lambda>c. \<not> P c e) cs) es cs = filter (\<lambda>c. \<not> list_ex (P c) es) cs"
  by (induction es arbitrary: cs) (auto intro: filter_cong)

section \<open>One leaf\<close>

definition excluded_row :: "matrix_spec \<Rightarrow> row \<Rightarrow> bool" where
  "excluded_row spec c = list_ex (matches_partial c) (exclude spec)"

lemma tick_iff: "tick w = (if w < MAX_MATRIX_EXPANSION_WORK then Inr (w + 1) else Inl ())"
  by (auto simp: tick_def MAX_MATRIX_EXPANSION_WORK_def)

lemma exclude_loop_Inr:
  "exclude_loop c excs w = Inr (w', b) \<Longrightarrow> b = list_ex (matches_partial c) excs"
  by (induction c excs w rule: exclude_loop.induct) (auto simp: and_then_Inr_iff split: if_splits)

lemma exclude_loop_total:
  "w + length excs \<le> MAX_MATRIX_EXPANSION_WORK \<Longrightarrow>
     \<exists>w'. w' \<le> w + length excs \<and> exclude_loop c excs w = Inr (w', list_ex (matches_partial c) excs)"
proof (induction excs arbitrary: w)
  case (Cons e excs)
  show ?case
  proof (cases "matches_partial c e")
    case False
    from Cons.prems have "w + 1 + length excs \<le> MAX_MATRIX_EXPANSION_WORK" by simp
    from Cons.IH [OF this] Cons.prems False show ?thesis by (auto simp: tick_iff)
  qed (use Cons.prems in \<open>simp add: tick_iff\<close>)
qed simp

lemma include_loop_bounded_Inr:
  "include_loop_bounded spec c i incs (w, m, ex) = Inr (w', r) \<Longrightarrow>
     r = include_loop spec c i incs (m, ex) \<and> w' = w + length incs"
proof (induction incs arbitrary: i w m ex)
  case (Cons a incs)
  then show ?case by (fastforce simp: and_then_Inr_iff tick_iff split: if_splits)
qed auto

lemma include_loop_bounded_total:
  "w + length incs \<le> MAX_MATRIX_EXPANSION_WORK \<Longrightarrow>
     include_loop_bounded spec c i incs (w, m, ex) = Inr (w + length incs, include_loop spec c i incs (m, ex))"
  by (induction incs arbitrary: i w m ex) (auto simp: tick_iff)

lemma expand_leaf_Inr:
  assumes "expand_leaf spec c (st, rows) = Inr (st', rows')"
  shows "(include_matched st', rows') =
    (if excluded_row spec c then (include_matched st, rows)
     else reference_rows spec [c] (include_matched st, rows))"
    "length rows \<le> MAX_MATRIX_COMBINATIONS \<Longrightarrow> length rows' \<le> MAX_MATRIX_COMBINATIONS"
proof -
  obtain w1 w2 b where l: "tick (work st) = Inr w1" "exclude_loop c (exclude spec) w1 = Inr (w2, b)"
    "(if b then Inr (st\<lparr>work := w2\<rparr>, rows)
      else and_then (include_loop_bounded spec c 0 (inclusions spec) (w2, include_matched st, []))
       (\<lambda>(w3, matched, extras). and_then (push_matrix_row rows
         \<lparr>row_values = map_extend c extras, include_only = False\<rparr>) (\<lambda>expanded'.
       Inr (\<lparr>include_matched = matched, work = w3\<rparr>, expanded')))) = Inr (st', rows')"
    using assms by (auto simp: expand_leaf_def and_then_Inr_iff)
  have b: "b = excluded_row spec c" using exclude_loop_Inr [OF l(2)] by (simp add: excluded_row_def)
  have "(include_matched st', rows') =
    (if excluded_row spec c then (include_matched st, rows)
     else reference_rows spec [c] (include_matched st, rows)) \<and>
    (length rows \<le> MAX_MATRIX_COMBINATIONS \<longrightarrow> length rows' \<le> MAX_MATRIX_COMBINATIONS)"
  proof (cases b)
    case False
    with l(3) obtain w3 m ex where i: "include_loop_bounded spec c 0 (inclusions spec) (w2, include_matched st, []) = Inr (w3, m, ex)"
      "push_matrix_row rows \<lparr>row_values = map_extend c ex, include_only = False\<rparr> = Inr rows'" "st' = \<lparr>include_matched = m, work = w3\<rparr>"
      by (auto simp: and_then_Inr_iff)
    have "(m, ex) = include_loop spec c 0 (inclusions spec) (include_matched st, [])"
      using include_loop_bounded_Inr [OF i(1)] by simp
    from this [symmetric] i(2,3) False b show ?thesis by (auto simp: push_matrix_row_def split: if_splits)
  qed (use l(3) b in auto)
  then show "(include_matched st', rows') =
    (if excluded_row spec c then (include_matched st, rows)
     else reference_rows spec [c] (include_matched st, rows))"
    "length rows \<le> MAX_MATRIX_COMBINATIONS \<Longrightarrow> length rows' \<le> MAX_MATRIX_COMBINATIONS" by auto
qed

lemma reference_rows_append:
  "reference_rows spec (xs @ ys) s = reference_rows spec ys (reference_rows spec xs s)"
  by (induction spec xs s rule: reference_rows.induct) (auto simp: Let_def split: prod.splits)

lemma length_reference_rows:
  "length (snd (reference_rows spec cs s)) = length (snd s) + length cs"
  by (induction spec cs s rule: reference_rows.induct) (auto simp: Let_def split: prod.splits)

lemma leaf_fold_Inr:
  "leaf_fold spec cs (st, rows) = Inr (st', rows') \<Longrightarrow>
     (include_matched st', rows') = reference_rows spec (filter (\<lambda>c. \<not> excluded_row spec c) cs) (include_matched st, rows) \<and>
     (length rows \<le> MAX_MATRIX_COMBINATIONS \<longrightarrow> length rows' \<le> MAX_MATRIX_COMBINATIONS)"
proof (induction cs arbitrary: st rows)
  case (Cons c cs)
  from Cons.prems obtain st1 rows1 where l: "expand_leaf spec c (st, rows) = Inr (st1, rows1)"
    "leaf_fold spec cs (st1, rows1) = Inr (st', rows')" by (auto simp: and_then_Inr_iff)
  note leaf = expand_leaf_Inr [OF l(1)]
  have "reference_rows spec (filter (\<lambda>c. \<not> excluded_row spec c) (c # cs)) (include_matched st, rows) =
      reference_rows spec (filter (\<lambda>c. \<not> excluded_row spec c) cs) (include_matched st1, rows1)"
    using leaf(1) reference_rows_append [of spec "[c]"] by (auto split: if_splits)
  with Cons.IH [OF l(2)] leaf(2) show ?case by auto
qed simp

lemma expand_leaf_total:
  assumes "work st + (1 + length (exclude spec) + length (inclusions spec)) \<le> MAX_MATRIX_EXPANSION_WORK"
    "\<not> excluded_row spec c \<Longrightarrow> length rows < MAX_MATRIX_COMBINATIONS"
  shows "\<exists>st' rows'. expand_leaf spec c (st, rows) = Inr (st', rows') \<and>
    work st' \<le> work st + (1 + length (exclude spec) + length (inclusions spec)) \<and>
    length rows' = length rows + (if excluded_row spec c then 0 else 1)"
proof -
  have t: "tick (work st) = Inr (work st + 1)" using assms(1) by (simp add: tick_iff)
  from exclude_loop_total [of "work st + 1" "exclude spec" c] assms(1)
  obtain w where w: "w \<le> work st + 1 + length (exclude spec)"
    "exclude_loop c (exclude spec) (work st + 1) = Inr (w, excluded_row spec c)"
    by (auto simp: excluded_row_def)
  show ?thesis
  proof (cases "excluded_row spec c")
    case True
    with t w show ?thesis by (auto simp: expand_leaf_def)
  next
    case False
    obtain m ex where i: "include_loop spec c 0 (inclusions spec) (include_matched st, []) = (m, ex)"
      by (cases "include_loop spec c 0 (inclusions spec) (include_matched st, [])")
    have "include_loop_bounded spec c 0 (inclusions spec) (w, include_matched st, []) =
        Inr (w + length (inclusions spec), m, ex)"
      using include_loop_bounded_total [of w "inclusions spec" spec c 0 "include_matched st" "[]"] w assms(1) i
      by simp
    with t w False assms(2) show ?thesis by (auto simp: expand_leaf_def push_matrix_row_def)
  qed
qed

lemma leaf_fold_total:
  "work st + length cs * (1 + length (exclude spec) + length (inclusions spec)) \<le> MAX_MATRIX_EXPANSION_WORK \<Longrightarrow>
   length rows + length (filter (\<lambda>c. \<not> excluded_row spec c) cs) \<le> MAX_MATRIX_COMBINATIONS \<Longrightarrow>
     \<exists>r. leaf_fold spec cs (st, rows) = Inr r"
proof (induction cs arbitrary: st rows)
  case (Cons c cs)
  let ?k = "1 + length (exclude spec) + length (inclusions spec)"
  have b: "work st + ?k \<le> MAX_MATRIX_EXPANSION_WORK" using Cons.prems(1) by simp
  have "\<not> excluded_row spec c \<Longrightarrow> length rows < MAX_MATRIX_COMBINATIONS" using Cons.prems(2) by simp
  from expand_leaf_total [OF b this, of c] obtain st1 rows1 where
    l: "expand_leaf spec c (st, rows) = Inr (st1, rows1)" "work st1 \<le> work st + ?k"
      "length rows1 = length rows + (if excluded_row spec c then 0 else 1)" by blast
  have "\<exists>r. leaf_fold spec cs (st1, rows1) = Inr r"
    using Cons.prems l(2,3) by (intro Cons.IH) (auto split: if_splits)
  with l(1) show ?case by simp
qed simp

section \<open>The whole expansion\<close>

definition unmatched_rows :: "matrix_spec \<Rightarrow> bool list \<Rightarrow> matrix_combination list" where
  "unmatched_rows spec matched = map (\<lambda>(included, _). \<lparr>row_values = included, include_only = True\<rparr>)
     (filter (\<lambda>(_, m). \<not> m) (zip (inclusions spec) matched))"

lemma append_unmatched_eq:
  "length rows \<le> MAX_MATRIX_COMBINATIONS \<Longrightarrow>
   append_unmatched ps rows =
     (let new = map (\<lambda>(included, _). \<lparr>row_values = included, include_only = True\<rparr>) (filter (\<lambda>(_, m). \<not> m) ps)
      in if length rows + length new \<le> MAX_MATRIX_COMBINATIONS then Inr (rows @ new) else Inl ())"
proof (induction ps rows rule: append_unmatched.induct)
  case (2 included matched rest rows)
  then show ?case by (cases matched) (auto simp: push_matrix_row_def Let_def)
qed simp

definition kept_rows :: "matrix_spec \<Rightarrow> row list" where
  "kept_rows spec = (if axes spec \<noteq> [] \<and> list_all (\<lambda>(_, vals). vals \<noteq> []) (axes spec)
     then filter (\<lambda>c. \<not> excluded_row spec c) (cart (axes spec) []) else [])"

lemma cartesian_loop_Nil: "cartesian_loop axs [] = []"
  by (induction axs) (auto split: prod.splits)

lemma expand_matrix_spec_eq:
  "expand_matrix_spec spec =
     (case reference_rows spec (kept_rows spec) (replicate (length (inclusions spec)) False, []) of
        (matched, rows) \<Rightarrow> rows @ unmatched_rows spec matched)"
proof -
  let ?ok = "axes spec \<noteq> [] \<and> list_all (\<lambda>(_, vals). vals \<noteq> []) (axes spec)"
  have "cartesian_loop (axes spec) (if ?ok then [[]] else []) = (if ?ok then cart (axes spec) [] else [])"
    by (simp add: cartesian_loop_cart cartesian_loop_Nil)
  then have "fold (\<lambda>excluded cs. filter (\<lambda>c. \<not> matches_partial c excluded) cs) (exclude spec)
      (cartesian_loop (axes spec) (if ?ok then [[]] else [])) = kept_rows spec"
    by (simp add: kept_rows_def fold_filter excluded_row_def [abs_def])
  then show ?thesis by (simp add: expand_matrix_spec_def Let_def unmatched_rows_def)
qed

abbreviation start_state :: "matrix_spec \<Rightarrow> expansion_state" where
  "start_state spec \<equiv> \<lparr>include_matched = replicate (length (inclusions spec)) False, work = 0\<rparr>"

lemma expand_bounded_eq:
  assumes "distinct (map fst (axes spec))"
  shows "expand_matrix_spec_bounded spec =
    and_then (if axes spec \<noteq> [] \<and> list_all (\<lambda>(_, vals). vals \<noteq> []) (axes spec)
              then leaf_fold spec (cart (axes spec) []) (start_state spec, []) else Inr (start_state spec, []))
      (\<lambda>(state', rows). append_unmatched (zip (inclusions spec) (include_matched state')) rows)"
proof -
  have "and_then (expand_axis_rows spec (axes spec) [] (start_state spec, [])) (\<lambda>(_, s). Inr s) =
      leaf_fold spec (cart (axes spec) []) (start_state spec, [])"
    using expand_axis_rows_eq(1) [OF assms, of "[]" spec "(start_state spec, [])"]
    by (cases "leaf_fold spec (cart (axes spec) []) (start_state spec, [])") simp_all
  then show ?thesis by (simp add: expand_matrix_spec_bounded_def Let_def)
qed

lemma expand_bounded_Inr:
  assumes "distinct (map fst (axes spec))" "expand_matrix_spec_bounded spec = Inr rows"
  shows "rows = expand_matrix_spec spec \<and> length rows \<le> MAX_MATRIX_COMBINATIONS"
proof -
  let ?ok = "axes spec \<noteq> [] \<and> list_all (\<lambda>(_, vals). vals \<noteq> []) (axes spec)"
  from assms(2) obtain st rs where l: "(if ?ok then leaf_fold spec (cart (axes spec) []) (start_state spec, [])
      else Inr (start_state spec, [])) = Inr (st, rs)"
    "append_unmatched (zip (inclusions spec) (include_matched st)) rs = Inr rows"
    by (auto simp: expand_bounded_eq [OF assms(1)] and_then_Inr_iff)
  have ref: "(include_matched st, rs) = reference_rows spec (kept_rows spec)
      (replicate (length (inclusions spec)) False, [])" "length rs \<le> MAX_MATRIX_COMBINATIONS"
    using l(1) leaf_fold_Inr [of spec "cart (axes spec) []" "start_state spec" "[]" st rs]
    by (auto simp: kept_rows_def split: if_splits)
  from l(2) have "rows = rs @ unmatched_rows spec (include_matched st)" "length rows \<le> MAX_MATRIX_COMBINATIONS"
    by (auto simp: append_unmatched_eq [OF ref(2)] unmatched_rows_def Let_def split: if_splits)
  then show ?thesis by (simp add: expand_matrix_spec_eq ref(1) [symmetric])
qed

lemma expand_bounded_total:
  assumes "distinct (map fst (axes spec))" "length (expand_matrix_spec spec) \<le> MAX_MATRIX_COMBINATIONS"
    "axes spec \<noteq> [] \<Longrightarrow> list_all (\<lambda>(_, vals). vals \<noteq> []) (axes spec) \<Longrightarrow>
      length (cart (axes spec) []) * (1 + length (exclude spec) + length (inclusions spec)) \<le> MAX_MATRIX_EXPANSION_WORK"
  shows "\<exists>rows. expand_matrix_spec_bounded spec = Inr rows"
proof -
  let ?ok = "axes spec \<noteq> [] \<and> list_all (\<lambda>(_, vals). vals \<noteq> []) (axes spec)"
  let ?run = "if ?ok then leaf_fold spec (cart (axes spec) []) (start_state spec, []) else Inr (start_state spec, [])"
  have len: "length (kept_rows spec) \<le> MAX_MATRIX_COMBINATIONS"
    using assms(2) length_reference_rows [of spec "kept_rows spec" "(replicate (length (inclusions spec)) False, [])"]
    by (simp add: expand_matrix_spec_eq split: prod.splits)
  have "\<exists>r. ?run = Inr r"
    using leaf_fold_total [of "start_state spec" "cart (axes spec) []" spec "[]"] assms(3) len
    by (auto simp: kept_rows_def)
  then obtain st rs where run: "?run = Inr (st, rs)" by auto
  have ref: "(include_matched st, rs) = reference_rows spec (kept_rows spec)
      (replicate (length (inclusions spec)) False, [])" "length rs \<le> MAX_MATRIX_COMBINATIONS"
    using run leaf_fold_Inr [of spec "cart (axes spec) []" "start_state spec" "[]" st rs]
    by (auto simp: kept_rows_def split: if_splits)
  have "length rs + length (unmatched_rows spec (include_matched st)) \<le> MAX_MATRIX_COMBINATIONS"
    using assms(2) by (simp add: expand_matrix_spec_eq ref(1) [symmetric])
  then show ?thesis unfolding expand_bounded_eq [OF assms(1)] run
    by (simp add: append_unmatched_eq [OF ref(2)] unmatched_rows_def)
qed

lemma length_cart: "length (cart axs c) = prod_list (map (\<lambda>(_, vals). length vals) axs)"
proof (induction axs c rule: cart.induct)
  case (2 axis vals rest c)
  have "length (cart rest (im_insert axis v c)) = prod_list (map (\<lambda>(_, vals). length vals) rest)"
    if "v \<in> set vals" for v using 2 that by simp
  then show ?case by (induction vals) (simp_all add: length_concat)
qed simp

lemma sat_u64_mult: "0 < b \<Longrightarrow> sat_u64 (sat_u64 a * b) = sat_u64 (a * b)"
proof (cases "a \<le> 2 ^ 64 - 1")
  case False
  assume "0 < b"
  then obtain c where "b = Suc c" by (cases b) auto
  with False show ?thesis by (simp add: sat_u64_def min_def)
qed (simp add: sat_u64_def min_def)

lemma count_fold_eq:
  "list_all (\<lambda>(_, vals). vals \<noteq> []) axs \<Longrightarrow>
     count_fold axs (sat_u64 n) = Some (sat_u64 (n * prod_list (map (\<lambda>(_, vals). length vals) axs)))"
proof (induction axs arbitrary: n)
  case (Cons ax axs)
  obtain a vals where ax: "ax = (a, vals)" by (cases ax)
  with Cons.prems have "sat_u64 (sat_u64 n * length vals) = sat_u64 (n * length vals)"
    by (intro sat_u64_mult) simp
  with Cons.IH [of "n * length vals"] Cons.prems ax show ?case by (simp add: mult.assoc)
qed simp

lemma cartesian_count_eq:
  assumes "axes spec \<noteq> []" "list_all (\<lambda>(_, vals). vals \<noteq> []) (axes spec)"
  shows "cartesian_count spec = sat_u64 (length (cart (axes spec) []))"
proof -
  have one: "sat_u64 (Suc 0) = Suc 0" by (simp add: sat_u64_def)
  show ?thesis using assms count_fold_eq [OF assms(2), of 1]
    by (simp add: cartesian_count_def length_cart one)
qed

lemma im_insert_keys: "distinct (map fst m) \<Longrightarrow> distinct (map fst (im_insert k v m))"
  by (rule distinct_update)

lemma matrix_spec_loop_distinct:
  "matrix_spec_loop j m spec = Inr spec' \<Longrightarrow> distinct (map fst (axes spec)) \<Longrightarrow> distinct (map fst (axes spec'))"
  by (induction j m spec rule: matrix_spec_loop.induct)
     (auto simp: and_then_Inr_iff im_insert_keys split: if_splits)

lemma value_to_matrix_spec_distinct:
  "value_to_matrix_spec j v = Inr spec \<Longrightarrow> distinct (map fst (axes spec))"
  by (auto simp: value_to_matrix_spec_def split: json.splits dest: matrix_spec_loop_distinct)

text \<open>C5. The bounded expansion is the reference expansion: when it accepts a matrix, the rows it
  built by recursion, with work accounting and limits, are exactly the rows of GitHub's
  specification in the same order, and there are at most 256 of them.\<close>

theorem matrix_expansion_sound:
  assumes "distinct (map fst (axes spec))" "try_expand_matrix_spec job_id spec = Inr rows"
  shows "rows = expand_matrix_spec spec \<and> length rows \<le> 256"
  using assms expand_bounded_Inr [OF assms(1), of rows]
  by (auto simp: try_expand_matrix_spec_def MAX_MATRIX_COMBINATIONS_def split: if_splits sum.splits)

abbreviation sample_spec :: matrix_spec where
  "sample_spec \<equiv> \<lparr>axes = [(''os'', [JString ''linux'', JString ''mac'']), (''v'', [JBool True])],
     exclude = [[(''os'', JString ''mac'')]], inclusions = [[(''os'', JString ''linux''), (''x'', JNull)], [(''os'', JString ''bsd'')]]\<rparr>"

theorem matrix_expansion_sound_witness:
  "expand_matrix_spec sample_spec =
     [\<lparr>row_values = [(''os'', JString ''linux''), (''v'', JBool True), (''x'', JNull)], include_only = False\<rparr>,
      \<lparr>row_values = [(''os'', JString ''bsd'')], include_only = True\<rparr>]"
proof -
  have "try_expand_matrix_spec ''j'' sample_spec = Inr
     [\<lparr>row_values = [(''os'', JString ''linux''), (''v'', JBool True), (''x'', JNull)], include_only = False\<rparr>,
      \<lparr>row_values = [(''os'', JString ''bsd'')], include_only = True\<rparr>]"
    by (simp add: try_expand_matrix_spec_def expand_matrix_spec_bounded_def expand_leaf_def tick_iff
        matches_partial_def include_matches_def add_extras_def push_matrix_row_def map_extend_def
        MAX_MATRIX_EXPANSION_WORK_def MAX_MATRIX_COMBINATIONS_def MAX_MATRIX_AXES_def)
  moreover have "distinct (map fst (axes sample_spec))" by simp
  ultimately show ?thesis using matrix_expansion_sound [of sample_spec "''j''"] by simp
qed

text \<open>C6. The limits refuse nothing else: a matrix with at most 1024 axes, whose Cartesian product
  times the work per row stays within the work limit and whose specification gives at most 256
  rows, is expanded.\<close>

theorem matrix_expansion_complete:
  assumes "distinct (map fst (axes spec))" "length (expand_matrix_spec spec) \<le> 256"
    "length (axes spec) \<le> 1024"
    "cartesian_count spec * (1 + length (exclude spec) + length (inclusions spec)) \<le> 1000000"
  shows "try_expand_matrix_spec job_id spec = Inr (expand_matrix_spec spec)"
proof -
  have work: "length (cart (axes spec) []) * (1 + length (exclude spec) + length (inclusions spec)) \<le> MAX_MATRIX_EXPANSION_WORK"
    if "axes spec \<noteq> []" "list_all (\<lambda>(_, vals). vals \<noteq> []) (axes spec)"
  proof -
    have "sat_u64 (length (cart (axes spec) [])) \<le> 1000000"
      using assms(4) cartesian_count_eq [OF that] by (simp add: add_mult_distrib2)
    then have "sat_u64 (length (cart (axes spec) [])) = length (cart (axes spec) [])"
      by (simp add: sat_u64_def min_def split: if_splits)
    with assms(4) cartesian_count_eq [OF that] show ?thesis by (simp add: MAX_MATRIX_EXPANSION_WORK_def)
  qed
  have len: "length (expand_matrix_spec spec) \<le> MAX_MATRIX_COMBINATIONS"
    using assms(2) by (simp add: MAX_MATRIX_COMBINATIONS_def)
  obtain rows where rows: "expand_matrix_spec_bounded spec = Inr rows"
    using expand_bounded_total [OF assms(1) len work] by blast
  have incl: "length (inclusions spec) \<le> MAX_MATRIX_COMBINATIONS" if "axes spec = []"
  proof -
    have "filter (\<lambda>(_, m). \<not> m) (zip xs (replicate (length xs) False)) = zip xs (replicate (length xs) False)" for xs :: "row list"
      by (induction xs) auto
    with len that show ?thesis by (simp add: expand_matrix_spec_eq kept_rows_def unmatched_rows_def)
  qed
  with rows expand_bounded_Inr [OF assms(1) rows] assms(3) show ?thesis
    by (auto simp: try_expand_matrix_spec_def MAX_MATRIX_AXES_def)
qed

theorem matrix_expansion_complete_witness:
  "try_expand_matrix_spec ''j'' sample_spec = Inr (expand_matrix_spec sample_spec)"
proof (rule matrix_expansion_complete)
  show "length (expand_matrix_spec sample_spec) \<le> 256"
    by (simp add: expand_matrix_spec_def matches_partial_def include_matches_def add_extras_def map_extend_def)
  show "cartesian_count sample_spec * (1 + length (exclude sample_spec) + length (inclusions sample_spec)) \<le> 1000000"
    by (simp add: cartesian_count_def sat_u64_def)
qed simp_all

text \<open>A matrix given by an expression is a specification with distinct axes, so its expansion,
  when accepted, is the reference one with at most 256 rows.\<close>

theorem dynamic_matrix_expansion:
  assumes "value_to_matrix_spec job_id v = Inr spec" "try_expand_matrix_spec job_id spec = Inr rows"
  shows "distinct (map fst (axes spec)) \<and> rows = expand_matrix_spec spec \<and> length rows \<le> 256"
proof -
  note d = value_to_matrix_spec_distinct [OF assms(1)]
  show ?thesis using d assms(2) expand_bounded_Inr [OF d, of rows]
    by (auto simp: try_expand_matrix_spec_def MAX_MATRIX_COMBINATIONS_def split: if_splits sum.splits)
qed

theorem dynamic_matrix_expansion_witness:
  "expand_matrix_spec \<lparr>axes = [(''a'', [JNull])], exclude = [], inclusions = []\<rparr> =
     [\<lparr>row_values = [(''a'', JNull)], include_only = False\<rparr>]"
proof -
  have "value_to_matrix_spec ''j'' (JObject [(''a'', JNull)]) = Inr \<lparr>axes = [(''a'', [JNull])], exclude = [], inclusions = []\<rparr>"
    by (simp add: value_to_matrix_spec_def axis_values_def)
  moreover have "try_expand_matrix_spec ''j'' \<lparr>axes = [(''a'', [JNull])], exclude = [], inclusions = []\<rparr> =
     Inr [\<lparr>row_values = [(''a'', JNull)], include_only = False\<rparr>]"
    by (simp add: try_expand_matrix_spec_def expand_matrix_spec_bounded_def expand_leaf_def tick_iff
        push_matrix_row_def map_extend_def
        MAX_MATRIX_EXPANSION_WORK_def MAX_MATRIX_COMBINATIONS_def MAX_MATRIX_AXES_def)
  ultimately show ?thesis
    using dynamic_matrix_expansion [of "''j''" "JObject [(''a'', JNull)]"] by fastforce
qed

lemma keep_loop_prefix:
  assumes "u \<le> 97" and "k = i"
  shows "\<exists>n \<le> length cs. keep_loop cs i u k = i + length (concat (take n cs)) \<and> u + utf16_count (take n cs) \<le> 97 \<and>
    (n < length cs \<longrightarrow> 97 < u + utf16_count (take (Suc n) cs))"
  using assms
proof (induction cs arbitrary: i u k)
  case (Cons c cs)
  show ?case
  proof (cases "u + len_utf16 c > 97")
    case True
    then show ?thesis using Cons.prems by (intro exI [of _ 0]) (simp add: utf16_count_def MAX_DISPLAY_NAME_LEN_def)
  next
    case False
    then obtain n where "n \<le> length cs" "keep_loop cs (i + length c) (u + len_utf16 c) (i + length c) = i + length c + length (concat (take n cs))"
      "u + len_utf16 c + utf16_count (take n cs) \<le> 97"
      "n < length cs \<longrightarrow> 97 < u + len_utf16 c + utf16_count (take (Suc n) cs)"
      using Cons.IH [of "u + len_utf16 c" "i + length c" "i + length c"] by auto
    then show ?thesis using False
      by (intro exI [of _ "Suc n"]) (simp add: utf16_count_def MAX_DISPLAY_NAME_LEN_def add.assoc)
  qed
qed (simp add: utf16_count_def)

text \<open>A job's display name is cut only when it has more than 100 UTF-16 units, and then to its longest prefix of
  whole characters with at most 97 units.\<close>

theorem truncate_display_name_correct:
  "if utf16_count (utf8_chars name) \<le> 100 then truncate_display_name name = name
   else \<exists>n. truncate_display_name name = concat (take n (utf8_chars name)) @ ''...'' \<and>
     utf16_count (take n (utf8_chars name)) \<le> 97 \<and>
     (n < length (utf8_chars name) \<longrightarrow> 97 < utf16_count (take (Suc n) (utf8_chars name)))"
proof -
  obtain n where n: "keep_loop (utf8_chars name) 0 0 0 = length (concat (take n (utf8_chars name)))"
    "utf16_count (take n (utf8_chars name)) \<le> 97"
    "n < length (utf8_chars name) \<longrightarrow> 97 < utf16_count (take (Suc n) (utf8_chars name))"
    using keep_loop_prefix [of 0 0 0 "utf8_chars name"] by auto
  have "name = concat (take n (utf8_chars name)) @ concat (drop n (utf8_chars name))"
    by (metis append_take_drop_id concat_append concat_utf8_chars)
  then have "take (length (concat (take n (utf8_chars name)))) name = concat (take n (utf8_chars name))"
    by (metis append_eq_conv_conj)
  then show ?thesis using n by (auto simp: truncate_display_name_def MAX_DISPLAY_NAME_LEN_def)
qed

end
