(* ===== verification/Trust_Tier.thy ===== *)
theory Trust_Tier
  imports Json_Value
begin

text \<open>
  Trust and token authority: the trust tiers of runs (\<^verbatim>\<open>events/trust_tier.rs\<close>), the fork policy
  (\<^verbatim>\<open>fork_policy.rs\<close>), the permissions a workflow declares (\<^verbatim>\<open>expand.rs\<close> of
  \<^verbatim>\<open>preloop-gha-parser\<close>) and their narrowing to what a GitHub App installation may mint
  (\<^verbatim>\<open>github_app.rs\<close>). A permission set is a \<^verbatim>\<open>BTreeMap\<close> from scopes to levels. The lemmas show
  that no step adds authority and that fork code never gets any.
\<close>

type_synonym permissions = "(string \<times> string) list"

section \<open>Tiers\<close>

datatype trust_tier =
  Trusted | Internal | InternalPullRequest | UntrustedForkPullRequest | PullRequestTarget
| AdminManual | AppDispatch | Deployment | Schedule | Untrusted

definition allows_head_checkout :: "trust_tier \<Rightarrow> bool" where
  "allows_head_checkout t \<longleftrightarrow>
     t \<in> {Trusted, Internal, InternalPullRequest, AdminManual, AppDispatch, Deployment, Schedule}"

definition is_fork_restricted :: "trust_tier \<Rightarrow> bool" where
  "is_fork_restricted t \<longleftrightarrow> t \<in> {UntrustedForkPullRequest, Untrusted}"

definition allows_secrets :: "trust_tier \<Rightarrow> bool" where
  "allows_secrets t \<longleftrightarrow> \<not> is_fork_restricted t"

fun concurrency_namespace :: "trust_tier \<Rightarrow> string" where
  "concurrency_namespace Trusted = ''trusted''"
| "concurrency_namespace Internal = ''internal''"
| "concurrency_namespace InternalPullRequest = ''internal-pull-request''"
| "concurrency_namespace UntrustedForkPullRequest = ''untrusted-fork-pull-request''"
| "concurrency_namespace PullRequestTarget = ''pull-request-target''"
| "concurrency_namespace AdminManual = ''admin-manual''"
| "concurrency_namespace AppDispatch = ''app-dispatch''"
| "concurrency_namespace Deployment = ''deployment''"
| "concurrency_namespace Schedule = ''schedule''"
| "concurrency_namespace Untrusted = ''untrusted''"

text \<open>Deserialization of a tier from its kebab-case name; \<^verbatim>\<open>tier_of\<close> of a submission's stored
  tier string.\<close>

definition all_tiers :: "trust_tier list" where
  "all_tiers = [Trusted, Internal, InternalPullRequest, UntrustedForkPullRequest, PullRequestTarget,
     AdminManual, AppDispatch, Deployment, Schedule, Untrusted]"

definition tier_from_name :: "string \<Rightarrow> trust_tier option" where
  "tier_from_name s = List.find (\<lambda>t. concurrency_namespace t = s) all_tiers"

definition tier_of :: "string option \<Rightarrow> trust_tier option" where
  "tier_of stored = map_option (\<lambda>value. unwrap_or (tier_from_name value) Untrusted) stored"

record fork_policy_config =
  run_fork_workflows :: bool
  require_approval :: bool

definition fork_approval_required :: "fork_policy_config \<Rightarrow> trust_tier option \<Rightarrow> bool" where
  "fork_approval_required policy tier \<longleftrightarrow>
     require_approval policy \<and> tier = Some UntrustedForkPullRequest"

section \<open>Declared permissions\<close>

definition PERMISSION_SCOPES :: "string list" where
  "PERMISSION_SCOPES = [''actions'', ''attestations'', ''checks'', ''contents'', ''deployments'',
     ''discussions'', ''id-token'', ''issues'', ''packages'', ''pages'', ''pull-requests'',
     ''repository-projects'', ''security-events'', ''statuses'', ''vulnerability-alerts'']"

definition READ_ONLY_SCOPES :: "string list" where
  "READ_ONLY_SCOPES = [''vulnerability-alerts'']"

definition DEFAULT_TOKEN_PERMISSIONS :: permissions where
  "DEFAULT_TOKEN_PERMISSIONS = [(''contents'', ''read''), (''metadata'', ''read''), (''packages'', ''read'')]"

definition effective_token_permissions :: "permissions option \<Rightarrow> permissions" where
  "effective_token_permissions declared =
     (case declared of Some d \<Rightarrow> d | None \<Rightarrow> DEFAULT_TOKEN_PERMISSIONS)"

definition btree_collect :: "('k::linorder \<times> 'v) list \<Rightarrow> ('k \<times> 'v) list" where
  "btree_collect kvs = fold (\<lambda>(k, v). btree_insert k v) kvs []"

definition resolve_permissions :: "json option \<Rightarrow> json option \<Rightarrow> permissions option" where
  "resolve_permissions job_permissions workflow_permissions =
     (case or_else job_permissions workflow_permissions of
        None \<Rightarrow> None
      | Some (JString value) \<Rightarrow>
          (let grant = (\<lambda>level. Some (btree_collect (map (\<lambda>s.
                 (s, if level = ''write'' \<and> s \<in> set READ_ONLY_SCOPES then ''read'' else level)) PERMISSION_SCOPES)))
           in if value = ''read-all'' then grant ''read''
              else if value = ''write-all'' then grant ''write''
              else Some [])
      | Some (JObject m) \<Rightarrow>
          Some (btree_collect (List.map_filter (\<lambda>(k, v). map_option (\<lambda>l. (k, l)) (as_str v)) m))
      | Some _ \<Rightarrow> None)"

definition meet_level :: "string \<Rightarrow> string \<Rightarrow> string option" where
  "meet_level called caller =
     (if called = ''write'' \<and> caller = ''write'' then Some ''write''
      else if called \<in> {''write'', ''read''} \<and> caller \<in> {''write'', ''read''} then Some ''read''
      else None)"

definition intersect_permissions :: "permissions option \<Rightarrow> permissions option \<Rightarrow> permissions" where
  "intersect_permissions called caller =
     List.map_filter (\<lambda>(scope, called_level).
       Option.bind (map_of (effective_token_permissions caller) scope) (\<lambda>caller_level.
         map_option (\<lambda>level. (scope, level)) (meet_level called_level caller_level)))
       (effective_token_permissions called)"

definition id_token_granted :: "json option \<Rightarrow> bool" where
  "id_token_granted permissions =
     (case permissions of
        Some (JString value) \<Rightarrow> value = ''write-all''
      | Some (JObject values) \<Rightarrow> Option.bind (map_of values ''id-token'') as_str = Some ''write''
      | _ \<Rightarrow> False)"

section \<open>Job authorization\<close>

definition ACTIONS_ONLY_SCOPES :: "string list" where
  "ACTIONS_ONLY_SCOPES = [''id-token'', ''models'']"

record job_authorization_t =
  auth_allows_secrets :: bool
  token_permissions :: permissions
  app_permissions :: permissions
  auth_id_token_granted :: bool
  fork_restricted :: bool

definition fork_permission_set :: "bool \<Rightarrow> permissions \<Rightarrow> permissions" where
  "fork_permission_set restricted effective =
     (if \<not> restricted then effective
      else map (\<lambda>(scope, level). (scope, if eq_ignore_ascii_case level ''none'' then ''none'' else ''read''))
             (filter (\<lambda>(scope, _). scope \<noteq> ''id-token'') effective))"

definition job_authorization :: "trust_tier option \<Rightarrow> permissions option \<Rightarrow> bool \<Rightarrow> job_authorization_t" where
  "job_authorization tier declared declared_id_token =
     (let restricted = (case tier of None \<Rightarrow> False | Some t \<Rightarrow> is_fork_restricted t);
          token = fork_permission_set restricted (effective_token_permissions declared)
      in \<lparr>auth_allows_secrets = (case tier of None \<Rightarrow> True | Some t \<Rightarrow> allows_secrets t),
          token_permissions = token,
          app_permissions = filter (\<lambda>(scope, _). scope \<notin> set ACTIONS_ONLY_SCOPES) token,
          auth_id_token_granted = (declared_id_token \<and> \<not> restricted),
          fork_restricted = restricted\<rparr>)"

section \<open>Installation tokens\<close>

definition permission_rank :: "string \<Rightarrow> nat" where
  "permission_rank level =
     (let l = to_lower level
      in if l = ''none'' then 0 else if l = ''read'' then 1 else if l = ''write'' then 2
         else if l = ''admin'' then 3 else 255)"

definition snake :: "string \<Rightarrow> string" where
  "snake scope = map (\<lambda>c. if c = CHR ''-'' then CHR ''_'' else c) scope"

definition clamp_to_grants :: "permissions \<Rightarrow> permissions \<Rightarrow> permissions" where
  "clamp_to_grants requested granted =
     List.map_filter (\<lambda>(scope, level).
       map_option (\<lambda>granted_level.
         (scope, if permission_rank level > permission_rank granted_level then granted_level else level))
         (map_of granted (snake scope))) requested"

definition is_ungranted :: "permissions \<Rightarrow> string \<times> string \<Rightarrow> bool" where
  "is_ungranted granted = (\<lambda>(scope, level).
     \<not> eq_ignore_ascii_case level ''none'' \<and> scope \<notin> set ACTIONS_ONLY_SCOPES \<and>
     (case map_of granted (snake scope) of
        None \<Rightarrow> True | Some g \<Rightarrow> permission_rank level > permission_rank g))"

definition ungranted_scopes :: "permissions \<Rightarrow> permissions \<Rightarrow> string list" where
  "ungranted_scopes requested granted =
     map (\<lambda>(scope, level). scope @ '': '' @ level) (filter (is_ungranted granted) requested)"

definition MINIMUM_PERMISSION :: "string \<times> string" where
  "MINIMUM_PERMISSION = (''metadata'', ''read'')"

definition installation_permissions :: "permissions \<Rightarrow> (string \<times> json) list" where
  "installation_permissions perms =
     (let scoped = map_collect (map (\<lambda>(scope, level). (snake scope, JString (to_lower level)))
            (filter (\<lambda>(scope, level). \<not> eq_ignore_ascii_case level ''none'' \<and>
               scope \<notin> set ACTIONS_ONLY_SCOPES) perms))
      in if scoped = [] then [(fst MINIMUM_PERMISSION, JString (snd MINIMUM_PERMISSION))] else scoped)"

section \<open>Cache writes\<close>

datatype results_identity = SystemIdentity | JobIdentity string

datatype results_identity_error = NotJob | MalformedJob | MalformedJobSubject | MalformedScope | InvalidBearer

text \<open>
  The bearer's identity (\<^verbatim>\<open>auth::results_identity\<close>, which verifies a signed token), the
  backend's lookup of an attempt's stored submission and its JSON decoding are arguments; a
  decoded submission is its stored trust tier.
\<close>

definition fork_restricted_from_token :: "(string \<Rightarrow> results_identity_error + results_identity) \<Rightarrow>
    (string \<Rightarrow> 'e + string option) \<Rightarrow> (string \<Rightarrow> string option option) \<Rightarrow> string \<Rightarrow> bool option" where
  "fork_restricted_from_token results_identity submission_json_for_attempt decode token =
     (case results_identity token of
        Inr (JobIdentity job) \<Rightarrow>
          Some (case submission_json_for_attempt job of
                  Inl _ \<Rightarrow> True
                | Inr None \<Rightarrow> True
                | Inr (Some js) \<Rightarrow>
                    (case decode js of
                       None \<Rightarrow> False
                     | Some stored \<Rightarrow> (case tier_of stored of None \<Rightarrow> False | Some t \<Rightarrow> is_fork_restricted t)))
      | Inr SystemIdentity \<Rightarrow> None
      | Inl e \<Rightarrow> if e \<in> {MalformedJob, MalformedJobSubject} then Some True else None)"

definition ensure_cache_write_allowed :: "(string \<Rightarrow> results_identity_error + results_identity) \<Rightarrow>
    (string \<Rightarrow> 'e + string option) \<Rightarrow> (string \<Rightarrow> string option option) \<Rightarrow> string option \<Rightarrow> string + unit" where
  "ensure_cache_write_allowed results_identity submission_json_for_attempt decode bearer =
     (case bearer of
        None \<Rightarrow> Inr ()
      | Some token \<Rightarrow>
          if fork_restricted_from_token results_identity submission_json_for_attempt decode token = Some True
          then Inl ''cache writes are read-only for fork pull request runs'' else Inr ())"

section \<open>Properties\<close>

lemma set_map_filter: "set (List.map_filter f xs) = {y. \<exists>x \<in> set xs. f x = Some y}"
  by (force simp: List.map_filter_def)

lemma values_map_extend: "snd ` set (map_extend m kvs) \<subseteq> snd ` set m \<union> snd ` set kvs"
proof (induction kvs arbitrary: m)
  case (Cons kv kvs)
  obtain k v where kv: "kv = (k, v)" by (cases kv)
  have "snd ` set (im_insert k v m) \<subseteq> insert v (snd ` set m)" by (induction m) auto
  with Cons.IH [of "im_insert k v m"] show ?case by (auto simp: map_extend_def kv)
qed (simp add: map_extend_def)

text \<open>C12. Fork code gets no authority: whatever its workflow declares, a job of a fork-restricted
  tier has no secrets, no OIDC grant, only scopes at level read or none, and asks the App for
  read scopes only.\<close>

theorem fork_jobs_read_only:
  assumes "tier = Some UntrustedForkPullRequest \<or> tier = Some Untrusted"
  shows "let a = job_authorization tier declared idt in
    \<not> auth_allows_secrets a \<and> \<not> auth_id_token_granted a \<and>
    snd ` set (token_permissions a) \<subseteq> {''read'', ''none''} \<and> ''id-token'' \<notin> fst ` set (token_permissions a) \<and>
    snd ` set (installation_permissions (app_permissions a)) \<subseteq> {JString ''read''}"
proof -
  let ?a = "job_authorization tier declared idt"
  have r: "snd ` set (token_permissions ?a) \<subseteq> {''read'', ''none''}" "''id-token'' \<notin> fst ` set (token_permissions ?a)"
    "\<not> auth_allows_secrets ?a" "\<not> auth_id_token_granted ?a"
    using assms by (auto simp: job_authorization_def fork_permission_set_def is_fork_restricted_def
        allows_secrets_def Let_def split: if_splits)
  have lower: "to_lower ''read'' = ''read''" by code_simp
  let ?l = "map (\<lambda>(scope, level). (snake scope, JString (to_lower level)))
      (filter (\<lambda>(scope, level). \<not> eq_ignore_ascii_case level ''none'' \<and> scope \<notin> set ACTIONS_ONLY_SCOPES)
         (app_permissions ?a))"
  have l: "snd ` set ?l \<subseteq> {JString ''read''}"
    using r(1) lower by (auto simp: job_authorization_def Let_def)
  have "snd ` set (map_collect ?l) \<subseteq> {JString ''read''}"
    unfolding map_collect_def by (rule order_trans [OF values_map_extend]) (use l in simp)
  then have "snd ` set (installation_permissions (app_permissions ?a)) \<subseteq> {JString ''read''}"
    unfolding installation_permissions_def Let_def by (simp only: MINIMUM_PERMISSION_def split: if_split) simp
  with r show ?thesis by (simp add: Let_def)
qed

theorem fork_jobs_read_only_witness:
  "token_permissions (job_authorization (Some Untrusted) (Some [(''contents'', ''write''), (''id-token'', ''write'')]) True)
     = [(''contents'', ''read'')] \<and>
   \<not> auth_id_token_granted (job_authorization (Some Untrusted) (Some [(''contents'', ''write''), (''id-token'', ''write'')]) True)"
proof
  show "token_permissions (job_authorization (Some Untrusted) (Some [(''contents'', ''write''), (''id-token'', ''write'')]) True)
     = [(''contents'', ''read'')]" by code_simp
  show "\<not> auth_id_token_granted (job_authorization (Some Untrusted) (Some [(''contents'', ''write''), (''id-token'', ''write'')]) True)"
    using fork_jobs_read_only [of "Some Untrusted" "Some [(''contents'', ''write''), (''id-token'', ''write'')]" True]
    by (simp add: Let_def)
qed

text \<open>Narrowing to an installation's grants never adds authority: every scope of the result was
  requested, is granted, and its level ranks no higher than either.\<close>

theorem clamp_to_grants_no_escalation:
  assumes "(scope, level) \<in> set (clamp_to_grants requested granted)"
  shows "\<exists>req_level granted_level. (scope, req_level) \<in> set requested \<and>
    map_of granted (snake scope) = Some granted_level \<and>
    permission_rank level \<le> permission_rank req_level \<and> permission_rank level \<le> permission_rank granted_level"
  using assms by (auto simp: clamp_to_grants_def set_map_filter)

theorem clamp_to_grants_no_escalation_witness:
  "permission_rank ''read'' \<le> permission_rank ''write''"
proof -
  have "clamp_to_grants [(''pull-requests'', ''write'')] [(''pull_requests'', ''read'')] = [(''pull-requests'', ''read'')]"
    by code_simp
  then have "(''pull-requests'', ''read'') \<in> set (clamp_to_grants [(''pull-requests'', ''write'')] [(''pull_requests'', ''read'')])"
    by simp
  from clamp_to_grants_no_escalation [OF this] show ?thesis by auto
qed

text \<open>When no requested scope is reported as ungranted, narrowing changes no scope an
  installation token can carry: the error message and the clamp agree on what is missing.\<close>

theorem ungranted_scopes_agree_with_clamp:
  assumes "ungranted_scopes requested granted = []" "(scope, level) \<in> set requested"
    "\<not> eq_ignore_ascii_case level ''none''" "scope \<notin> set ACTIONS_ONLY_SCOPES"
  shows "(scope, level) \<in> set (clamp_to_grants requested granted)"
proof -
  have "\<not> is_ungranted granted (scope, level)"
    using assms(1,2) by (auto simp: ungranted_scopes_def filter_empty_conv)
  then obtain g where "map_of granted (snake scope) = Some g" "\<not> permission_rank level > permission_rank g"
    using assms(3,4) by (auto simp: is_ungranted_def split: option.splits)
  with assms(2) show ?thesis unfolding clamp_to_grants_def set_map_filter by (force intro!: bexI)
qed

theorem ungranted_scopes_agree_with_clamp_witness:
  "(''contents'', ''read'') \<in> set (clamp_to_grants [(''contents'', ''read'')] [(''contents'', ''write'')])"
proof (rule ungranted_scopes_agree_with_clamp)
  show "ungranted_scopes [(''contents'', ''read'')] [(''contents'', ''write'')] = []" by code_simp
  show "\<not> eq_ignore_ascii_case ''read'' ''none''" by code_simp
  show "''contents'' \<notin> set ACTIONS_ONLY_SCOPES" by code_simp
qed simp

text \<open>A called reusable workflow never exceeds its caller: every scope of the intersection is
  held by both sides, and is at level write only when both are.\<close>

theorem intersect_permissions_no_escalation:
  assumes "(scope, level) \<in> set (intersect_permissions called caller)"
  shows "\<exists>called_level caller_level. (scope, called_level) \<in> set (effective_token_permissions called) \<and>
    map_of (effective_token_permissions caller) scope = Some caller_level \<and>
    (if called_level = ''write'' \<and> caller_level = ''write'' then level = ''write'' else level = ''read'') \<and>
    {called_level, caller_level} \<subseteq> {''read'', ''write''}"
proof -
  from assms obtain a b where ab: "(scope, a) \<in> set (effective_token_permissions called)"
    "map_of (effective_token_permissions caller) scope = Some b" "meet_level a b = Some level"
    unfolding intersect_permissions_def set_map_filter by (auto simp: bind_eq_Some_conv)
  have "if a = ''write'' \<and> b = ''write'' then level = ''write'' else level = ''read''"
    "{a, b} \<subseteq> {''read'', ''write''}"
    using ab(3) unfolding meet_level_def by (simp split: if_splits; blast)+
  with ab(1,2) show ?thesis by blast
qed

theorem intersect_permissions_no_escalation_witness:
  "intersect_permissions (Some [(''contents'', ''write''), (''issues'', ''write'')]) (Some [(''contents'', ''read'')])
     = [(''contents'', ''read'')] \<and>
   map_of (effective_token_permissions (Some [(''contents'', ''read'')])) ''contents'' = Some ''read''"
proof -
  have e: "intersect_permissions (Some [(''contents'', ''write''), (''issues'', ''write'')]) (Some [(''contents'', ''read'')])
     = [(''contents'', ''read'')]" by code_simp
  then have "(''contents'', ''read'') \<in> set (intersect_permissions
      (Some [(''contents'', ''write''), (''issues'', ''write'')]) (Some [(''contents'', ''read'')]))" by simp
  from intersect_permissions_no_escalation [OF this] e show ?thesis by (auto simp: effective_token_permissions_def)
qed

lemma tier_from_name_namespace: "tier_from_name (concurrency_namespace t) = Some t"
  by (cases t) (simp_all add: tier_from_name_def all_tiers_def)

text \<open>A stored tier reads back as itself, and a stored string that names no tier reads as the
  fail-closed tier, never as a trusted one.\<close>

theorem tier_of_fails_closed:
  "tier_of (Some s) =
     (if s \<in> range concurrency_namespace then Some (inv concurrency_namespace s) else Some Untrusted)"
proof (cases "s \<in> range concurrency_namespace")
  case True
  then obtain t where t: "s = concurrency_namespace t" by blast
  have "inj concurrency_namespace" by (metis injI option.inject tier_from_name_namespace)
  then show ?thesis using t by (simp add: tier_of_def tier_from_name_namespace)
next
  case False
  then have "tier_from_name s = None" by (auto simp: tier_from_name_def find_None_iff)
  with False show ?thesis by (simp add: tier_of_def)
qed


text \<open>A job's bearer may write the cache exactly when its attempt still resolves to a stored
  submission that is not of a fork-restricted tier; a failed or empty lookup refuses the write,
  while a submission that does not decode lets it pass.\<close>

theorem cache_write_of_job:
  assumes "results_identity token = Inr (JobIdentity job)"
  shows "ensure_cache_write_allowed results_identity lookup decode (Some token) = Inr () \<longleftrightarrow>
    (\<exists>js. lookup job = Inr (Some js) \<and>
       (decode js = None \<or> decode js = Some None \<or>
        (\<exists>s t. decode js = Some (Some s) \<and> tier_of (Some s) = Some t \<and> allows_secrets t)))"
  using assms
  by (auto simp: ensure_cache_write_allowed_def fork_restricted_from_token_def tier_of_def allows_secrets_def
      split: sum.splits option.splits)

theorem cache_write_of_job_witness:
  "ensure_cache_write_allowed (\<lambda>_. Inr (JobIdentity ''j'')) (\<lambda>_. (Inr (Some ''{}'') :: unit + string option))
     (\<lambda>_. Some (Some ''untrusted-fork-pull-request'')) (Some ''tok'') \<noteq> Inr ()"
proof -
  have "tier_of (Some ''untrusted-fork-pull-request'') = Some UntrustedForkPullRequest" by code_simp
  then show ?thesis
    by (subst cache_write_of_job [where job = "''j''"]) (auto simp: allows_secrets_def is_fork_restricted_def)
qed

end
