(* ===== verification/Concurrency_Groups.thy ===== *)
theory Concurrency_Groups
  imports Run_Status Rerun_Set Trust_Tier
begin

text \<open>
  Concurrency groups (crate \<^verbatim>\<open>preloop-runner-server\<close>): holders, their rows and keys and the order
  of GitHub's events (\<^verbatim>\<open>concurrency.rs\<close>), the admission and queue decisions the backends share
  (\<^verbatim>\<open>control/logic.rs\<close>), and the SQLite backend's tables of holds and waits with
  \<^verbatim>\<open>acquire\<close> (\<^verbatim>\<open>control/lite/concurrency.rs\<close>). A table is the list of its rows; an operation
  returns the new tables or the error of its first failing statement, upon which the
  transaction is rolled back. A run id is a 128-bit word.
\<close>

type_synonym run_id = "128 word"
type_synonym job_id = string

section \<open>Holders\<close>

datatype holder =
  RunHolder run_id
| JobHolder run_id job_id
| JobSetHolder run_id "job_id list"

fun holder_run_id :: "holder \<Rightarrow> run_id" where
  "holder_run_id (RunHolder r) = r"
| "holder_run_id (JobHolder r _) = r"
| "holder_run_id (JobSetHolder r _) = r"

fun contains_job :: "holder \<Rightarrow> run_id \<Rightarrow> job_id \<Rightarrow> bool" where
  "contains_job (RunHolder i) run_id job_id \<longleftrightarrow> i = run_id"
| "contains_job (JobHolder r j) run_id job_id \<longleftrightarrow> r = run_id \<and> j = job_id"
| "contains_job (JobSetHolder r js) run_id job_id \<longleftrightarrow> r = run_id \<and> job_id \<in> set js"

fun is_run_holder :: "holder \<Rightarrow> run_id \<Rightarrow> bool" where
  "is_run_holder (RunHolder i) run_id \<longleftrightarrow> i = run_id"
| "is_run_holder (JobSetHolder r _) run_id \<longleftrightarrow> r = run_id"
| "is_run_holder (JobHolder _ _) run_id \<longleftrightarrow> False"

text \<open>Rows. The printing and parsing of run ids (\<^verbatim>\<open>uuid\<close>) and of lists of strings
  (\<^verbatim>\<open>serde_json\<close>) are arguments. A set of job ids is its sorted list.\<close>

fun holder_row :: "(run_id \<Rightarrow> string) \<Rightarrow> (string list \<Rightarrow> string) \<Rightarrow> holder \<Rightarrow> string \<times> string \<times> string option \<times> string" where
  "holder_row show_id to_json (RunHolder r) = (''run'', show_id r, None, ''[]'')"
| "holder_row show_id to_json (JobHolder r j) = (''job'', show_id r, Some j, ''[]'')"
| "holder_row show_id to_json (JobSetHolder r js) = (''jobset'', show_id r, None, to_json js)"

definition holder_from_row :: "(string \<Rightarrow> run_id option) \<Rightarrow> (string \<Rightarrow> string list option) \<Rightarrow>
    string \<Rightarrow> string \<Rightarrow> string option \<Rightarrow> string \<Rightarrow> holder option" where
  "holder_from_row parse_id from_json kind run_id job_id job_ids_json =
     Option.bind (parse_id run_id) (\<lambda>r.
       if kind = ''run'' then Some (RunHolder r)
       else if kind = ''job'' then map_option (JobHolder r) job_id
       else if kind = ''jobset'' then
         map_option (\<lambda>ids. JobSetHolder r (sort (remdups ids))) (from_json job_ids_json)
       else None)"

definition holder_wf :: "holder \<Rightarrow> bool" where
  "holder_wf h = (case h of JobSetHolder _ js \<Rightarrow> sorted js \<and> distinct js | _ \<Rightarrow> True)"

datatype concurrency_queue = SingleQueue | MaxQueue

fun queue_mode_row :: "concurrency_queue \<Rightarrow> string" where
  "queue_mode_row SingleQueue = ''single''"
| "queue_mode_row MaxQueue = ''max''"

definition queue_mode_from_row :: "string \<Rightarrow> concurrency_queue" where
  "queue_mode_from_row mode = (if mode = ''max'' then MaxQueue else SingleQueue)"

record concurrency_decl =
  group_expr :: string
  cancel_in_progress_expr :: "string option"
  decl_queue :: concurrency_queue

definition concurrency_from_plan_fields :: "string option \<Rightarrow> string option \<Rightarrow> string option \<Rightarrow> concurrency_decl option" where
  "concurrency_from_plan_fields grp cancel queue =
     map_option (\<lambda>g. \<lparr>group_expr = g, cancel_in_progress_expr = cancel,
       decl_queue = (if unwrap_or queue ''single'' = ''max'' then MaxQueue else SingleQueue)\<rparr>) grp"

section \<open>Keys\<close>

definition concurrency_key :: "string \<Rightarrow> string \<Rightarrow> string \<times> string" where
  "concurrency_key repo grp = (to_lower repo, to_lower grp)"

definition TIER_KEY_SEP :: char where
  "TIER_KEY_SEP = CHR 0x1F"

text \<open>\<^verbatim>\<open>rsplit(sep).next()\<close>: what follows the last separator.\<close>

definition after_last :: "char \<Rightarrow> string \<Rightarrow> string" where
  "after_last sep s = rev (takeWhile (\<lambda>c. c \<noteq> sep) (rev s))"

definition concurrency_key_for_tier :: "string \<Rightarrow> string \<Rightarrow> trust_tier option \<Rightarrow> string \<times> string" where
  "concurrency_key_for_tier repo grp tier =
     (let (r, g) = concurrency_key (after_last TIER_KEY_SEP repo) grp
      in case tier of
           None \<Rightarrow> (r, g)
         | Some t \<Rightarrow> (concurrency_namespace t @ [TIER_KEY_SEP] @ r, g))"

section \<open>Event order\<close>

record event_order_t =
  order_scope :: string
  order_at :: int

definition is_older_than :: "event_order_t \<Rightarrow> event_order_t \<Rightarrow> bool" where
  "is_older_than a b \<longleftrightarrow> order_scope a = order_scope b \<and> order_at a < order_at b"

fun as_i64_value :: "json \<Rightarrow> int option" where
  "as_i64_value (JNumber (PosInt n)) = (if int n < 2 ^ 63 then Some (int n) else None)"
| "as_i64_value (JNumber (NegInt i)) = Some i"
| "as_i64_value _ = None"

text \<open>\<^verbatim>\<open>chrono\<close>'s RFC 3339 parser is the argument \<open>rfc3339\<close>.\<close>

definition unix_seconds :: "(string \<Rightarrow> int option) \<Rightarrow> json \<Rightarrow> int option" where
  "unix_seconds rfc3339 value = or_else (as_i64_value value) (Option.bind (as_str value) rfc3339)"

fun first_at :: "(string \<Rightarrow> int option) \<Rightarrow> json \<Rightarrow> string list \<Rightarrow> int option" where
  "first_at rfc3339 obj [] = None"
| "first_at rfc3339 obj (field # names) =
     or_else (Option.bind (json_get obj field) (unix_seconds rfc3339)) (first_at rfc3339 obj names)"

definition number_of :: "json \<Rightarrow> nat option" where
  "number_of obj = Option.bind (json_get obj ''number'') as_u64"

definition order_of :: "string option \<Rightarrow> int option \<Rightarrow> event_order_t option" where
  "order_of scope tm = Option.bind scope (\<lambda>s. map_option (\<lambda>a. \<lparr>order_scope = s, order_at = a\<rparr>) tm)"

definition pull_request_scope :: "string \<Rightarrow> nat \<Rightarrow> string" where
  "pull_request_scope repository n = ''pull_request:'' @ repository @ ''#'' @ nat_to_string n"

definition comment_at :: "(string \<Rightarrow> int option) \<Rightarrow> json \<Rightarrow> int option" where
  "comment_at rfc3339 payload =
     Option.bind (json_get payload ''comment'') (\<lambda>c. first_at rfc3339 c [''updated_at'', ''created_at''])"

definition numbered_order :: "(string \<Rightarrow> int option) \<Rightarrow> string \<Rightarrow> json \<Rightarrow> int option \<Rightarrow> event_order_t option" where
  "numbered_order rfc3339 prefix obj own =
     order_of (map_option (\<lambda>n. prefix @ ''#'' @ nat_to_string n) (number_of obj))
       (or_else own (first_at rfc3339 obj [''updated_at'', ''created_at'']))"

definition branch_order :: "(string \<Rightarrow> int option) \<Rightarrow> string \<Rightarrow> json option \<Rightarrow> int option \<Rightarrow> event_order_t option" where
  "branch_order rfc3339 repository branch tm =
     order_of (map_option (\<lambda>b. ''branch:'' @ repository @ '':'' @ b) (Option.bind branch as_str)) tm"

definition event_order :: "(string \<Rightarrow> int option) \<Rightarrow> string \<Rightarrow> string \<Rightarrow> json \<Rightarrow> event_order_t option" where
  "event_order rfc3339 event repository payload =
     (if event = ''push'' then
        order_of (Some (''push:'' @ repository))
          (Option.bind (Option.bind (json_get payload ''repository'') (\<lambda>r. json_get r ''pushed_at'')) (unix_seconds rfc3339))
      else if event = ''pull_request'' \<or> event = ''pull_request_target'' then
        Option.bind (json_get payload ''pull_request'') (\<lambda>pr.
          order_of (map_option (pull_request_scope repository) (or_else (number_of payload) (number_of pr)))
            (first_at rfc3339 pr [''updated_at'']))
      else if event = ''pull_request_review'' \<or> event = ''pull_request_review_comment'' then
        Option.bind (json_get payload ''pull_request'') (\<lambda>pr.
          let own = or_else (Option.bind (json_get payload ''review'')
                (\<lambda>r. first_at rfc3339 r [''submitted_at'', ''updated_at''])) (comment_at rfc3339 payload)
          in order_of (map_option (pull_request_scope repository) (number_of pr))
               (or_else own (first_at rfc3339 pr [''updated_at''])))
      else if event = ''issue_comment'' then
        Option.bind (json_get payload ''issue'') (\<lambda>issue.
          order_of (map_option (\<lambda>n. if json_get issue ''pull_request'' \<noteq> None then pull_request_scope repository n
              else ''issue:'' @ repository @ ''#'' @ nat_to_string n) (number_of issue))
            (comment_at rfc3339 payload))
      else if event = ''issues'' then
        Option.bind (json_get payload ''issue'') (\<lambda>issue. numbered_order rfc3339 (''issue:'' @ repository) issue None)
      else if event = ''discussion'' \<or> event = ''discussion_comment'' then
        Option.bind (json_get payload ''discussion'') (\<lambda>d.
          numbered_order rfc3339 (''discussion:'' @ repository) d (comment_at rfc3339 payload))
      else if event = ''milestone'' then
        Option.bind (json_get payload ''milestone'') (\<lambda>m. numbered_order rfc3339 (''milestone:'' @ repository) m None)
      else if event = ''deployment'' \<or> event = ''deployment_status'' then
        Option.bind (json_get payload ''deployment'') (\<lambda>d.
          let status = json_get payload ''deployment_status'';
              environment = Option.bind (or_else (Option.bind status (\<lambda>s. json_get s ''environment''))
                (json_get d ''environment'')) as_str;
              tm = first_at rfc3339 (unwrap_or status d) [''updated_at'', ''created_at'']
          in order_of (map_option (\<lambda>e. ''deployment:'' @ repository @ '':'' @ e) environment) tm)
      else if event = ''workflow_run'' then
        Option.bind (json_get payload ''workflow_run'') (\<lambda>run.
          branch_order rfc3339 repository (json_get run ''head_branch'') (first_at rfc3339 run [''updated_at'', ''created_at'']))
      else if event = ''check_suite'' then
        Option.bind (json_get payload ''check_suite'') (\<lambda>suite.
          branch_order rfc3339 repository (json_get suite ''head_branch'') (first_at rfc3339 suite [''updated_at'', ''created_at'']))
      else if event = ''check_run'' then
        Option.bind (json_get payload ''check_run'') (\<lambda>run.
          branch_order rfc3339 repository (Option.bind (json_get run ''check_suite'') (\<lambda>s. json_get s ''head_branch''))
            (first_at rfc3339 run [''completed_at'', ''started_at'']))
      else if event = ''release'' then
        order_of (Some (''release:'' @ repository))
          (Option.bind (json_get payload ''release'') (\<lambda>r. first_at rfc3339 r [''published_at'', ''created_at'']))
      else None)"

section \<open>Shared decisions\<close>

definition is_awaiting_execution :: "execution_status \<Rightarrow> bool" where
  "is_awaiting_execution s \<longleftrightarrow> s \<in> {Queued, Pending}"

definition job_terminal :: "(job_id \<times> execution_status) list \<Rightarrow> job_id \<Rightarrow> bool" where
  "job_terminal jobs j = (case map_of jobs j of None \<Rightarrow> False | Some s \<Rightarrow> is_terminal s)"

fun holder_is_terminal :: "holder \<Rightarrow> (job_id \<times> execution_status) list \<Rightarrow> bool" where
  "holder_is_terminal (RunHolder _) jobs = list_all (\<lambda>(_, s). is_terminal s) jobs"
| "holder_is_terminal (JobHolder _ j) jobs = job_terminal jobs j"
| "holder_is_terminal (JobSetHolder _ js) jobs = list_all (job_terminal jobs) js"

record concurrency_row =
  row_group :: string
  row_run_id :: run_id
  row_job :: "job_id option"
  wait_id :: nat
  cancel_in_progress :: bool

datatype concurrency_admission_t = Acquired | Waiting | CancelCurrent concurrency_row | AdmissionCancelled

definition concurrency_admission :: "concurrency_row \<Rightarrow> concurrency_row option \<Rightarrow> concurrency_admission_t" where
  "concurrency_admission arrival holder =
     (case holder of
        None \<Rightarrow> Acquired
      | Some current \<Rightarrow>
          if cancel_in_progress arrival then
            if row_run_id current = row_run_id arrival then Acquired else CancelCurrent current
          else Waiting)"

text \<open>\<^verbatim>\<open>min_by_key\<close> returns the first minimum.\<close>

fun concurrency_fifo_promotion :: "concurrency_row list \<Rightarrow> concurrency_row option" where
  "concurrency_fifo_promotion [] = None"
| "concurrency_fifo_promotion (w # ws) =
     (case concurrency_fifo_promotion ws of
        None \<Rightarrow> Some w
      | Some v \<Rightarrow> if wait_id w \<le> wait_id v then Some w else Some v)"

record 'w queue_decision =
  cancel_pending :: "'w list"
  cancel_arrival :: bool
  park_arrival :: bool

definition MAX_CONCURRENCY_WAITERS :: nat where "MAX_CONCURRENCY_WAITERS = 100"
definition QUEUE_MAX_PENDING :: nat where "QUEUE_MAX_PENDING = 100"

definition concurrency_queue_decision :: "concurrency_queue \<Rightarrow> concurrency_row list \<Rightarrow> concurrency_row queue_decision" where
  "concurrency_queue_decision mode existing =
     (case mode of
        SingleQueue \<Rightarrow> \<lparr>cancel_pending = existing, cancel_arrival = False, park_arrival = True\<rparr>
      | MaxQueue \<Rightarrow>
          if length existing \<ge> MAX_CONCURRENCY_WAITERS
          then \<lparr>cancel_pending = [], cancel_arrival = True, park_arrival = False\<rparr>
          else \<lparr>cancel_pending = [], cancel_arrival = False, park_arrival = True\<rparr>)"

definition apply_queue_mode :: "concurrency_queue \<Rightarrow> holder list \<Rightarrow> holder queue_decision" where
  "apply_queue_mode queue existing_pending =
     (case queue of
        SingleQueue \<Rightarrow> \<lparr>cancel_pending = existing_pending, cancel_arrival = False, park_arrival = True\<rparr>
      | MaxQueue \<Rightarrow>
          if length existing_pending \<ge> QUEUE_MAX_PENDING
          then \<lparr>cancel_pending = [], cancel_arrival = True, park_arrival = False\<rparr>
          else \<lparr>cancel_pending = [], cancel_arrival = False, park_arrival = True\<rparr>)"

section \<open>The queue policy as an interface\<close>

text \<open>
  The contract both queue decisions promise: a single queue replaces its waiters by the arrival,
  a bounded queue parks the arrival while there is room and refuses it otherwise. The lemmas of
  the locale follow a whole sequence of arrivals.
\<close>

locale queue_policy =
  fixes decide :: "concurrency_queue \<Rightarrow> 'w list \<Rightarrow> 'w queue_decision"
    and limit :: nat
  assumes single_replaces: "cancel_pending (decide SingleQueue ws) = ws \<and>
      \<not> cancel_arrival (decide SingleQueue ws) \<and> park_arrival (decide SingleQueue ws)"
    and max_keeps: "cancel_pending (decide MaxQueue ws) = []"
    and max_full: "cancel_arrival (decide MaxQueue ws) \<longleftrightarrow> limit \<le> length ws"
    and max_parks: "park_arrival (decide MaxQueue ws) \<longleftrightarrow> length ws < limit"
begin

definition join_queue :: "'w list \<Rightarrow> concurrency_queue \<times> 'w \<Rightarrow> 'w list" where
  "join_queue ws = (\<lambda>(mode, w). let d = decide mode ws
     in if cancel_arrival d then ws
        else (if cancel_pending d = [] then ws else []) @ (if park_arrival d then [w] else []))"

lemma join_single: "join_queue ws (SingleQueue, w) = [w]"
  using single_replaces [of ws] by (simp add: join_queue_def Let_def)

lemma join_max: "join_queue ws (MaxQueue, w) = (if length ws < limit then ws @ [w] else ws)"
  using max_keeps [of ws] max_full [of ws] max_parks [of ws] by (auto simp: join_queue_def Let_def)

lemma join_bounded: "1 \<le> limit \<Longrightarrow> length ws \<le> limit \<Longrightarrow> length (join_queue ws a) \<le> limit"
  by (cases a; cases "fst a") (auto simp: join_single join_max)

lemma queue_bounded: "1 \<le> limit \<Longrightarrow> length (foldl join_queue [] arrivals) \<le> limit"
proof (induction arrivals rule: rev_induct)
  case (snoc a arrivals)
  then show ?case by (simp add: join_bounded)
qed simp

lemma newest_single_waits:
  "fst a = SingleQueue \<Longrightarrow> foldl join_queue [] (arrivals @ [a]) = [snd a]"
  by (cases a) (simp add: join_single)

end

interpretation rowq: queue_policy concurrency_queue_decision MAX_CONCURRENCY_WAITERS
  by unfold_locales (auto simp: concurrency_queue_decision_def)

interpretation holderq: queue_policy apply_queue_mode QUEUE_MAX_PENDING
  by unfold_locales (auto simp: apply_queue_mode_def)

section \<open>Lemmas and properties\<close>

lemma sort_remdups_id: "sorted xs \<Longrightarrow> distinct xs \<Longrightarrow> sort (remdups xs) = xs"
  by (simp add: sorted_sort_id distinct_remdups_id)

text \<open>A holder survives its table row: decoding the row of a holder gives the holder back,
  given that the id and list codecs round-trip on its own values.\<close>

theorem holder_row_roundtrip:
  assumes "holder_wf h" "parse_id (show_id (holder_run_id h)) = Some (holder_run_id h)"
    "\<And>r js. h = JobSetHolder r js \<Longrightarrow> from_json (to_json js) = Some js"
  shows "(case holder_row show_id to_json h of (kind, run, job, ids) \<Rightarrow>
    holder_from_row parse_id from_json kind run job ids) = Some h"
  using assms
  by (cases h) (auto simp: holder_from_row_def holder_wf_def sort_remdups_id)

theorem holder_row_roundtrip_witness:
  "(case holder_row (\<lambda>r. nat_to_string (unat r)) (join '','') (JobSetHolder 7 [''a'', ''b'']) of (kind, run, job, ids) \<Rightarrow>
     holder_from_row (\<lambda>s. map_option of_nat (parse_digits s))
       (\<lambda>s. if s = ''a,b'' then Some [''a'', ''b''] else None) kind run job ids)
   = Some (JobSetHolder 7 [''a'', ''b''])"
  by (rule holder_row_roundtrip) (simp_all add: holder_wf_def)

lemma sep_lower: "char_lower c = TIER_KEY_SEP \<longleftrightarrow> c = TIER_KEY_SEP"
proof (cases "65 \<le> (of_char c :: nat) \<and> (of_char c :: nat) \<le> 90")
  case True
  then have "(of_char (char_lower c) :: nat) = of_char c + 32" by (simp add: char_lower_def)
  with True have "(of_char (char_lower c) :: nat) \<noteq> 31" "(of_char c :: nat) \<noteq> 31" by simp_all
  then show ?thesis by (auto simp: TIER_KEY_SEP_def)
qed (auto simp: char_lower_def)

lemma sep_not_in_namespace: "TIER_KEY_SEP \<notin> set (concurrency_namespace t)"
  by (cases t) (simp_all add: TIER_KEY_SEP_def)

lemma sep_not_after_last: "sep \<notin> set (after_last sep s)"
  unfolding after_last_def by (metis (mono_tags, lifting) set_rev set_takeWhileD)

lemma after_last_append: "sep \<notin> set b \<Longrightarrow> after_last sep (a @ sep # b) = b"
proof -
  assume "sep \<notin> set b"
  then have "takeWhile (\<lambda>c. c \<noteq> sep) (rev b @ sep # rev a) = rev b"
    by (subst takeWhile_append2) auto
  then show ?thesis by (simp add: after_last_def)
qed

lemma after_last_id: "sep \<notin> set b \<Longrightarrow> after_last sep b = b"
proof -
  assume "sep \<notin> set b"
  then have "takeWhile (\<lambda>c. c \<noteq> sep) (rev b) = rev b"
    by (subst takeWhile_eq_all_conv) auto
  then show ?thesis unfolding after_last_def by (metis rev_rev_ident)
qed

lemma sep_not_in_lower: "TIER_KEY_SEP \<notin> set (to_lower (after_last TIER_KEY_SEP s))"
proof
  assume "TIER_KEY_SEP \<in> set (to_lower (after_last TIER_KEY_SEP s))"
  then obtain c where c: "c \<in> set (after_last TIER_KEY_SEP s)" "TIER_KEY_SEP = char_lower c"
    by (metis ex_map_conv in_set_conv_nth nth_map length_map)
  with sep_lower [of c] have "c = TIER_KEY_SEP" by simp
  with c sep_not_after_last show False by metis
qed

lemma split_at_sep:
  "sep \<notin> set a \<Longrightarrow> sep \<notin> set a' \<Longrightarrow> a @ sep # b = a' @ sep # b' \<Longrightarrow> a = a' \<and> b = b'"
  by (induction a arbitrary: a') (auto simp: Cons_eq_append_conv)

lemma namespace_inj: "concurrency_namespace t = concurrency_namespace u \<longleftrightarrow> t = u"
  by (metis option.inject tier_from_name_namespace)

text \<open>The trust tier isolates concurrency groups: two keys coincide only for the same tier and,
  up to case, the same repository and group, so a run can never share a slot with one of another
  tier, whatever names it uses.\<close>

theorem concurrency_key_isolates_tiers:
  "concurrency_key_for_tier repo g tier = concurrency_key_for_tier repo' g' tier' \<longleftrightarrow>
     tier = tier' \<and> to_lower g = to_lower g' \<and>
     to_lower (after_last TIER_KEY_SEP repo) = to_lower (after_last TIER_KEY_SEP repo')"
proof -
  let ?l = "\<lambda>r. to_lower (after_last TIER_KEY_SEP r)"
  have "concurrency_namespace t @ TIER_KEY_SEP # ?l repo = concurrency_namespace u @ TIER_KEY_SEP # ?l repo' \<longleftrightarrow>
      t = u \<and> ?l repo = ?l repo'" for t u
    using split_at_sep [OF sep_not_in_namespace sep_not_in_namespace] namespace_inj by blast
  moreover have "concurrency_namespace t @ TIER_KEY_SEP # ?l r \<noteq> ?l r'" for t r r'
    using sep_not_in_lower [of r'] by (metis in_set_conv_decomp)
  ultimately show ?thesis
    by (cases tier; cases tier')
       (auto simp: concurrency_key_for_tier_def concurrency_key_def Let_def eq_commute [of "?l repo"])
qed

text \<open>Restoring persisted state may rekey it: keying an already namespaced repository again
  gives the same key as keying the bare one.\<close>

theorem concurrency_rekey_idempotent:
  "concurrency_key_for_tier (fst (concurrency_key_for_tier repo g tier)) g' tier' =
   concurrency_key_for_tier repo g' tier'"
proof -
  have "after_last TIER_KEY_SEP (fst (concurrency_key_for_tier repo g tier)) = to_lower (after_last TIER_KEY_SEP repo)"
    using sep_not_in_lower [of repo]
    by (cases tier) (simp_all add: concurrency_key_for_tier_def concurrency_key_def after_last_id after_last_append)
  then show ?thesis by (simp add: concurrency_key_for_tier_def [of _ g'] concurrency_key_def char_lower_idem comp_def)
qed

text \<open>Both queue policies stay bounded over any sequence of arrivals: however holders arrive
  and whatever mode each uses, at most 100 wait, and an arrival in single mode leaves itself as
  the only waiter.\<close>

theorem queue_modes_bounded:
  "length (foldl rowq.join_queue [] arrivals) \<le> MAX_CONCURRENCY_WAITERS \<and>
   length (foldl holderq.join_queue [] holders) \<le> QUEUE_MAX_PENDING \<and>
   foldl rowq.join_queue [] (arrivals @ [(SingleQueue, w)]) = [w]"
  using rowq.queue_bounded [of arrivals] holderq.queue_bounded [of holders]
    rowq.newest_single_waits [of "(SingleQueue, w)" arrivals]
  by (simp add: MAX_CONCURRENCY_WAITERS_def QUEUE_MAX_PENDING_def)

text \<open>Promotion is first in, first out: of the waiters it picks one with the least wait id.\<close>

theorem fifo_promotion_oldest:
  "case concurrency_fifo_promotion ws of
     None \<Rightarrow> ws = []
   | Some w \<Rightarrow> w \<in> set ws \<and> (\<forall>v \<in> set ws. wait_id w \<le> wait_id v)"
proof (induction ws)
  case (Cons w ws)
  then show ?case by (cases "concurrency_fifo_promotion ws") (auto intro: order_trans)
qed simp

theorem fifo_promotion_oldest_witness:
  "concurrency_fifo_promotion [\<lparr>row_group = ''g'', row_run_id = 1, row_job = None, wait_id = 4, cancel_in_progress = False\<rparr>,
     \<lparr>row_group = ''g'', row_run_id = 2, row_job = None, wait_id = 2, cancel_in_progress = False\<rparr>] \<noteq> None"
  using fifo_promotion_oldest [of "[\<lparr>row_group = ''g'', row_run_id = 1, row_job = None, wait_id = 4, cancel_in_progress = False\<rparr>,
     \<lparr>row_group = ''g'', row_run_id = 2, row_job = None, wait_id = 2, cancel_in_progress = False\<rparr>]"]
  by (auto split: option.splits)

lemma is_older_than_strict: "\<not> is_older_than a a" "is_older_than a b \<Longrightarrow> is_older_than b c \<Longrightarrow> is_older_than a c"
  by (auto simp: is_older_than_def)

end
