(* ===== verification/Lite_Gates.thy ===== *)
theory Lite_Gates
  imports Concurrency_Groups "HOL-Library.Multiset"
begin

text \<open>
  The concurrency gates of the SQLite backend (\<^verbatim>\<open>control/lite/concurrency.rs\<close>): the tables of
  holds, waits and job sets, the statements over them, and \<^verbatim>\<open>acquire\<close>.

  The database is a record of its tables, each the list of its rows. A statement returns the new
  database or the error it raises; the transaction of a failed statement is rolled back, so an
  error carries no database. The constraints of \<^verbatim>\<open>schema.sql\<close> are checked by the inserts: the
  primary keys of holds and waits, the unique pair of job sets and the reference to an existing
  run. A column that stores a run id or a list of job ids as text holds the value itself.
  Row ids are natural numbers; running out of 63-bit ids is not modelled.
\<close>

type_synonym gate_key = "string \<times> string \<times> string"

record holder_cols =
  holder_kind :: string
  holder_run :: run_id
  holder_job :: "job_id option"
  holder_jobset :: "nat option"

record hold_rec =
  hold_key :: gate_key
  display_name :: string
  hold_cols :: holder_cols

record wait_rec =
  wait_no :: nat
  wait_key :: gate_key
  wait_cols :: holder_cols

record jobset_rec =
  set_no :: nat
  set_run :: run_id
  set_jobs :: "job_id list"

record gate_job_rec =
  gjob_run :: run_id
  gjob_status :: string
  gjob_queue_state :: string
  gjob_runs_on :: "string list"

record gate_submission =
  sub_event :: string
  sub_repository :: string
  sub_payload :: json

text \<open>The submission of a run is \<open>None\<close> where its stored JSON does not decode.\<close>

record gate_db =
  db_runs :: "run_id list"
  holds :: "hold_rec list"
  waits :: "wait_rec list"
  wait_seq :: nat
  jobsets :: "jobset_rec list"
  jobset_seq :: nat
  gate_jobs :: "gate_job_rec list"
  runner_labels :: "string list list"
  run_submissions :: "(run_id \<times> gate_submission option) list"

definition db :: "string \<Rightarrow> control_error + 'a" where
  "db msg = Inl (Backend msg)"

section \<open>Job sets and holder columns\<close>

definition find_jobset :: "gate_db \<Rightarrow> run_id \<Rightarrow> job_id list \<Rightarrow> nat option" where
  "find_jobset tx run_id job_ids =
     map_option set_no (find (\<lambda>s. set_run s = run_id \<and> set_jobs s = job_ids) (jobsets tx))"

definition jobset_id :: "gate_db \<Rightarrow> run_id \<Rightarrow> job_id list \<Rightarrow> control_error + nat \<times> gate_db" where
  "jobset_id tx run_id job_ids =
     (case find_jobset tx run_id job_ids of
        Some i \<Rightarrow> Inr (i, tx)
      | None \<Rightarrow>
          if run_id \<notin> set (db_runs tx) then db ''FOREIGN KEY constraint failed''
          else let i = jobset_seq tx + 1
            in Inr (i, tx\<lparr>jobsets := jobsets tx @ [\<lparr>set_no = i, set_run = run_id, set_jobs = job_ids\<rparr>],
                        jobset_seq := i\<rparr>))"

fun holder_columns :: "gate_db \<Rightarrow> holder \<Rightarrow> control_error + holder_cols \<times> gate_db" where
  "holder_columns tx (RunHolder run_id) =
     Inr (\<lparr>holder_kind = ''run'', holder_run = run_id, holder_job = None, holder_jobset = None\<rparr>, tx)"
| "holder_columns tx (JobHolder run_id job_id) =
     Inr (\<lparr>holder_kind = ''job'', holder_run = run_id, holder_job = Some job_id, holder_jobset = None\<rparr>, tx)"
| "holder_columns tx (JobSetHolder run_id job_ids) =
     and_then (jobset_id tx run_id job_ids) (\<lambda>(set_id, tx).
       Inr (\<lparr>holder_kind = ''jobset'', holder_run = run_id, holder_job = None, holder_jobset = Some set_id\<rparr>, tx))"

definition jobset_members :: "gate_db \<Rightarrow> nat \<Rightarrow> job_id list option" where
  "jobset_members tx set_id = map_option set_jobs (find (\<lambda>s. set_no s = set_id) (jobsets tx))"

definition holder_of :: "gate_db \<Rightarrow> holder_cols \<Rightarrow> holder option" where
  "holder_of tx c =
     (if holder_kind c = ''jobset'' then
        (case holder_jobset c of
           None \<Rightarrow> None
         | Some set_id \<Rightarrow>
             Some (JobSetHolder (holder_run c) (sort (remdups (unwrap_or (jobset_members tx set_id) [])))))
      else holder_from_row (\<lambda>_. Some (holder_run c)) (\<lambda>_. Some []) (holder_kind c) [] (holder_job c) ''[]'')"

section \<open>Holds and waits\<close>

definition hold_row :: "gate_db \<Rightarrow> gate_key \<Rightarrow> (holder \<times> string) option" where
  "hold_row tx key =
     Option.bind (find (\<lambda>r. hold_key r = key) (holds tx)) (\<lambda>r.
       map_option (\<lambda>holder. (holder, display_name r)) (holder_of tx (hold_cols r)))"

definition waiters :: "gate_db \<Rightarrow> gate_key \<Rightarrow> (nat \<times> holder) list" where
  "waiters tx key =
     List.map_filter (\<lambda>w. map_option (Pair (wait_no w)) (holder_of tx (wait_cols w)))
       (sort_key wait_no (filter (\<lambda>w. wait_key w = key) (waits tx)))"

definition take_hold :: "gate_db \<Rightarrow> gate_key \<Rightarrow> string \<Rightarrow> holder \<Rightarrow> control_error + gate_db" where
  "take_hold tx key display holder =
     and_then (holder_columns tx holder) (\<lambda>(cols, tx).
       if key \<in> set (map hold_key (holds tx)) then db ''UNIQUE constraint failed''
       else if holder_run cols \<notin> set (db_runs tx) then db ''FOREIGN KEY constraint failed''
       else Inr (tx\<lparr>holds := holds tx @ [\<lparr>hold_key = key, display_name = display, hold_cols = cols\<rparr>]\<rparr>))"

definition release_hold :: "gate_db \<Rightarrow> gate_key \<Rightarrow> holder \<Rightarrow> control_error + bool \<times> gate_db" where
  "release_hold tx key holder =
     and_then (holder_columns tx holder) (\<lambda>(cols, tx).
       let gone = (\<lambda>r. hold_key r = key \<and> hold_cols r = cols)
       in Inr (length (filter gone (holds tx)) = 1, tx\<lparr>holds := filter (\<lambda>r. \<not> gone r) (holds tx)\<rparr>))"

definition enqueue_wait :: "gate_db \<Rightarrow> gate_key \<Rightarrow> holder \<Rightarrow> control_error + gate_db" where
  "enqueue_wait tx key holder =
     and_then (holder_columns tx holder) (\<lambda>(cols, tx).
       if holder_run cols \<notin> set (db_runs tx) then db ''FOREIGN KEY constraint failed''
       else let i = wait_seq tx + 1
         in Inr (tx\<lparr>waits := waits tx @ [\<lparr>wait_no = i, wait_key = key, wait_cols = cols\<rparr>], wait_seq := i\<rparr>))"

definition remove_wait :: "gate_db \<Rightarrow> gate_key \<Rightarrow> holder \<Rightarrow> control_error + bool \<times> gate_db" where
  "remove_wait tx key holder =
     and_then (holder_columns tx holder) (\<lambda>(cols, tx).
       let gone = (\<lambda>w. wait_key w = key \<and> wait_cols w = cols)
       in Inr (0 < length (filter gone (waits tx)), tx\<lparr>waits := filter (\<lambda>w. \<not> gone w) (waits tx)\<rparr>))"

definition hold_display_name :: "gate_db \<Rightarrow> gate_key \<Rightarrow> string option" where
  "hold_display_name tx key = map_option display_name (find (\<lambda>r. hold_key r = key) (holds tx))"

definition first_waiter :: "gate_db \<Rightarrow> gate_key \<Rightarrow> (nat \<times> holder) option" where
  "first_waiter tx key = (case waiters tx key of [] \<Rightarrow> None | w # _ \<Rightarrow> Some w)"

definition remove_wait_by_id :: "gate_db \<Rightarrow> nat \<Rightarrow> gate_db" where
  "remove_wait_by_id tx i = tx\<lparr>waits := filter (\<lambda>w. wait_no w \<noteq> i) (waits tx)\<rparr>"

definition requeue_wait :: "gate_db \<Rightarrow> gate_key \<Rightarrow> holder \<Rightarrow> nat \<Rightarrow> control_error + gate_db" where
  "requeue_wait tx key holder i =
     and_then (holder_columns tx holder) (\<lambda>(cols, tx).
       if i \<in> set (map wait_no (waits tx)) then db ''UNIQUE constraint failed''
       else if holder_run cols \<notin> set (db_runs tx) then db ''FOREIGN KEY constraint failed''
       else Inr (tx\<lparr>waits := waits tx @ [\<lparr>wait_no = i, wait_key = key, wait_cols = cols\<rparr>],
                    wait_seq := max (wait_seq tx) i\<rparr>))"

text \<open>The rows that cover a job: its own, its run's, and those of a job set it belongs to.\<close>

definition cols_cover_job :: "gate_db \<Rightarrow> run_id \<Rightarrow> job_id \<Rightarrow> holder_cols \<Rightarrow> bool" where
  "cols_cover_job tx run_id job_id c \<longleftrightarrow>
     (holder_kind c = ''run'' \<and> holder_run c = run_id) \<or>
     (holder_kind c = ''job'' \<and> holder_run c = run_id \<and> holder_job c = Some job_id) \<or>
     (holder_kind c = ''jobset'' \<and> holder_run c = run_id \<and>
        list_ex (\<lambda>s. Some (set_no s) = holder_jobset c \<and> job_id \<in> set (set_jobs s)) (jobsets tx))"

definition job_has_wait :: "gate_db \<Rightarrow> run_id \<Rightarrow> job_id \<Rightarrow> bool" where
  "job_has_wait tx run_id job_id = list_ex (\<lambda>w. cols_cover_job tx run_id job_id (wait_cols w)) (waits tx)"

definition run_waits :: "gate_db \<Rightarrow> run_id \<Rightarrow> gate_key list" where
  "run_waits tx run_id = remdups (map wait_key (filter (\<lambda>w. holder_run (wait_cols w) = run_id) (waits tx)))"

definition decoded_holds :: "gate_db \<Rightarrow> (hold_rec \<Rightarrow> bool) \<Rightarrow> (gate_key \<times> holder) list" where
  "decoded_holds tx P =
     List.map_filter (\<lambda>r. map_option (Pair (hold_key r)) (holder_of tx (hold_cols r))) (filter P (holds tx))"

definition run_holds :: "gate_db \<Rightarrow> run_id \<Rightarrow> (gate_key \<times> holder) list" where
  "run_holds tx run_id = decoded_holds tx (\<lambda>r. holder_run (hold_cols r) = run_id)"

definition job_holds :: "gate_db \<Rightarrow> run_id \<Rightarrow> job_id \<Rightarrow> (gate_key \<times> holder) list" where
  "job_holds tx run_id job_id = decoded_holds tx (\<lambda>r. cols_cover_job tx run_id job_id (hold_cols r))"

definition job_waits :: "gate_db \<Rightarrow> run_id \<Rightarrow> job_id \<Rightarrow> (gate_key \<times> holder) list" where
  "job_waits tx run_id job_id =
     List.map_filter (\<lambda>w. map_option (Pair (wait_key w)) (holder_of tx (wait_cols w)))
       (filter (\<lambda>w. cols_cover_job tx run_id job_id (wait_cols w)) (waits tx))"

definition jobset_holds :: "gate_db \<Rightarrow> nat \<Rightarrow> gate_key list" where
  "jobset_holds tx set_id = map hold_key (filter (\<lambda>r. holder_jobset (hold_cols r) = Some set_id) (holds tx))"

section \<open>Acquire\<close>

definition platform_of :: "string \<Rightarrow> string option" where
  "platform_of label =
     (let l = to_lower label in if l \<in> {''linux'', ''macos'', ''windows''} then Some l else None)"

definition registered_platforms :: "gate_db \<Rightarrow> string list" where
  "registered_platforms tx =
     foldl (\<lambda>acc os. if os \<in> set acc then acc else acc @ [os]) []
       (List.map_filter platform_of (concat (runner_labels tx)))"

definition run_stuck_on_external_hosts :: "gate_db \<Rightarrow> run_id \<Rightarrow> bool" where
  "run_stuck_on_external_hosts tx run_id =
     (if list_ex (\<lambda>os. os = ''macos'' \<or> os = ''windows'') (registered_platforms tx) then False
      else if run_id \<notin> set (db_runs tx) then True
      else list_all (\<lambda>j.
             if is_terminal (status_parse (gjob_status j)) then True
             else if gjob_queue_state j \<noteq> ''ready'' then False
             else list_ex (\<lambda>label. starts_with ''macos'' (to_lower label) \<or> starts_with ''windows'' (to_lower label))
                    (gjob_runs_on j))
           (filter (\<lambda>j. gjob_run j = run_id) (gate_jobs tx)))"

definition event_order_of :: "(string \<Rightarrow> int option) \<Rightarrow> gate_db \<Rightarrow> holder \<Rightarrow> control_error + event_order_t option" where
  "event_order_of rfc3339 tx holder =
     (case map_of (run_submissions tx) (holder_run_id holder) of
        None \<Rightarrow> Inr None
      | Some None \<Rightarrow> db ''submission decode''
      | Some (Some s) \<Rightarrow> Inr (event_order rfc3339 (sub_event s) (sub_repository s) (sub_payload s)))"

datatype acq_outcome = AcqAcquired | AcqParked | AcqArrivalCancelled | AcqFailed

definition acq_row :: "string \<Rightarrow> holder \<Rightarrow> bool \<Rightarrow> concurrency_row" where
  "acq_row grp holder cancel_flag =
     \<lparr>row_group = grp, row_run_id = holder_run_id holder,
      row_job = (case holder of JobHolder _ j \<Rightarrow> Some j | _ \<Rightarrow> None),
      wait_id = 0, cancel_in_progress = cancel_flag\<rparr>"

fun superseded :: "(string \<Rightarrow> int option) \<Rightarrow> gate_db \<Rightarrow> holder \<Rightarrow> event_order_t \<Rightarrow> holder list \<Rightarrow> control_error + bool" where
  "superseded rfc3339 tx holder arrival [] = Inr False"
| "superseded rfc3339 tx holder arrival (e # existing) =
     (if holder_run_id e = holder_run_id holder then superseded rfc3339 tx holder arrival existing
      else and_then (event_order_of rfc3339 tx e) (\<lambda>ord.
        case ord of
          Some x \<Rightarrow> if is_older_than arrival x then Inr True else superseded rfc3339 tx holder arrival existing
        | None \<Rightarrow> superseded rfc3339 tx holder arrival existing))"

definition stale_arrival :: "(string \<Rightarrow> int option) \<Rightarrow> gate_db \<Rightarrow> holder \<Rightarrow> bool \<Rightarrow> holder list \<Rightarrow> control_error + bool" where
  "stale_arrival rfc3339 tx holder displacement existing =
     (if \<not> displacement then Inr False
      else and_then (event_order_of rfc3339 tx holder) (\<lambda>ord.
        case ord of None \<Rightarrow> Inr False | Some arrival \<Rightarrow> superseded rfc3339 tx holder arrival existing))"

type_synonym canceler = "gate_db \<Rightarrow> holder \<Rightarrow> control_error + gate_db"

fun displace_waiters :: "canceler \<Rightarrow> gate_key \<Rightarrow> holder \<Rightarrow> holder list \<Rightarrow> gate_db \<Rightarrow> control_error + gate_db" where
  "displace_waiters cancel key holder [] tx = Inr tx"
| "displace_waiters cancel key holder (w # ws) tx =
     and_then (if holder_run_id w \<noteq> holder_run_id holder then cancel tx w else Inr tx) (\<lambda>tx.
     and_then (remove_wait tx key w) (\<lambda>(_, tx). displace_waiters cancel key holder ws tx))"

definition take_and_return :: "gate_db \<Rightarrow> gate_key \<Rightarrow> string \<Rightarrow> holder \<Rightarrow> control_error + acq_outcome \<times> gate_db" where
  "take_and_return tx key display holder =
     and_then (take_hold tx key display holder) (\<lambda>tx. Inr (AcqAcquired, tx))"

definition preempt :: "canceler \<Rightarrow> gate_db \<Rightarrow> gate_key \<Rightarrow> string \<Rightarrow> holder \<Rightarrow> holder \<Rightarrow> holder list \<Rightarrow>
    control_error + acq_outcome \<times> gate_db" where
  "preempt cancel tx key display holder current pending =
     and_then (displace_waiters cancel key holder pending tx) (\<lambda>tx.
     and_then (release_hold tx key current) (\<lambda>(_, tx).
     and_then (if holder_run_id current \<noteq> holder_run_id holder then cancel tx current else Inr tx) (\<lambda>tx.
       take_and_return tx key display holder)))"

definition park :: "canceler \<Rightarrow> gate_db \<Rightarrow> gate_key \<Rightarrow> holder \<Rightarrow> concurrency_queue \<Rightarrow> (nat \<times> holder) list \<Rightarrow>
    control_error + acq_outcome \<times> gate_db" where
  "park cancel tx key holder queue pending =
     (let existing = map (\<lambda>(i, h). (acq_row (snd (snd key)) h False)\<lparr>wait_id := i\<rparr>) pending;
          decision = concurrency_queue_decision queue existing
      in if cancel_arrival decision then Inr (AcqArrivalCancelled, tx)
         else
           and_then (displace_waiters cancel key holder
               (map (\<lambda>r. the (map_of pending (wait_id r))) (cancel_pending decision)) tx) (\<lambda>tx.
             if park_arrival decision then
               and_then (enqueue_wait tx key holder) (\<lambda>tx. Inr (AcqParked, tx))
             else Inr (AcqAcquired, tx)))"

definition acquire :: "(string \<Rightarrow> int option) \<Rightarrow> canceler \<Rightarrow> gate_db \<Rightarrow> gate_key \<Rightarrow> string \<Rightarrow> holder \<Rightarrow> bool \<Rightarrow>
    concurrency_queue \<Rightarrow> control_error + acq_outcome \<times> gate_db" where
  "acquire rfc3339 cancel tx key display holder cancel_flag queue =
     (let current = map_option fst (hold_row tx key);
          pending = waiters tx key;
          existing = (case current of None \<Rightarrow> [] | Some h \<Rightarrow> [h]) @ map snd pending
      in and_then (stale_arrival rfc3339 tx holder (cancel_flag \<or> queue = SingleQueue) existing) (\<lambda>stale.
         if stale then Inr (AcqArrivalCancelled, tx)
         else if (case current of Some h \<Rightarrow> run_stuck_on_external_hosts tx (holder_run_id h) | None \<Rightarrow> False) then
           and_then (release_hold tx key (the current)) (\<lambda>(_, tx). take_and_return tx key display holder)
         else
           (case concurrency_admission (acq_row (snd (snd key)) holder cancel_flag)
                   (map_option (\<lambda>h. acq_row (snd (snd key)) h False) current) of
              Acquired \<Rightarrow> take_and_return tx key display holder
            | CancelCurrent _ \<Rightarrow> preempt cancel tx key display holder (the current) (map snd pending)
            | AdmissionCancelled \<Rightarrow> Inr (AcqArrivalCancelled, tx)
            | Waiting \<Rightarrow> park cancel tx key holder queue pending)))"

section \<open>The invariant of the tables\<close>

definition jobsets_wf :: "gate_db \<Rightarrow> bool" where
  "jobsets_wf tx \<longleftrightarrow> distinct (map set_no (jobsets tx)) \<and> list_all (\<lambda>s. set_no s \<le> jobset_seq tx) (jobsets tx)"

text \<open>The columns of a row decode to a holder whose columns they are.\<close>

definition cols_ok :: "gate_db \<Rightarrow> holder_cols \<Rightarrow> bool" where
  "cols_ok tx c \<longleftrightarrow> (case holder_of tx c of None \<Rightarrow> False | Some h \<Rightarrow> holder_columns tx h = Inr (c, tx))"

definition gate_wf :: "gate_db \<Rightarrow> bool" where
  "gate_wf tx \<longleftrightarrow> jobsets_wf tx \<and> distinct (map hold_key (holds tx)) \<and> distinct (map wait_no (waits tx)) \<and>
     list_all (\<lambda>w. wait_no w \<le> wait_seq tx) (waits tx) \<and>
     list_all (\<lambda>r. cols_ok tx (hold_cols r)) (holds tx) \<and> list_all (\<lambda>w. cols_ok tx (wait_cols w)) (waits tx)"

lemma find_distinct: "distinct (map f xs) \<Longrightarrow> x \<in> set xs \<Longrightarrow> find (\<lambda>y. f y = f x) xs = Some x"
  by (induction xs) (auto simp: image_iff)

lemma find_append: "find P (xs @ ys) = (case find P xs of None \<Rightarrow> find P ys | Some x \<Rightarrow> Some x)"
  by (induction xs) auto

lemma holder_of_wf: "holder_of tx c = Some h \<Longrightarrow> holder_wf h"
  by (auto simp: holder_of_def holder_wf_def holder_from_row_def split: if_splits option.splits)

lemma holder_of_run: "holder_of tx c = Some h \<Longrightarrow> holder_run_id h = holder_run c"
  by (auto simp: holder_of_def holder_from_row_def split: if_splits option.splits)

definition extends_jobsets :: "gate_db \<Rightarrow> gate_db \<Rightarrow> bool" where
  "extends_jobsets tx tx' \<longleftrightarrow> (\<exists>new n. tx' = tx\<lparr>jobsets := jobsets tx @ new, jobset_seq := n\<rparr>)"

lemma extends_jobsets_refl [simp]: "extends_jobsets tx tx"
  unfolding extends_jobsets_def by (rule exI [of _ "[]"], rule exI [of _ "jobset_seq tx"]) simp

lemma extends_jobsets_frame:
  "extends_jobsets tx tx' \<Longrightarrow> holds tx' = holds tx \<and> waits tx' = waits tx \<and> wait_seq tx' = wait_seq tx \<and>
     db_runs tx' = db_runs tx"
  by (auto simp: extends_jobsets_def)

lemma jobset_id_Inr:
  assumes "jobset_id tx r js = Inr (i, tx')" "jobsets_wf tx"
  shows "jobsets_wf tx' \<and> jobset_members tx' i = Some js \<and> jobset_id tx' r js = Inr (i, tx') \<and>
    extends_jobsets tx tx'"
proof (cases "find_jobset tx r js")
  case None
  then have "find (\<lambda>s. set_run s = r \<and> set_jobs s = js) (jobsets tx) = None" by (simp add: find_jobset_def)
  moreover have "find (\<lambda>s. set_no s = Suc (jobset_seq tx)) (jobsets tx) = None"
    using assms(2) by (auto simp: jobsets_wf_def list_all_iff find_None_iff)
  moreover have "Suc (jobset_seq tx) \<notin> set_no ` set (jobsets tx)"
    "\<forall>s \<in> set (jobsets tx). set_no s \<le> Suc (jobset_seq tx)"
    using assms(2) by (fastforce simp: jobsets_wf_def list_all_iff)+
  moreover have "distinct (map set_no (jobsets tx))" using assms(2) by (simp add: jobsets_wf_def)
  moreover have "i = Suc (jobset_seq tx)" "tx' = tx\<lparr>jobsets := jobsets tx @ [\<lparr>set_no = i, set_run = r, set_jobs = js\<rparr>],
      jobset_seq := i\<rparr>"
    using assms(1) None by (auto simp: jobset_id_def Let_def db_def split: if_splits)
  ultimately show ?thesis
    by (auto simp: jobset_id_def jobsets_wf_def list_all_iff jobset_members_def find_jobset_def find_append
        extends_jobsets_def)
next
  case (Some j)
  then obtain s where s: "find (\<lambda>s. set_run s = r \<and> set_jobs s = js) (jobsets tx) = Some s" "set_no s = j"
    by (auto simp: find_jobset_def)
  then have "s \<in> set (jobsets tx)" "set_jobs s = js" by (auto simp: find_Some_iff)
  moreover have "tx' = tx" "i = j" using assms(1) Some by (auto simp: jobset_id_def)
  ultimately show ?thesis
    using assms s find_distinct [of set_no "jobsets tx" s]
    by (auto simp: jobset_members_def jobsets_wf_def)
qed

lemma holder_columns_Inr:
  assumes "holder_columns tx h = Inr (c, tx')" "jobsets_wf tx" "holder_wf h"
  shows "jobsets_wf tx' \<and> holder_of tx' c = Some h \<and> holder_columns tx' h = Inr (c, tx') \<and>
    extends_jobsets tx tx'"
proof (cases h)
  case (JobSetHolder r js)
  then obtain i where i: "jobset_id tx r js = Inr (i, tx')" "c = \<lparr>holder_kind = ''jobset'', holder_run = r,
      holder_job = None, holder_jobset = Some i\<rparr>"
    using assms(1) by (auto simp: and_then_Inr_iff)
  then show ?thesis
    using jobset_id_Inr [OF i(1) assms(2)] assms(3) JobSetHolder
    by (auto simp: holder_of_def holder_wf_def sort_remdups_id)
qed (use assms in \<open>auto simp: holder_of_def holder_from_row_def\<close>)


lemma holder_of_extends:
  assumes "extends_jobsets tx tx'" "cols_ok tx c"
  shows "holder_of tx' c = holder_of tx c" "cols_ok tx' c"
proof -
  obtain new n where tx': "tx' = tx\<lparr>jobsets := jobsets tx @ new, jobset_seq := n\<rparr>"
    using assms(1) by (auto simp: extends_jobsets_def)
  obtain h where h: "holder_of tx c = Some h" "holder_columns tx h = Inr (c, tx)"
    using assms(2) by (auto simp: cols_ok_def split: option.splits)
  have "holder_of tx' c = Some h \<and> holder_columns tx' h = Inr (c, tx')"
  proof (cases h)
    case (JobSetHolder r js)
    then obtain i where i: "jobset_id tx r js = Inr (i, tx)" "c = \<lparr>holder_kind = ''jobset'', holder_run = r,
        holder_job = None, holder_jobset = Some i\<rparr>"
      using h(2) by (auto simp: and_then_Inr_iff)
    have "find_jobset tx r js = Some i"
    proof (cases "find_jobset tx r js")
      case None
      with i(1) have "jobsets tx = jobsets tx @ [\<lparr>set_no = i, set_run = r, set_jobs = js\<rparr>]"
        by (auto simp: jobset_id_def Let_def db_def split: if_splits dest!: arg_cong [where f = jobsets])
      then show ?thesis by simp
    qed (use i(1) in \<open>auto simp: jobset_id_def\<close>)
    then obtain s where s: "find (\<lambda>s. set_run s = r \<and> set_jobs s = js) (jobsets tx) = Some s" "set_no s = i"
      by (auto simp: find_jobset_def)
    then have "s \<in> set (jobsets tx)" by (auto simp: find_Some_iff)
    then obtain t where t: "find (\<lambda>s. set_no s = i) (jobsets tx) = Some t"
      using s(2) by (cases "find (\<lambda>s. set_no s = i) (jobsets tx)") (auto simp: find_None_iff)
    then show ?thesis
      using h(1) JobSetHolder i(2) s
      by (auto simp: tx' holder_of_def jobset_members_def find_append jobset_id_def find_jobset_def)
  qed (use h in \<open>auto simp: holder_of_def holder_from_row_def split: if_splits option.splits\<close>)
  then show "holder_of tx' c = holder_of tx c" "cols_ok tx' c" using h by (auto simp: cols_ok_def)
qed

lemma gate_wf_extends: "extends_jobsets tx tx' \<Longrightarrow> jobsets_wf tx' \<Longrightarrow> gate_wf tx \<Longrightarrow> gate_wf tx'"
  using extends_jobsets_frame [of tx tx'] by (auto simp: gate_wf_def list_all_iff holder_of_extends)

text \<open>What looking up the columns of a holder leaves behind.\<close>

lemma holder_columns_wf:
  assumes "holder_columns tx h = Inr (c, tx')" "gate_wf tx" "holder_wf h"
  shows "gate_wf tx'" "extends_jobsets tx tx'" "cols_ok tx' c" "holder_of tx' c = Some h"
    "holder_run c = holder_run_id h"
proof -
  note col = holder_columns_Inr [OF assms(1) _ assms(3)]
  show "gate_wf tx'" "extends_jobsets tx tx'" "cols_ok tx' c" "holder_of tx' c = Some h"
    using col assms(2) gate_wf_extends by (auto simp: gate_wf_def cols_ok_def)
  then show "holder_run c = holder_run_id h" using holder_of_run by metis
qed

lemma holder_of_frame: "jobsets tx' = jobsets tx \<Longrightarrow> holder_of tx' c = holder_of tx c"
  by (simp add: holder_of_def jobset_members_def split: option.splits)

lemma holder_columns_frame:
  assumes "jobsets tx' = jobsets tx" "holder_columns tx h = Inr (c, tx)"
  shows "holder_columns tx' h = Inr (c, tx')"
proof (cases h)
  case (JobSetHolder r js)
  have "find_jobset tx r js \<noteq> None"
  proof
    assume "find_jobset tx r js = None"
    with assms(2) JobSetHolder obtain y where "jobsets tx = jobsets tx @ [y]"
      by (auto simp: and_then_Inr_iff jobset_id_def Let_def db_def split: if_splits dest!: arg_cong [where f = jobsets])
    then show False by simp
  qed
  then show ?thesis using assms JobSetHolder by (auto simp: and_then_Inr_iff jobset_id_def find_jobset_def)
qed (use assms in auto)

lemma cols_ok_frame: "jobsets tx' = jobsets tx \<Longrightarrow> cols_ok tx c \<Longrightarrow> cols_ok tx' c"
  using holder_of_frame [of tx' tx c] holder_columns_frame [of tx' tx _ c]
  by (auto simp: cols_ok_def split: option.splits)


section \<open>The operations on the tables\<close>

definition slot_owner :: "gate_db \<Rightarrow> gate_key \<Rightarrow> holder option" where
  "slot_owner tx key = map_option fst (hold_row tx key)"

lemma hold_row_find:
  "hold_row tx key = (case find (\<lambda>r. hold_key r = key) (holds tx) of None \<Rightarrow> None
     | Some r \<Rightarrow> map_option (\<lambda>h. (h, display_name r)) (holder_of tx (hold_cols r)))"
  by (simp add: hold_row_def split: option.splits)

lemma hold_row_extends:
  assumes "extends_jobsets tx tx'" "gate_wf tx"
  shows "hold_row tx' key = hold_row tx key"
proof (cases "find (\<lambda>r. hold_key r = key) (holds tx)")
  case (Some r)
  then have "r \<in> set (holds tx)" by (auto simp: find_Some_iff)
  then have "cols_ok tx (hold_cols r)" using assms(2) by (auto simp: gate_wf_def list_all_iff)
  then show ?thesis
    using Some extends_jobsets_frame [OF assms(1)] holder_of_extends [OF assms(1)] by (simp add: hold_row_find)
qed (use extends_jobsets_frame [OF assms(1)] in \<open>simp add: hold_row_find\<close>)

lemma take_hold_ok:
  assumes "gate_wf tx" "holder_wf h" "take_hold tx key d h = Inr tx'"
  shows "gate_wf tx' \<and> hold_row tx key = None \<and> hold_row tx' = (hold_row tx)(key \<mapsto> (h, d))"
proof -
  obtain c ty where c: "holder_columns tx h = Inr (c, ty)" and key: "key \<notin> set (map hold_key (holds ty))"
    and tx': "tx' = ty\<lparr>holds := holds ty @ [\<lparr>hold_key = key, display_name = d, hold_cols = c\<rparr>]\<rparr>"
    using assms(3) by (auto simp: take_hold_def and_then_Inr_iff db_def split: if_splits)
  note ty = holder_columns_wf [OF c assms(1,2)]
  have same: "jobsets tx' = jobsets ty" by (simp add: tx')
  have ok: "cols_ok tx' x" if "cols_ok ty x" for x using cols_ok_frame [OF same that] .
  have dec: "holder_of tx' x = holder_of ty x" for x by (rule holder_of_frame [OF same])
  have free: "find (\<lambda>r. hold_key r = key) (holds ty) = None" using key by (auto simp: find_None_iff)
  have row: "hold_row tx' k = (if k = key then Some (h, d) else hold_row ty k)" for k
  proof (cases "k = key")
    case True
    then show ?thesis using free ty(4) dec by (simp add: hold_row_find tx' find_append)
  next
    case False
    then have "find (\<lambda>r. hold_key r = k) (holds tx') = find (\<lambda>r. hold_key r = k) (holds ty)"
      by (simp add: tx' find_append split: option.splits)
    then show ?thesis using False dec by (simp add: hold_row_find split: option.splits)
  qed
  have "hold_row ty key = None" using free by (simp add: hold_row_find)
  moreover have "gate_wf tx'"
    using ty(1,3) key ok by (auto simp: gate_wf_def tx' list_all_iff jobsets_wf_def)
  ultimately show ?thesis using row hold_row_extends [OF ty(2) assms(1)] by (auto simp: fun_eq_iff)
qed


lemma owner_row:
  assumes "gate_wf tx" "slot_owner tx key = Some h"
  obtains r where "find (\<lambda>r. hold_key r = key) (holds tx) = Some r" "r \<in> set (holds tx)" "hold_key r = key"
    "holder_of tx (hold_cols r) = Some h" "holder_columns tx h = Inr (hold_cols r, tx)"
proof -
  obtain r where r: "find (\<lambda>r. hold_key r = key) (holds tx) = Some r" "holder_of tx (hold_cols r) = Some h"
    using assms(2) by (auto simp: slot_owner_def hold_row_find split: option.splits)
  then have "r \<in> set (holds tx)" "hold_key r = key" by (auto simp: find_Some_iff)
  moreover have "holder_columns tx h = Inr (hold_cols r, tx)"
    using assms(1) r(2) \<open>r \<in> set (holds tx)\<close> by (auto simp: gate_wf_def list_all_iff cols_ok_def split: option.splits)
  ultimately show ?thesis using that r by blast
qed

lemma distinct_filter_single:
  "distinct (map f xs) \<Longrightarrow> r \<in> set xs \<Longrightarrow> filter (\<lambda>x. f x = f r) xs = [r]"
  by (induction xs) (auto simp: filter_empty_conv image_iff)

lemma find_filter: "find P (filter Q xs) = find (\<lambda>x. Q x \<and> P x) xs"
  by (induction xs) auto

lemma gate_wf_hold_filter: "gate_wf ty \<Longrightarrow> gate_wf (ty\<lparr>holds := filter P (holds ty)\<rparr>)"
  using cols_ok_frame [of "ty\<lparr>holds := filter P (holds ty)\<rparr>" ty]
  by (auto simp: gate_wf_def list_all_iff jobsets_wf_def distinct_map_filter)

lemma release_hold_ok:
  assumes "gate_wf tx" "holder_wf h" "release_hold tx key h = Inr (b, tx')"
  shows "gate_wf tx' \<and> (b \<longleftrightarrow> slot_owner tx key = Some h) \<and>
    hold_row tx' = (if b then (hold_row tx)(key := None) else hold_row tx)"
proof -
  obtain c ty where c: "holder_columns tx h = Inr (c, ty)"
    using assms(3) by (auto simp: release_hold_def and_then_Inr_iff)
  define gone where "gone = (\<lambda>r :: hold_rec. hold_key r = key \<and> hold_cols r = c)"
  have tx': "tx' = ty\<lparr>holds := filter (\<lambda>r. \<not> gone r) (holds ty)\<rparr>" and b: "b \<longleftrightarrow> length (filter gone (holds ty)) = 1"
    using assms(3) c by (auto simp: release_hold_def gone_def)
  note ty = holder_columns_wf [OF c assms(1,2)]
  have dist: "distinct (map hold_key (holds ty))" using ty(1) by (simp add: gate_wf_def)
  have dec: "holder_of tx' x = holder_of ty x" for x by (rule holder_of_frame) (simp add: tx')
  have own: "slot_owner tx key = slot_owner ty key" using hold_row_extends [OF ty(2) assms(1)] by (simp add: slot_owner_def)
  have gone_iff: "gone r \<longleftrightarrow> hold_key r = key \<and> slot_owner ty key = Some h" if "r \<in> set (holds ty)" for r
  proof -
    have f: "hold_key r = key \<Longrightarrow> find (\<lambda>x. hold_key x = key) (holds ty) = Some r" using find_distinct [OF dist that] by simp
    have k: "cols_ok ty (hold_cols r)" using ty(1) that by (auto simp: gate_wf_def list_all_iff)
    have "hold_cols r = c" if "holder_of ty (hold_cols r) = Some h"
      using k that ty(3,4) by (auto simp: cols_ok_def)
    then show ?thesis using f ty(4) by (auto simp: gone_def slot_owner_def hold_row_find)
  qed
  show ?thesis
  proof (cases "slot_owner ty key = Some h")
    case True
    then obtain r where r: "r \<in> set (holds ty)" "hold_key r = key" using owner_row [OF ty(1)] by metis
    have "filter gone (holds ty) = filter (\<lambda>x. hold_key x = hold_key r) (holds ty)"
      using gone_iff True r(2) by (intro filter_cong) auto
    then have "b" using b distinct_filter_single [OF dist r(1)] by simp
    moreover have "hold_row tx' k = (if k = key then None else hold_row ty k)" for k
    proof -
      have "find (\<lambda>r. hold_key r = k) (holds tx') = find (\<lambda>r. \<not> gone r \<and> hold_key r = k) (holds ty)"
        by (simp add: tx' find_filter)
      also have "\<dots> = find (\<lambda>r. hold_key r \<noteq> key \<and> hold_key r = k) (holds ty)"
        using gone_iff True by (intro find_cong) auto
      also have "\<dots> = (if k = key then None else find (\<lambda>r. hold_key r = k) (holds ty))"
        by (auto simp: find_None_iff intro!: find_cong)
      finally show ?thesis using dec by (simp add: hold_row_find split: option.splits)
    qed
    ultimately show ?thesis
      using True own hold_row_extends [OF ty(2) assms(1)] gate_wf_hold_filter [OF ty(1)] by (auto simp: fun_eq_iff tx')
  next
    case False
    then have "filter gone (holds ty) = []" "filter (\<lambda>r. \<not> gone r) (holds ty) = holds ty"
      using gone_iff by (auto simp: filter_empty_conv filter_id_conv)
    then show ?thesis
      using False own b hold_row_extends [OF ty(2) assms(1)] ty(1) by (auto simp: fun_eq_iff tx')
  qed
qed


lemma map_filter_cong: "(\<And>x. x \<in> set xs \<Longrightarrow> f x = g x) \<Longrightarrow> List.map_filter f xs = List.map_filter g xs"
  by (induction xs) (auto simp: map_filter_simps split: option.splits)

lemma map_filter_append: "List.map_filter f (xs @ ys) = List.map_filter f xs @ List.map_filter f ys"
  by (simp add: map_filter_def)

lemma filter_map_filter:
  "filter P (List.map_filter f xs) = List.map_filter f (filter (\<lambda>x. case f x of None \<Rightarrow> True | Some y \<Rightarrow> P y) xs)"
  by (induction xs) (auto simp: map_filter_simps split: option.splits)

lemma waiters_frame:
  "(\<And>c. c \<in> wait_cols ` set (waits tx) \<Longrightarrow> holder_of tx' c = holder_of tx c) \<Longrightarrow> waits tx' = waits tx \<Longrightarrow>
     waiters tx' key = waiters tx key"
  unfolding waiters_def by (auto intro!: map_filter_cong)

lemma waiters_extends:
  assumes "extends_jobsets tx tx'" "gate_wf tx"
  shows "waiters tx' key = waiters tx key"
  using assms extends_jobsets_frame [OF assms(1)] holder_of_extends(1) [OF assms(1)]
  by (intro waiters_frame) (auto simp: gate_wf_def list_all_iff)

lemma waiters_of_holds: "waiters (tx\<lparr>holds := hs\<rparr>) key = waiters tx key"
  by (rule waiters_frame) (auto intro: holder_of_frame)

lemma sort_key_snoc_max: "\<forall>x \<in> set xs. f x \<le> f y \<Longrightarrow> sort_key f (xs @ [y]) = sort_key f xs @ [y]"
proof (induction xs)
  case (Cons x xs)
  have "insort_key f x (zs @ [y]) = insort_key f x zs @ [y]" if "f x \<le> f y" for zs
    using that by (induction zs) auto
  with Cons show ?case by simp
qed simp

lemma enqueue_wait_ok:
  assumes "gate_wf tx" "holder_wf h" "enqueue_wait tx key h = Inr tx'"
  shows "gate_wf tx' \<and> hold_row tx' = hold_row tx \<and>
    waiters tx' k = (if k = key then waiters tx k @ [(Suc (wait_seq tx), h)] else waiters tx k)"
proof -
  obtain c ty where c: "holder_columns tx h = Inr (c, ty)"
    and tx': "tx' = ty\<lparr>waits := waits ty @ [\<lparr>wait_no = Suc (wait_seq ty), wait_key = key, wait_cols = c\<rparr>],
      wait_seq := Suc (wait_seq ty)\<rparr>"
    using assms(3) by (auto simp: enqueue_wait_def and_then_Inr_iff db_def Let_def split: if_splits)
  note ty = holder_columns_wf [OF c assms(1,2)]
  have dec: "holder_of tx' x = holder_of ty x" for x by (rule holder_of_frame) (simp add: tx')
  have ok: "cols_ok tx' x" if "cols_ok ty x" for x by (rule cols_ok_frame [OF _ that]) (simp add: tx')
  have le: "\<forall>w \<in> set (waits ty). wait_no w \<le> wait_seq ty" using ty(1) by (simp add: gate_wf_def list_all_iff)
  have "gate_wf tx'"
    using ty(1,3) le ok by (fastforce simp: gate_wf_def tx' list_all_iff jobsets_wf_def)
  moreover have "hold_row tx' k = hold_row ty k" for k
    using dec by (simp add: hold_row_find tx' split: option.splits)
  moreover have "waiters tx' k = (if k = key then waiters ty k @ [(Suc (wait_seq ty), h)] else waiters ty k)"
    using le dec ty(4)
    by (auto simp: waiters_def tx' sort_key_snoc_max le_SucI map_filter_append map_filter_simps intro!: map_filter_cong)
  ultimately show ?thesis
    using hold_row_extends [OF ty(2) assms(1)] waiters_extends [OF ty(2) assms(1)] extends_jobsets_frame [OF ty(2)]
    by (auto simp: fun_eq_iff)
qed

lemma remove_wait_ok:
  assumes "gate_wf tx" "holder_wf h" "remove_wait tx key h = Inr (b, tx')"
  shows "gate_wf tx' \<and> hold_row tx' = hold_row tx \<and>
    waiters tx' k = (if k = key then filter (\<lambda>(i, x). x \<noteq> h) (waiters tx k) else waiters tx k)"
proof -
  obtain c ty where c: "holder_columns tx h = Inr (c, ty)"
    and tx': "tx' = ty\<lparr>waits := filter (\<lambda>w. \<not> (wait_key w = key \<and> wait_cols w = c)) (waits ty)\<rparr>"
    using assms(3) by (auto simp: remove_wait_def and_then_Inr_iff)
  note ty = holder_columns_wf [OF c assms(1,2)]
  have dec: "holder_of tx' x = holder_of ty x" for x by (rule holder_of_frame) (simp add: tx')
  have ok: "cols_ok tx' x" if "cols_ok ty x" for x by (rule cols_ok_frame [OF _ that]) (simp add: tx')
  have same: "holder_of ty (wait_cols w) = Some h \<longleftrightarrow> wait_cols w = c" if "w \<in> set (waits ty)" for w
    using ty that by (auto simp: gate_wf_def list_all_iff cols_ok_def split: option.splits)
  have "gate_wf tx'"
    using ty(1) ok by (auto simp: gate_wf_def tx' list_all_iff jobsets_wf_def distinct_map_filter)
  moreover have "hold_row tx' k = hold_row ty k" for k
    using dec by (simp add: hold_row_find tx' split: option.splits)
  moreover have "waiters tx' k = (if k = key then filter (\<lambda>(i, x). x \<noteq> h) (waiters ty k) else waiters ty k)"
  proof (cases "k = key")
    case True
    let ?ws = "sort_key wait_no (filter (\<lambda>w. wait_key w = key) (waits ty))"
    have "filter (\<lambda>w. wait_key w = key) (waits tx') = filter (\<lambda>w. wait_cols w \<noteq> c) (filter (\<lambda>w. wait_key w = key) (waits ty))"
      by (auto simp: tx' intro: filter_cong)
    then have "waiters tx' key = List.map_filter (\<lambda>w. map_option (Pair (wait_no w)) (holder_of ty (wait_cols w)))
        (filter (\<lambda>w. wait_cols w \<noteq> c) ?ws)"
      by (simp add: waiters_def dec filter_sort)
    also have "filter (\<lambda>w. wait_cols w \<noteq> c) ?ws = filter (\<lambda>w. case map_option (Pair (wait_no w)) (holder_of ty (wait_cols w)) of
        None \<Rightarrow> True | Some y \<Rightarrow> (\<lambda>(i, x). x \<noteq> h) y) ?ws"
      using same ty(4) by (intro filter_cong) (auto split: option.splits)
    finally show ?thesis using True by (simp add: waiters_def filter_map_filter)
  next
    case False
    then have "filter (\<lambda>w. wait_key w = k) (waits tx') = filter (\<lambda>w. wait_key w = k) (waits ty)"
      by (auto simp: tx' intro: filter_cong)
    with False show ?thesis by (simp add: waiters_def dec)
  qed
  ultimately show ?thesis
    using hold_row_extends [OF ty(2) assms(1)] waiters_extends [OF ty(2) assms(1)]
    by (auto simp: fun_eq_iff)
qed


lemma waiters_wf: "(i, h) \<in> set (waiters tx key) \<Longrightarrow> holder_wf h"
  using holder_of_wf by (auto simp: waiters_def map_filter_def)

section \<open>Slots as an interface\<close>

text \<open>
  What clients of the hold table rely on: taking a slot succeeds only while it is free and makes
  the taker its owner; releasing it succeeds exactly for its owner and frees it; both leave the
  other slots alone. The lemmas of the locale follow a whole sequence of requests.
\<close>

datatype ('k, 'h) slot_request = Take 'k 'h | Release 'k 'h

text \<open>The abstract contract: a table of mutexes, each free or held by one owner.\<close>

fun mutex_step :: "('k \<Rightarrow> 'h option) \<Rightarrow> ('k, 'h) slot_request \<Rightarrow> ('k \<Rightarrow> 'h option) option" where
  "mutex_step m (Take k h) = (if m k = None then Some (m(k \<mapsto> h)) else None)"
| "mutex_step m (Release k h) = (if m k = Some h then Some (m(k := None)) else None)"

fun mutex_run :: "('k \<Rightarrow> 'h option) \<Rightarrow> ('k, 'h) slot_request list \<Rightarrow> ('k \<Rightarrow> 'h option) option" where
  "mutex_run m [] = Some m"
| "mutex_run m (r # rs) = Option.bind (mutex_step m r) (\<lambda>m. mutex_run m rs)"

locale slot_table =
  fixes inv :: "'db \<Rightarrow> bool"
    and valid :: "'h \<Rightarrow> bool"
    and owner :: "'db \<Rightarrow> 'k \<Rightarrow> 'h option"
    and take_slot :: "'db \<Rightarrow> 'k \<Rightarrow> 'h \<Rightarrow> 'e + 'db"
    and release_slot :: "'db \<Rightarrow> 'k \<Rightarrow> 'h \<Rightarrow> 'e + bool \<times> 'db"
  assumes take_law: "inv s \<Longrightarrow> valid h \<Longrightarrow> take_slot s k h = Inr s' \<Longrightarrow>
      inv s' \<and> owner s k = None \<and> owner s' = (owner s)(k \<mapsto> h)"
    and release_law: "inv s \<Longrightarrow> valid h \<Longrightarrow> release_slot s k h = Inr (b, s') \<Longrightarrow>
      inv s' \<and> (b \<longleftrightarrow> owner s k = Some h) \<and> owner s' = (if b then (owner s)(k := None) else owner s)"
begin

text \<open>A sequence of transactions: a failed one is rolled back; the log keeps the requests that
  changed a slot.\<close>

fun serve :: "'db \<Rightarrow> ('k, 'h) slot_request list \<Rightarrow> 'db \<times> ('k, 'h) slot_request list" where
  "serve s [] = (s, [])"
| "serve s (Take k h # rs) =
     (case take_slot s k h of
        Inl _ \<Rightarrow> serve s rs
      | Inr s' \<Rightarrow> (let (t, done_log) = serve s' rs in (t, Take k h # done_log)))"
| "serve s (Release k h # rs) =
     (case release_slot s k h of
        Inl _ \<Rightarrow> serve s rs
      | Inr (b, s') \<Rightarrow> (let (t, done_log) = serve s' rs in (t, if b then Release k h # done_log else done_log)))"

definition valid_request :: "('k, 'h) slot_request \<Rightarrow> bool" where
  "valid_request r = (case r of Take _ h \<Rightarrow> valid h | Release _ h \<Rightarrow> valid h)"

lemma serve_refines_mutex:
  "inv s \<Longrightarrow> list_all valid_request rs \<Longrightarrow> serve s rs = (t, done_log) \<Longrightarrow>
     inv t \<and> mutex_run (owner s) done_log = Some (owner t)"
proof (induction s rs arbitrary: t done_log rule: serve.induct)
  case (2 s k h rs)
  then show ?case
    using take_law [of s h k]
    by (auto simp: valid_request_def fun_upd_def split: sum.splits prod.splits)
next
  case (3 s k h rs)
  show ?case
  proof (cases "release_slot s k h")
    case (Inl e)
    with 3 show ?thesis by simp
  next
    case (Inr p)
    then obtain b s' where p: "release_slot s k h = Inr (b, s')" by (cases p) simp
    obtain u l where ul: "serve s' rs = (u, l)" by fastforce
    have law: "inv s'" "b \<longleftrightarrow> owner s k = Some h" "owner s' = (if b then (owner s)(k := None) else owner s)"
      using release_law [OF 3(3) _ p] 3(4) by (auto simp: valid_request_def)
    have "inv u \<and> mutex_run (owner s') l = Some (owner u)"
      using 3(2) [OF p refl law(1) _ ul] 3(4) by simp
    moreover have "t = u" "done_log = (if b then Release k h # l else l)" using 3(5) p ul by simp_all
    ultimately show ?thesis using law by (cases b) simp_all
  qed
qed auto

end

lemma slot_owner_upd:
  "hold_row tx' = (hold_row tx)(key \<mapsto> (h, d)) \<Longrightarrow> slot_owner tx' = (slot_owner tx)(key \<mapsto> h)"
  "hold_row tx' = (hold_row tx)(key := None) \<Longrightarrow> slot_owner tx' = (slot_owner tx)(key := None)"
  "hold_row tx' = hold_row tx \<Longrightarrow> slot_owner tx' = slot_owner tx"
  by (auto simp: slot_owner_def fun_eq_iff)

interpretation gate: slot_table gate_wf holder_wf slot_owner "\<lambda>tx key h. take_hold tx key display h" release_hold
  for display
proof (unfold_locales, goal_cases)
  case (1 s h k s')
  note ok = take_hold_ok [OF 1]
  then have "slot_owner s k = None" by (simp add: slot_owner_def)
  with ok slot_owner_upd(1) show ?case by blast
next
  case (2 s h k b s')
  note ok = release_hold_ok [OF 2]
  then have "slot_owner s' = (if b then (slot_owner s)(k := None) else slot_owner s)"
    using slot_owner_upd(2) [of s' s k] slot_owner_upd(3) [of s' s] by (cases b) simp_all
  with ok show ?case by blast
qed

text \<open>C14. The hold table is a table of mutexes: any sequence of take and release transactions,
  failed ones rolled back, has the effect of a legal run of an abstract mutex per group. A slot
  is taken only while free and freed only by its owner, so two holders never own a group at once.\<close>

theorem holds_refine_mutexes:
  assumes "gate_wf tx" "list_all (\<lambda>r. case r of Take _ h \<Rightarrow> holder_wf h | Release _ h \<Rightarrow> holder_wf h) requests"
  shows "gate_wf (fst (gate.serve display tx requests)) \<and>
    mutex_run (slot_owner tx) (snd (gate.serve display tx requests)) =
      Some (slot_owner (fst (gate.serve display tx requests)))"
  using assms gate.serve_refines_mutex [of tx requests display]
  by (cases "gate.serve display tx requests") (simp add: gate.valid_request_def [abs_def])


section \<open>Acquire: lemmas\<close>

text \<open>What \<^verbatim>\<open>acquire\<close> relies on of its cancellation callback: it keeps the tables consistent.\<close>

definition canceler_keeps_wf :: "canceler \<Rightarrow> bool" where
  "canceler_keeps_wf cancel \<longleftrightarrow> (\<forall>t x t'. gate_wf t \<longrightarrow> cancel t x = Inr t' \<longrightarrow> gate_wf t')"

lemma canceler_step:
  "canceler_keeps_wf cancel \<Longrightarrow> gate_wf t \<Longrightarrow> (if b then cancel t x else Inr t) = Inr t' \<Longrightarrow> gate_wf t'"
  by (auto simp: canceler_keeps_wf_def split: if_splits)

lemma displace_waiters_wf:
  assumes cancel: "canceler_keeps_wf cancel"
  shows "gate_wf tx \<Longrightarrow> list_all holder_wf ws \<Longrightarrow> displace_waiters cancel key h ws tx = Inr tx' \<Longrightarrow> gate_wf tx'"
proof (induction ws arbitrary: tx)
  case (Cons w ws)
  then obtain ty b tz where ty: "(if holder_run_id w \<noteq> holder_run_id h then cancel tx w else Inr tx) = Inr ty"
    and tz: "remove_wait ty key w = Inr (b, tz)" and rest: "displace_waiters cancel key h ws tz = Inr tx'"
    by (auto simp: and_then_Inr_iff)
  have "gate_wf ty" using canceler_step [OF cancel Cons.prems(1) ty] .
  then have "gate_wf tz" using remove_wait_ok [OF _ _ tz] Cons.prems(2) by simp
  then show ?case using Cons rest by simp
qed simp

lemma take_and_return_ok:
  assumes "gate_wf tx" "holder_wf h" "take_and_return tx key d h = Inr (out, tx')"
  shows "gate_wf tx' \<and> out = AcqAcquired \<and> hold_row tx' key = Some (h, d)"
  using assms(3) take_hold_ok [OF assms(1,2), of key d tx'] by (auto simp: take_and_return_def and_then_Inr_iff)

text \<open>What each outcome means for the tables.\<close>

definition acquire_post :: "gate_db \<Rightarrow> gate_key \<Rightarrow> string \<Rightarrow> holder \<Rightarrow> acq_outcome \<Rightarrow> gate_db \<Rightarrow> bool" where
  "acquire_post tx key display h out tx' \<longleftrightarrow> gate_wf tx' \<and>
     (case out of
        AcqAcquired \<Rightarrow> hold_row tx' key = Some (h, display)
      | AcqParked \<Rightarrow> waiters tx' key \<noteq> [] \<and> snd (last (waiters tx' key)) = h
      | AcqArrivalCancelled \<Rightarrow> tx' = tx
      | AcqFailed \<Rightarrow> False)"

lemma take_and_return_post:
  "gate_wf t \<Longrightarrow> holder_wf h \<Longrightarrow> take_and_return t key d h = Inr (out, tx') \<Longrightarrow> acquire_post tx key d h out tx'"
  using take_and_return_ok [of t h key d out tx'] by (simp add: acquire_post_def)

lemma waiters_list_wf: "list_all holder_wf (map snd (waiters tx key))"
  using waiters_wf [of _ _ tx key] by (auto simp: list_all_iff)

lemma preempt_post:
  assumes cancel: "canceler_keeps_wf cancel"
    and "gate_wf tx" "holder_wf h" "holder_wf current" "list_all holder_wf pending"
    and run: "preempt cancel tx key d h current pending = Inr (out, tx')"
  shows "acquire_post tx key d h out tx'"
proof -
  obtain t1 b t2 t3 where t1: "displace_waiters cancel key h pending tx = Inr t1"
    and t2: "release_hold t1 key current = Inr (b, t2)"
    and t3: "(if holder_run_id current \<noteq> holder_run_id h then cancel t2 current else Inr t2) = Inr t3"
    and fin: "take_and_return t3 key d h = Inr (out, tx')"
    using run by (auto simp: preempt_def and_then_Inr_iff)
  have "gate_wf t1" using displace_waiters_wf [OF cancel] assms(2,5) t1 by blast
  then have "gate_wf t2" using release_hold_ok [OF _ assms(4) t2] by blast
  then have "gate_wf t3" using canceler_step [OF cancel _ t3] by blast
  then show ?thesis using take_and_return_post assms(3) fin by blast
qed

lemma park_post:
  assumes cancel: "canceler_keeps_wf cancel"
    and "gate_wf tx" "holder_wf h" "pending = waiters tx key"
    and run: "park cancel tx key h queue pending = Inr (out, tx')"
  shows "acquire_post tx key d h out tx'"
proof -
  define decision where "decision = concurrency_queue_decision queue
    (map (\<lambda>(i, h). (acq_row (snd (snd key)) h False)\<lparr>wait_id := i\<rparr>) pending)"
  have run': "(if cancel_arrival decision then Inr (AcqArrivalCancelled, tx)
     else and_then (displace_waiters cancel key h (map (\<lambda>r. the (map_of pending (wait_id r))) (cancel_pending decision)) tx) (\<lambda>tx.
         if park_arrival decision then and_then (enqueue_wait tx key h) (\<lambda>tx. Inr (AcqParked, tx))
         else Inr (AcqAcquired, tx))) = Inr (out, tx')"
    using run unfolding park_def Let_def decision_def .
  have parks: "cancel_arrival decision \<or> park_arrival decision"
    by (simp add: decision_def concurrency_queue_decision_def split: concurrency_queue.splits)
  have wf: "list_all holder_wf (map (\<lambda>r. the (map_of pending (wait_id r))) (cancel_pending decision))"
  proof -
    have "\<exists>x. map_of pending (wait_id r) = Some x \<and> holder_wf x" if "r \<in> set (cancel_pending decision)" for r
    proof -
      have "wait_id r \<in> fst ` set pending"
        using that by (force simp: decision_def concurrency_queue_decision_def split: concurrency_queue.splits if_splits)
      then obtain x where "map_of pending (wait_id r) = Some x" by (metis map_of_eq_None_iff option.exhaust)
      then show ?thesis using waiters_wf map_of_SomeD assms(4) by metis
    qed
    then show ?thesis by (fastforce simp: list_all_iff)
  qed
  show ?thesis
  proof (cases "cancel_arrival decision")
    case True
    then show ?thesis using run' assms(2) by (simp add: acquire_post_def)
  next
    case False
    then obtain t1 where t1: "displace_waiters cancel key h (map (\<lambda>r. the (map_of pending (wait_id r))) (cancel_pending decision)) tx = Inr t1"
      and t2: "enqueue_wait t1 key h = Inr tx'" "out = AcqParked"
      using run' parks by (auto simp: and_then_Inr_iff)
    have "gate_wf t1" using displace_waiters_wf [OF cancel] assms(2) wf t1 by blast
    then show ?thesis using enqueue_wait_ok [OF _ assms(3) t2(1), of key] t2(2) by (simp add: acquire_post_def)
  qed
qed

lemma slot_owner_wf: "slot_owner tx key = Some h \<Longrightarrow> holder_wf h"
  using holder_of_wf by (auto simp: slot_owner_def hold_row_find split: option.splits)

section \<open>Acquire: properties\<close>

text \<open>C17. Every outcome of \<^verbatim>\<open>acquire\<close> is true of the tables it leaves: after \<^verbatim>\<open>Acquired\<close> the hold row of
  the group is the arrival's, after \<^verbatim>\<open>Parked\<close> the arrival is the youngest waiter, after
  \<^verbatim>\<open>ArrivalCancelled\<close> nothing has changed; the invariant of the tables is kept, for any
  cancellation callback that keeps it.\<close>

theorem acquire_outcome_true:
  assumes "canceler_keeps_wf cancel"
    and "gate_wf tx" "holder_wf h"
    and "acquire rfc3339 cancel tx key display h cancel_flag queue = Inr (out, tx')"
  shows "acquire_post tx key display h out tx'"
proof -
  define current where "current = slot_owner tx key"
  define ex where "ex = (case current of None \<Rightarrow> [] | Some h \<Rightarrow> [h]) @ map snd (waiters tx key)"
  note run = assms(4) [unfolded acquire_def Let_def, folded slot_owner_def, folded current_def, folded ex_def]
  obtain stale where stale: "stale_arrival rfc3339 tx h (cancel_flag \<or> queue = SingleQueue) ex = Inr stale"
    using run by (auto simp: and_then_Inr_iff)
  show ?thesis
  proof (cases stale)
    case True
    then show ?thesis using run stale assms(2) by (simp add: acquire_post_def)
  next
    case fresh: False
    show ?thesis
    proof (cases current)
      case None
      then show ?thesis
        using run stale fresh take_and_return_post [OF assms(2,3)] by (simp add: concurrency_admission_def)
    next
      case (Some c)
      have c: "holder_wf c" using Some slot_owner_wf current_def by metis
      have *: "acquire_post tx key display h out tx'"
        if rel: "and_then (release_hold tx key c) (\<lambda>(_, tx). take_and_return tx key display h) = Inr (out, tx')"
      proof -
        obtain b t where "release_hold tx key c = Inr (b, t)" "take_and_return t key display h = Inr (out, tx')"
          using rel by (auto simp: and_then_Inr_iff)
        then show ?thesis using release_hold_ok [OF assms(2) c] take_and_return_post [OF _ assms(3)] by blast
      qed
      show ?thesis
        using run stale fresh Some * take_and_return_post [OF assms(2,3), of key display]
          park_post [OF assms(1-3) refl, of key] preempt_post [OF assms(1-3) c waiters_list_wf, of key]
        by (auto simp: concurrency_admission_def acq_row_def split: if_splits)
    qed
  qed
qed


lemma acquire_held:
  assumes "slot_owner tx key = Some c" "\<not> run_stuck_on_external_hosts tx (holder_run_id c)"
    "stale_arrival rfc3339 tx h (cancel_flag \<or> queue = SingleQueue) (c # map snd (waiters tx key)) = Inr False"
  shows "acquire rfc3339 cancel tx key display h cancel_flag queue =
    (if \<not> cancel_flag then park cancel tx key h queue (waiters tx key)
     else if holder_run_id c = holder_run_id h then take_and_return tx key display h
     else preempt cancel tx key display h c (map snd (waiters tx key)))"
  using assms
  by (simp add: acquire_def Let_def slot_owner_def [symmetric] concurrency_admission_def acq_row_def)

text \<open>An arrival that may not displace anybody joins a bounded queue fairly: in \<^verbatim>\<open>max\<close> mode, while
  the group is held by a run that can still make progress, the hold stays where it is and the
  arrival becomes the last of the waiters, or, when 100 already wait, is cancelled and the tables
  are untouched.\<close>

theorem acquire_max_waits:
  assumes "gate_wf tx" "holder_wf h" "slot_owner tx key = Some c"
    "\<not> run_stuck_on_external_hosts tx (holder_run_id c)"
    "acquire rfc3339 cancel tx key display h False MaxQueue = Inr (out, tx')"
  shows "if 100 \<le> length (waiters tx key) then out = AcqArrivalCancelled \<and> tx' = tx
    else out = AcqParked \<and> hold_row tx' = hold_row tx \<and>
      waiters tx' key = waiters tx key @ [(Suc (wait_seq tx), h)] \<and>
      (\<forall>k. k \<noteq> key \<longrightarrow> waiters tx' k = waiters tx k)"
proof -
  have "park cancel tx key h MaxQueue (waiters tx key) = Inr (out, tx')"
    using assms(5) acquire_held [OF assms(3,4), where cancel_flag = False and queue = MaxQueue]
    by (simp add: stale_arrival_def)
  then show ?thesis
    using enqueue_wait_ok [OF assms(1,2), of key tx']
    by (auto simp: park_def concurrency_queue_decision_def MAX_CONCURRENCY_WAITERS_def and_then_Inr_iff split: if_splits)
qed

lemma superseded_True:
  assumes "\<forall>x \<in> set es. holder_run_id x \<noteq> holder_run_id h \<longrightarrow> (\<exists>y. event_order_of rfc3339 tx x = Inr y)"
    "e \<in> set es" "holder_run_id e \<noteq> holder_run_id h" "event_order_of rfc3339 tx e = Inr (Some x)" "is_older_than a x"
  shows "superseded rfc3339 tx h a es = Inr True"
  using assms
proof (induction es)
  case (Cons d es)
  show ?case
  proof (cases "d = e")
    case False
    then have "superseded rfc3339 tx h a es = Inr True" using Cons by auto
    then show ?thesis using Cons.prems(1) by (auto split: option.splits)
  qed (use Cons.prems in simp)
qed simp

text \<open>A late delivery never preempts a newer one: when the arrival would displace somebody and
  the holder or a waiter of another run stems from a newer event of the same stream, the arrival
  is cancelled and the tables are untouched, provided the stored submissions decode.\<close>

theorem acquire_stale_loses:
  assumes "cancel_flag \<or> queue = SingleQueue"
    "event_order_of rfc3339 tx h = Inr (Some a)"
    "slot_owner tx key = Some e \<or> e \<in> snd ` set (waiters tx key)"
    "holder_run_id e \<noteq> holder_run_id h" "event_order_of rfc3339 tx e = Inr (Some x)" "is_older_than a x"
    "\<forall>s \<in> set (run_submissions tx). snd s \<noteq> None"
  shows "acquire rfc3339 cancel tx key display h cancel_flag queue = Inr (AcqArrivalCancelled, tx)"
proof -
  let ?es = "(case slot_owner tx key of None \<Rightarrow> [] | Some c \<Rightarrow> [c]) @ map snd (waiters tx key)"
  have "\<exists>y. event_order_of rfc3339 tx d = Inr y" for d
    using assms(7) by (auto simp: event_order_of_def split: option.splits dest!: map_of_SomeD)
  moreover have "e \<in> set ?es" using assms(3) by (auto split: option.splits)
  ultimately have "superseded rfc3339 tx h a ?es = Inr True"
    using superseded_True [OF _ _ assms(4-6)] by blast
  then have "stale_arrival rfc3339 tx h (cancel_flag \<or> queue = SingleQueue) ?es = Inr True"
    using assms(1,2) by (simp add: stale_arrival_def)
  then show ?thesis by (simp add: acquire_def Let_def slot_owner_def [symmetric])
qed

text \<open>A run cannot take a group it already holds: when the arrival asks to cancel what is in
  progress and the holder belongs to its own run, the admission decision grants the slot, but the
  insert of the hold row violates the primary key and the transaction fails.\<close>

theorem acquire_same_run_fails:
  assumes "gate_wf tx" "holder_wf h" "slot_owner tx key = Some c" "holder_run_id c = holder_run_id h"
    "\<not> run_stuck_on_external_hosts tx (holder_run_id c)"
    "stale_arrival rfc3339 tx h True (c # map snd (waiters tx key)) = Inr False"
  shows "\<exists>e. acquire rfc3339 cancel tx key display h True queue = Inl e"
proof -
  have "acquire rfc3339 cancel tx key display h True queue = take_and_return tx key display h"
    using acquire_held [OF assms(3,5), where cancel_flag = True] assms(4,6) by simp
  moreover have "\<not> (\<exists>t. take_hold tx key display h = Inr t)"
    using take_hold_ok [OF assms(1,2), of key display] assms(3) by (auto simp: slot_owner_def)
  ultimately show ?thesis by (cases "take_hold tx key display h") (auto simp: take_and_return_def)
qed


lemma sort_key_insert_back:
  assumes "distinct (map f xs)" "x \<in> set xs"
  shows "sort_key f (filter (\<lambda>y. f y \<noteq> f x) xs @ [x]) = sort_key f xs"
proof (rule sort_key_eq_sort_key)
  have "filter (\<lambda>y. f y = f x) xs = [x]" using distinct_filter_single [OF assms] .
  then have "mset xs = mset (filter (\<lambda>y. f y \<noteq> f x) xs) + mset [x]"
    using mset_filter [of "\<lambda>y. f y = f x" xs] multiset_partition [of "mset xs" "\<lambda>y. f y \<noteq> f x"] by simp
  then show "mset (filter (\<lambda>y. f y \<noteq> f x) xs @ [x]) = mset xs" by simp
  then have "set (filter (\<lambda>y. f y \<noteq> f x) xs @ [x]) = set xs" by (rule mset_eq_setD)
  then show "inj_on f (set (filter (\<lambda>y. f y \<noteq> f x) xs @ [x]))" using assms(1) by (simp add: distinct_map)
qed

text \<open>Requeueing keeps the queue fair: a waiter that was taken off the queue and could not be
  promoted goes back to its old place, and the queue of every group is what it was before.\<close>

theorem requeue_restores_queue:
  assumes "gate_wf tx" "first_waiter tx key = Some (i, h)" "holder_run_id h \<in> set (db_runs tx)"
  shows "\<exists>tx'. requeue_wait (remove_wait_by_id tx i) key h i = Inr tx' \<and>
    waiters tx' k = waiters tx k \<and> hold_row tx' = hold_row tx \<and> wait_seq tx' = wait_seq tx"
proof -
  have "(i, h) \<in> set (waiters tx key)"
    using assms(2) by (auto simp: first_waiter_def split: list.splits)
  then obtain w where w: "w \<in> set (waits tx)" "wait_key w = key" "wait_no w = i" "holder_of tx (wait_cols w) = Some h"
    by (auto simp: waiters_def map_filter_def)
  then have cols: "holder_columns tx h = Inr (wait_cols w, tx)"
    using assms(1) by (auto simp: gate_wf_def list_all_iff cols_ok_def split: option.splits)
  define ty where "ty = remove_wait_by_id tx i"
  define tx' where "tx' = tx\<lparr>waits := filter (\<lambda>v. wait_no v \<noteq> wait_no w) (waits tx) @ [w]\<rparr>"
  have "holder_columns ty h = Inr (wait_cols w, ty)"
    by (rule holder_columns_frame [OF _ cols]) (simp add: ty_def remove_wait_by_id_def)
  moreover have "wait_seq tx = max (wait_seq tx) i" using assms(1) w by (auto simp: gate_wf_def list_all_iff max_def)
  ultimately have "requeue_wait ty key h i = Inr tx'"
    using assms(3) w holder_of_run [OF w(4)]
    by (auto simp: requeue_wait_def ty_def remove_wait_by_id_def tx'_def)
  moreover have "waiters tx' k = waiters tx k"
  proof -
    have dec: "holder_of tx' x = holder_of tx x" for x by (rule holder_of_frame) (simp add: tx'_def)
    have "sort_key wait_no (waits tx') = sort_key wait_no (waits tx)"
      using sort_key_insert_back [of wait_no "waits tx" w] w(1) assms(1) by (simp add: tx'_def gate_wf_def)
    then have "sort_key wait_no (filter (\<lambda>v. wait_key v = k) (waits tx')) =
        sort_key wait_no (filter (\<lambda>v. wait_key v = k) (waits tx))"
      by (simp only: filter_sort [symmetric])
    then show ?thesis by (simp add: waiters_def dec)
  qed
  moreover have "hold_row tx' = hold_row tx"
    using holder_of_frame [of tx' tx] by (auto simp: fun_eq_iff hold_row_find tx'_def split: option.splits)
  ultimately show ?thesis by (auto simp: ty_def tx'_def)
qed


section \<open>Witnesses\<close>

text \<open>A group held by run 1, with run 2 and a job set of run 3 waiting for it.\<close>

definition example_key :: gate_key where
  "example_key = (''ns'', ''o/r'', ''deploy'')"

definition push_at :: "nat \<Rightarrow> gate_submission option" where
  "push_at t = Some \<lparr>sub_event = ''push'', sub_repository = ''o/r'',
     sub_payload = JObject [(''repository'', JObject [(''pushed_at'', JNumber (PosInt t))])]\<rparr>"

definition example_gates :: gate_db where
  "example_gates = \<lparr>db_runs = [1, 2, 3, 4, 5],
     holds = [\<lparr>hold_key = example_key, display_name = ''Deploy'',
       hold_cols = \<lparr>holder_kind = ''run'', holder_run = 1, holder_job = None, holder_jobset = None\<rparr>\<rparr>],
     waits = [\<lparr>wait_no = 3, wait_key = example_key,
         wait_cols = \<lparr>holder_kind = ''jobset'', holder_run = 3, holder_job = None, holder_jobset = Some 1\<rparr>\<rparr>,
       \<lparr>wait_no = 2, wait_key = example_key,
         wait_cols = \<lparr>holder_kind = ''run'', holder_run = 2, holder_job = None, holder_jobset = None\<rparr>\<rparr>],
     wait_seq = 3, jobsets = [\<lparr>set_no = 1, set_run = 3, set_jobs = [''a'', ''b'']\<rparr>], jobset_seq = 1,
     gate_jobs = [\<lparr>gjob_run = 1, gjob_status = ''in_progress'', gjob_queue_state = ''claimed'', gjob_runs_on = [''ubuntu-latest'']\<rparr>],
     runner_labels = [[''self-hosted'', ''linux'']],
     run_submissions = [(1, push_at 20), (4, push_at 10)]\<rparr>"

lemma example_gates_wf: "gate_wf example_gates"
  by code_simp


lemma id_canceler: "canceler_keeps_wf (\<lambda>t x. Inr t)"
  by (auto simp: canceler_keeps_wf_def)

theorem holds_refine_mutexes_witness:
  "mutex_run (slot_owner example_gates) (snd (gate.serve ''d'' example_gates
      [Take example_key (RunHolder 4), Release example_key (RunHolder 1), Take example_key (RunHolder 4)])) =
    Some (slot_owner (fst (gate.serve ''d'' example_gates
      [Take example_key (RunHolder 4), Release example_key (RunHolder 1), Take example_key (RunHolder 4)])))"
  using holds_refine_mutexes [OF example_gates_wf, of "[Take example_key (RunHolder 4), Release example_key (RunHolder 1),
      Take example_key (RunHolder 4)]" "''d''"]
  by (simp add: holder_wf_def)

theorem acquire_outcome_true_witness:
  "\<exists>tx'. acquire (\<lambda>_. None) (\<lambda>t x. Inr t) example_gates example_key ''Deploy'' (JobHolder 5 ''j'') True SingleQueue =
     Inr (AcqAcquired, tx') \<and> acquire_post example_gates example_key ''Deploy'' (JobHolder 5 ''j'') AcqAcquired tx'"
proof -
  have "case acquire (\<lambda>_. None) (\<lambda>t x. Inr t) example_gates example_key ''Deploy'' (JobHolder 5 ''j'') True SingleQueue of
      Inr (AcqAcquired, _) \<Rightarrow> True | _ \<Rightarrow> False"
    by code_simp
  then obtain tx' where "acquire (\<lambda>_. None) (\<lambda>t x. Inr t) example_gates example_key ''Deploy'' (JobHolder 5 ''j'') True SingleQueue =
      Inr (AcqAcquired, tx')"
    by (auto split: sum.splits prod.splits acq_outcome.splits)
  then show ?thesis using acquire_outcome_true [OF id_canceler example_gates_wf] by (simp add: holder_wf_def)
qed

theorem acquire_max_waits_witness:
  "\<exists>tx'. acquire (\<lambda>_. None) (\<lambda>t x. Inr t) example_gates example_key ''Deploy'' (RunHolder 4) False MaxQueue =
     Inr (AcqParked, tx') \<and> hold_row tx' = hold_row example_gates \<and>
     waiters tx' example_key = waiters example_gates example_key @ [(4, RunHolder 4)]"
proof -
  have "case acquire (\<lambda>_. None) (\<lambda>t x. Inr t) example_gates example_key ''Deploy'' (RunHolder 4) False MaxQueue of
      Inr (AcqParked, _) \<Rightarrow> True | _ \<Rightarrow> False"
    by code_simp
  then obtain tx' where run: "acquire (\<lambda>_. None) (\<lambda>t x. Inr t) example_gates example_key ''Deploy'' (RunHolder 4) False MaxQueue =
      Inr (AcqParked, tx')"
    by (auto split: sum.splits prod.splits acq_outcome.splits)
  moreover have "slot_owner example_gates example_key = Some (RunHolder 1)"
    "\<not> run_stuck_on_external_hosts example_gates (holder_run_id (RunHolder 1))" "wait_seq example_gates = 3"
    by code_simp+
  ultimately show ?thesis
    using acquire_max_waits [OF example_gates_wf _ _ _ run] by (auto simp: holder_wf_def split: if_splits)
qed

theorem acquire_stale_loses_witness:
  "acquire (\<lambda>_. None) (\<lambda>t x. Inr t) example_gates example_key ''Deploy'' (RunHolder 4) True MaxQueue =
     Inr (AcqArrivalCancelled, example_gates)"
proof (rule acquire_stale_loses [where e = "RunHolder 1"])
  show "event_order_of (\<lambda>_. None) example_gates (RunHolder 4) = Inr (Some \<lparr>order_scope = ''push:o/r'', order_at = 10\<rparr>)"
    "event_order_of (\<lambda>_. None) example_gates (RunHolder 1) = Inr (Some \<lparr>order_scope = ''push:o/r'', order_at = 20\<rparr>)"
    by code_simp+
  show "slot_owner example_gates example_key = Some (RunHolder 1) \<or>
      RunHolder 1 \<in> snd ` set (waiters example_gates example_key)"
    by code_simp
qed (simp_all add: is_older_than_def example_gates_def push_at_def)

theorem acquire_same_run_fails_witness:
  "\<exists>e. acquire (\<lambda>_. None) (\<lambda>t x. Inr t) example_gates example_key ''Deploy'' (JobHolder 1 ''j'') True MaxQueue = Inl e"
proof (rule acquire_same_run_fails [OF example_gates_wf])
  show "slot_owner example_gates example_key = Some (RunHolder 1)" by code_simp
  show "\<not> run_stuck_on_external_hosts example_gates (holder_run_id (RunHolder 1))" by code_simp
  show "stale_arrival (\<lambda>_. None) example_gates (JobHolder 1 ''j'') True
      (RunHolder 1 # map snd (waiters example_gates example_key)) = Inr False"
    by code_simp
qed (simp_all add: holder_wf_def)

theorem requeue_restores_queue_witness:
  "\<exists>tx'. requeue_wait (remove_wait_by_id example_gates 2) example_key (RunHolder 2) 2 = Inr tx' \<and>
     waiters tx' example_key = waiters example_gates example_key"
proof -
  have "first_waiter example_gates example_key = Some (2, RunHolder 2)"
    "holder_run_id (RunHolder 2) \<in> set (db_runs example_gates)" by code_simp+
  then show ?thesis using requeue_restores_queue [OF example_gates_wf, of example_key 2 "RunHolder 2" example_key] by blast
qed

end
