(* ===== verification/Expr_Syntax.thy ===== *)
theory Expr_Syntax
  imports Json_Value
begin

text \<open>
  The syntax of GitHub Actions expressions (crate \<^verbatim>\<open>preloop-gha-expressions\<close>): tokens and lexer
  (\<^verbatim>\<open>lexer.rs\<close>), the tree (\<^verbatim>\<open>ast.rs\<close>) and the recursive-descent parser with its depth ceiling
  (\<^verbatim>\<open>expr_parser.rs\<close>).

  The lexer's cursor is the rest of the input, the parser's cursor the rest of the tokens; past
  the end the current token is \<open>TEnd\<close>. The parser's recursion counter is the argument \<open>levels\<close>,
  the levels that are still allowed (\<^verbatim>\<open>MAX_EXPRESSION_DEPTH - depth\<close>): entering one more level
  fails at zero, which is also why the recursion ends. The loops over operators, arguments and
  suffixes take fuel; the number of remaining tokens is always enough, since each round consumes
  a token, and the lemmas show that more fuel changes nothing. \<^verbatim>\<open>serde_json\<close>'s number parser is
  the argument \<open>number\<close>.
\<close>

datatype expr_token =
  TIdent string | TString string | TNumber string | TBool bool | TNull
| TDot | TComma | TLParen | TRParen | TLBracket | TRBracket | TStar | TBang
| TAnd | TOr | TEq | TNe | TGt | TGe | TLt | TLe | TEnd

datatype binary_op = OpOr | OpAnd | OpEq | OpNe | OpGt | OpGe | OpLt | OpLe

datatype expr =
  Literal json
| Path "string list"
| UnaryNot expr
| Binary binary_op expr expr
| Call string "expr list"
| MemberAccess expr "string list"
| Index expr expr

text \<open>The errors of the crate. The \<^verbatim>\<open>Debug\<close> text of an unexpected token is the token itself.\<close>

datatype expression_error =
  Eof
| Unexpected string
| UnexpectedToken expr_token
| UnknownFunction string
| InvalidFunctionArity string nat nat nat
| EvenCaseParameters
| NonBooleanCasePredicate
| InvalidFormat string
| FormatOutputTooLarge nat
| EvaluationTooLarge nat
| InvalidHashFilesOption string
| HashFilesTooManyFiles nat
| HashFilesTraversalLimit nat
| HashFilesTooLarge nat
| HashFilesDisallowedPattern string
| TooDeep nat
| InvalidJson string

section \<open>Lexer\<close>

definition QUOTE :: char where "QUOTE = CHR 0x27"

fun lex_string :: "string \<Rightarrow> string \<Rightarrow> (string \<times> string) option" where
  "lex_string acc [] = None"
| "lex_string acc [c] = (if c = QUOTE then Some (acc, []) else None)"
| "lex_string acc (c # d # cs) =
     (if c = QUOTE then
        if d = QUOTE then lex_string (acc @ [QUOTE]) cs else Some (acc, d # cs)
      else lex_string (acc @ [c]) (d # cs))"

definition is_number_char :: "char \<Rightarrow> bool" where
  "is_number_char c \<longleftrightarrow> is_ascii_digit c \<or> c = CHR ''.''"

definition is_ident_start :: "char \<Rightarrow> bool" where
  "is_ident_start c \<longleftrightarrow> is_ascii_alphabetic c \<or> c = CHR ''_''"

definition is_ident_char :: "char \<Rightarrow> bool" where
  "is_ident_char c \<longleftrightarrow> is_ascii_alphanumeric c \<or> c = CHR ''_'' \<or> c = CHR ''-''"

definition ident_token :: "string \<Rightarrow> expr_token" where
  "ident_token ident =
     (let l = to_lower ident
      in if l = ''true'' then TBool True else if l = ''false'' then TBool False
         else if l = ''null'' then TNull else TIdent ident)"

fun punctuation :: "char \<Rightarrow> expr_token option" where
  "punctuation c =
     (if c = CHR ''.'' then Some TDot else if c = CHR '','' then Some TComma
      else if c = CHR ''('' then Some TLParen else if c = CHR '')'' then Some TRParen
      else if c = CHR ''*'' then Some TStar else if c = CHR ''['' then Some TLBracket
      else if c = CHR '']'' then Some TRBracket else None)"

text \<open>An operator of one or two characters: its first character, the second one that makes the
  long form, the long token and, if there is one, the short token.\<close>

fun operator :: "char \<Rightarrow> (char \<times> expr_token \<times> expr_token option) option" where
  "operator c =
     (if c = CHR ''!'' then Some (CHR ''='', TNe, Some TBang)
      else if c = CHR ''='' then Some (CHR ''='', TEq, None)
      else if c = CHR ''>'' then Some (CHR ''='', TGe, Some TGt)
      else if c = CHR ''<'' then Some (CHR ''='', TLe, Some TLt)
      else if c = CHR ''&'' then Some (CHR ''&'', TAnd, None)
      else if c = CHR ''|'' then Some (CHR ''|'', TOr, None)
      else None)"

declare punctuation.simps [simp del] operator.simps [simp del]

definition emit :: "expr_token \<Rightarrow> expression_error + expr_token list \<Rightarrow> expression_error + expr_token list" where
  "emit t rest = and_then rest (\<lambda>ts. Inr (t # ts))"

lemma lex_string_shorter: "lex_string acc cs = Some (s, rest) \<Longrightarrow> length rest < length cs"
  by (induction acc cs rule: lex_string.induct) (auto split: if_splits)

lemma length_dropWhile_Suc: "length (dropWhile P xs) < Suc (length xs)"
  by (simp add: length_dropWhile_le le_imp_less_Suc)

function lex :: "string \<Rightarrow> expression_error + expr_token list" where
  "lex [] = Inr [TEnd]"
| "lex (c # cs) =
     (if is_whitespace c then lex cs
      else if c = QUOTE then
        (case lex_string [] cs of None \<Rightarrow> Inl Eof | Some (s, rest) \<Rightarrow> emit (TString s) (lex rest))
      else if is_ascii_digit c then
        emit (TNumber (c # takeWhile is_number_char cs)) (lex (dropWhile is_number_char cs))
      else if is_ident_start c then
        emit (ident_token (c # takeWhile is_ident_char cs)) (lex (dropWhile is_ident_char cs))
      else case punctuation c of
        Some t \<Rightarrow> emit t (lex cs)
      | None \<Rightarrow>
          (case operator c of
             None \<Rightarrow> Inl (Unexpected [c])
           | Some (second, long, short) \<Rightarrow>
               if cs \<noteq> [] \<and> hd cs = second then emit long (lex (tl cs))
               else (case short of None \<Rightarrow> Inl (Unexpected [c]) | Some t \<Rightarrow> emit t (lex cs))))"
  by pat_completeness auto
termination
  by (relation "measure length") (auto simp: length_dropWhile_Suc dest: lex_string_shorter)

section \<open>Parser\<close>

definition MAX_EXPRESSION_DEPTH :: nat where "MAX_EXPRESSION_DEPTH = 128"

record parsed_expr =
  pexpr :: expr
  pdepth :: nat

type_synonym 'a pres = "expression_error + 'a \<times> expr_token list"

definition leaf :: "expr \<Rightarrow> parsed_expr" where
  "leaf e = \<lparr>pexpr = e, pdepth = 1\<rparr>"

definition node_depth :: "nat \<Rightarrow> expression_error + nat" where
  "node_depth deepest_child =
     (if deepest_child + 1 > MAX_EXPRESSION_DEPTH then Inl (TooDeep MAX_EXPRESSION_DEPTH)
      else Inr (deepest_child + 1))"

definition parsed_binary :: "binary_op \<Rightarrow> parsed_expr \<Rightarrow> parsed_expr \<Rightarrow> expression_error + parsed_expr" where
  "parsed_binary op left right =
     and_then (node_depth (max (pdepth left) (pdepth right))) (\<lambda>d.
       Inr \<lparr>pexpr = Binary op (pexpr left) (pexpr right), pdepth = d\<rparr>)"

definition parsed_index :: "parsed_expr \<Rightarrow> parsed_expr \<Rightarrow> expression_error + parsed_expr" where
  "parsed_index base key =
     and_then (node_depth (max (pdepth base) (pdepth key))) (\<lambda>d.
       Inr \<lparr>pexpr = Index (pexpr base) (pexpr key), pdepth = d\<rparr>)"

definition push_path_segment :: "parsed_expr \<Rightarrow> string \<Rightarrow> expression_error + parsed_expr" where
  "push_path_segment base segment =
     (case pexpr base of
        Path path \<Rightarrow> Inr (base\<lparr>pexpr := Path (path @ [segment])\<rparr>)
      | MemberAccess e path \<Rightarrow> Inr (base\<lparr>pexpr := MemberAccess e (path @ [segment])\<rparr>)
      | other \<Rightarrow> and_then (node_depth (pdepth base)) (\<lambda>d.
          Inr \<lparr>pexpr = MemberAccess other [segment], pdepth = d\<rparr>))"

fun current :: "expr_token list \<Rightarrow> expr_token" where
  "current [] = TEnd"
| "current (t # _) = t"

definition advance :: "expr_token list \<Rightarrow> expr_token list" where
  "advance ts = tl ts"

text \<open>\<^verbatim>\<open>expect\<close> compares discriminants; it is only called with the closing bracket and
  parenthesis, which carry no data.\<close>

definition expect :: "expr_token \<Rightarrow> expr_token list \<Rightarrow> expression_error + expr_token list" where
  "expect expected ts =
     (if current ts = expected then Inr (advance ts) else Inl (UnexpectedToken (current ts)))"

text \<open>
  The loops of the parser. A round turns the loop's state and the rest of the tokens into an
  error, or into the next state and rest together with whether the loop goes on.
\<close>

type_synonym 's loop_round = "'s \<Rightarrow> expr_token list \<Rightarrow> expression_error + bool \<times> 's \<times> expr_token list"

fun token_loop :: "'s loop_round \<Rightarrow> nat \<Rightarrow> 's \<Rightarrow> expr_token list \<Rightarrow> 's pres" where
  "token_loop body 0 s ts = Inr (s, ts)"
| "token_loop body (Suc n) s ts =
     and_then (body s ts) (\<lambda>(go, s, ts). if go then token_loop body n s ts else Inr (s, ts))"

definition run_loop :: "'s loop_round \<Rightarrow> 's \<Rightarrow> expr_token list \<Rightarrow> 's pres" where
  "run_loop body s ts = token_loop body (Suc (length ts)) s ts"

text \<open>The left-associative loops of \<^verbatim>\<open>parse_or\<close>, \<^verbatim>\<open>parse_and\<close> and \<^verbatim>\<open>parse_eq\<close>.\<close>

definition binary_round :: "(expr_token \<Rightarrow> binary_op option) \<Rightarrow> (expr_token list \<Rightarrow> parsed_expr pres) \<Rightarrow> parsed_expr loop_round" where
  "binary_round op_of operand e ts =
     (case op_of (current ts) of
        None \<Rightarrow> Inr (False, e, ts)
      | Some op \<Rightarrow>
          and_then (operand (advance ts)) (\<lambda>(right, ts).
          and_then (parsed_binary op e right) (\<lambda>e. Inr (True, e, ts))))"

definition binary_level :: "(expr_token \<Rightarrow> binary_op option) \<Rightarrow> (expr_token list \<Rightarrow> parsed_expr pres) \<Rightarrow>
    expr_token list \<Rightarrow> parsed_expr pres" where
  "binary_level op_of operand ts =
     and_then (operand ts) (\<lambda>(e, ts). run_loop (binary_round op_of operand) e ts)"

fun or_op :: "expr_token \<Rightarrow> binary_op option" where
  "or_op TOr = Some OpOr" | "or_op _ = None"

fun and_op :: "expr_token \<Rightarrow> binary_op option" where
  "and_op TAnd = Some OpAnd" | "and_op _ = None"

fun eq_op :: "expr_token \<Rightarrow> binary_op option" where
  "eq_op TEq = Some OpEq" | "eq_op TNe = Some OpNe" | "eq_op TGt = Some OpGt" | "eq_op TGe = Some OpGe"
| "eq_op TLt = Some OpLt" | "eq_op TLe = Some OpLe" | "eq_op _ = None"

definition parse_eq :: "(expr_token list \<Rightarrow> parsed_expr pres) \<Rightarrow> expr_token list \<Rightarrow> parsed_expr pres" where
  "parse_eq unary = binary_level eq_op unary"

definition parse_and :: "(expr_token list \<Rightarrow> parsed_expr pres) \<Rightarrow> expr_token list \<Rightarrow> parsed_expr pres" where
  "parse_and unary = binary_level and_op (parse_eq unary)"

definition parse_or :: "(expr_token list \<Rightarrow> parsed_expr pres) \<Rightarrow> expr_token list \<Rightarrow> parsed_expr pres" where
  "parse_or unary = binary_level or_op (parse_and unary)"

text \<open>The literal fast path of bracket access: a string, a number, or a lone identifier.\<close>

definition bracket_literal :: "expr_token list \<Rightarrow> string option" where
  "bracket_literal ts =
     (case current ts of
        TString s \<Rightarrow> Some s
      | TNumber s \<Rightarrow> Some s
      | TIdent s \<Rightarrow> if current (advance ts) = TRBracket then Some s else None
      | _ \<Rightarrow> None)"

definition push_and_go :: "parsed_expr \<Rightarrow> string \<Rightarrow> expr_token list \<Rightarrow> expression_error + bool \<times> parsed_expr \<times> expr_token list" where
  "push_and_go base segment ts = and_then (push_path_segment base segment) (\<lambda>base. Inr (True, base, ts))"

text \<open>\<^verbatim>\<open>tracked\<close> followed by the closing bracket.\<close>

definition bracket_key :: "(expr_token list \<Rightarrow> parsed_expr pres) \<Rightarrow> expr_token list \<Rightarrow> parsed_expr pres" where
  "bracket_key tracked ts =
     and_then (tracked ts) (\<lambda>(key, ts). and_then (expect TRBracket ts) (\<lambda>ts. Inr (key, ts)))"

text \<open>A round of the suffix loop of a path.\<close>

definition path_round :: "(expr_token list \<Rightarrow> parsed_expr pres) \<Rightarrow> parsed_expr loop_round" where
  "path_round tracked base ts =
     (let after = advance ts
      in case current ts of
        TDot \<Rightarrow>
          (case current after of
             TIdent segment \<Rightarrow> push_and_go base segment (advance after)
           | TStar \<Rightarrow> push_and_go base ''*'' (advance after)
           | other \<Rightarrow> Inl (UnexpectedToken other))
      | TLBracket \<Rightarrow>
          (case bracket_literal after of
             Some segment \<Rightarrow>
               and_then (expect TRBracket (advance after)) (\<lambda>ts. push_and_go base segment ts)
           | None \<Rightarrow>
               and_then (bracket_key tracked after) (\<lambda>(key, ts).
               and_then (parsed_index base key) (\<lambda>base. Inr (True, base, ts))))
      | _ \<Rightarrow> Inr (False, base, ts))"

text \<open>A round of \<^verbatim>\<open>parse_member_suffix\<close>: a malformed suffix ends the loop instead of failing, a
  depth violation fails.\<close>

definition suffix_round :: "(expr_token list \<Rightarrow> parsed_expr pres) \<Rightarrow> parsed_expr loop_round" where
  "suffix_round tracked base ts =
     (let after = advance ts
      in case current ts of
        TDot \<Rightarrow>
          (case current after of
             TIdent segment \<Rightarrow> push_and_go base segment (advance after)
           | TStar \<Rightarrow> push_and_go base ''*'' (advance after)
           | _ \<Rightarrow> Inr (False, base, after))
      | TLBracket \<Rightarrow>
          (case bracket_literal after of
             Some segment \<Rightarrow>
               (case expect TRBracket (advance after) of
                  Inl _ \<Rightarrow> Inr (False, base, advance after)
                | Inr ts \<Rightarrow> push_and_go base segment ts)
           | None \<Rightarrow>
               (case bracket_key tracked after of
                  Inr (key, ts) \<Rightarrow> and_then (parsed_index base key) (\<lambda>base. Inr (True, base, ts))
                | Inl (TooDeep d) \<Rightarrow> Inl (TooDeep d)
                | Inl _ \<Rightarrow> Inr (False, base, after)))
      | _ \<Rightarrow> Inr (False, base, ts))"

definition parse_member_suffix :: "(expr_token list \<Rightarrow> parsed_expr pres) \<Rightarrow> parsed_expr \<Rightarrow> expr_token list \<Rightarrow> parsed_expr pres" where
  "parse_member_suffix tracked base ts = run_loop (suffix_round tracked) base ts"

text \<open>A round of the argument loop of a call; its state is the arguments and their depth.\<close>

definition args_round :: "(expr_token list \<Rightarrow> parsed_expr pres) \<Rightarrow> (expr list \<times> nat) loop_round" where
  "args_round tracked = (\<lambda>(args, deepest) ts.
     and_then (tracked ts) (\<lambda>(arg, ts).
       let s = (args @ [pexpr arg], max deepest (pdepth arg))
       in if current ts = TComma then Inr (True, s, advance ts) else Inr (False, s, ts)))"

definition parse_ident_or_call :: "(expr_token list \<Rightarrow> parsed_expr pres) \<Rightarrow> string \<Rightarrow> expr_token list \<Rightarrow> parsed_expr pres" where
  "parse_ident_or_call tracked name ts =
     (let ts = advance ts
      in if current ts = TLParen then
           let ts = advance ts
           in and_then (if current ts = TRParen then Inr (([], 0), ts) else run_loop (args_round tracked) ([], 0) ts)
                (\<lambda>((args, deepest_arg), ts).
              and_then (expect TRParen ts) (\<lambda>ts.
              and_then (node_depth deepest_arg) (\<lambda>d.
                parse_member_suffix tracked \<lparr>pexpr = Call name args, pdepth = d\<rparr> ts)))
         else run_loop (path_round tracked) (leaf (Path [name])) ts)"

definition parse_primary :: "(string \<Rightarrow> jnum option) \<Rightarrow> (expr_token list \<Rightarrow> parsed_expr pres) \<Rightarrow> expr_token list \<Rightarrow> parsed_expr pres" where
  "parse_primary number tracked ts =
     (case current ts of
        TString value \<Rightarrow> Inr (leaf (Literal (JString value)), advance ts)
      | TNumber value \<Rightarrow>
          Inr (leaf (Literal (case number value of Some n \<Rightarrow> JNumber n | None \<Rightarrow> JNull)), advance ts)
      | TBool value \<Rightarrow> Inr (leaf (Literal (JBool value)), advance ts)
      | TNull \<Rightarrow> Inr (leaf (Literal JNull), advance ts)
      | TIdent name \<Rightarrow> parse_ident_or_call tracked name ts
      | TLParen \<Rightarrow>
          and_then (tracked (advance ts)) (\<lambda>(e, ts).
          and_then (expect TRParen ts) (\<lambda>ts. Inr (e, ts)))
      | TEnd \<Rightarrow> Inl Eof
      | t \<Rightarrow> Inl (UnexpectedToken t))"

text \<open>The recursion: \<^verbatim>\<open>parse_tracked_expr\<close> and \<^verbatim>\<open>parse_unary\<close> each enter a level.\<close>

function parse_tracked_expr :: "(string \<Rightarrow> jnum option) \<Rightarrow> nat \<Rightarrow> expr_token list \<Rightarrow> parsed_expr pres"
and parse_unary :: "(string \<Rightarrow> jnum option) \<Rightarrow> nat \<Rightarrow> expr_token list \<Rightarrow> parsed_expr pres" where
  "parse_tracked_expr number levels ts =
     (case levels of
        0 \<Rightarrow> Inl (TooDeep MAX_EXPRESSION_DEPTH)
      | Suc l \<Rightarrow> parse_or (parse_unary number l) ts)"
| "parse_unary number levels ts =
     (if current ts = TBang then
        (case levels of
           0 \<Rightarrow> Inl (TooDeep MAX_EXPRESSION_DEPTH)
         | Suc l \<Rightarrow>
             and_then (parse_unary number l (advance ts)) (\<lambda>(inner, ts).
             and_then (node_depth (pdepth inner)) (\<lambda>d.
               Inr (\<lparr>pexpr = UnaryNot (pexpr inner), pdepth = d\<rparr>, ts))))
      else parse_primary number (parse_tracked_expr number levels) ts)"
  by pat_completeness auto
termination
  by (relation "measure (\<lambda>p. case p of Inl (_, l, _) \<Rightarrow> 2 * l | Inr (_, l, _) \<Rightarrow> Suc (2 * l))") auto

declare parse_tracked_expr.simps [simp del] parse_unary.simps [simp del]

definition expect_end :: "expr_token list \<Rightarrow> expression_error + unit" where
  "expect_end ts = (if current ts = TEnd then Inr () else Inl (UnexpectedToken (current ts)))"

text \<open>What \<^verbatim>\<open>parse_cached\<close> computes when the cache does not have the input: lexing, \<^verbatim>\<open>parse_expr\<close> and
  \<^verbatim>\<open>expect_end\<close>.\<close>

definition parse_tokens :: "(string \<Rightarrow> jnum option) \<Rightarrow> expr_token list \<Rightarrow> expression_error + expr" where
  "parse_tokens number ts =
     and_then (parse_tracked_expr number MAX_EXPRESSION_DEPTH ts) (\<lambda>(parsed, ts).
     and_then (expect_end ts) (\<lambda>_. Inr (pexpr parsed)))"

definition parse_input :: "(string \<Rightarrow> jnum option) \<Rightarrow> string \<Rightarrow> expression_error + expr" where
  "parse_input number input = and_then (lex input) (parse_tokens number)"


section \<open>Every successful parse consumes tokens\<close>

definition shortens :: "(expr_token list \<Rightarrow> 'a pres) \<Rightarrow> bool" where
  "shortens p \<longleftrightarrow> (\<forall>ts v rest. p ts = Inr (v, rest) \<longrightarrow> length rest < length ts)"

lemma shortensI: "(\<And>ts v rest. p ts = Inr (v, rest) \<Longrightarrow> length rest < length ts) \<Longrightarrow> shortens p"
  by (auto simp: shortens_def)

lemma shortensD: "shortens p \<Longrightarrow> p ts = Inr (v, rest) \<Longrightarrow> length rest < length ts"
  by (auto simp: shortens_def)

text \<open>A round that goes on has consumed a token, one that ends the loop has given none back.\<close>

definition round_ok :: "'s loop_round \<Rightarrow> bool" where
  "round_ok r \<longleftrightarrow> (\<forall>s ts go s' ts'. r s ts = Inr (go, s', ts') \<longrightarrow>
     length ts' \<le> length ts \<and> (go \<longrightarrow> length ts' < length ts))"

lemma round_okI:
  "(\<And>s ts go s' ts'. r s ts = Inr (go, s', ts') \<Longrightarrow> length ts' \<le> length ts \<and> (go \<longrightarrow> length ts' < length ts)) \<Longrightarrow> round_ok r"
  by (auto simp: round_ok_def)

lemma round_okD:
  "round_ok r \<Longrightarrow> r s ts = Inr (go, s', ts') \<Longrightarrow> length ts' \<le> length ts \<and> (go \<longrightarrow> length ts' < length ts)"
  by (auto simp: round_ok_def)

lemma token_loop_le: "round_ok r \<Longrightarrow> token_loop r n s ts = Inr (v, rest) \<Longrightarrow> length rest \<le> length ts"
proof (induction n arbitrary: s ts)
  case (Suc n)
  then obtain go s1 ts1 where r: "r s ts = Inr (go, s1, ts1)"
    and rest: "(if go then token_loop r n s1 ts1 else Inr (s1, ts1)) = Inr (v, rest)"
    by (auto simp: and_then_Inr_iff)
  then show ?case using Suc.IH [OF Suc.prems(1)] round_okD [OF Suc.prems(1) r] by (cases go) fastforce+
qed simp

text \<open>The fuel is enough: any larger amount gives the same result, so \<open>run_loop\<close> satisfies the
  equation of the source's loop.\<close>

lemma token_loop_fuel:
  assumes ok: "round_ok r"
  shows "length ts < n \<Longrightarrow> length ts < m \<Longrightarrow> token_loop r n s ts = token_loop r m s ts"
proof (induction n arbitrary: m s ts)
  case (Suc n)
  then obtain m' where m: "m = Suc m'" by (cases m) simp_all
  have "token_loop r n s1 ts1 = token_loop r m' s1 ts1" if "r s ts = Inr (True, s1, ts1)" for s1 ts1
    using Suc.IH [of ts1 m' s1] Suc.prems m round_okD [OF ok that] by simp
  then show ?case by (auto simp: m and_then_def split: sum.splits)
qed simp

lemma run_loop_unfold:
  assumes "round_ok r"
  shows "run_loop r s ts = and_then (r s ts) (\<lambda>(go, s, ts). if go then run_loop r s ts else Inr (s, ts))"
proof -
  have "token_loop r (length ts) s1 ts1 = run_loop r s1 ts1" if "r s ts = Inr (True, s1, ts1)" for s1 ts1
    unfolding run_loop_def by (rule token_loop_fuel [OF assms]) (use round_okD [OF assms that] in simp_all)
  then show ?thesis by (auto simp: run_loop_def [of r s ts] and_then_def split: sum.splits)
qed

lemma run_loop_le: "round_ok r \<Longrightarrow> run_loop r s ts = Inr (v, rest) \<Longrightarrow> length rest \<le> length ts"
  unfolding run_loop_def by (rule token_loop_le)

lemma advance_simps [simp]: "advance [] = []" "advance (t # ts) = ts" "length (advance ts) = length ts - 1"
  by (simp_all add: advance_def)

lemma expect_Inr: "expect t ts = Inr rest \<longleftrightarrow> current ts = t \<and> rest = advance ts"
  by (auto simp: expect_def)

lemma current_Cons: "current ts \<noteq> TEnd \<Longrightarrow> 0 < length ts"
  by (cases ts) auto

lemma binary_round_ok: "shortens operand \<Longrightarrow> round_ok (binary_round op_of operand)"
  by (rule round_okI)
     (fastforce simp: binary_round_def and_then_Inr_iff split: option.splits dest: shortensD)

lemma binary_level_shortens: "shortens operand \<Longrightarrow> shortens (binary_level op_of operand)"
proof (rule shortensI)
  fix ts v rest
  assume sh: "shortens operand" and level: "binary_level op_of operand ts = Inr (v, rest)"
  then obtain e ts1 where "operand ts = Inr (e, ts1)" "run_loop (binary_round op_of operand) e ts1 = Inr (v, rest)"
    by (auto simp: binary_level_def and_then_Inr_iff)
  then have "length ts1 < length ts" "length rest \<le> length ts1"
    using shortensD [OF sh] run_loop_le [OF binary_round_ok [OF sh]] by blast+
  then show "length rest < length ts" by simp
qed

lemma parse_or_shortens: "shortens unary \<Longrightarrow> shortens (parse_or unary)"
  by (simp add: parse_or_def parse_and_def parse_eq_def binary_level_shortens)

lemma bracket_literal_Some: "bracket_literal ts = Some s \<Longrightarrow> 0 < length ts"
  by (cases ts) (auto simp: bracket_literal_def)

lemma bracket_key_shortens: "shortens tracked \<Longrightarrow> shortens (bracket_key tracked)"
  by (rule shortensI) (fastforce simp: bracket_key_def and_then_Inr_iff expect_Inr dest: shortensD)

lemma push_and_go_Inr: "push_and_go base s ts = Inr (go, base', ts') \<Longrightarrow> go \<and> ts' = ts"
  by (auto simp: push_and_go_def and_then_Inr_iff)

lemma path_round_ok: "shortens tracked \<Longrightarrow> round_ok (path_round tracked)"
proof (rule round_okI)
  fix s ts go s' ts'
  assume sh: "shortens tracked" and r: "path_round tracked s ts = Inr (go, s', ts')"
  show "length ts' \<le> length ts \<and> (go \<longrightarrow> length ts' < length ts)"
  proof (cases "current ts = TDot \<or> current ts = TLBracket")
    case True
    then have "0 < length ts" using current_Cons by fastforce
    then show ?thesis
      using r shortensD [OF bracket_key_shortens [OF sh], of "advance ts"]
      by (auto simp: path_round_def Let_def and_then_Inr_iff expect_Inr
          split: expr_token.splits option.splits dest!: push_and_go_Inr)
  qed (use r in \<open>auto simp: path_round_def Let_def split: expr_token.splits\<close>)
qed

lemma suffix_round_ok: "shortens tracked \<Longrightarrow> round_ok (suffix_round tracked)"
proof (rule round_okI)
  fix s ts go s' ts'
  assume sh: "shortens tracked" and r: "suffix_round tracked s ts = Inr (go, s', ts')"
  show "length ts' \<le> length ts \<and> (go \<longrightarrow> length ts' < length ts)"
  proof (cases "current ts = TDot \<or> current ts = TLBracket")
    case True
    then have "0 < length ts" using current_Cons by fastforce
    then show ?thesis
      using r shortensD [OF bracket_key_shortens [OF sh], of "advance ts"]
      by (auto simp: suffix_round_def Let_def and_then_Inr_iff expect_def
          split: expr_token.splits option.splits sum.splits expression_error.splits if_splits dest!: push_and_go_Inr)
  qed (use r in \<open>auto simp: suffix_round_def Let_def split: expr_token.splits\<close>)
qed

lemma args_round_ok: "shortens tracked \<Longrightarrow> round_ok (args_round tracked)"
  by (rule round_okI)
     (fastforce simp: args_round_def and_then_Inr_iff Let_def split: prod.splits if_splits dest: shortensD)


lemma parse_ident_or_call_shortens:
  assumes sh: "shortens tracked" and p: "parse_ident_or_call tracked name (t # ts) = Inr (v, rest)"
  shows "length rest < length (t # ts)"
proof (cases "current ts = TLParen")
  case True
  then obtain args d ts1 dd where a: "(if current (advance ts) = TRParen then Inr (([], 0), advance ts)
        else run_loop (args_round tracked) ([], 0) (advance ts)) = Inr ((args, d), ts1)"
    and b: "parse_member_suffix tracked \<lparr>pexpr = Call name args, pdepth = dd\<rparr> (advance ts1) = Inr (v, rest)"
    using p by (auto simp: parse_ident_or_call_def Let_def and_then_Inr_iff expect_Inr split: if_splits)
  have "length ts1 \<le> length (advance ts)"
    using a run_loop_le [OF args_round_ok [OF sh], of "([], 0)" "advance ts"] by (auto split: if_splits)
  moreover have "length rest \<le> length (advance ts1)"
    using run_loop_le [OF suffix_round_ok [OF sh]] b unfolding parse_member_suffix_def by blast
  ultimately show ?thesis by simp
next
  case False
  then have "run_loop (path_round tracked) (leaf (Path [name])) ts = Inr (v, rest)"
    using p by (simp add: parse_ident_or_call_def Let_def)
  then show ?thesis using run_loop_le [OF path_round_ok [OF sh]] by fastforce
qed

lemma parse_primary_shortens: "shortens tracked \<Longrightarrow> shortens (parse_primary number tracked)"
proof (rule shortensI)
  fix ts v rest
  assume sh: "shortens tracked" and prim: "parse_primary number tracked ts = Inr (v, rest)"
  show "length rest < length ts"
  proof (cases ts)
    case (Cons t ts1)
    show ?thesis
    proof (cases t rule: expr_token.exhaust)
      case (TIdent name)
      then show ?thesis using prim parse_ident_or_call_shortens [OF sh] Cons by (simp add: parse_primary_def)
    next
      case TLParen
      then obtain ts2 where "tracked ts1 = Inr (v, ts2)" "rest = advance ts2"
        using prim Cons by (auto simp: parse_primary_def and_then_Inr_iff expect_Inr)
      then show ?thesis using shortensD [OF sh] Cons by fastforce
    qed (use prim Cons in \<open>auto simp: parse_primary_def\<close>)
  qed (use prim in \<open>simp add: parse_primary_def\<close>)
qed

lemma parse_shortens_both:
  "shortens (parse_tracked_expr number levels) \<and> shortens (parse_unary number levels)"
proof (induction levels)
  case 0
  have t: "shortens (parse_tracked_expr number 0)" by (simp add: shortens_def parse_tracked_expr.simps)
  have "shortens (parse_unary number 0)"
    by (rule shortensI) (use shortensD [OF parse_primary_shortens [OF t]] in
        \<open>auto simp: parse_unary.simps [of number 0] split: if_splits\<close>)
  with t show ?case by simp
next
  case (Suc l)
  have t: "shortens (parse_tracked_expr number (Suc l))"
    by (rule shortensI) (use shortensD [OF parse_or_shortens] Suc in \<open>auto simp: parse_tracked_expr.simps\<close>)
  have "shortens (parse_unary number (Suc l))"
  proof (rule shortensI)
    fix ts v rest
    assume un: "parse_unary number (Suc l) ts = Inr (v, rest)"
    show "length rest < length ts"
    proof (cases "current ts = TBang")
      case True
      then obtain inner where "parse_unary number l (advance ts) = Inr (inner, rest)"
        using un by (auto simp: parse_unary.simps [of number "Suc l"] and_then_Inr_iff)
      then show ?thesis using Suc shortensD [of "parse_unary number l"] by fastforce
    next
      case False
      then show ?thesis
        using un shortensD [OF parse_primary_shortens [OF t]] by (simp add: parse_unary.simps [of number "Suc l"])
    qed
  qed
  with t show ?case by simp
qed

lemmas parse_shortens = parse_shortens_both [THEN conjunct1] parse_shortens_both [THEN conjunct2]

section \<open>Invariants of the tree\<close>

definition suffix_extends :: "(expr_token list \<Rightarrow> parsed_expr pres) \<Rightarrow> parsed_expr \<Rightarrow> parsed_expr \<Rightarrow> bool" where
  "suffix_extends tracked b b' \<longleftrightarrow> b' = b \<or> (\<exists>s. push_path_segment b s = Inr b') \<or>
     (\<exists>ts key rest. tracked ts = Inr (key, rest) \<and> parsed_index b key = Inr b')"

lemma push_and_go_extends: "push_and_go b s ts = Inr (go, b', ts') \<Longrightarrow> suffix_extends tracked b b'"
  by (auto simp: push_and_go_def and_then_Inr_iff suffix_extends_def)

lemma bracket_key_Inr: "bracket_key tracked ts = Inr (key, rest) \<Longrightarrow> \<exists>rest'. tracked ts = Inr (key, rest')"
  by (auto simp: bracket_key_def and_then_Inr_iff)

lemma index_extends:
  "bracket_key tracked ts = Inr (key, rest) \<Longrightarrow> parsed_index b key = Inr b' \<Longrightarrow> suffix_extends tracked b b'"
  unfolding suffix_extends_def by (blast dest: bracket_key_Inr)

lemma suffix_extends_refl [simp]: "suffix_extends tracked b b"
  by (simp add: suffix_extends_def)

lemma path_round_extends: "path_round tracked b ts = Inr (go, b', ts') \<Longrightarrow> suffix_extends tracked b b'"
  by (auto simp: path_round_def Let_def and_then_Inr_iff
      split: expr_token.splits option.splits intro: index_extends push_and_go_extends)

lemma suffix_round_extends: "suffix_round tracked b ts = Inr (go, b', ts') \<Longrightarrow> suffix_extends tracked b b'"
  by (auto simp: suffix_round_def Let_def and_then_Inr_iff
      split: expr_token.splits option.splits sum.splits expression_error.splits
      intro: index_extends push_and_go_extends)

definition keeps :: "('s \<Rightarrow> bool) \<Rightarrow> 's loop_round \<Rightarrow> bool" where
  "keeps I r \<longleftrightarrow> (\<forall>s ts go s' ts'. I s \<longrightarrow> r s ts = Inr (go, s', ts') \<longrightarrow> I s')"

lemma token_loop_keeps:
  assumes "keeps I r"
  shows "I s \<Longrightarrow> token_loop r n s ts = Inr (s', rest) \<Longrightarrow> I s'"
proof (induction n arbitrary: s ts)
  case (Suc n)
  then obtain go s1 ts1 where r: "r s ts = Inr (go, s1, ts1)"
    "(if go then token_loop r n s1 ts1 else Inr (s1, ts1)) = Inr (s', rest)"
    by (auto simp: and_then_Inr_iff)
  then have "I s1" using assms Suc.prems(1) unfolding keeps_def by blast
  then show ?case using r Suc.IH by (auto split: if_splits)
qed simp

lemma loop_keeps: "keeps I r \<Longrightarrow> I s \<Longrightarrow> run_loop r s ts = Inr (s', rest) \<Longrightarrow> I s'"
  unfolding run_loop_def by (rule token_loop_keeps)

text \<open>
  What the constructors of parsed nodes keep, the parser keeps: the interface between the loops
  and the nodes they build.
\<close>

locale node_invariant =
  fixes Q :: "parsed_expr \<Rightarrow> bool" and QA :: "expr list \<Rightarrow> nat \<Rightarrow> bool"
  assumes leaf_literal: "Q (leaf (Literal v))"
    and leaf_path: "Q (leaf (Path [name]))"
    and not_node: "Q e \<Longrightarrow> node_depth (pdepth e) = Inr d \<Longrightarrow> Q \<lparr>pexpr = UnaryNot (pexpr e), pdepth = d\<rparr>"
    and binary_node: "Q l \<Longrightarrow> Q r \<Longrightarrow> parsed_binary op l r = Inr e \<Longrightarrow> Q e"
    and index_node: "Q b \<Longrightarrow> Q k \<Longrightarrow> parsed_index b k = Inr e \<Longrightarrow> Q e"
    and segment_node: "Q b \<Longrightarrow> push_path_segment b s = Inr e \<Longrightarrow> Q e"
    and no_args: "QA [] 0"
    and more_args: "QA args n \<Longrightarrow> Q e \<Longrightarrow> QA (args @ [pexpr e]) (max n (pdepth e))"
    and call_node: "QA args n \<Longrightarrow> node_depth n = Inr d \<Longrightarrow> Q \<lparr>pexpr = Call name args, pdepth = d\<rparr>"
begin

definition yields :: "(expr_token list \<Rightarrow> parsed_expr pres) \<Rightarrow> bool" where
  "yields p \<longleftrightarrow> (\<forall>ts e rest. p ts = Inr (e, rest) \<longrightarrow> Q e)"

lemma yieldsI: "(\<And>ts e rest. p ts = Inr (e, rest) \<Longrightarrow> Q e) \<Longrightarrow> yields p"
  by (auto simp: yields_def)

lemma yieldsD: "yields p \<Longrightarrow> p ts = Inr (e, rest) \<Longrightarrow> Q e"
  by (auto simp: yields_def)

lemma binary_round_keeps:
  assumes "yields operand" "Q s" "binary_round op_of operand s ts = Inr (go, s', ts')"
  shows "Q s'"
proof (cases "op_of (current ts)")
  case (Some op)
  then obtain right where "operand (advance ts) = Inr (right, ts')" "parsed_binary op s right = Inr s'"
    using assms(3) by (auto simp: binary_round_def and_then_Inr_iff)
  then show ?thesis using binary_node [OF assms(2) yieldsD [OF assms(1)]] by blast
qed (use assms in \<open>simp add: binary_round_def\<close>)

lemma binary_level_yields: "yields operand \<Longrightarrow> yields (binary_level op_of operand)"
proof (rule yieldsI)
  fix ts e rest
  assume y: "yields operand" and level: "binary_level op_of operand ts = Inr (e, rest)"
  then obtain e1 ts1 where e1: "operand ts = Inr (e1, ts1)" "run_loop (binary_round op_of operand) e1 ts1 = Inr (e, rest)"
    by (auto simp: binary_level_def and_then_Inr_iff)
  have "keeps Q (binary_round op_of operand)" unfolding keeps_def using binary_round_keeps [OF y] by blast
  from loop_keeps [OF this yieldsD [OF y e1(1)] e1(2)] show "Q e" .
qed

lemma parse_or_yields: "yields unary \<Longrightarrow> yields (parse_or unary)"
  by (simp add: parse_or_def parse_and_def parse_eq_def binary_level_yields)

lemma suffix_extends_keeps: "yields tracked \<Longrightarrow> Q b \<Longrightarrow> suffix_extends tracked b b' \<Longrightarrow> Q b'"
proof -
  assume y: "yields tracked" and b: "Q b" and ext: "suffix_extends tracked b b'"
  from ext consider "b' = b" | s where "push_path_segment b s = Inr b'"
    | ts key rest where "tracked ts = Inr (key, rest)" "parsed_index b key = Inr b'"
    unfolding suffix_extends_def by blast
  then show "Q b'"
  proof cases
    case 1
    with b show ?thesis by simp
  next
    case 2
    with segment_node [OF b] show ?thesis by blast
  next
    case 3
    with index_node [OF b yieldsD [OF y]] show ?thesis by blast
  qed
qed

lemma path_loop_keeps:
  "yields tracked \<Longrightarrow> Q b \<Longrightarrow> run_loop (path_round tracked) b ts = Inr (b', rest) \<Longrightarrow> Q b'"
proof -
  assume y: "yields tracked"
  have "keeps Q (path_round tracked)"
    unfolding keeps_def using path_round_extends suffix_extends_keeps [OF y] by blast
  then show "Q b \<Longrightarrow> run_loop (path_round tracked) b ts = Inr (b', rest) \<Longrightarrow> Q b'" by (rule loop_keeps)
qed

lemma suffix_loop_keeps:
  "yields tracked \<Longrightarrow> Q b \<Longrightarrow> run_loop (suffix_round tracked) b ts = Inr (b', rest) \<Longrightarrow> Q b'"
proof -
  assume y: "yields tracked"
  have "keeps Q (suffix_round tracked)"
    unfolding keeps_def using suffix_round_extends suffix_extends_keeps [OF y] by blast
  then show "Q b \<Longrightarrow> run_loop (suffix_round tracked) b ts = Inr (b', rest) \<Longrightarrow> Q b'" by (rule loop_keeps)
qed

lemma args_round_keeps:
  assumes "yields tracked" "QA (fst s) (snd s)" "args_round tracked s ts = Inr (go, s', ts')"
  shows "QA (fst s') (snd s')"
proof -
  obtain arg ts1 where "tracked ts = Inr (arg, ts1)" "s' = (fst s @ [pexpr arg], max (snd s) (pdepth arg))"
    using assms(3) by (auto simp: args_round_def Let_def and_then_Inr_iff split: prod.splits if_splits)
  then show ?thesis using yieldsD [OF assms(1)] more_args [OF assms(2)] by simp
qed

lemma args_loop_keeps:
  assumes "yields tracked" "run_loop (args_round tracked) ([], 0) ts = Inr ((args, d), rest)"
  shows "QA args d"
proof -
  have "keeps (\<lambda>s. QA (fst s) (snd s)) (args_round tracked)"
    unfolding keeps_def using args_round_keeps [OF assms(1)] by blast
  from loop_keeps [OF this _ assms(2)] show ?thesis using no_args by simp
qed

lemma parse_ident_or_call_yields:
  assumes y: "yields tracked" and p: "parse_ident_or_call tracked name ts = Inr (e, rest)"
  shows "Q e"
proof (cases "current (advance ts) = TLParen")
  case True
  let ?ts = "advance (advance ts)"
  obtain args d ts1 dd where a: "(if current ?ts = TRParen then Inr (([], 0), ?ts)
        else run_loop (args_round tracked) ([], 0) ?ts) = Inr ((args, d), ts1)"
    and d: "node_depth d = Inr dd"
    and b: "run_loop (suffix_round tracked) \<lparr>pexpr = Call name args, pdepth = dd\<rparr> (advance ts1) = Inr (e, rest)"
    using p True by (auto simp: parse_ident_or_call_def Let_def and_then_Inr_iff expect_Inr parse_member_suffix_def
        split: if_splits)
  have "QA args d" using a args_loop_keeps [OF y] no_args by (auto split: if_splits)
  then show ?thesis using suffix_loop_keeps [OF y call_node b] d by blast
next
  case False
  then have "run_loop (path_round tracked) (leaf (Path [name])) (advance ts) = Inr (e, rest)"
    using p by (simp add: parse_ident_or_call_def Let_def)
  then show ?thesis using path_loop_keeps [OF y leaf_path] by blast
qed

lemma parse_primary_yields: "yields tracked \<Longrightarrow> yields (parse_primary number tracked)"
proof (rule yieldsI)
  fix ts e rest
  assume y: "yields tracked" and prim: "parse_primary number tracked ts = Inr (e, rest)"
  show "Q e"
  proof (cases "current ts" rule: expr_token.exhaust)
    case (TIdent name)
    then show ?thesis using prim parse_ident_or_call_yields [OF y] by (simp add: parse_primary_def)
  next
    case TLParen
    then obtain ts2 where "tracked (advance ts) = Inr (e, ts2)"
      using prim by (auto simp: parse_primary_def and_then_Inr_iff)
    then show ?thesis using yieldsD [OF y] by blast
  qed (use prim leaf_literal in \<open>auto simp: parse_primary_def\<close>)
qed

lemma parse_yields: "yields (parse_tracked_expr number levels) \<and> yields (parse_unary number levels)"
proof (induction levels)
  case 0
  have t: "yields (parse_tracked_expr number 0)" by (simp add: yields_def parse_tracked_expr.simps)
  have "yields (parse_unary number 0)"
    by (rule yieldsI) (use yieldsD [OF parse_primary_yields [OF t]] in
        \<open>auto simp: parse_unary.simps [of number 0] split: if_splits\<close>)
  with t show ?case by simp
next
  case (Suc l)
  have t: "yields (parse_tracked_expr number (Suc l))"
    by (rule yieldsI) (use yieldsD [OF parse_or_yields] Suc in \<open>auto simp: parse_tracked_expr.simps\<close>)
  have "yields (parse_unary number (Suc l))"
  proof (rule yieldsI)
    fix ts e rest
    assume un: "parse_unary number (Suc l) ts = Inr (e, rest)"
    show "Q e"
    proof (cases "current ts = TBang")
      case True
      then obtain inner d where i: "parse_unary number l (advance ts) = Inr (inner, rest)"
        "node_depth (pdepth inner) = Inr d" "e = \<lparr>pexpr = UnaryNot (pexpr inner), pdepth = d\<rparr>"
        using un by (auto simp: parse_unary.simps [of number "Suc l"] and_then_Inr_iff)
      then show ?thesis using Suc yieldsD [of "parse_unary number l"] not_node by blast
    next
      case False
      then show ?thesis
        using un yieldsD [OF parse_primary_yields [OF t]] by (simp add: parse_unary.simps [of number "Suc l"])
    qed
  qed
  with t show ?case by simp
qed

lemma parsed_invariant: "parse_tracked_expr number levels ts = Inr (e, rest) \<Longrightarrow> Q e"
  using parse_yields yieldsD by blast

end

subsection \<open>Depth\<close>

fun expr_depth :: "expr \<Rightarrow> nat" where
  "expr_depth (Literal _) = 1"
| "expr_depth (Path _) = 1"
| "expr_depth (UnaryNot e) = Suc (expr_depth e)"
| "expr_depth (Binary _ l r) = Suc (max (expr_depth l) (expr_depth r))"
| "expr_depth (Call _ args) = Suc (fold max (map expr_depth args) 0)"
| "expr_depth (MemberAccess e _) = Suc (expr_depth e)"
| "expr_depth (Index b k) = Suc (max (expr_depth b) (expr_depth k))"

definition depth_ok :: "parsed_expr \<Rightarrow> bool" where
  "depth_ok e \<longleftrightarrow> pdepth e = expr_depth (pexpr e) \<and> pdepth e \<le> MAX_EXPRESSION_DEPTH"

lemma node_depth_Inr: "node_depth n = Inr d \<longleftrightarrow> d = Suc n \<and> d \<le> MAX_EXPRESSION_DEPTH"
  by (auto simp: node_depth_def)

interpretation depth: node_invariant depth_ok "\<lambda>args n. n = fold max (map expr_depth args) 0"
proof (unfold_locales, goal_cases)
  case (6 b s e)
  then show ?case
    by (cases "pexpr b") (auto simp: push_path_segment_def depth_ok_def and_then_Inr_iff node_depth_Inr)
qed (auto simp: depth_ok_def leaf_def MAX_EXPRESSION_DEPTH_def node_depth_Inr parsed_binary_def parsed_index_def
    and_then_Inr_iff max.commute)

lemma parse_input_depth: "parse_input number input = Inr e \<Longrightarrow> expr_depth e \<le> MAX_EXPRESSION_DEPTH"
  using depth.parsed_invariant
  by (fastforce simp: parse_input_def parse_tokens_def and_then_Inr_iff depth_ok_def)

text \<open>No parsed tree is deeper than the ceiling of 128 levels, however deep the input nests,
  so the recursion of the evaluator over it is bounded.\<close>

theorem parsed_depth_bounded:
  assumes "parse_input number input = Inr e"
  shows "expr_depth e \<le> MAX_EXPRESSION_DEPTH"
  using assms by (rule parse_input_depth)

theorem parsed_depth_bounded_witness:
  "parse_input (\<lambda>_. None) ''!github.ref'' = Inr (UnaryNot (Path [''github'', ''ref''])) \<and>
   expr_depth (UnaryNot (Path [''github'', ''ref''])) \<le> MAX_EXPRESSION_DEPTH"
proof -
  have "parse_input (\<lambda>_. None) ''!github.ref'' = Inr (UnaryNot (Path [''github'', ''ref'']))" by code_simp
  then show ?thesis using parsed_depth_bounded by blast
qed

text \<open>After a call, a malformed suffix is dropped instead of refused: \<^verbatim>\<open>success()[\<close>, \<^verbatim>\<open>success().\<close>
  and \<^verbatim>\<open>success()[1\<close> parse as the bare call, while the same suffix on a path is an error.\<close>

theorem call_suffix_swallowed:
  "parse_input number ''success()['' = Inr (Call ''success'' []) \<and>
   parse_input number ''success().'' = Inr (Call ''success'' []) \<and>
   parse_input number ''success()[1'' = Inr (Call ''success'' []) \<and>
   parse_input number ''github['' = Inl Eof"
  by code_simp

section \<open>The cache of parsed expressions\<close>

text \<open>
  \<^verbatim>\<open>ParsedExpressionCache\<close> and \<^verbatim>\<open>parse_cached\<close> (\<^verbatim>\<open>lib.rs\<close>). The lock is taken twice, once to look the
  input up and once to store it, and other threads may use the cache in between: \<open>at_lookup\<close> and
  \<open>at_store\<close> are the cache as each section finds it. The result comes with the cache the call leaves,
  if it stores.
\<close>

record parsed_expression_cache =
  cached_entries :: "(string \<times> expr) list"
  insertion_order :: "string list"

definition PARSED_EXPRESSION_CACHE_CAPACITY :: nat where "PARSED_EXPRESSION_CACHE_CAPACITY = 1024"
definition MAX_CACHEABLE_EXPRESSION_BYTES :: nat where "MAX_CACHEABLE_EXPRESSION_BYTES = 4096"

definition empty_cache :: parsed_expression_cache where
  "empty_cache = \<lparr>cached_entries = [], insertion_order = []\<rparr>"

definition evict_oldest :: "parsed_expression_cache \<Rightarrow> parsed_expression_cache" where
  "evict_oldest cache =
     (case insertion_order cache of
        oldest # order \<Rightarrow>
          if PARSED_EXPRESSION_CACHE_CAPACITY < length (insertion_order cache)
          then \<lparr>cached_entries = AList.delete oldest (cached_entries cache), insertion_order = order\<rparr>
          else cache
      | [] \<Rightarrow> cache)"

definition cache_store :: "string \<Rightarrow> expr \<Rightarrow> parsed_expression_cache \<Rightarrow> expr \<times> parsed_expression_cache" where
  "cache_store input e cache =
     (case map_of (cached_entries cache) input of
        Some existing \<Rightarrow> (existing, cache)
      | None \<Rightarrow>
          (e, evict_oldest \<lparr>cached_entries = AList.update input e (cached_entries cache),
                            insertion_order = insertion_order cache @ [input]\<rparr>))"

definition parse_cached ::
  "(string \<Rightarrow> jnum option) \<Rightarrow> string \<Rightarrow> parsed_expression_cache \<Rightarrow> parsed_expression_cache \<Rightarrow>
   (expression_error + expr) \<times> parsed_expression_cache option" where
  "parse_cached number input at_lookup at_store =
     (if MAX_CACHEABLE_EXPRESSION_BYTES < length input then (parse_input number input, None)
      else case map_of (cached_entries at_lookup) input of
        Some e \<Rightarrow> (Inr e, None)
      | None \<Rightarrow>
          (case parse_input number input of
             Inl err \<Rightarrow> (Inl err, None)
           | Inr e \<Rightarrow> (let (e, cache) = cache_store input e at_store in (Inr e, Some cache))))"

text \<open>The cache is sound: it has what parsing gives, each input once, in as many entries as the
  queue of insertions has, within the capacity.\<close>

definition cache_sound :: "(string \<Rightarrow> jnum option) \<Rightarrow> parsed_expression_cache \<Rightarrow> bool" where
  "cache_sound number cache \<longleftrightarrow>
     list_all (\<lambda>(input, e). parse_input number input = Inr e) (cached_entries cache) \<and>
     distinct (map fst (cached_entries cache)) \<and> distinct (insertion_order cache) \<and>
     set (insertion_order cache) = set (map fst (cached_entries cache))"

definition cache_ok :: "(string \<Rightarrow> jnum option) \<Rightarrow> parsed_expression_cache \<Rightarrow> bool" where
  "cache_ok number cache \<longleftrightarrow>
     cache_sound number cache \<and> length (insertion_order cache) \<le> PARSED_EXPRESSION_CACHE_CAPACITY"

lemma cache_sound_delete:
  assumes "cache_sound number \<lparr>cached_entries = es, insertion_order = k # ks\<rparr>"
  shows "cache_sound number \<lparr>cached_entries = AList.delete k es, insertion_order = ks\<rparr>"
proof -
  have "set (AList.delete k es) \<subseteq> set es" by (auto simp: AList.delete_eq)
  then have "list_all (\<lambda>(input, e). parse_input number input = Inr e) (AList.delete k es)"
    using assms unfolding cache_sound_def list_all_iff by auto
  moreover have "set ks = set (map fst es) - {k}" using assms by (auto simp: cache_sound_def)
  ultimately show ?thesis
    using assms by (simp add: cache_sound_def AList.delete_keys distinct_removeAll del: set_map list.map)
qed

lemma cache_ok_empty: "cache_ok number empty_cache"
  by (simp add: cache_ok_def cache_sound_def empty_cache_def)

lemma cache_ok_lookup: "cache_ok number cache \<Longrightarrow> map_of (cached_entries cache) input = Some e \<Longrightarrow> parse_input number input = Inr e"
  by (auto simp: cache_ok_def cache_sound_def list_all_iff dest!: map_of_SomeD)

lemma cache_ok_store:
  assumes "cache_ok number cache" "parse_input number input = Inr e"
  shows "fst (cache_store input e cache) = e \<and> cache_ok number (snd (cache_store input e cache))"
proof (cases "map_of (cached_entries cache) input")
  case (Some e')
  with assms cache_ok_lookup [OF assms(1) Some] show ?thesis by (simp add: cache_store_def)
next
  case None
  let ?added = "\<lparr>cached_entries = AList.update input e (cached_entries cache), insertion_order = insertion_order cache @ [input]\<rparr>"
  have fresh: "input \<notin> fst ` set (cached_entries cache)" using None by (simp add: map_of_eq_None_iff)
  then have up: "AList.update input e (cached_entries cache) = cached_entries cache @ [(input, e)]"
    by (rule im_insert_fresh)
  obtain k ks where order: "insertion_order cache @ [input] = k # ks" by (cases "insertion_order cache") auto
  then have len: "length ks = length (insertion_order cache)"
    by (metis length_append_singleton length_Cons nat.inject)
  have "cache_sound number ?added"
    using assms fresh by (auto simp: cache_ok_def cache_sound_def up)
  then have "cache_ok number (evict_oldest ?added)"
    using assms(1) len by (auto simp: cache_ok_def evict_oldest_def order dest: cache_sound_delete)
  with None show ?thesis by (simp add: cache_store_def)
qed

text \<open>C36. The cache of parsed expressions is transparent: whatever other threads did between the
  lookup and the store, the result is what parsing the input gives, and the cache stays sound and
  within its capacity.\<close>

theorem parse_cached_transparent:
  assumes "cache_ok number at_lookup" "cache_ok number at_store"
  shows "fst (parse_cached number input at_lookup at_store) = parse_input number input \<and>
    (case snd (parse_cached number input at_lookup at_store) of None \<Rightarrow> True | Some cache \<Rightarrow> cache_ok number cache)"
  using assms cache_ok_store [OF assms(2)] cache_ok_lookup [OF assms(1)]
  by (auto simp: parse_cached_def case_prod_beta split: option.splits sum.splits)

theorem parse_cached_transparent_witness:
  "fst (parse_cached (\<lambda>_. None) ''github.ref'' empty_cache empty_cache) = parse_input (\<lambda>_. None) ''github.ref''"
  using parse_cached_transparent [OF cache_ok_empty cache_ok_empty] by blast

end
