(* ===== verification/Expr_Enclosed.thy ===== *)
theory Expr_Enclosed
  imports Expr_Syntax
begin

text \<open>
  What the parser does with an expression that is put in parentheses. The tokens of an input end with
  \<open>TEnd\<close>; inside parentheses \<open>TRParen\<close> and more tokens stand in its place, and the parser has one level
  less. Where it succeeds on the input by itself it reads the same tree inside the parentheses and
  stops at the closing one, or it runs out of levels. Each loop and each operation of the parser is
  compared with itself on the two inputs.
\<close>

section \<open>An input by itself and in parentheses\<close>

definition ends :: "expr_token list \<Rightarrow> bool" where
  "ends ts \<longleftrightarrow> (\<exists>us. ts = us @ [TEnd] \<and> TEnd \<notin> set us)"

definition enclosed :: "expr_token list \<Rightarrow> expr_token list \<Rightarrow> expr_token list" where
  "enclosed R ts = butlast ts @ TRParen # R"

fun starts :: "expr_token \<Rightarrow> bool" where
  "starts (TIdent _) = True" | "starts (TString _) = True" | "starts (TNumber _) = True"
| "starts (TBool _) = True" | "starts TNull = True" | "starts TLParen = True" | "starts TBang = True"
| "starts _ = False"

lemma ends_cases:
  assumes "ends ts"
  obtains "ts = [TEnd]" | t us where "ts = t # us" "t \<noteq> TEnd" "ends us"
proof -
  obtain us where us: "ts = us @ [TEnd]" "TEnd \<notin> set us" using assms by (auto simp: ends_def)
  then show thesis using that by (cases us) (auto simp: ends_def)
qed

lemma ends_not_Nil: "ends ts \<Longrightarrow> ts \<noteq> []"
  by (auto simp: ends_def)

lemma ends_End [simp]: "ends [TEnd]"
  by (simp add: ends_def)

lemma ends_Cons: "ends us \<Longrightarrow> t \<noteq> TEnd \<Longrightarrow> ends (t # us)"
  by (auto simp: ends_def intro: exI [of _ "t # _"])

lemma enclosed_End [simp]: "enclosed R [TEnd] = TRParen # R"
  by (simp add: enclosed_def)

lemma enclosed_Cons: "ends us \<Longrightarrow> enclosed R (t # us) = t # enclosed R us"
  by (simp add: enclosed_def ends_not_Nil)

lemma ends_advance: "ends ts \<Longrightarrow> current ts \<noteq> TEnd \<Longrightarrow> ends (advance ts)"
  by (erule ends_cases) auto

lemma enclosed_advance: "ends ts \<Longrightarrow> current ts \<noteq> TEnd \<Longrightarrow> advance (enclosed R ts) = enclosed R (advance ts)"
  by (erule ends_cases) (auto simp: enclosed_Cons)

lemma enclosed_current: "ends ts \<Longrightarrow> current (enclosed R ts) = (if current ts = TEnd then TRParen else current ts)"
  by (erule ends_cases) (auto simp: enclosed_Cons)

lemma ends_current_End: "ends ts \<Longrightarrow> current ts = TEnd \<longleftrightarrow> ts = [TEnd]"
  by (erule ends_cases) auto

text \<open>The result on the input and the result on the enclosed one. Where the first leaves a token that
  starts an expression nothing is said: no caller goes on from there.\<close>

definition too_deep :: "expression_error + 'a \<Rightarrow> bool" where
  "too_deep r \<longleftrightarrow> (\<exists>d. r = Inl (TooDeep d))"

lemma too_deep_simps [simp]: "too_deep (Inl (TooDeep d))" "\<not> too_deep (Inr v)" "too_deep r \<Longrightarrow> too_deep (and_then r f)"
  by (auto simp: too_deep_def)

definition same_or_deep :: "expr_token list \<Rightarrow> 'a pres \<Rightarrow> 'a pres \<Rightarrow> bool" where
  "same_or_deep R x y \<longleftrightarrow>
     (\<forall>v rest. x = Inr (v, rest) \<longrightarrow> ends rest \<and> (starts (current rest) \<or> too_deep y \<or> y = Inr (v, enclosed R rest)))"

definition paired :: "expr_token list \<Rightarrow> (expr_token list \<Rightarrow> 'a pres) \<Rightarrow> (expr_token list \<Rightarrow> 'a pres) \<Rightarrow> bool" where
  "paired R p p' \<longleftrightarrow> (\<forall>ts. ends ts \<longrightarrow> same_or_deep R (p ts) (p' (enclosed R ts)))"

lemma same_or_deepD:
  assumes "same_or_deep R x y" "x = Inr (v, rest)"
  obtains "ends rest" "starts (current rest)" | "ends rest" "\<not> starts (current rest)" "too_deep y"
  | "ends rest" "\<not> starts (current rest)" "y = Inr (v, enclosed R rest)"
  using assms unfolding same_or_deep_def by blast

lemmas pairedD = paired_def [THEN iffD1, rule_format]

definition round_paired :: "expr_token list \<Rightarrow> 's loop_round \<Rightarrow> 's loop_round \<Rightarrow> bool" where
  "round_paired R r r' \<longleftrightarrow> (\<forall>s ts go s' rest. ends ts \<longrightarrow> r s ts = Inr (go, s', rest) \<longrightarrow> ends rest \<and>
     ((starts (current rest) \<and> (go \<longrightarrow> r s' rest = Inr (False, s', rest))) \<or> too_deep (r' s (enclosed R ts)) \<or>
      r' s (enclosed R ts) = Inr (go, s', enclosed R rest)))"

lemma loop_paired:
  assumes ok: "round_ok r" "round_ok r'" and pair: "round_paired R r r'" and "ends ts"
  shows "same_or_deep R (run_loop r s ts) (run_loop r' s (enclosed R ts))"
  using assms(4)
proof (induction "length ts" arbitrary: s ts rule: less_induct)
  case less
  note u = run_loop_unfold [OF ok(1)] and u' = run_loop_unfold [OF ok(2)]
  show ?case
  proof (cases "r s ts")
    case Inl
    then show ?thesis by (simp add: u [of s ts] same_or_deep_def)
  next
    case (Inr q)
    obtain go s1 rest where q: "q = (go, s1, rest)" by (cases q)
    have rest: "ends rest" using pair less.prems Inr [unfolded q] unfolding round_paired_def by blast
    consider (stuck) "starts (current rest)" "go \<longrightarrow> r s1 rest = Inr (False, s1, rest)"
      | (deep) "too_deep (r' s (enclosed R ts))" | (same) "r' s (enclosed R ts) = Inr (go, s1, enclosed R rest)"
      using pair less.prems Inr [unfolded q] unfolding round_paired_def by blast
    then show ?thesis
    proof cases
      case stuck
      then have "run_loop r s ts = Inr (s1, rest)" using Inr q by (simp add: u [of s ts] u [of s1 rest])
      then show ?thesis using stuck rest by (simp add: same_or_deep_def)
    next
      case deep
      then have "too_deep (run_loop r' s (enclosed R ts))" by (simp add: u' [of s])
      moreover have "ends rest'" if "run_loop r s ts = Inr (v, rest')" for v rest'
        using that Inr q less.hyps [of rest s1] round_okD [OF ok(1) Inr [unfolded q]] rest
        by (auto simp: u [of s ts] same_or_deep_def split: if_splits)
      ultimately show ?thesis by (simp add: same_or_deep_def)
    next
      case same
      then show ?thesis
        using Inr q rest less.hyps [of rest s1] round_okD [OF ok(1) Inr [unfolded q]]
        by (cases go) (simp_all add: u [of s ts] u' [of s] same_or_deep_def)
    qed
  qed
qed

section \<open>The operations of the parser\<close>

definition infix_op :: "(expr_token \<Rightarrow> binary_op option) \<Rightarrow> bool" where
  "infix_op op_of \<longleftrightarrow> op_of TEnd = None \<and> op_of TRParen = None \<and> (\<forall>t. starts t \<longrightarrow> op_of t = None)"

lemma infix_ops: "infix_op eq_op" "infix_op and_op" "infix_op or_op"
  unfolding infix_op_def by (auto elim: starts.elims)

lemma binary_round_paired:
  assumes op: "infix_op op_of" and pair: "paired R p p'"
  shows "round_paired R (binary_round op_of p) (binary_round op_of p')"
  unfolding round_paired_def
proof (intro allI impI)
  fix s ts go s' rest
  assume ends: "ends ts" and r: "binary_round op_of p s ts = Inr (go, s', rest)"
  show "ends rest \<and> ((starts (current rest) \<and> (go \<longrightarrow> binary_round op_of p s' rest = Inr (False, s', rest))) \<or>
    too_deep (binary_round op_of p' s (enclosed R ts)) \<or>
    binary_round op_of p' s (enclosed R ts) = Inr (go, s', enclosed R rest))"
  proof (cases "op_of (current ts)")
    case None
    then have "op_of (current (enclosed R ts)) = None" using op by (simp add: enclosed_current [OF ends] infix_op_def)
    with None r ends show ?thesis by (simp add: binary_round_def)
  next
    case (Some o1)
    then have cur: "current ts \<noteq> TEnd" using op by (auto simp: infix_op_def)
    have cur': "op_of (current (enclosed R ts)) = Some o1" using Some cur by (simp add: enclosed_current [OF ends])
    obtain right where right: "p (advance ts) = Inr (right, rest)" "parsed_binary o1 s right = Inr s'" "go"
      using r Some by (auto simp: binary_round_def and_then_Inr_iff)
    have pr: "same_or_deep R (p (advance ts)) (p' (advance (enclosed R ts)))"
      using pairedD [OF pair ends_advance [OF ends cur]] by (simp add: enclosed_advance [OF ends cur])
    from same_or_deepD [OF pr right(1)] show ?thesis
    proof cases
      case 1
      then show ?thesis using op by (simp add: binary_round_def infix_op_def)
    next
      case 2
      then show ?thesis using cur' by (simp add: binary_round_def)
    next
      case 3
      then show ?thesis using cur' right by (simp add: binary_round_def)
    qed
  qed
qed

lemma binary_level_paired:
  assumes op: "infix_op op_of" and pair: "paired R p p'" and sh: "shortens p" "shortens p'"
  shows "paired R (binary_level op_of p) (binary_level op_of p')"
  unfolding paired_def
proof (intro allI impI)
  fix ts
  assume ends: "ends ts"
  note ok = binary_round_ok [OF sh(1), of op_of] binary_round_ok [OF sh(2), of op_of]
  show "same_or_deep R (binary_level op_of p ts) (binary_level op_of p' (enclosed R ts))"
  proof (cases "p ts")
    case Inl
    then show ?thesis by (simp add: binary_level_def same_or_deep_def)
  next
    case (Inr q)
    obtain e rest where q: "p ts = Inr (e, rest)" using Inr by (cases q) simp
    have loop: "same_or_deep R (run_loop (binary_round op_of p) e rest) (run_loop (binary_round op_of p') e (enclosed R rest))"
      if "ends rest"
      by (rule loop_paired [OF ok binary_round_paired [OF op pair] that])
    have stop: "run_loop (binary_round op_of p) e rest = Inr (e, rest)" if "starts (current rest)"
      using op that by (simp add: run_loop_unfold [OF ok(1), of e rest] binary_round_def infix_op_def)
    from same_or_deepD [OF pairedD [OF pair ends] q] show ?thesis
    proof cases
      case 1
      then show ?thesis using q stop by (simp add: binary_level_def same_or_deep_def)
    next
      case 2
      then show ?thesis using q loop by (simp add: binary_level_def same_or_deep_def)
    next
      case 3
      then show ?thesis using q loop by (simp add: binary_level_def)
    qed
  qed
qed

lemma parse_or_paired:
  assumes "paired R p p'" "shortens p" "shortens p'"
  shows "paired R (parse_or p) (parse_or p')"
  unfolding parse_or_def parse_and_def parse_eq_def using assms by (simp add: binary_level_paired infix_ops binary_level_shortens)

text \<open>A parser refuses what starts no expression; so it does at every level.\<close>

definition rejects :: "(expr_token list \<Rightarrow> 'a pres) \<Rightarrow> bool" where
  "rejects p \<longleftrightarrow> (\<forall>ts. \<not> starts (current ts) \<longrightarrow> (\<exists>e. p ts = Inl e))"

lemma binary_level_rejects: "rejects p \<Longrightarrow> rejects (binary_level op_of p)"
  unfolding rejects_def by (metis and_then_simps(1) binary_level_def)

lemma parse_or_rejects: "rejects p \<Longrightarrow> rejects (parse_or p)"
  by (simp add: parse_or_def parse_and_def parse_eq_def binary_level_rejects)

lemma parse_primary_rejects: "rejects (parse_primary number tracked)"
  unfolding rejects_def parse_primary_def by (auto split: expr_token.splits)

lemma parse_unary_rejects: "rejects (parse_unary number levels)"
  using parse_primary_rejects unfolding rejects_def by (subst parse_unary.simps) fastforce

lemma parse_tracked_rejects: "rejects (parse_tracked_expr number levels)"
  using parse_or_rejects [OF parse_unary_rejects] unfolding rejects_def
  by (subst parse_tracked_expr.simps) (auto split: nat.splits)

lemma bracket_key_rejects: "rejects tracked \<Longrightarrow> \<not> starts (current ts) \<Longrightarrow> \<exists>e. bracket_key tracked ts = Inl e"
  unfolding rejects_def bracket_key_def by fastforce

lemma bracket_literal_enclosed:
  assumes "ends ts"
  shows "bracket_literal (enclosed R ts) = bracket_literal ts"
  using assms
proof (cases rule: ends_cases)
  case 1
  then show ?thesis by (simp add: bracket_literal_def)
next
  case (2 t us)
  then show ?thesis using enclosed_current [OF 2(3), of R]
    by (auto simp: bracket_literal_def enclosed_Cons split: expr_token.splits)
qed

lemma bracket_key_paired:
  assumes pair: "paired R p p'" and "ends ts" and key: "bracket_key p ts = Inr (k, rest)"
  shows "ends rest \<and> (too_deep (bracket_key p' (enclosed R ts)) \<or> bracket_key p' (enclosed R ts) = Inr (k, enclosed R rest))"
proof -
  obtain ts1 where k: "p ts = Inr (k, ts1)" "current ts1 = TRBracket" "rest = advance ts1"
    using key by (auto simp: bracket_key_def and_then_Inr_iff expect_Inr)
  from same_or_deepD [OF pairedD [OF pair assms(2)] k(1)] show ?thesis
  proof cases
    case 1
    then show ?thesis using k by simp
  next
    case 2
    then show ?thesis using k ends_advance [of ts1] by (simp add: bracket_key_def)
  next
    case 3
    then show ?thesis using k ends_advance [of ts1]
      by (simp add: bracket_key_def expect_def enclosed_current enclosed_advance)
  qed
qed

lemma push_and_go_paired:
  "ends ts \<Longrightarrow> push_and_go b seg ts = Inr (go, b', rest) \<Longrightarrow> ends rest \<and> push_and_go b seg (enclosed R ts) = Inr (go, b', enclosed R rest)"
  by (auto simp: push_and_go_def and_then_Inr_iff)

lemma path_round_paired:
  assumes pair: "paired R p p'"
  shows "round_paired R (path_round p) (path_round p')"
  unfolding round_paired_def
proof (intro allI impI)
  fix s ts go s' rest
  assume ends: "ends ts" and r: "path_round p s ts = Inr (go, s', rest)"
  let ?goal = "ends rest \<and> ((starts (current rest) \<and> (go \<longrightarrow> path_round p s' rest = Inr (False, s', rest))) \<or>
    too_deep (path_round p' s (enclosed R ts)) \<or> path_round p' s (enclosed R ts) = Inr (go, s', enclosed R rest))"
  consider (dot) "current ts = TDot" | (bracket) "current ts = TLBracket"
    | (other) "current ts \<noteq> TDot" "current ts \<noteq> TLBracket" by blast
  then show ?goal
  proof cases
    case dot
    let ?a = "advance ts"
    have a: "ends ?a" "advance (enclosed R ts) = enclosed R ?a" "current (enclosed R ts) = TDot"
      using dot ends ends_advance enclosed_advance enclosed_current by auto
    obtain seg where seg: "current ?a = TIdent seg \<or> current ?a = TStar \<and> seg = ''*''" "push_and_go s seg (advance ?a) = Inr (go, s', rest)"
      using r dot by (auto simp: path_round_def Let_def split: expr_token.splits)
    have c: "current ?a \<noteq> TEnd" using seg(1) by auto
    from push_and_go_paired [OF ends_advance [OF a(1) c] seg(2)] seg(1) show ?thesis
      by (auto simp: path_round_def Let_def a enclosed_current [OF a(1)] enclosed_advance [OF a(1) c])
  next
    case bracket
    let ?a = "advance ts"
    have a: "ends ?a" "advance (enclosed R ts) = enclosed R ?a" "current (enclosed R ts) = TLBracket"
      using bracket ends ends_advance enclosed_advance enclosed_current by auto
    show ?thesis
    proof (cases "bracket_literal ?a")
      case (Some seg)
      then have c: "current ?a \<noteq> TEnd" by (auto simp: bracket_literal_def)
      have e: "current (advance ?a) = TRBracket" "push_and_go s seg (advance (advance ?a)) = Inr (go, s', rest)"
        using r bracket Some by (auto simp: path_round_def Let_def and_then_Inr_iff expect_Inr)
      have ea: "ends (advance ?a)" by (rule ends_advance [OF a(1) c])
      have c2: "current (advance ?a) \<noteq> TEnd" using e(1) by simp
      from push_and_go_paired [OF ends_advance [OF ea c2] e(2)] show ?thesis
        by (auto simp: path_round_def Let_def a bracket_literal_enclosed [OF a(1)] Some expect_def enclosed_advance [OF a(1) c]
            enclosed_current [OF ea] e(1) enclosed_advance [OF ea c2])
    next
      case None
      then obtain key where key: "bracket_key p ?a = Inr (key, rest)" "parsed_index s key = Inr s'" "go"
        using r bracket by (auto simp: path_round_def Let_def and_then_Inr_iff)
      from bracket_key_paired [OF pair a(1) key(1)] key(2,3) show ?thesis
        by (auto simp: path_round_def Let_def a bracket_literal_enclosed [OF a(1)] None)
    qed
  next
    case other
    then show ?thesis using r ends enclosed_current [OF ends, of R]
      by (auto simp: path_round_def Let_def split: expr_token.splits)
  qed
qed

lemma suffix_bracket_paired:
  assumes pair: "paired R p p'" and rej: "rejects p'" and ends: "ends ts" and cur: "current ts = TLBracket"
    and r: "suffix_round p s ts = Inr (go, s', rest)"
  shows "ends rest \<and> ((starts (current rest) \<and> \<not> go) \<or> too_deep (suffix_round p' s (enclosed R ts)) \<or>
    suffix_round p' s (enclosed R ts) = Inr (go, s', enclosed R rest))"
proof -
  let ?a = "advance ts"
  have a: "ends ?a" "advance (enclosed R ts) = enclosed R ?a" "current (enclosed R ts) = TLBracket"
    using cur ends ends_advance enclosed_advance enclosed_current by auto
  show ?thesis
  proof (cases "bracket_literal ?a")
    case (Some seg)
    then have c: "current ?a \<noteq> TEnd" by (auto simp: bracket_literal_def)
    have ea: "ends (advance ?a)" by (rule ends_advance [OF a(1) c])
    show ?thesis
    proof (cases "current (advance ?a) = TRBracket")
      case True
      then have c2: "current (advance ?a) \<noteq> TEnd" by simp
      have "push_and_go s seg (advance (advance ?a)) = Inr (go, s', rest)"
        using r cur Some True by (auto simp: suffix_round_def Let_def expect_def)
      from push_and_go_paired [OF ends_advance [OF ea c2] this] show ?thesis
        by (auto simp: suffix_round_def Let_def a bracket_literal_enclosed [OF a(1)] Some expect_def enclosed_advance [OF a(1) c]
            enclosed_current [OF ea] True enclosed_advance [OF ea c2])
    next
      case False
      then show ?thesis using r cur Some ea
        by (auto simp: suffix_round_def Let_def a bracket_literal_enclosed [OF a(1)] expect_def enclosed_advance [OF a(1) c]
            enclosed_current [OF ea] split: if_splits)
    qed
  next
    case None
    show ?thesis
    proof (cases "bracket_key p ?a")
      case (Inr q)
      then obtain key ts1 where key: "bracket_key p ?a = Inr (key, ts1)" by (cases q) simp
      have i: "parsed_index s key = Inr s'" "go" "ts1 = rest"
        using r cur None key by (auto simp: suffix_round_def Let_def and_then_Inr_iff)
      have "too_deep (bracket_key p' (enclosed R ?a)) \<Longrightarrow> too_deep (suffix_round p' s (enclosed R ts))"
        by (auto simp: too_deep_def suffix_round_def Let_def a bracket_literal_enclosed [OF a(1)] None)
      then show ?thesis using bracket_key_paired [OF pair a(1) key] i
        by (auto simp: suffix_round_def Let_def a bracket_literal_enclosed [OF a(1)] None)
    next
      case (Inl e)
      then have stop: "\<not> go" "s' = s" "rest = ?a"
        using r cur None by (auto simp: suffix_round_def Let_def split: expression_error.splits)
      show ?thesis
      proof (cases "starts (current ?a)")
        case False
        then have "\<not> starts (current (enclosed R ?a))" by (simp add: enclosed_current [OF a(1)])
        from bracket_key_rejects [OF rej this] obtain e' where e': "bracket_key p' (enclosed R ?a) = Inl e'" by blast
        show ?thesis using stop a(1)
          by (cases e') (auto simp: suffix_round_def Let_def a bracket_literal_enclosed [OF a(1)] None e')
      qed (use stop a in simp)
    qed
  qed
qed

lemma suffix_round_paired:
  assumes pair: "paired R p p'" and rej: "rejects p'"
  shows "round_paired R (suffix_round p) (suffix_round p')"
  unfolding round_paired_def
proof (intro allI impI)
  fix s ts go s' rest
  assume ends: "ends ts" and r: "suffix_round p s ts = Inr (go, s', rest)"
  let ?goal = "ends rest \<and> ((starts (current rest) \<and> (go \<longrightarrow> suffix_round p s' rest = Inr (False, s', rest))) \<or>
    too_deep (suffix_round p' s (enclosed R ts)) \<or> suffix_round p' s (enclosed R ts) = Inr (go, s', enclosed R rest))"
  consider (dot) "current ts = TDot" | (bracket) "current ts = TLBracket"
    | (other) "current ts \<noteq> TDot" "current ts \<noteq> TLBracket" by blast
  then show ?goal
  proof cases
    case dot
    let ?a = "advance ts"
    have a: "ends ?a" "advance (enclosed R ts) = enclosed R ?a" "current (enclosed R ts) = TDot"
      using dot ends ends_advance enclosed_advance enclosed_current by auto
    show ?thesis
    proof (cases "\<exists>seg. current ?a = TIdent seg \<or> current ?a = TStar \<and> seg = ''*''")
      case True
      then obtain seg where seg: "current ?a = TIdent seg \<or> current ?a = TStar \<and> seg = ''*''" by blast
      then have push: "push_and_go s seg (advance ?a) = Inr (go, s', rest)"
        using r dot by (auto simp: suffix_round_def Let_def)
      have c: "current ?a \<noteq> TEnd" using seg by auto
      from push_and_go_paired [OF ends_advance [OF a(1) c] push] seg show ?thesis
        by (auto simp: suffix_round_def Let_def a enclosed_current [OF a(1)] enclosed_advance [OF a(1) c])
    next
      case False
      then have "\<not> go" "s' = s" "rest = ?a"
        using r dot by (auto simp: suffix_round_def Let_def split: expr_token.splits)
      then show ?thesis using False a enclosed_current [OF a(1), of R] dot
        by (auto simp: suffix_round_def Let_def split: expr_token.splits if_splits)
    qed
  next
    case bracket
    then show ?thesis using suffix_bracket_paired [OF pair rej ends bracket r] by blast
  next
    case other
    then show ?thesis using r ends enclosed_current [OF ends, of R]
      by (auto simp: suffix_round_def Let_def split: expr_token.splits)
  qed
qed

lemma args_round_paired:
  assumes pair: "paired R p p'"
  shows "round_paired R (args_round p) (args_round p')"
  unfolding round_paired_def
proof (intro allI impI)
  fix s ts go s' rest
  assume ends: "ends ts" and r: "args_round p s ts = Inr (go, s', rest)"
  obtain arg ts1 where arg: "p ts = Inr (arg, ts1)" "s' = (fst s @ [pexpr arg], max (snd s) (pdepth arg))"
    "go = (current ts1 = TComma)" "rest = (if current ts1 = TComma then advance ts1 else ts1)"
    using r by (auto simp: args_round_def Let_def and_then_Inr_iff split: prod.splits if_splits)
  show "ends rest \<and> ((starts (current rest) \<and> (go \<longrightarrow> args_round p s' rest = Inr (False, s', rest))) \<or>
    too_deep (args_round p' s (enclosed R ts)) \<or> args_round p' s (enclosed R ts) = Inr (go, s', enclosed R rest))"
    using pairedD [OF pair ends] arg(1)
  proof (cases rule: same_or_deepD)
    case 1
    then show ?thesis using arg by auto
  next
    case 2
    then show ?thesis using arg ends_advance [of ts1] by (auto simp: args_round_def case_prod_beta)
  next
    case 3
    then show ?thesis using arg ends_advance [of ts1]
      by (auto simp: args_round_def case_prod_beta Let_def enclosed_current enclosed_advance)
  qed
qed

lemma call_args_paired:
  assumes pair: "paired R p p'" and sh: "shortens p" "shortens p'" and rej: "rejects p" and ends: "ends ts"
    and args: "(if current ts = TRParen then Inr (([], 0), ts) else run_loop (args_round p) ([], 0) ts) = Inr (as, rest)"
    and close: "current rest = TRParen"
  shows "ends rest \<and> (let y = (if current (enclosed R ts) = TRParen then Inr (([], 0), enclosed R ts)
      else run_loop (args_round p') ([], 0) (enclosed R ts)) in too_deep y \<or> y = Inr (as, enclosed R rest))"
proof (cases "current ts = TRParen")
  case True
  then have "current (enclosed R ts) = TRParen" by (simp add: enclosed_current [OF ends])
  then show ?thesis using args ends True by simp
next
  case False
  note ok = args_round_ok [OF sh(1)] args_round_ok [OF sh(2)]
  have loop: "run_loop (args_round p) ([], 0) ts = Inr (as, rest)" using args False by simp
  have "current ts \<noteq> TEnd"
  proof
    assume "current ts = TEnd"
    then have "\<not> starts (current ts)" by simp
    then obtain e where "p ts = Inl e" using rej unfolding rejects_def by blast
    then have "args_round p ([], 0) ts = Inl e" by (simp add: args_round_def)
    then show False using loop by (simp add: run_loop_unfold [OF ok(1), of "([], 0)" ts])
  qed
  then have cur: "current (enclosed R ts) \<noteq> TRParen" using False by (simp add: enclosed_current [OF ends])
  from same_or_deepD [OF loop_paired [OF ok args_round_paired [OF pair] ends] loop] show ?thesis
    by cases (use cur close in auto)
qed

lemma parse_ident_or_call_paired:
  assumes pair: "paired R p p'" and sh: "shortens p" "shortens p'" and rej: "rejects p" "rejects p'"
    and ends: "ends ts" "current ts \<noteq> TEnd"
  shows "same_or_deep R (parse_ident_or_call p name ts) (parse_ident_or_call p' name (enclosed R ts))"
proof -
  let ?a = "advance ts"
  have a: "ends ?a" "advance (enclosed R ts) = enclosed R ?a" by (rule ends_advance [OF ends], rule enclosed_advance [OF ends])
  show ?thesis
  proof (cases "current ?a = TLParen")
    case False
    then have "current (enclosed R ?a) \<noteq> TLParen" by (simp add: enclosed_current [OF a(1)])
    then show ?thesis using False loop_paired [OF path_round_ok [OF sh(1)] path_round_ok [OF sh(2)] path_round_paired [OF pair] a(1)]
      by (simp add: parse_ident_or_call_def Let_def a)
  next
    case True
    let ?b = "advance ?a"
    have b: "ends ?b" "advance (enclosed R ?a) = enclosed R ?b" "current (enclosed R ?a) = TLParen"
      using True a(1) ends_advance enclosed_advance enclosed_current by auto
    show ?thesis unfolding same_or_deep_def
    proof (intro allI impI)
      fix v rest
      assume p: "parse_ident_or_call p name ts = Inr (v, rest)"
      obtain args d ts1 dd where args: "(if current ?b = TRParen then Inr (([], 0), ?b)
            else run_loop (args_round p) ([], 0) ?b) = Inr ((args, d), ts1)" and close: "current ts1 = TRParen"
        and d: "node_depth d = Inr dd" and rest: "parse_member_suffix p \<lparr>pexpr = Call name args, pdepth = dd\<rparr> (advance ts1) = Inr (v, rest)"
        using p True by (auto simp: parse_ident_or_call_def Let_def and_then_Inr_iff expect_Inr split: if_splits)
      let ?y = "if current (enclosed R ?b) = TRParen then Inr (([], 0), enclosed R ?b)
            else run_loop (args_round p') ([], 0) (enclosed R ?b)"
      have y: "ends ts1" "too_deep ?y \<or> ?y = Inr ((args, d), enclosed R ts1)"
        using call_args_paired [OF pair sh rej(1) b(1) args close] by (simp_all add: Let_def)
      have c: "current ts1 \<noteq> TEnd" using close by simp
      have loop: "same_or_deep R (parse_member_suffix p base (advance ts1)) (parse_member_suffix p' base (enclosed R (advance ts1)))" for base
        unfolding parse_member_suffix_def
        by (rule loop_paired [OF suffix_round_ok [OF sh(1)] suffix_round_ok [OF sh(2)] suffix_round_paired [OF pair rej(2)]
              ends_advance [OF y(1) c]])
      have call: "parse_ident_or_call p' name (enclosed R ts) = and_then ?y (\<lambda>((args, d), ts). and_then (expect TRParen ts) (\<lambda>ts.
          and_then (node_depth d) (\<lambda>d. parse_member_suffix p' \<lparr>pexpr = Call name args, pdepth = d\<rparr> ts)))"
        by (simp add: parse_ident_or_call_def Let_def a b)
      show "ends rest \<and> (starts (current rest) \<or> too_deep (parse_ident_or_call p' name (enclosed R ts)) \<or>
          parse_ident_or_call p' name (enclosed R ts) = Inr (v, enclosed R rest))"
        using y(2)
      proof
        assume "too_deep ?y"
        then have "too_deep (parse_ident_or_call p' name (enclosed R ts))" unfolding call by (rule too_deep_simps(3))
        then show ?thesis using loop rest unfolding same_or_deep_def by blast
      next
        assume "?y = Inr ((args, d), enclosed R ts1)"
        then have "parse_ident_or_call p' name (enclosed R ts) = parse_member_suffix p' \<lparr>pexpr = Call name args, pdepth = dd\<rparr> (enclosed R (advance ts1))"
          unfolding call using y(1) close d by (simp add: expect_def enclosed_current enclosed_advance)
        then show ?thesis using loop rest unfolding same_or_deep_def by simp
      qed
    qed
  qed
qed

lemma parse_primary_paired:
  assumes pair: "paired R p p'" and sh: "shortens p" "shortens p'" and rej: "rejects p" "rejects p'"
  shows "paired R (parse_primary number p) (parse_primary number p')"
  unfolding paired_def
proof (intro allI impI)
  fix ts
  assume ends: "ends ts"
  show "same_or_deep R (parse_primary number p ts) (parse_primary number p' (enclosed R ts))"
  proof (cases "current ts = TEnd")
    case True
    then show ?thesis by (simp add: parse_primary_def same_or_deep_def)
  next
    case False
    have e: "current (enclosed R ts) = current ts" "ends (advance ts)" "advance (enclosed R ts) = enclosed R (advance ts)"
      using False ends ends_advance enclosed_advance enclosed_current by auto
    show ?thesis
    proof (cases "current ts" rule: expr_token.exhaust)
      case (TIdent name)
      then show ?thesis using parse_ident_or_call_paired [OF pair sh rej ends False] by (simp add: parse_primary_def e)
    next
      case TLParen
      show ?thesis unfolding same_or_deep_def
      proof (intro allI impI)
        fix v rest
        assume p: "parse_primary number p ts = Inr (v, rest)"
        then obtain ts1 where ts1: "p (advance ts) = Inr (v, ts1)" "current ts1 = TRParen" "rest = advance ts1"
          using TLParen by (auto simp: parse_primary_def and_then_Inr_iff expect_Inr)
        from same_or_deepD [OF pairedD [OF pair e(2)] ts1(1)]
        show "ends rest \<and> (starts (current rest) \<or> too_deep (parse_primary number p' (enclosed R ts)) \<or>
            parse_primary number p' (enclosed R ts) = Inr (v, enclosed R rest))"
        proof cases
          case 2
          then show ?thesis using TLParen ts1 ends_advance [of ts1] by (simp add: parse_primary_def e)
        next
          case 3
          then show ?thesis using TLParen ts1 ends_advance [of ts1]
            by (simp add: parse_primary_def e expect_def enclosed_current enclosed_advance)
        qed (use ts1 in simp)
      qed
    qed (auto simp: parse_primary_def e same_or_deep_def)
  qed
qed

lemma same_or_deep_ends: "same_or_deep R x y \<Longrightarrow> too_deep y' \<Longrightarrow> same_or_deep R x y'"
  by (auto simp: same_or_deep_def)

lemma parse_unary_paired:
  assumes t: "paired R (parse_tracked_expr number l) (parse_tracked_expr number l')"
    and u: "\<And>k k'. l = Suc k \<Longrightarrow> k' \<le> k \<Longrightarrow> paired R (parse_unary number k) (parse_unary number k')" and le: "l' \<le> l"
  shows "paired R (parse_unary number l) (parse_unary number l')"
  unfolding paired_def
proof (intro allI impI)
  fix ts
  assume ends: "ends ts"
  show "same_or_deep R (parse_unary number l ts) (parse_unary number l' (enclosed R ts))"
  proof (cases "current ts = TBang")
    case False
    then have "current (enclosed R ts) \<noteq> TBang" by (simp add: enclosed_current [OF ends])
    then show ?thesis using False pairedD [OF parse_primary_paired [OF t parse_shortens(1) parse_shortens(1)
          parse_tracked_rejects parse_tracked_rejects] ends] by (simp add: parse_unary.simps [of _ l] parse_unary.simps [of _ l'])
  next
    case True
    have e: "current (enclosed R ts) = TBang" "ends (advance ts)" "advance (enclosed R ts) = enclosed R (advance ts)"
      using True ends ends_advance enclosed_advance enclosed_current by auto
    let ?not = "\<lambda>x. and_then x (\<lambda>(inner, ts). and_then (node_depth (pdepth inner)) (\<lambda>d. Inr (\<lparr>pexpr = UnaryNot (pexpr inner), pdepth = d\<rparr>, ts)))"
    have not: "same_or_deep R (?not x) (?not y)" if "same_or_deep R x y" for x y
      using that by (fastforce simp: same_or_deep_def and_then_Inr_iff)
    show ?thesis
    proof (cases l)
      case 0
      then show ?thesis using True by (simp add: parse_unary.simps [of _ 0] same_or_deep_def)
    next
      case (Suc k)
      have x: "parse_unary number l ts = ?not (parse_unary number k (advance ts))" using True by (simp add: parse_unary.simps [of number "Suc k"] Suc)
      show ?thesis
      proof (cases l')
        case 0
        then have "too_deep (parse_unary number l' (enclosed R ts))" using e by (simp add: parse_unary.simps [of _ 0])
        then show ?thesis unfolding x by (rule same_or_deep_ends [OF not [OF pairedD [OF u [OF Suc order_refl] e(2)]]])
      next
        case (Suc k')
        have "parse_unary number l' (enclosed R ts) = ?not (parse_unary number k' (enclosed R (advance ts)))"
          using e by (simp add: parse_unary.simps [of number "Suc k'"] Suc)
        then show ?thesis unfolding x using not [OF pairedD [OF u [OF \<open>l = Suc k\<close>] e(2)]] le \<open>l = Suc k\<close> Suc by simp
      qed
    qed
  qed
qed

lemma parse_paired:
  "\<forall>l' \<le> l. paired R (parse_tracked_expr number l) (parse_tracked_expr number l') \<and> paired R (parse_unary number l) (parse_unary number l')"
proof (induction l)
  case 0
  have "paired R (parse_tracked_expr number 0) (parse_tracked_expr number 0)"
    by (simp add: paired_def same_or_deep_def parse_tracked_expr.simps)
  then show ?case using parse_unary_paired [of R number 0 0] by simp
next
  case (Suc l)
  have or_pair: "paired R (parse_or (parse_unary number l)) (parse_or (parse_unary number k))" if "k \<le> l" for k
    using Suc that by (intro parse_or_paired parse_shortens) simp
  have t: "paired R (parse_tracked_expr number (Suc l)) (parse_tracked_expr number l')" if "l' \<le> Suc l" for l'
  proof (cases l')
    case 0
    show ?thesis unfolding paired_def
    proof (intro allI impI)
      fix ts assume "ends ts"
      from same_or_deep_ends [OF pairedD [OF or_pair [OF order_refl] this]]
      show "same_or_deep R (parse_tracked_expr number (Suc l) ts) (parse_tracked_expr number l' (enclosed R ts))"
        by (simp add: parse_tracked_expr.simps 0)
    qed
  next
    case (Suc k)
    then show ?thesis using or_pair [of k] that by (simp add: paired_def parse_tracked_expr.simps)
  qed
  moreover have "paired R (parse_unary number (Suc l)) (parse_unary number l')" if "l' \<le> Suc l" for l'
    by (rule parse_unary_paired [OF t [OF that] _ that]) (use Suc in auto)
  ultimately show ?case by blast
qed

text \<open>An expression by itself, in parentheses and one level down: the same tree up to the closing
  parenthesis, or no level left.\<close>

lemma enclosed_parse:
  assumes "parse_tracked_expr number (Suc l) (ts @ [TEnd]) = Inr (e, rest)" "TEnd \<notin> set ts" "current rest = TEnd"
  shows "(\<exists>d. parse_tracked_expr number l (ts @ TRParen # R) = Inl (TooDeep d)) \<or>
    parse_tracked_expr number l (ts @ TRParen # R) = Inr (e, TRParen # R)"
proof -
  have ends: "ends (ts @ [TEnd])" using assms(2) by (auto simp: ends_def)
  have pair: "paired R (parse_tracked_expr number (Suc l)) (parse_tracked_expr number l)" using parse_paired by auto
  have enc: "enclosed R (ts @ [TEnd]) = ts @ TRParen # R" by (simp add: enclosed_def)
  from same_or_deepD [OF pairedD [OF pair ends] assms(1)] show ?thesis
  proof cases
    case 3
    then show ?thesis using assms(3) by (simp add: enc ends_current_End)
  qed (use assms(3) in \<open>auto simp: enc too_deep_def\<close>)
qed

section \<open>The tokens of an input\<close>

lemma lex_ends: "lex s = Inr ts \<Longrightarrow> ends ts"
proof (induction s arbitrary: ts rule: lex.induct)
  case (2 c cs)
  have not_end: "ident_token i \<noteq> TEnd" "punctuation c \<noteq> Some TEnd" "operator c \<noteq> Some (x, TEnd, short)"
    "operator c \<noteq> Some (x, long, Some TEnd)" for i x long short
    by (auto simp: ident_token_def Let_def punctuation.simps operator.simps)
  show ?case using 2
    by (auto simp: emit_def and_then_Inr_iff not_end intro!: ends_Cons split: if_splits option.splits prod.splits)
qed simp

end
