(* ===== verification/Expr_Print.thy ===== *)
theory Expr_Print
  imports Expr_Syntax
begin

text \<open>
  A printer for expression trees and the proof that the lexer and the parser read back what it
  prints: the specification of the expression grammar's tree structure. Operands are put in
  parentheses, path segments and computed keys in brackets.
\<close>

section \<open>Printing to tokens\<close>

fun op_token :: "binary_op \<Rightarrow> expr_token" where
  "op_token OpOr = TOr" | "op_token OpAnd = TAnd" | "op_token OpEq = TEq" | "op_token OpNe = TNe"
| "op_token OpGt = TGt" | "op_token OpGe = TGe" | "op_token OpLt = TLt" | "op_token OpLe = TLe"

fun literal_token :: "(jnum \<Rightarrow> string) \<Rightarrow> json \<Rightarrow> expr_token" where
  "literal_token num_text (JString s) = TString s"
| "literal_token num_text (JBool b) = TBool b"
| "literal_token num_text (JNumber n) = TNumber (num_text n)"
| "literal_token num_text _ = TNull"

definition segment_tokens :: "string \<Rightarrow> expr_token list" where
  "segment_tokens s = [TLBracket, TString s, TRBracket]"

fun separate :: "expr_token list list \<Rightarrow> expr_token list" where
  "separate [] = []"
| "separate [a] = a"
| "separate (a # as) = a @ TComma # separate as"

fun print_expr :: "(jnum \<Rightarrow> string) \<Rightarrow> expr \<Rightarrow> expr_token list" where
  "print_expr nt (Literal v) = [literal_token nt v]"
| "print_expr nt (Path ps) = TIdent (hd ps) # concat (map segment_tokens (tl ps))"
| "print_expr nt (UnaryNot e) = TBang # TLParen # print_expr nt e @ [TRParen]"
| "print_expr nt (Binary op l r) =
     TLParen # print_expr nt l @ TRParen # op_token op # TLParen # print_expr nt r @ [TRParen]"
| "print_expr nt (Call name args) = TIdent name # TLParen # separate (map (print_expr nt) args) @ [TRParen]"
| "print_expr nt (MemberAccess b segs) = print_expr nt b @ concat (map segment_tokens segs)"
| "print_expr nt (Index b k) = print_expr nt b @ TLBracket # TLParen # print_expr nt k @ [TRParen, TRBracket]"

text \<open>The trees the grammar can produce.\<close>

fun literal_ok :: "(jnum \<Rightarrow> string) \<Rightarrow> (string \<Rightarrow> jnum option) \<Rightarrow> json \<Rightarrow> bool" where
  "literal_ok num_text number (JNumber n) \<longleftrightarrow> number (num_text n) = Some n"
| "literal_ok num_text number (JArray _) \<longleftrightarrow> False"
| "literal_ok num_text number (JObject _) \<longleftrightarrow> False"
| "literal_ok num_text number _ \<longleftrightarrow> True"

fun is_postfix :: "expr \<Rightarrow> bool" where
  "is_postfix (Path _) \<longleftrightarrow> True"
| "is_postfix (Call _ _) \<longleftrightarrow> True"
| "is_postfix (MemberAccess _ _) \<longleftrightarrow> True"
| "is_postfix (Index _ _) \<longleftrightarrow> True"
| "is_postfix _ \<longleftrightarrow> False"

fun opens_member :: "expr \<Rightarrow> bool" where
  "opens_member (Call _ _) \<longleftrightarrow> True"
| "opens_member (Index _ _) \<longleftrightarrow> True"
| "opens_member _ \<longleftrightarrow> False"

fun expr_wf :: "(jnum \<Rightarrow> string) \<Rightarrow> (string \<Rightarrow> jnum option) \<Rightarrow> expr \<Rightarrow> bool" where
  "expr_wf nt number (Literal v) \<longleftrightarrow> literal_ok nt number v"
| "expr_wf nt number (Path ps) \<longleftrightarrow> ps \<noteq> []"
| "expr_wf nt number (UnaryNot e) \<longleftrightarrow> expr_wf nt number e"
| "expr_wf nt number (Binary _ l r) \<longleftrightarrow> expr_wf nt number l \<and> expr_wf nt number r"
| "expr_wf nt number (Call _ args) \<longleftrightarrow> list_all (expr_wf nt number) args"
| "expr_wf nt number (MemberAccess b segs) \<longleftrightarrow> segs \<noteq> [] \<and> opens_member b \<and> expr_wf nt number b"
| "expr_wf nt number (Index b k) \<longleftrightarrow> is_postfix b \<and> expr_wf nt number b \<and> expr_wf nt number k"

text \<open>The nesting levels the printed form needs.\<close>

fun levels_of :: "expr \<Rightarrow> nat" where
  "levels_of (Literal _) = 0"
| "levels_of (Path _) = 0"
| "levels_of (UnaryNot e) = levels_of e + 2"
| "levels_of (Binary _ l r) = Suc (max (levels_of l) (levels_of r))"
| "levels_of (Call _ args) = fold max (map (\<lambda>a. Suc (levels_of a)) args) 0"
| "levels_of (MemberAccess b _) = levels_of b"
| "levels_of (Index b k) = max (levels_of b) (levels_of k + 2)"

section \<open>Parsing what was printed\<close>

definition parsed_of :: "expr \<Rightarrow> parsed_expr" where
  "parsed_of e = \<lparr>pexpr = e, pdepth = expr_depth e\<rparr>"

definition ends_expr :: "expr_token \<Rightarrow> bool" where
  "ends_expr t \<longleftrightarrow> t \<in> {TRParen, TComma, TRBracket, TEnd}"

lemma expr_depth_pos: "0 < expr_depth e"
  by (cases e) simp_all

lemma binary_level_stop:
  assumes "shortens operand" "operand ts = Inr (e, rest)" "op_of (current rest) = None"
  shows "binary_level op_of operand ts = Inr (e, rest)"
  using assms by (simp add: binary_level_def run_loop_unfold [OF binary_round_ok] binary_round_def)

lemma binary_level_step:
  assumes "shortens operand" "operand ts = Inr (l, rest)" "op_of (current rest) = Some op"
    "operand (advance rest) = Inr (r, rest')" "parsed_binary op l r = Inr e" "op_of (current rest') = None"
  shows "binary_level op_of operand ts = Inr (e, rest')"
  using assms by (simp add: binary_level_def run_loop_unfold [OF binary_round_ok] binary_round_def)

lemma parse_eq_shortens: "shortens u \<Longrightarrow> shortens (parse_eq u)"
  by (simp add: parse_eq_def binary_level_shortens)

lemma parse_and_shortens: "shortens u \<Longrightarrow> shortens (parse_and u)"
  by (simp add: parse_and_def parse_eq_def binary_level_shortens)

lemma parse_or_single:
  assumes "shortens u" "u ts = Inr (e, rest)" "ends_expr (current rest)"
  shows "parse_or u ts = Inr (e, rest)"
proof -
  have t: "eq_op (current rest) = None" "and_op (current rest) = None" "or_op (current rest) = None"
    using assms(3) by (auto simp: ends_expr_def)
  have "parse_eq u ts = Inr (e, rest)"
    unfolding parse_eq_def by (rule binary_level_stop [OF assms(1,2)]) (rule t(1))
  then have "parse_and u ts = Inr (e, rest)"
    unfolding parse_and_def by (rule binary_level_stop [OF parse_eq_shortens [OF assms(1)]]) (rule t(2))
  then show ?thesis
    unfolding parse_or_def by (rule binary_level_stop [OF parse_and_shortens [OF assms(1)]]) (rule t(3))
qed

lemma parse_or_binary:
  assumes sh: "shortens u" and l: "u ts = Inr (l, op_token op # rest)" and r: "u rest = Inr (r, rest')"
    and fin: "ends_expr (current rest')" and e: "parsed_binary op l r = Inr e"
  shows "parse_or u ts = Inr (e, rest')"
proof -
  have t: "eq_op (current rest') = None" "and_op (current rest') = None" "or_op (current rest') = None"
    using fin by (auto simp: ends_expr_def)
  note she = parse_eq_shortens [OF sh] and sha = parse_and_shortens [OF sh]
  have r1: "parse_eq u rest = Inr (r, rest')" unfolding parse_eq_def by (rule binary_level_stop [OF sh r]) (rule t(1))
  have r2: "parse_and u rest = Inr (r, rest')" unfolding parse_and_def by (rule binary_level_stop [OF she r1]) (rule t(2))
  consider (eq) "eq_op (op_token op) = Some op" | (an) "op = OpAnd" | (or) "op = OpOr" by (cases op) auto
  then show ?thesis
  proof cases
    case eq
    have "parse_eq u ts = Inr (e, rest')"
      unfolding parse_eq_def by (rule binary_level_step [OF sh l _ _ e]) (use eq r t in simp_all)
    then have "parse_and u ts = Inr (e, rest')"
      unfolding parse_and_def by (rule binary_level_stop [OF she]) (rule t(2))
    then show ?thesis unfolding parse_or_def by (rule binary_level_stop [OF sha]) (rule t(3))
  next
    case an
    have "parse_eq u ts = Inr (l, op_token op # rest)"
      unfolding parse_eq_def by (rule binary_level_stop [OF sh l]) (simp add: an)
    then have "parse_and u ts = Inr (e, rest')"
      unfolding parse_and_def by (rule binary_level_step [OF she _ _ _ e]) (use an r1 t in simp_all)
    then show ?thesis unfolding parse_or_def by (rule binary_level_stop [OF sha]) (rule t(3))
  next
    case or
    have "parse_eq u ts = Inr (l, op_token op # rest)"
      unfolding parse_eq_def by (rule binary_level_stop [OF sh l]) (simp add: or)
    then have "parse_and u ts = Inr (l, op_token op # rest)"
      unfolding parse_and_def by (rule binary_level_stop [OF she]) (simp add: or)
    then show ?thesis
      unfolding parse_or_def by (rule binary_level_step [OF sha _ _ _ e]) (use or r2 t in simp_all)
  qed
qed

text \<open>What the induction shows of a tree: it parses inside an expression, and a postfix tree
  leaves the suffix loop running.\<close>

definition reads_back :: "(jnum \<Rightarrow> string) \<Rightarrow> (string \<Rightarrow> jnum option) \<Rightarrow> expr \<Rightarrow> bool" where
  "reads_back nt number e \<longleftrightarrow> (\<forall>l rest. levels_of e \<le> l \<longrightarrow> ends_expr (current rest) \<longrightarrow>
     parse_or (parse_unary number l) (print_expr nt e @ rest) = Inr (parsed_of e, rest))"

fun root_round :: "expr \<Rightarrow> (expr_token list \<Rightarrow> parsed_expr pres) \<Rightarrow> parsed_expr loop_round" where
  "root_round (Path _) = path_round"
| "root_round (Call _ _) = suffix_round"
| "root_round (MemberAccess b _) = root_round b"
| "root_round (Index b _) = root_round b"
| "root_round _ = path_round"

definition reads_open :: "(jnum \<Rightarrow> string) \<Rightarrow> (string \<Rightarrow> jnum option) \<Rightarrow> expr \<Rightarrow> bool" where
  "reads_open nt number e \<longleftrightarrow> (\<forall>l rest. levels_of e \<le> l \<longrightarrow> current rest \<noteq> TLParen \<longrightarrow>
     parse_primary number (parse_tracked_expr number l) (print_expr nt e @ rest) =
       run_loop (root_round e (parse_tracked_expr number l)) (parsed_of e) rest)"

lemma tracked_reads:
  assumes "reads_back nt number e" "levels_of e < l" "ends_expr (current rest)"
  shows "parse_tracked_expr number l (print_expr nt e @ rest) = Inr (parsed_of e, rest)"
proof -
  obtain l' where "l = Suc l'" using assms(2) by (cases l) auto
  then show ?thesis using assms by (simp add: parse_tracked_expr.simps reads_back_def)
qed

lemma paren_reads:
  assumes "reads_back nt number e" "levels_of e < l"
  shows "parse_unary number l (TLParen # print_expr nt e @ TRParen # rest) = Inr (parsed_of e, rest)"
  using tracked_reads [OF assms, of "TRParen # rest"]
  by (simp add: parse_unary.simps parse_primary_def expect_def ends_expr_def)


lemma root_round_ok: "round_ok (root_round e (parse_tracked_expr number l))"
  by (induction e rule: root_round.induct)
     (simp_all add: path_round_ok suffix_round_ok parse_shortens)

lemma root_round_cases: "root_round e = path_round \<or> root_round e = suffix_round"
  by (induction e rule: root_round.induct) auto

lemma root_round_segment:
  "root_round e tracked b (segment_tokens s @ rest) = push_and_go b s rest"
  using root_round_cases [of e]
  by (auto simp: path_round_def suffix_round_def segment_tokens_def bracket_literal_def expect_def Let_def)

lemma root_round_stop:
  "ends_expr (current rest) \<or> current rest \<in> range op_token \<Longrightarrow> root_round e tracked b rest = Inr (False, b, rest)"
  using root_round_cases [of e]
  by (auto simp: path_round_def suffix_round_def Let_def ends_expr_def elim!: op_token.elims split: expr_token.splits)

lemma path_segments:
  "run_loop (root_round e (parse_tracked_expr number l)) (parsed_of (Path ps)) (concat (map segment_tokens segs) @ rest) =
   run_loop (root_round e (parse_tracked_expr number l)) (parsed_of (Path (ps @ segs))) rest"
proof (induction segs arbitrary: ps)
  case (Cons s segs)
  then show ?case
    using Cons.IH [of "ps @ [s]"]
    by (subst run_loop_unfold [OF root_round_ok])
       (simp add: root_round_segment push_and_go_def push_path_segment_def parsed_of_def)
qed simp

lemma member_segments:
  "run_loop (root_round e (parse_tracked_expr number l)) (parsed_of (MemberAccess b ps)) (concat (map segment_tokens segs) @ rest) =
   run_loop (root_round e (parse_tracked_expr number l)) (parsed_of (MemberAccess b (ps @ segs))) rest"
proof (induction segs arbitrary: ps)
  case (Cons s segs)
  then show ?case
    using Cons.IH [of "ps @ [s]"]
    by (subst run_loop_unfold [OF root_round_ok])
       (simp add: root_round_segment push_and_go_def push_path_segment_def parsed_of_def)
qed simp

lemma open_segments:
  assumes "opens_member b" "segs \<noteq> []" "expr_depth (MemberAccess b segs) \<le> MAX_EXPRESSION_DEPTH"
  shows "run_loop (root_round e (parse_tracked_expr number l)) (parsed_of b) (concat (map segment_tokens segs) @ rest) =
    run_loop (root_round e (parse_tracked_expr number l)) (parsed_of (MemberAccess b segs)) rest"
proof -
  obtain s ss where segs: "segs = s # ss" using assms(2) by (cases segs) auto
  have "push_path_segment (parsed_of b) s = Inr (parsed_of (MemberAccess b [s]))"
    using assms by (cases b) (simp_all add: push_path_segment_def parsed_of_def node_depth_def)
  then show ?thesis
    using member_segments [of e number l b "[s]" ss rest]
    by (subst run_loop_unfold [OF root_round_ok]) (simp add: segs root_round_segment push_and_go_def)
qed

lemma index_key:
  assumes "reads_back nt number k" "levels_of k + 2 \<le> l" "expr_depth (Index b k) \<le> MAX_EXPRESSION_DEPTH"
  shows "run_loop (root_round e (parse_tracked_expr number l)) (parsed_of b)
      (TLBracket # TLParen # print_expr nt k @ TRParen # TRBracket # rest) =
    run_loop (root_round e (parse_tracked_expr number l)) (parsed_of (Index b k)) rest"
proof -
  obtain l' where l: "l = Suc l'" "levels_of k < l'" using assms(2) by (cases l) auto
  have u: "parse_unary number l' (TLParen # print_expr nt k @ TRParen # TRBracket # rest) = Inr (parsed_of k, TRBracket # rest)"
    by (rule paren_reads [OF assms(1) l(2)])
  have "parse_or (parse_unary number l') (TLParen # print_expr nt k @ TRParen # TRBracket # rest) =
      Inr (parsed_of k, TRBracket # rest)"
    by (rule parse_or_single [OF parse_shortens(2) u]) (simp add: ends_expr_def)
  then have key: "bracket_key (parse_tracked_expr number l) (TLParen # print_expr nt k @ TRParen # TRBracket # rest) =
      Inr (parsed_of k, rest)"
    by (simp add: bracket_key_def parse_tracked_expr.simps l expect_def)
  have "parsed_index (parsed_of b) (parsed_of k) = Inr (parsed_of (Index b k))"
    using assms(3) by (simp add: parsed_index_def parsed_of_def node_depth_def)
  then have "root_round e (parse_tracked_expr number l) (parsed_of b)
      (TLBracket # TLParen # print_expr nt k @ TRParen # TRBracket # rest) = Inr (True, parsed_of (Index b k), rest)"
    using root_round_cases [of e] key
    by (auto simp: path_round_def suffix_round_def bracket_literal_def Let_def)
  then show ?thesis by (subst run_loop_unfold [OF root_round_ok]) simp
qed

lemma print_first: "expr_wf nt number e \<Longrightarrow> \<exists>t ts. print_expr nt e = t # ts \<and> t \<notin> {TRParen, TEnd}"
proof (induction e)
  case (Literal v)
  then show ?case by (cases v) auto
qed auto

lemma postfix_first: "is_postfix e \<Longrightarrow> expr_wf nt number e \<Longrightarrow> \<exists>n ts. print_expr nt e = TIdent n # ts"
proof (induction e)
  case (MemberAccess b segs)
  then have "is_postfix b" "expr_wf nt number b" by (cases b; simp)+
  with MemberAccess.IH obtain n ts where "print_expr nt b = TIdent n # ts" by blast
  then show ?case by simp
qed auto


lemma max_fold_assoc: "fold max xs (max a b) = max (b::nat) (fold max xs a)"
  by (induction xs arbitrary: a b) (simp_all add: max.left_commute max.commute max.assoc)

lemma args_read:
  assumes "args \<noteq> []" "list_all (reads_back nt number) args" "list_all (\<lambda>a. levels_of a < l) args"
  shows "run_loop (args_round (parse_tracked_expr number l)) (acc, d)
      (separate (map (print_expr nt) args) @ TRParen # rest) =
    Inr ((acc @ args, fold max (map expr_depth args) d), TRParen # rest)"
  using assms
proof (induction args arbitrary: acc d)
  case (Cons a args)
  have ok: "round_ok (args_round (parse_tracked_expr number l))" by (simp add: args_round_ok parse_shortens)
  show ?case
  proof (cases args)
    case Nil
    have "parse_tracked_expr number l (print_expr nt a @ TRParen # rest) = Inr (parsed_of a, TRParen # rest)"
      using Cons.prems by (intro tracked_reads) (auto simp: ends_expr_def)
    then show ?thesis
      by (subst run_loop_unfold [OF ok]) (simp add: Nil args_round_def Let_def parsed_of_def max.commute)
  next
    case (Cons b bs)
    let ?tail = "TComma # separate (map (print_expr nt) args) @ TRParen # rest"
    have "parse_tracked_expr number l (print_expr nt a @ ?tail) = Inr (parsed_of a, ?tail)"
      using Cons.prems by (intro tracked_reads) (auto simp: ends_expr_def)
    then have "args_round (parse_tracked_expr number l) (acc, d) (print_expr nt a @ ?tail) =
        Inr (True, (acc @ [a], max d (expr_depth a)), separate (map (print_expr nt) args) @ TRParen # rest)"
      by (simp add: args_round_def Let_def parsed_of_def)
    then show ?thesis
      using Cons.IH [of "acc @ [a]" "max d (expr_depth a)"] Cons.prems Cons
      by (subst run_loop_unfold [OF ok]) (simp add: max.commute)
  qed
qed simp

lemma open_to_back:
  assumes "is_postfix e" "expr_wf nt number e" "reads_open nt number e"
  shows "reads_back nt number e"
  unfolding reads_back_def
proof (intro allI impI)
  fix l rest
  assume l: "levels_of e \<le> l" and fin: "ends_expr (current rest)"
  obtain n ts where first: "print_expr nt e = TIdent n # ts" using postfix_first [OF assms(1,2)] by blast
  have "run_loop (root_round e (parse_tracked_expr number l)) (parsed_of e) rest = Inr (parsed_of e, rest)"
    by (subst run_loop_unfold [OF root_round_ok]) (simp add: root_round_stop fin)
  moreover have "current rest \<noteq> TLParen" using fin by (auto simp: ends_expr_def)
  ultimately have "parse_unary number l (print_expr nt e @ rest) = Inr (parsed_of e, rest)"
    using assms(3) l first by (simp add: parse_unary.simps reads_open_def)
  then show "parse_or (parse_unary number l) (print_expr nt e @ rest) = Inr (parsed_of e, rest)"
    using parse_or_single [OF parse_shortens(2)] fin by blast
qed

lemma call_reads_open:
  assumes "list_all (reads_back nt number) args" "expr_wf nt number (Call name args)"
    "expr_depth (Call name args) \<le> MAX_EXPRESSION_DEPTH"
  shows "reads_open nt number (Call name args)"
  unfolding reads_open_def
proof (intro allI impI)
  fix l rest
  assume l: "levels_of (Call name args) \<le> l"
  let ?tr = "parse_tracked_expr number l"
  let ?toks = "separate (map (print_expr nt) args) @ TRParen # rest"
  have levels: "list_all (\<lambda>a. levels_of a < l) args"
    using l by (auto simp: max_fold_le list_all_iff Suc_le_eq)
  have "(if current ?toks = TRParen then Inr (([], 0), ?toks) else run_loop (args_round ?tr) ([], 0) ?toks) =
      Inr ((args, fold max (map expr_depth args) 0), TRParen # rest)"
  proof (cases args)
    case (Cons a as)
    then obtain t ts where "print_expr nt a = t # ts" "t \<noteq> TRParen"
      using print_first [of nt number a] assms(2) by auto
    then have "current ?toks \<noteq> TRParen" using Cons by (cases as) auto
    then show ?thesis using args_read [OF _ assms(1) levels, of "[]" 0 rest] Cons by simp
  qed simp
  moreover have "node_depth (fold max (map expr_depth args) 0) = Inr (expr_depth (Call name args))"
    using assms(3) by (simp add: node_depth_def)
  ultimately show "parse_primary number ?tr (print_expr nt (Call name args) @ rest) =
      run_loop (root_round (Call name args) ?tr) (parsed_of (Call name args)) rest"
    by (simp add: parse_primary_def parse_ident_or_call_def Let_def expect_def parse_member_suffix_def parsed_of_def)
qed

lemma path_reads_open: "ps \<noteq> [] \<Longrightarrow> reads_open nt number (Path ps)"
  unfolding reads_open_def
proof (intro allI impI)
  fix l rest
  assume ps: "ps \<noteq> []" and rest: "current rest \<noteq> TLParen"
  have "current (concat (map segment_tokens (tl ps)) @ rest) \<noteq> TLParen"
    using rest by (cases "tl ps") (auto simp: segment_tokens_def)
  moreover have "leaf (Path [hd ps]) = parsed_of (Path [hd ps])" by (simp add: leaf_def parsed_of_def)
  ultimately show "parse_primary number (parse_tracked_expr number l) (print_expr nt (Path ps) @ rest) =
      run_loop (root_round (Path ps) (parse_tracked_expr number l)) (parsed_of (Path ps)) rest"
    using path_segments [of "Path ps" number l "[hd ps]" "tl ps" rest] ps
    by (simp add: parse_primary_def parse_ident_or_call_def Let_def)
qed


lemma member_reads_open:
  assumes "reads_open nt number b" "expr_wf nt number (MemberAccess b segs)"
    "expr_depth (MemberAccess b segs) \<le> MAX_EXPRESSION_DEPTH"
  shows "reads_open nt number (MemberAccess b segs)"
  unfolding reads_open_def
proof (intro allI impI)
  fix l rest
  assume l: "levels_of (MemberAccess b segs) \<le> l"
  have segs: "segs \<noteq> []" "opens_member b" using assms(2) by auto
  then have "current (concat (map segment_tokens segs) @ rest) \<noteq> TLParen"
    by (cases segs) (auto simp: segment_tokens_def)
  then show "parse_primary number (parse_tracked_expr number l) (print_expr nt (MemberAccess b segs) @ rest) =
      run_loop (root_round (MemberAccess b segs) (parse_tracked_expr number l)) (parsed_of (MemberAccess b segs)) rest"
    using assms(1) l open_segments [OF segs(2,1) assms(3), of b number l rest] by (simp add: reads_open_def)
qed

lemma index_reads_open:
  assumes "reads_open nt number b" "reads_back nt number k" "expr_depth (Index b k) \<le> MAX_EXPRESSION_DEPTH"
  shows "reads_open nt number (Index b k)"
  unfolding reads_open_def
proof (intro allI impI)
  fix l rest
  assume l: "levels_of (Index b k) \<le> l"
  then have "levels_of k + 2 \<le> l" "levels_of b \<le> l" by auto
  then show "parse_primary number (parse_tracked_expr number l) (print_expr nt (Index b k) @ rest) =
      run_loop (root_round (Index b k) (parse_tracked_expr number l)) (parsed_of (Index b k)) rest"
    using assms(1) index_key [OF assms(2) _ assms(3), of l b rest] by (simp add: reads_open_def)
qed

lemma literal_reads_back: "literal_ok nt number v \<Longrightarrow> reads_back nt number (Literal v)"
  unfolding reads_back_def
proof (intro allI impI)
  fix l rest
  assume "literal_ok nt number v" and fin: "ends_expr (current rest)"
  then have "parse_unary number l (literal_token nt v # rest) = Inr (parsed_of (Literal v), rest)"
    by (cases v) (simp_all add: parse_unary.simps parse_primary_def leaf_def parsed_of_def)
  then show "parse_or (parse_unary number l) (print_expr nt (Literal v) @ rest) = Inr (parsed_of (Literal v), rest)"
    using parse_or_single [OF parse_shortens(2)] fin by simp
qed

lemma not_reads_back:
  assumes "reads_back nt number e" "expr_depth (UnaryNot e) \<le> MAX_EXPRESSION_DEPTH"
  shows "reads_back nt number (UnaryNot e)"
  unfolding reads_back_def
proof (intro allI impI)
  fix l rest
  assume l: "levels_of (UnaryNot e) \<le> l" and fin: "ends_expr (current rest)"
  then obtain l' where l': "l = Suc l'" "levels_of e < l'" by (cases l) auto
  have "parse_unary number l (print_expr nt (UnaryNot e) @ rest) = Inr (parsed_of (UnaryNot e), rest)"
    using paren_reads [OF assms(1) l'(2), of rest] assms(2)
    by (simp add: l' parse_unary.simps [of number "Suc l'"] node_depth_def parsed_of_def)
  then show "parse_or (parse_unary number l) (print_expr nt (UnaryNot e) @ rest) = Inr (parsed_of (UnaryNot e), rest)"
    using parse_or_single [OF parse_shortens(2)] fin by blast
qed

lemma binary_reads_back:
  assumes "reads_back nt number a" "reads_back nt number b" "expr_depth (Binary op a b) \<le> MAX_EXPRESSION_DEPTH"
  shows "reads_back nt number (Binary op a b)"
  unfolding reads_back_def
proof (intro allI impI)
  fix l rest
  assume l: "levels_of (Binary op a b) \<le> l" and fin: "ends_expr (current rest)"
  from l have levels: "levels_of a < l" "levels_of b < l" by auto
  have "parsed_binary op (parsed_of a) (parsed_of b) = Inr (parsed_of (Binary op a b))"
    using assms(3) by (simp add: parsed_binary_def parsed_of_def node_depth_def)
  then show "parse_or (parse_unary number l) (print_expr nt (Binary op a b) @ rest) = Inr (parsed_of (Binary op a b), rest)"
    using paren_reads [OF assms(1) levels(1)] paren_reads [OF assms(2) levels(2)] fin
    by (intro parse_or_binary [OF parse_shortens(2)]) simp_all
qed

lemma fold_max_member: "x \<in> set xs \<Longrightarrow> f x \<le> fold max (map f xs) (0::nat)"
  using max_fold_le [of "map f xs" 0 "fold max (map f xs) 0"] by (auto simp: list_all_iff)

lemma reads_back_all:
  "expr_wf nt number e \<Longrightarrow> expr_depth e \<le> MAX_EXPRESSION_DEPTH \<Longrightarrow>
     reads_back nt number e \<and> (is_postfix e \<longrightarrow> reads_open nt number e)"
proof (induction e)
  case (Literal v)
  then show ?case by (simp add: literal_reads_back)
next
  case (Path ps)
  then show ?case using path_reads_open [of ps nt number] open_to_back [of "Path ps" nt number] by simp
next
  case (UnaryNot e)
  then show ?case by (simp add: not_reads_back)
next
  case (Binary op a b)
  then show ?case by (simp add: binary_reads_back)
next
  case (Call name args)
  have "reads_back nt number a" if "a \<in> set args" for a
    using Call that fold_max_member [OF that, of expr_depth] by (auto simp: list_all_iff)
  then have "reads_open nt number (Call name args)"
    using call_reads_open Call.prems by (simp add: list_all_iff)
  then show ?case using open_to_back [OF _ Call.prems(1)] by simp
next
  case (MemberAccess b segs)
  then have "is_postfix b" by (cases b) auto
  then have "reads_open nt number (MemberAccess b segs)"
    using MemberAccess member_reads_open by simp
  then show ?case using open_to_back [OF _ MemberAccess.prems(1)] by simp
next
  case (Index b k)
  then have "reads_open nt number (Index b k)" using index_reads_open by simp
  then show ?case using open_to_back [OF _ Index.prems(1)] by simp
qed

lemma parse_printed_tokens:
  assumes "expr_wf nt number e" "expr_depth e \<le> MAX_EXPRESSION_DEPTH" "levels_of e < MAX_EXPRESSION_DEPTH"
  shows "parse_tokens number (print_expr nt e @ [TEnd]) = Inr e"
  using tracked_reads [of nt number e MAX_EXPRESSION_DEPTH "[TEnd]"] reads_back_all [OF assms(1,2)] assms(3)
  by (simp add: parse_tokens_def expect_end_def parsed_of_def ends_expr_def)


section \<open>Text\<close>

fun escape_quotes :: "string \<Rightarrow> string" where
  "escape_quotes [] = []"
| "escape_quotes (c # cs) = (if c = QUOTE then [QUOTE, QUOTE] else [c]) @ escape_quotes cs"

fun token_text :: "expr_token \<Rightarrow> string" where
  "token_text (TIdent s) = s"
| "token_text (TString s) = QUOTE # escape_quotes s @ [QUOTE]"
| "token_text (TNumber s) = s"
| "token_text (TBool b) = (if b then ''true'' else ''false'')"
| "token_text TNull = ''null''"
| "token_text TDot = ''.''"
| "token_text TComma = '',''"
| "token_text TLParen = ''(''"
| "token_text TRParen = '')''"
| "token_text TLBracket = ''[''"
| "token_text TRBracket = '']''"
| "token_text TStar = ''*''"
| "token_text TBang = ''!''"
| "token_text TAnd = ''&&''"
| "token_text TOr = ''||''"
| "token_text TEq = ''==''"
| "token_text TNe = ''!=''"
| "token_text TGt = ''>''"
| "token_text TGe = ''>=''"
| "token_text TLt = ''<''"
| "token_text TLe = ''<=''"
| "token_text TEnd = ''''"

fun token_ok :: "expr_token \<Rightarrow> bool" where
  "token_ok (TIdent s) \<longleftrightarrow> s \<noteq> [] \<and> is_ident_start (hd s) \<and> list_all is_ident_char s \<and> ident_token s = TIdent s"
| "token_ok (TNumber s) \<longleftrightarrow> s \<noteq> [] \<and> is_ascii_digit (hd s) \<and> list_all is_number_char s"
| "token_ok TEnd \<longleftrightarrow> False"
| "token_ok _ \<longleftrightarrow> True"

definition show_tokens :: "expr_token list \<Rightarrow> string" where
  "show_tokens ts = concat (map (\<lambda>t. token_text t @ '' '') ts)"

lemma lex_string_escaped:
  "rest = [] \<or> hd rest \<noteq> QUOTE \<Longrightarrow> lex_string acc (escape_quotes s @ QUOTE # rest) = Some (acc @ s, rest)"
proof (induction s arbitrary: acc)
  case Nil
  then show ?case by (cases rest) auto
next
  case (Cons c cs)
  show ?case
  proof (cases "c = QUOTE")
    case False
    obtain d ds where d: "escape_quotes cs @ QUOTE # rest = d # ds" by (cases "escape_quotes cs") auto
    have "lex_string acc (escape_quotes (c # cs) @ QUOTE # rest) = lex_string (acc @ [c]) (d # ds)"
      using False by (simp add: d)
    then show ?thesis using Cons.IH [of "acc @ [c]"] Cons.prems by (simp add: d)
  qed (use Cons in simp)
qed

lemma takeWhile_space: "list_all P s \<Longrightarrow> \<not> P CHR '' '' \<Longrightarrow>
    takeWhile P (s @ CHR '' '' # rest) = s \<and> dropWhile P (s @ CHR '' '' # rest) = CHR '' '' # rest"
  by (induction s) auto

lemmas lex_chars = is_whitespace_def QUOTE_def is_ascii_digit_def is_ident_start_def is_ascii_alphabetic_def
  is_number_char_def is_ident_char_def is_ascii_alphanumeric_def punctuation.simps operator.simps

lemma lex_space: "lex (CHR '' '' # cs) = lex cs"
  by (simp add: is_whitespace_def)

lemma ident_start_facts: "is_ident_start c \<Longrightarrow> \<not> is_whitespace c \<and> c \<noteq> QUOTE \<and> \<not> is_ascii_digit c"
  by (auto simp: is_ident_start_def is_ascii_alphabetic_def is_whitespace_def is_ascii_digit_def QUOTE_def)

lemma digit_facts: "is_ascii_digit c \<Longrightarrow> \<not> is_whitespace c \<and> c \<noteq> QUOTE"
  by (auto simp: is_whitespace_def is_ascii_digit_def QUOTE_def)

lemma lex_ident:
  assumes "s \<noteq> []" "is_ident_start (hd s)" "list_all is_ident_char s"
  shows "lex (s @ CHR '' '' # rest) = emit (ident_token s) (lex rest)"
proof -
  obtain c cs where s: "s = c # cs" using assms(1) by (cases s) auto
  have "\<not> is_ident_char CHR '' ''" by (simp add: lex_chars)
  then show ?thesis
    using assms takeWhile_space [of is_ident_char cs rest] ident_start_facts [of c]
    by (simp add: s lex_space del: lex.simps(2)) (simp add: lex_space [of rest, simplified])
qed


lemma lex_number:
  assumes "s \<noteq> []" "is_ascii_digit (hd s)" "list_all is_number_char s"
  shows "lex (s @ CHR '' '' # rest) = emit (TNumber s) (lex rest)"
proof -
  obtain c cs where s: "s = c # cs" using assms(1) by (cases s) auto
  have "\<not> is_number_char CHR '' ''" by (simp add: lex_chars)
  then show ?thesis
    using assms takeWhile_space [of is_number_char cs rest] digit_facts [of c]
    by (simp add: s lex_space del: lex.simps(2)) (simp add: lex_space [of rest, simplified])
qed

lemma lex_quoted: "lex (QUOTE # escape_quotes s @ QUOTE # CHR '' '' # rest) = emit (TString s) (lex rest)"
  using lex_string_escaped [of "CHR '' '' # rest" "[]" s]
  by (simp add: QUOTE_def is_whitespace_def)

lemma lex_keyword:
  "lex (''true'' @ CHR '' '' # rest) = emit (TBool True) (lex rest)"
  "lex (''false'' @ CHR '' '' # rest) = emit (TBool False) (lex rest)"
  "lex (''null'' @ CHR '' '' # rest) = emit TNull (lex rest)"
proof -
  have i: "list_all is_ident_char ''true''" "list_all is_ident_char ''false''" "list_all is_ident_char ''null''"
    "is_ident_start (hd ''true'')" "is_ident_start (hd ''false'')" "is_ident_start (hd ''null'')"
    "ident_token ''true'' = TBool True" "ident_token ''false'' = TBool False" "ident_token ''null'' = TNull"
    by code_simp+
  show "lex (''true'' @ CHR '' '' # rest) = emit (TBool True) (lex rest)"
    by (subst lex_ident) (use i in simp_all)
  show "lex (''false'' @ CHR '' '' # rest) = emit (TBool False) (lex rest)"
    by (subst lex_ident) (use i in simp_all)
  show "lex (''null'' @ CHR '' '' # rest) = emit TNull (lex rest)"
    by (subst lex_ident) (use i in simp_all)
qed

lemma lex_token: "token_ok t \<Longrightarrow> lex (token_text t @ CHR '' '' # rest) = emit t (lex rest)"
proof (cases t rule: expr_token.exhaust)
  case (TIdent s)
  then show "token_ok t \<Longrightarrow> ?thesis" using lex_ident [of s rest] by simp
next
  case (TNumber s)
  then show "token_ok t \<Longrightarrow> ?thesis" using lex_number [of s rest] by simp
next
  case (TString s)
  then show "token_ok t \<Longrightarrow> ?thesis" using lex_quoted [of s rest] by simp
next
  case (TBool b)
  then show "token_ok t \<Longrightarrow> ?thesis" using lex_keyword(1,2) [of rest] by (cases b) simp_all
next
  case TNull
  then show "token_ok t \<Longrightarrow> ?thesis" using lex_keyword(3) [of rest] by simp
qed (simp_all add: lex_chars)

lemma lex_shown: "list_all token_ok ts \<Longrightarrow> lex (show_tokens ts) = Inr (ts @ [TEnd])"
proof (induction ts)
  case (Cons t ts)
  have "lex (show_tokens (t # ts)) = emit t (lex (show_tokens ts))"
    using lex_token [of t "show_tokens ts"] Cons.prems by (simp add: show_tokens_def)
  then show ?case using Cons by (simp add: emit_def)
qed (simp add: show_tokens_def)

text \<open>C2. The parser reads back every expression: the text printed from a tree lexes and parses to
  that tree, for every tree of the grammar whose identifiers and number texts are well formed,
  whose depth is within the ceiling and whose printed form nests less than 128 levels.\<close>

theorem parse_printed_expression:
  assumes "expr_wf num_text number e" "list_all token_ok (print_expr num_text e)"
    "expr_depth e \<le> MAX_EXPRESSION_DEPTH" "levels_of e < MAX_EXPRESSION_DEPTH"
  shows "parse_input number (show_tokens (print_expr num_text e)) = Inr e"
  using parse_printed_tokens [OF assms(1,3,4)] lex_shown [OF assms(2)] by (simp add: parse_input_def)

theorem parse_printed_expression_witness:
  "parse_input (\<lambda>_. None) (show_tokens (print_expr (\<lambda>_. [])
      (Binary OpAnd (UnaryNot (Call ''cancelled'' []))
        (Binary OpEq (Index (Path [''env'']) (Path [''matrix'', ''key''])) (Literal (JString ''it's''))))))
   = Inr (Binary OpAnd (UnaryNot (Call ''cancelled'' []))
        (Binary OpEq (Index (Path [''env'']) (Path [''matrix'', ''key''])) (Literal (JString ''it's''))))"
  by (rule parse_printed_expression; code_simp)

end
