(* ===== verification/Expr_Value.thy ===== *)
theory Expr_Value
  imports Expr_Syntax
begin

text \<open>
  Values of expressions and the functions on them (\<^verbatim>\<open>context.rs\<close>, the helpers of \<^verbatim>\<open>evaluator.rs\<close>
  and \<^verbatim>\<open>is_truthy\<close> of \<^verbatim>\<open>conditions.rs\<close> in \<^verbatim>\<open>preloop-gha-expressions\<close>).

  A 64-bit float is a rational or one of the special values; the sign of zero, which no operation
  here distinguishes, is dropped. What the functions ask of \<^verbatim>\<open>serde_json\<close> and of Unicode's tables
  is the record \<open>expr_ext\<close>: reading JSON text, writing it compactly and indented, the text of a
  float, and the scalar values of a string that is not ASCII, each mapped by \<^verbatim>\<open>to_simple_upper\<close>.
\<close>

record expr_ext =
  from_str :: "string \<Rightarrow> string + json"
  to_json_text :: "json \<Rightarrow> string"
  to_json_pretty_text :: "json \<Rightarrow> string"
  float_text :: "rat \<Rightarrow> string"
  simple_upper :: "string \<Rightarrow> nat list"

section \<open>Floats\<close>

datatype f64 = NaN | PosInf | NegInf | Finite rat

definition pow2 :: "int \<Rightarrow> rat" where
  "pow2 k = (if 0 \<le> k then 2 ^ nat k else 1 / 2 ^ nat (- k))"

fun bit_length :: "nat \<Rightarrow> nat" where
  "bit_length n = (if n = 0 then 0 else Suc (bit_length (n div 2)))"

declare bit_length.simps [simp del]

definition floor_log2 :: "rat \<Rightarrow> int" where
  "floor_log2 q =
     (let (n, d) = quotient_of q; k = int (bit_length (nat n)) - int (bit_length (nat d))
      in if pow2 k \<le> q then k else k - 1)"

definition round_half_even :: "rat \<Rightarrow> int" where
  "round_half_even x =
     (let f = floor x; d = x - of_int f
      in if d < 1 / 2 then f else if 1 / 2 < d then f + 1 else if even f then f else f + 1)"

text \<open>The nearest double, ties to even, with subnormals and overflow.\<close>

definition f64_round :: "rat \<Rightarrow> f64" where
  "f64_round q =
     (if q = 0 then Finite 0
      else let a = abs q; u = pow2 (max (floor_log2 a) (- 1022) - 52); r = of_int (round_half_even (a / u)) * u
           in if pow2 1024 \<le> r then (if q < 0 then NegInf else PosInf) else Finite (sgn q * r))"

fun as_f64 :: "jnum \<Rightarrow> f64" where
  "as_f64 (PosInt n) = f64_round (of_nat n)"
| "as_f64 (NegInt i) = f64_round (of_int i)"
| "as_f64 (JFloat q) = Finite q"

fun f64_eq :: "f64 \<Rightarrow> f64 \<Rightarrow> bool" where
  "f64_eq NaN _ \<longleftrightarrow> False"
| "f64_eq _ NaN \<longleftrightarrow> False"
| "f64_eq a b \<longleftrightarrow> a = b"

datatype ordering = Less | Equal | Greater

fun partial_cmp :: "f64 \<Rightarrow> f64 \<Rightarrow> ordering option" where
  "partial_cmp NaN _ = None"
| "partial_cmp _ NaN = None"
| "partial_cmp (Finite a) (Finite b) = Some (if a < b then Less else if a = b then Equal else Greater)"
| "partial_cmp PosInf PosInf = Some Equal"
| "partial_cmp NegInf NegInf = Some Equal"
| "partial_cmp PosInf _ = Some Greater"
| "partial_cmp _ PosInf = Some Less"
| "partial_cmp NegInf _ = Some Less"
| "partial_cmp _ NegInf = Some Greater"

section \<open>Context\<close>

record expr_context =
  roots :: "(string \<times> json) list"
  ctx_success :: bool
  ctx_failure :: bool
  ctx_cancelled :: bool
  workspace_dir :: "string option"

definition parse_usize :: "string \<Rightarrow> nat option" where
  "parse_usize s =
     (let digits = (case s of c # cs \<Rightarrow> if c = CHR ''+'' then cs else s | [] \<Rightarrow> [])
      in if digits \<noteq> [] \<and> list_all is_ascii_digit digits
         then opt_filter (\<lambda>n. int n < 2 ^ 64) (parse_digits digits) else None)"

definition array_element :: "string \<Rightarrow> json \<Rightarrow> json option" where
  "array_element segment v =
     (case v of
        JObject m \<Rightarrow> map_of m segment
      | JArray a \<Rightarrow> Option.bind (parse_usize segment) (slice_get a)
      | _ \<Rightarrow> None)"

definition resolve_segment :: "json \<Rightarrow> string \<Rightarrow> json" where
  "resolve_segment v segment =
     (if segment = ''*'' then
        (case v of
           JObject m \<Rightarrow> JArray (map snd m)
         | JArray a \<Rightarrow> JArray a
         | _ \<Rightarrow> JNull)
      else
        (case v of
           JObject m \<Rightarrow> unwrap_or (map_of m segment) JNull
         | JArray a \<Rightarrow> JArray (List.map_filter (array_element segment) a)
         | _ \<Rightarrow> JNull))"

definition resolve_value :: "json \<Rightarrow> string list \<Rightarrow> json" where
  "resolve_value v path = foldl resolve_segment v path"

definition resolve :: "expr_context \<Rightarrow> string list \<Rightarrow> json" where
  "resolve c path =
     (case path of
        [] \<Rightarrow> JNull
      | first # rest \<Rightarrow> foldl resolve_segment (unwrap_or (map_of (roots c) first) JNull) rest)"

fun resolve_ref_from :: "json \<Rightarrow> string list \<Rightarrow> json option" where
  "resolve_ref_from v [] = Some v"
| "resolve_ref_from v (segment # rest) =
     (if segment = ''*'' then None
      else case v of
        JObject m \<Rightarrow> Option.bind (map_of m segment) (\<lambda>v. resolve_ref_from v rest)
      | _ \<Rightarrow> None)"

definition resolve_ref :: "expr_context \<Rightarrow> string list \<Rightarrow> json option" where
  "resolve_ref c path =
     (case path of
        [] \<Rightarrow> None
      | first # rest \<Rightarrow> Option.bind (map_of (roots c) first) (\<lambda>v. resolve_ref_from v rest))"

definition merge_root :: "expr_context \<Rightarrow> string \<Rightarrow> json \<Rightarrow> expr_context" where
  "merge_root c key extra =
     (let merged = (case map_of (roots c) key of
            Some (JObject base) \<Rightarrow>
              JObject (case extra of JObject extra_map \<Rightarrow> map_extend base extra_map | _ \<Rightarrow> base)
          | _ \<Rightarrow> extra)
      in c\<lparr>roots := btree_insert key merged (roots c)\<rparr>)"

section \<open>Values\<close>

definition is_truthy :: "json \<Rightarrow> bool" where
  "is_truthy v =
     (case v of
        JNull \<Rightarrow> False
      | JBool b \<Rightarrow> b
      | JNumber n \<Rightarrow> as_f64 n \<noteq> Finite 0 \<and> as_f64 n \<noteq> NaN
      | JString s \<Rightarrow> s \<noteq> []
      | JArray _ \<Rightarrow> True
      | JObject _ \<Rightarrow> True)"

definition bool_text :: "bool \<Rightarrow> string" where
  "bool_text b = (if b then ''true'' else ''false'')"

fun number_text :: "expr_ext \<Rightarrow> jnum \<Rightarrow> string" where
  "number_text x (PosInt n) = nat_to_string n"
| "number_text x (NegInt i) = int_to_string i"
| "number_text x (JFloat q) =
     (if q = of_int (floor q) \<and> abs q < 10 ^ 15 then int_to_string (floor q) else float_text x q)"

fun string_value :: "expr_ext \<Rightarrow> json \<Rightarrow> string" where
  "string_value x JNull = []"
| "string_value x (JBool b) = bool_text b"
| "string_value x (JNumber n) = number_text x n"
| "string_value x (JString s) = s"
| "string_value x other = to_json_text x other"

fun is_primitive :: "json \<Rightarrow> bool" where
  "is_primitive (JArray _) \<longleftrightarrow> False"
| "is_primitive (JObject _) \<longleftrightarrow> False"
| "is_primitive _ \<longleftrightarrow> True"

subsection \<open>Numbers in strings\<close>

definition digit_value :: "char \<Rightarrow> nat option" where
  "digit_value c =
     (let n = (of_char c :: nat)
      in if 48 \<le> n \<and> n \<le> 57 then Some (n - 48)
         else if 97 \<le> n \<and> n \<le> 102 then Some (n - 87)
         else if 65 \<le> n \<and> n \<le> 70 then Some (n - 55)
         else None)"

fun radix_digits :: "nat \<Rightarrow> string \<Rightarrow> nat \<Rightarrow> nat option" where
  "radix_digits radix [] acc = Some acc"
| "radix_digits radix (c # cs) acc =
     Option.bind (opt_filter (\<lambda>d. d < radix) (digit_value c)) (\<lambda>d. radix_digits radix cs (acc * radix + d))"

text \<open>\<^verbatim>\<open>i32::from_str_radix\<close>.\<close>

definition i32_from_str_radix :: "string \<Rightarrow> nat \<Rightarrow> int option" where
  "i32_from_str_radix s radix =
     (let negative = (s \<noteq> [] \<and> hd s = CHR ''-'');
          digits = (if s \<noteq> [] \<and> (hd s = CHR ''-'' \<or> hd s = CHR ''+'') then tl s else s)
      in if digits = [] then None
         else opt_filter (\<lambda>i. - (2 ^ 31) \<le> i \<and> i < 2 ^ 31)
                (map_option (\<lambda>n. if negative then - int n else int n) (radix_digits radix digits 0)))"

text \<open>A decimal number split into sign, integer digits, fraction digits and exponent, where the
  whole string is one (\<^verbatim>\<open>is_decimal_number\<close>).\<close>

definition take_sign :: "string \<Rightarrow> bool \<times> string" where
  "take_sign s =
     (case s of
        c # cs \<Rightarrow> if c = CHR ''-'' then (True, cs) else if c = CHR ''+'' then (False, cs) else (False, s)
      | [] \<Rightarrow> (False, []))"

definition take_digits :: "string \<Rightarrow> string \<times> string" where
  "take_digits s = (takeWhile is_ascii_digit s, dropWhile is_ascii_digit s)"

definition take_fraction :: "string \<Rightarrow> string \<times> string" where
  "take_fraction s = (case s of c # cs \<Rightarrow> if c = CHR ''.'' then take_digits cs else ([], s) | [] \<Rightarrow> ([], []))"

definition take_exponent :: "string \<Rightarrow> (bool \<times> string \<times> string) option" where
  "take_exponent s =
     (if s \<noteq> [] \<and> (hd s = CHR ''e'' \<or> hd s = CHR ''E'') then
        (let (negative, rest) = take_sign (tl s); (digits, rest) = take_digits rest
         in if digits = [] then None else Some (negative, digits, rest))
      else Some (False, [], s))"

definition split_decimal :: "string \<Rightarrow> (bool \<times> string \<times> string \<times> bool \<times> string) option" where
  "split_decimal s =
     (let (negative, s) = take_sign s; (whole, s) = take_digits s; (fraction, s) = take_fraction s
      in if whole = [] \<and> fraction = [] then None
         else Option.bind (take_exponent s) (\<lambda>(eneg, edigits, rest).
           if rest = [] then Some (negative, whole, fraction, eneg, edigits) else None))"

definition is_decimal_number :: "string \<Rightarrow> bool" where
  "is_decimal_number s \<longleftrightarrow> split_decimal s \<noteq> None"

text \<open>\<^verbatim>\<open>str::parse::<f64>\<close> on a decimal number.\<close>

definition decimal_value :: "bool \<times> string \<times> string \<times> bool \<times> string \<Rightarrow> f64" where
  "decimal_value = (\<lambda>(negative, whole, fraction, eneg, edigits).
     let m = (of_nat (digits_value (whole @ fraction)) :: rat) / 10 ^ length fraction;
         e = 10 ^ digits_value edigits;
         q = (if eneg then m / e else m * e)
     in f64_round (if negative then - q else q))"

definition parse_number :: "string \<Rightarrow> f64" where
  "parse_number value =
     (let v = trim value
      in if v = [] then Finite 0
         else if v = ''Infinity'' then PosInf
         else if v = ''-Infinity'' then NegInf
         else case strip_prefix ''0x'' v of
           Some hex \<Rightarrow> (case i32_from_str_radix hex 16 of Some i \<Rightarrow> Finite (of_int i) | None \<Rightarrow> NaN)
         | None \<Rightarrow>
             (case strip_prefix ''0o'' v of
                Some octal \<Rightarrow> (case i32_from_str_radix octal 8 of Some i \<Rightarrow> Finite (of_int i) | None \<Rightarrow> NaN)
              | None \<Rightarrow> (case split_decimal v of Some p \<Rightarrow> decimal_value p | None \<Rightarrow> NaN)))"

fun numeric_value :: "json \<Rightarrow> f64 option" where
  "numeric_value (JNumber n) = Some (as_f64 n)"
| "numeric_value (JString s) = Some (parse_number s)"
| "numeric_value (JBool b) = Some (Finite (if b then 1 else 0))"
| "numeric_value JNull = Some (Finite 0)"
| "numeric_value _ = None"

subsection \<open>Comparison\<close>

definition is_ascii :: "string \<Rightarrow> bool" where
  "is_ascii s \<longleftrightarrow> list_all (\<lambda>c. (of_char c :: nat) < 128) s"

definition list_cmp :: "'a::linorder list \<Rightarrow> 'a list \<Rightarrow> ordering" where
  "list_cmp l r = (if l < r then Less else if l = r then Equal else Greater)"

definition compare_ordinal_ignore_case :: "expr_ext \<Rightarrow> string \<Rightarrow> string \<Rightarrow> ordering" where
  "compare_ordinal_ignore_case x left right =
     (if is_ascii left \<and> is_ascii right then list_cmp (to_upper left) (to_upper right)
      else list_cmp (simple_upper x left) (simple_upper x right))"

definition starts_with_ordinal_ignore_case :: "expr_ext \<Rightarrow> string \<Rightarrow> string \<Rightarrow> bool" where
  "starts_with_ordinal_ignore_case x haystack needle =
     (if needle = [] then True
      else if is_ascii haystack \<and> is_ascii needle then
        length needle \<le> length haystack \<and>
        list_all (\<lambda>(h, n). eq_ignore_ascii_case [h] [n]) (zip (take (length needle) haystack) needle)
      else (let h = simple_upper x haystack; n = simple_upper x needle in take (length n) h = n))"

definition ends_with_ordinal_ignore_case :: "expr_ext \<Rightarrow> string \<Rightarrow> string \<Rightarrow> bool" where
  "ends_with_ordinal_ignore_case x haystack needle =
     (if needle = [] then True
      else if is_ascii haystack \<and> is_ascii needle then
        length needle \<le> length haystack \<and>
        list_all (\<lambda>(h, n). eq_ignore_ascii_case [h] [n])
          (zip (drop (length haystack - length needle) haystack) needle)
      else (let h = rev (simple_upper x haystack); n = rev (simple_upper x needle) in take (length n) h = n))"

fun windows_any :: "'a list \<Rightarrow> 'a list \<Rightarrow> bool" where
  "windows_any n [] \<longleftrightarrow> n = []"
| "windows_any n (h # hs) \<longleftrightarrow> take (length n) (h # hs) = n \<or> windows_any n hs"

definition contains_ordinal_ignore_case :: "expr_ext \<Rightarrow> string \<Rightarrow> string \<Rightarrow> bool" where
  "contains_ordinal_ignore_case x haystack needle =
     (if needle = [] then True
      else if is_ascii haystack \<and> is_ascii needle then str_contains (to_upper haystack) (to_upper needle)
      else windows_any (simple_upper x needle) (simple_upper x haystack))"

definition eq_ordinal_ignore_case :: "expr_ext \<Rightarrow> string \<Rightarrow> string \<Rightarrow> bool" where
  "eq_ordinal_ignore_case x left right \<longleftrightarrow> compare_ordinal_ignore_case x left right = Equal"

text \<open>Two arrays or objects are never equal: the operands are distinct temporaries and are
  compared by address.\<close>

fun abstract_equal :: "expr_ext \<Rightarrow> json \<Rightarrow> json \<Rightarrow> bool" where
  "abstract_equal x JNull JNull \<longleftrightarrow> True"
| "abstract_equal x (JBool a) (JBool b) \<longleftrightarrow> a = b"
| "abstract_equal x (JNumber a) (JNumber b) \<longleftrightarrow> f64_eq (as_f64 a) (as_f64 b)"
| "abstract_equal x (JString a) (JString b) \<longleftrightarrow> eq_ordinal_ignore_case x a b"
| "abstract_equal x a b \<longleftrightarrow>
     is_primitive a \<and> is_primitive b \<and>
     (case (numeric_value a, numeric_value b) of (Some l, Some r) \<Rightarrow> f64_eq l r | _ \<Rightarrow> False)"

definition compare_values :: "expr_ext \<Rightarrow> json \<Rightarrow> json \<Rightarrow> (ordering \<Rightarrow> bool) \<Rightarrow> bool" where
  "compare_values x left right predicate =
     (case (left, right) of
        (JString l, JString r) \<Rightarrow> predicate (compare_ordinal_ignore_case x l r)
      | _ \<Rightarrow>
          (case (numeric_value left, numeric_value right) of
             (Some l, Some r) \<Rightarrow> (case partial_cmp l r of Some ord \<Rightarrow> predicate ord | None \<Rightarrow> False)
           | _ \<Rightarrow> predicate (compare_ordinal_ignore_case x (string_value x left) (string_value x right))))"

fun combine_binary :: "expr_ext \<Rightarrow> binary_op \<Rightarrow> json \<Rightarrow> json \<Rightarrow> json" where
  "combine_binary x OpOr l r = r"
| "combine_binary x OpAnd l r = r"
| "combine_binary x OpEq l r = JBool (abstract_equal x l r)"
| "combine_binary x OpNe l r = JBool (\<not> abstract_equal x l r)"
| "combine_binary x OpGt l r = JBool (compare_values x l r (\<lambda>ord. ord = Greater))"
| "combine_binary x OpGe l r = JBool (compare_values x l r (\<lambda>ord. ord \<noteq> Less))"
| "combine_binary x OpLt l r = JBool (compare_values x l r (\<lambda>ord. ord = Less))"
| "combine_binary x OpLe l r = JBool (compare_values x l r (\<lambda>ord. ord \<noteq> Greater))"

fun contains :: "expr_ext \<Rightarrow> json \<Rightarrow> json \<Rightarrow> bool" where
  "contains x (JString s) needle \<longleftrightarrow> contains_ordinal_ignore_case x s (string_value x needle)"
| "contains x (JArray vs) needle \<longleftrightarrow> list_ex (\<lambda>v. abstract_equal x v needle) vs"
| "contains x _ needle \<longleftrightarrow> False"

section \<open>The evaluation budget\<close>

fun value_size :: "json \<Rightarrow> nat" where
  "value_size JNull = 16"
| "value_size (JBool _) = 16"
| "value_size (JNumber _) = 32"
| "value_size (JString s) = 24 + length s"
| "value_size (JArray vs) = 24 + sum_list (map (\<lambda>v. 16 + value_size v) vs)"
| "value_size (JObject m) = sum_list (map (\<lambda>(k, v). 32 + length k + value_size v) m)"

definition MAX_EVALUATED_VALUE_BYTES :: nat where "MAX_EVALUATED_VALUE_BYTES = 8 * 1024 * 1024"

definition remaining :: "nat \<Rightarrow> nat" where "remaining used = MAX_EVALUATED_VALUE_BYTES - used"

definition evaluation_too_large :: expression_error where
  "evaluation_too_large = EvaluationTooLarge MAX_EVALUATED_VALUE_BYTES"

text \<open>The checked addition and the comparison with the limit fail with the same error, and the
  limit is below the range of \<^verbatim>\<open>usize\<close>.\<close>

definition charge :: "nat \<Rightarrow> json \<Rightarrow> expression_error + nat" where
  "charge used v =
     (if MAX_EVALUATED_VALUE_BYTES < used + value_size v then Inl evaluation_too_large
      else Inr (used + value_size v))"

section \<open>Text of a value within a limit\<close>

text \<open>\<^verbatim>\<open>CappedJsonWriter\<close> refuses the first write past its limit: the text is produced exactly when
  it fits. \<^verbatim>\<open>string_value_bounded\<close> caps only arrays and objects.\<close>

definition capped_text :: "string \<Rightarrow> nat \<Rightarrow> string option" where
  "capped_text text_of_value limit = (if length text_of_value \<le> limit then Some text_of_value else None)"

definition string_value_bounded :: "expr_ext \<Rightarrow> json \<Rightarrow> nat \<Rightarrow> expression_error \<Rightarrow> expression_error + string" where
  "string_value_bounded x v limit overflow =
     (if is_primitive v then Inr (string_value x v)
      else case capped_text (to_json_text x v) limit of Some t \<Rightarrow> Inr t | None \<Rightarrow> Inl overflow)"

definition string_value_capped :: "expr_ext \<Rightarrow> json \<Rightarrow> nat \<Rightarrow> expression_error + string" where
  "string_value_capped x v limit = string_value_bounded x v limit evaluation_too_large"

definition to_json_pretty :: "expr_ext \<Rightarrow> nat \<Rightarrow> json \<Rightarrow> expression_error + string" where
  "to_json_pretty x used v =
     (case capped_text (to_json_pretty_text x v) (remaining used) of
        Some t \<Rightarrow> Inr t
      | None \<Rightarrow> Inl evaluation_too_large)"

section \<open>format and join\<close>

definition MAX_FORMAT_OUTPUT_BYTES :: nat where "MAX_FORMAT_OUTPUT_BYTES = 1024 * 1024"

definition format_overflow :: expression_error where
  "format_overflow = FormatOutputTooLarge MAX_FORMAT_OUTPUT_BYTES"

definition push_format_capped :: "nat \<Rightarrow> string \<Rightarrow> string \<Rightarrow> expression_error + string" where
  "push_format_capped used out segment =
     (if MAX_FORMAT_OUTPUT_BYTES - length out < length segment then Inl format_overflow
      else if remaining used - length out < length segment then Inl evaluation_too_large
      else Inr (out @ segment))"

text \<open>\<^verbatim>\<open>str::parse::<u8>\<close> on digits.\<close>

definition parse_u8 :: "string \<Rightarrow> nat option" where
  "parse_u8 digits = opt_filter (\<lambda>n. n < 256) (parse_digits digits)"

text \<open>The argument a placeholder names, and what follows the placeholder.\<close>

definition placeholder :: "json list \<Rightarrow> string \<Rightarrow> string \<Rightarrow> expression_error + json \<times> string" where
  "placeholder values template cs =
     (let digits = takeWhile is_ascii_digit cs; rest = dropWhile is_ascii_digit cs
      in if digits = [] then Inl (InvalidFormat template)
         else case parse_u8 digits of
           None \<Rightarrow> Inl (InvalidFormat template)
         | Some i \<Rightarrow>
             (case rest of
                [] \<Rightarrow> Inl (InvalidFormat template)
              | c # rest \<Rightarrow>
                  if c = CHR ''}'' then
                    (case slice_get values (i + 1) of
                       Some v \<Rightarrow> Inr (v, rest)
                     | None \<Rightarrow> Inl (InvalidFormat template))
                  else Inl (InvalidFormat template)))"

lemma placeholder_shorter: "placeholder values template cs = Inr (v, rest) \<Longrightarrow> length rest < length cs"
proof -
  assume a: "placeholder values template cs = Inr (v, rest)"
  have "Suc (length rest) \<le> length (dropWhile is_ascii_digit cs)"
    using a by (auto simp: placeholder_def Let_def split: if_splits option.splits list.splits)
  then show ?thesis using length_dropWhile_le [of is_ascii_digit cs] by linarith
qed

text \<open>The loop of \<^verbatim>\<open>format_args\<close>: \<open>out\<close> is the output, \<open>segment\<close> the text from \<^verbatim>\<open>segment_start\<close> to
  \<^verbatim>\<open>index\<close>, the last argument what is left of the template.\<close>

function format_loop :: "expr_ext \<Rightarrow> nat \<Rightarrow> json list \<Rightarrow> string \<Rightarrow> string \<Rightarrow> string \<Rightarrow> string \<Rightarrow> expression_error + string" where
  "format_loop x used values template out segment [] = push_format_capped used out segment"
| "format_loop x used values template out segment (c # cs) =
     (if c = CHR ''{'' then
        and_then (push_format_capped used out segment) (\<lambda>out.
          if cs \<noteq> [] \<and> hd cs = CHR ''{'' then
            and_then (push_format_capped used out ''{'') (\<lambda>out.
              format_loop x used values template out [] (tl cs))
          else
            and_then (placeholder values template cs) (\<lambda>(v, rest).
              and_then (string_value_bounded x v (MAX_FORMAT_OUTPUT_BYTES - length out) format_overflow) (\<lambda>rendered.
                and_then (push_format_capped used out rendered) (\<lambda>out.
                  format_loop x used values template out [] rest))))
      else if c = CHR ''}'' then
        and_then (push_format_capped used out segment) (\<lambda>out.
          if cs = [] \<or> hd cs \<noteq> CHR ''}'' then Inl (InvalidFormat template)
          else and_then (push_format_capped used out ''}'') (\<lambda>out.
            format_loop x used values template out [] (tl cs)))
      else format_loop x used values template out (segment @ [c]) cs)"
  by pat_completeness auto
termination
  by (relation "measure (\<lambda>(x, used, values, template, out, segment, rest). length rest)")
    (auto simp: less_Suc_eq_le dest: placeholder_shorter)

definition format_args :: "expr_ext \<Rightarrow> nat \<Rightarrow> json list \<Rightarrow> expression_error + string" where
  "format_args x used values =
     and_then (string_value_bounded x (unwrap_or (slice_get values 0) JNull) MAX_FORMAT_OUTPUT_BYTES format_overflow)
       (\<lambda>template. format_loop x used values template [] [] template)"

definition push_evaluation_capped :: "nat \<Rightarrow> string \<Rightarrow> string \<Rightarrow> expression_error + string" where
  "push_evaluation_capped used out segment =
     (if remaining used - length out < length segment then Inl evaluation_too_large else Inr (out @ segment))"

fun join_loop :: "expr_ext \<Rightarrow> nat \<Rightarrow> string \<Rightarrow> string \<Rightarrow> bool \<Rightarrow> json list \<Rightarrow> expression_error + string" where
  "join_loop x used separator out first [] = Inr out"
| "join_loop x used separator out first (v # vs) =
     and_then (if first then Inr out else push_evaluation_capped used out separator) (\<lambda>out.
       and_then (string_value_capped x v (remaining used - length out)) (\<lambda>rendered.
         and_then (push_evaluation_capped used out rendered) (\<lambda>out.
           join_loop x used separator out False vs)))"

definition join_args :: "expr_ext \<Rightarrow> nat \<Rightarrow> json list \<Rightarrow> expression_error + string" where
  "join_args x used values =
     and_then
       (case slice_get values 1 of
          Some v \<Rightarrow> if is_primitive v then string_value_capped x v (remaining used) else Inr '',''
        | None \<Rightarrow> Inr '','')
       (\<lambda>separator.
          case slice_get values 0 of
            Some (JArray items) \<Rightarrow> join_loop x used separator [] True items
          | Some v \<Rightarrow>
              if is_primitive v then
                and_then (string_value_capped x v (remaining used)) (push_evaluation_capped used [])
              else Inr []
          | None \<Rightarrow> Inr [])"

end
