(* ===== verification/Lenient_Json.thy ===== *)
theory Lenient_Json
  imports Expr_Value
begin

text \<open>
  The lenient JSON reader behind \<^verbatim>\<open>fromJSON\<close> (\<^verbatim>\<open>from_json_lenient\<close> and \<^verbatim>\<open>normalize_newtonsoft_json\<close>
  of \<^verbatim>\<open>evaluator.rs\<close>): strict parsing first; when that fails, single-quoted strings, comments and
  trailing commas are rewritten and the result is parsed again. An index into the characters is
  the rest of the input.
\<close>

definition BACKSLASH :: char where "BACKSLASH = CHR 0x5C"
definition DQUOTE :: char where "DQUOTE = CHR 0x22"
definition NEWLINE :: char where "NEWLINE = CHR 0x0A"

text \<open>The inside of a block comment, up to and with its end.\<close>

fun skip_block_comment :: "string \<Rightarrow> string option" where
  "skip_block_comment (c # d # cs) =
     (if c = CHR ''*'' \<and> d = CHR ''/'' then Some cs else skip_block_comment (d # cs))"
| "skip_block_comment _ = None"

definition skip_line_comment :: "string \<Rightarrow> string" where
  "skip_line_comment cs = dropWhile (\<lambda>c. c \<noteq> NEWLINE) cs"

datatype comment_kind = LineComment | BlockComment

definition comment_start :: "string \<Rightarrow> comment_kind option" where
  "comment_start cs =
     (case cs of
        c # d # _ \<Rightarrow>
          if c = CHR ''/'' \<and> d = CHR ''/'' then Some LineComment
          else if c = CHR ''/'' \<and> d = CHR ''*'' then Some BlockComment
          else None
      | _ \<Rightarrow> None)"

lemma skip_block_comment_shorter: "skip_block_comment cs = Some rest \<Longrightarrow> length rest < length cs"
  by (induction cs rule: skip_block_comment.induct) (auto split: if_splits)

lemma skip_line_comment_length: "length (skip_line_comment cs) \<le> length cs"
  by (simp add: skip_line_comment_def length_dropWhile_le)

lemma comment_start_length: "comment_start cs = Some k \<Longrightarrow> 2 \<le> length cs"
  by (auto simp: comment_start_def split: list.splits)

function next_non_comment_character :: "string \<Rightarrow> char option" where
  "next_non_comment_character cs =
     (let cs = dropWhile is_whitespace cs
      in case comment_start cs of
        Some LineComment \<Rightarrow> next_non_comment_character (skip_line_comment (drop 2 cs))
      | Some BlockComment \<Rightarrow>
          (case skip_block_comment (drop 2 cs) of
             Some rest \<Rightarrow> next_non_comment_character rest
           | None \<Rightarrow> None)
      | None \<Rightarrow> (case cs of c # _ \<Rightarrow> Some c | [] \<Rightarrow> None))"
  by pat_completeness auto

lemma after_space: "length (dropWhile is_whitespace cs) \<le> length cs"
  by (rule length_dropWhile_le)

termination next_non_comment_character
proof (relation "measure length", goal_cases)
  case (2 cs w k)
  then have "2 \<le> length w" by (simp add: comment_start_length)
  moreover have "length w \<le> length cs" using 2 by (simp add: after_space)
  ultimately show ?case using skip_line_comment_length [of "drop 2 w"] by simp
next
  case (3 cs w k rest)
  have "length rest < length (drop 2 w)" using 3 by (intro skip_block_comment_shorter) simp
  moreover have "length w \<le> length cs" using 3 by (simp add: after_space)
  ultimately show ?case by simp
qed simp

declare next_non_comment_character.simps [simp del]

text \<open>A double-quoted string is copied verbatim, escapes included. The result is what is written
  and what is left.\<close>

fun copy_double :: "bool \<Rightarrow> string \<Rightarrow> string \<times> string" where
  "copy_double escaped [] = ([], [])"
| "copy_double escaped (c # cs) =
     (if escaped then (let (out, rest) = copy_double False cs in (c # out, rest))
      else if c = BACKSLASH then (let (out, rest) = copy_double True cs in (c # out, rest))
      else if c = DQUOTE then ([c], cs)
      else (let (out, rest) = copy_double False cs in (c # out, rest)))"

definition escaped_char :: "char \<Rightarrow> string" where
  "escaped_char c =
     (if c = QUOTE then [QUOTE] else if c = DQUOTE then [BACKSLASH, DQUOTE] else [BACKSLASH, c])"

text \<open>A single-quoted string becomes a double-quoted one.\<close>

fun copy_single :: "bool \<Rightarrow> string \<Rightarrow> string \<times> string" where
  "copy_single escaped [] = ([], [])"
| "copy_single escaped (c # cs) =
     (if escaped then (let (out, rest) = copy_single False cs in (escaped_char c @ out, rest))
      else if c = BACKSLASH then copy_single True cs
      else if c = QUOTE then ([DQUOTE], cs)
      else if c = DQUOTE then (let (out, rest) = copy_single False cs in ([BACKSLASH, DQUOTE] @ out, rest))
      else (let (out, rest) = copy_single False cs in (c # out, rest)))"

lemma copy_double_length: "length (snd (copy_double escaped cs)) \<le> length cs"
  by (induction cs arbitrary: escaped) (auto simp: case_prod_beta le_SucI)

lemma copy_single_length: "length (snd (copy_single escaped cs)) \<le> length cs"
  by (induction cs arbitrary: escaped) (auto simp: case_prod_beta le_SucI)

definition trailing_comma :: "char list \<Rightarrow> string \<Rightarrow> bool" where
  "trailing_comma containers rest =
     (case (containers, next_non_comment_character rest) of
        (o1 # _, Some c) \<Rightarrow> (o1 = CHR ''{'' \<and> c = CHR ''}'') \<or> (o1 = CHR ''['' \<and> c = CHR '']'')
      | _ \<Rightarrow> False)"

text \<open>The main loop. \<open>containers\<close> is the stack of open brackets, innermost first; the result is
  what is written and whether anything was rewritten.\<close>

definition keep_text :: "string \<Rightarrow> (string \<times> bool) option \<Rightarrow> (string \<times> bool) option" where
  "keep_text t r = map_option (\<lambda>(out, changed). (t @ out, changed)) r"

definition rewrite_as :: "string \<Rightarrow> (string \<times> bool) option \<Rightarrow> (string \<times> bool) option" where
  "rewrite_as t r = map_option (\<lambda>(out, changed). (t @ out, True)) r"

lemma skip_line_comment_tl: "length (skip_line_comment (tl cs)) \<le> length cs"
  by (rule le_trans [OF skip_line_comment_length]) simp

lemma skip_block_comment_tl: "skip_block_comment (tl cs) = Some rest \<Longrightarrow> length rest \<le> length cs"
  by (drule skip_block_comment_shorter) simp

function normalize_loop :: "char list \<Rightarrow> bool \<Rightarrow> string \<Rightarrow> (string \<times> bool) option" where
  "normalize_loop containers previous_was_value [] = Some ([], False)"
| "normalize_loop containers previous_was_value (c # cs) =
     (if c = DQUOTE then
        keep_text (c # fst (copy_double False cs)) (normalize_loop containers True (snd (copy_double False cs)))
      else if c = QUOTE then
        rewrite_as (DQUOTE # fst (copy_single False cs)) (normalize_loop containers True (snd (copy_single False cs)))
      else case comment_start (c # cs) of
        Some LineComment \<Rightarrow>
          rewrite_as '' '' (normalize_loop containers previous_was_value (skip_line_comment (tl cs)))
      | Some BlockComment \<Rightarrow>
          (case skip_block_comment (tl cs) of
             Some rest \<Rightarrow> rewrite_as '' '' (normalize_loop containers previous_was_value rest)
           | None \<Rightarrow> None)
      | None \<Rightarrow>
          if c = CHR '','' then
            if previous_was_value \<and> trailing_comma containers cs
            then rewrite_as [] (normalize_loop containers previous_was_value cs)
            else keep_text [c] (normalize_loop containers False cs)
          else if c = CHR ''{'' \<or> c = CHR ''['' then keep_text [c] (normalize_loop (c # containers) False cs)
          else if c = CHR ''}'' \<or> c = CHR '']'' then
            (let opener = (if c = CHR ''}'' then CHR ''{'' else CHR ''['');
                 containers = (if containers \<noteq> [] \<and> hd containers = opener then tl containers else containers)
             in keep_text [c] (normalize_loop containers True cs))
          else if c = CHR '':'' then keep_text [c] (normalize_loop containers False cs)
          else if is_whitespace c then keep_text [c] (normalize_loop containers previous_was_value cs)
          else keep_text [c] (normalize_loop containers True cs))"
  by pat_completeness auto
termination
  by (relation "measure (\<lambda>(containers, previous, cs). length cs)")
    (auto simp: less_Suc_eq_le copy_double_length copy_single_length skip_line_comment_tl
      dest: skip_block_comment_tl)

definition normalize_newtonsoft_json :: "string \<Rightarrow> string option" where
  "normalize_newtonsoft_json input =
     (case normalize_loop [] False input of
        Some (out, changed) \<Rightarrow> if changed then Some out else None
      | None \<Rightarrow> None)"

definition from_json_lenient :: "expr_ext \<Rightarrow> string \<Rightarrow> string + json" where
  "from_json_lenient x input =
     (case from_str x input of
        Inr v \<Rightarrow> Inr v
      | Inl strict_error \<Rightarrow>
          (case normalize_newtonsoft_json input of
             Some normalized \<Rightarrow> (case from_str x normalized of Inr v \<Rightarrow> Inr v | Inl _ \<Rightarrow> Inl strict_error)
           | None \<Rightarrow> Inl strict_error))"

end
