(* ===== verification/Hash_Files.thy ===== *)
theory Hash_Files
  imports Expr_Value
begin

text \<open>
  \<^verbatim>\<open>hashFiles\<close> (\<^verbatim>\<open>hash_files\<close> and \<^verbatim>\<open>handle_under_root\<close> of \<^verbatim>\<open>evaluator.rs\<close>): which files of the
  workspace an expression may read, under which limits.

  The file system, \<^verbatim>\<open>glob\<close> and SHA-256 are the record \<open>file_system\<close>. What a path names while the
  patterns are expanded (\<open>canonicalize\<close>, \<open>symlink_metadata\<close>, \<open>is_regular\<close>) and what opening it gives
  later (\<open>open_file\<close>) are separate fields: nothing is assumed about how they relate, so a path may
  be swapped in between. Opening gives the kernel's path of the handle, if \<^verbatim>\<open>/proc/self/fd\<close> can be
  read, and the bytes, if reading them succeeds. Paths are Unix paths.
\<close>

section \<open>Paths\<close>

datatype component = RootDir | CurDir | ParentDir | Normal string

text \<open>\<^verbatim>\<open>Component\<close> derives its order from the variants in declaration order. \<open>component_key\<close> gives
  it as the order of texts.\<close>

fun component_key :: "component \<Rightarrow> string" where
  "component_key RootDir = [CHR 0x01]"
| "component_key CurDir = [CHR 0x02]"
| "component_key ParentDir = [CHR 0x03]"
| "component_key (Normal s) = CHR 0x04 # s"

lemma component_key_inject: "component_key a = component_key b \<longleftrightarrow> a = b"
  by (cases a; cases b) auto

instantiation component :: linorder
begin

definition less_eq_component :: "component \<Rightarrow> component \<Rightarrow> bool" where
  "a \<le> b \<longleftrightarrow> component_key a \<le> component_key b"

definition less_component :: "component \<Rightarrow> component \<Rightarrow> bool" where
  "a < b \<longleftrightarrow> component_key a < component_key b"

instance
  by standard
    (auto simp: less_eq_component_def less_component_def component_key_inject [symmetric] simp del: component_key.simps)

end

fun split_slash :: "string \<Rightarrow> string \<Rightarrow> string list" where
  "split_slash part [] = [part]"
| "split_slash part (c # cs) = (if c = CHR ''/'' then part # split_slash [] cs else split_slash (part @ [c]) cs)"

fun normal_components :: "string list \<Rightarrow> component list" where
  "normal_components [] = []"
| "normal_components (p # ps) =
     (if p = [] \<or> p = ''.'' then normal_components ps
      else if p = ''..'' then ParentDir # normal_components ps
      else Normal p # normal_components ps)"

text \<open>\<^verbatim>\<open>Path::components\<close>: repeated separators and inner dots vanish; a leading dot is kept.\<close>

definition components :: "string \<Rightarrow> component list" where
  "components path =
     (let parts = split_slash [] path
      in (if path \<noteq> [] \<and> hd path = CHR ''/'' then [RootDir] else if hd parts = ''.'' then [CurDir] else [])
         @ normal_components parts)"

definition path_starts_with :: "string \<Rightarrow> string \<Rightarrow> bool" where
  "path_starts_with path base \<longleftrightarrow> take (length (components base)) (components path) = components base"

section \<open>The function\<close>

datatype file_kind = RegularFile | Directory | Symlink | OtherKind

record file_system =
  canonicalize :: "string \<Rightarrow> string option"
  glob_paths :: "string \<Rightarrow> string list option"
  symlink_metadata :: "string \<Rightarrow> file_kind option"
  is_regular :: "string \<Rightarrow> bool"
  open_file :: "string \<Rightarrow> (string option \<times> string option) option"
  sha256 :: "string \<Rightarrow> string"
  hex_text :: "string \<Rightarrow> string"

definition MAX_FILES :: nat where "MAX_FILES = 10000"
definition MAX_VISITED :: nat where "MAX_VISITED = 100000"
definition MAX_TOTAL_BYTES :: nat where "MAX_TOTAL_BYTES = 100 * 1024 * 1024"

text \<open>Options and patterns: the first text that is not empty may be the one option.\<close>

fun hash_arguments :: "bool \<Rightarrow> string list \<Rightarrow> expression_error + bool \<times> string list" where
  "hash_arguments first [] = Inr (False, [])"
| "hash_arguments first (s # ss) =
     (if s = [] then hash_arguments first ss
      else if first \<and> starts_with ''--'' s then
        if eq_ignore_ascii_case s ''--follow-symbolic-links''
        then and_then (hash_arguments False ss) (\<lambda>(_, patterns). Inr (True, patterns))
        else Inl (InvalidHashFilesOption s)
      else and_then (hash_arguments False ss) (\<lambda>(follow, patterns). Inr (follow, s # patterns)))"

definition disallowed :: "string \<Rightarrow> bool" where
  "disallowed pattern \<longleftrightarrow> list_ex (\<lambda>c. c = ParentDir \<or> c = RootDir) (components pattern)"

text \<open>Whether a matched entry is taken: a regular file, or a link to one when links are followed,
  whose canonical path stays under the workspace.\<close>

definition entry_taken :: "file_system \<Rightarrow> bool \<Rightarrow> string \<Rightarrow> string \<Rightarrow> bool" where
  "entry_taken fs follow ws_root entry =
     (case symlink_metadata fs entry of
        None \<Rightarrow> False
      | Some kind \<Rightarrow>
          (if kind = Symlink then follow else kind = RegularFile) \<and>
          (case canonicalize fs entry of
             None \<Rightarrow> False
           | Some canonical \<Rightarrow> path_starts_with canonical ws_root \<and> is_regular fs canonical))"

text \<open>One pattern's entries: the number visited so far and the paths seen. Paths are equal when their
  components are.\<close>

fun visit_entries :: "file_system \<Rightarrow> bool \<Rightarrow> string \<Rightarrow> nat \<times> string list \<Rightarrow> string list \<Rightarrow> expression_error + nat \<times> string list" where
  "visit_entries fs follow ws_root (visited, seen) [] = Inr (visited, seen)"
| "visit_entries fs follow ws_root (visited, seen) (entry # entries) =
     (if MAX_VISITED < visited + 1 then Inl (HashFilesTraversalLimit MAX_VISITED)
      else if \<not> entry_taken fs follow ws_root entry \<or> components entry \<in> set (map components seen) then
        visit_entries fs follow ws_root (visited + 1, seen) entries
      else if MAX_FILES < length seen + 1 then Inl (HashFilesTooManyFiles MAX_FILES)
      else visit_entries fs follow ws_root (visited + 1, entry # seen) entries)"

fun expand_patterns :: "file_system \<Rightarrow> bool \<Rightarrow> string \<Rightarrow> string \<Rightarrow> nat \<times> string list \<Rightarrow> string list \<Rightarrow> expression_error + nat \<times> string list" where
  "expand_patterns fs follow workspace ws_root st [] = Inr st"
| "expand_patterns fs follow workspace ws_root st (pattern # patterns) =
     (if disallowed pattern then Inl (HashFilesDisallowedPattern pattern)
      else case glob_paths fs (workspace @ ''/'' @ pattern) of
        None \<Rightarrow> expand_patterns fs follow workspace ws_root st patterns
      | Some entries \<Rightarrow>
          and_then (visit_entries fs follow ws_root st entries) (\<lambda>st.
            expand_patterns fs follow workspace ws_root st patterns))"

definition handle_under_root :: "string option \<Rightarrow> string \<Rightarrow> bool" where
  "handle_under_root fd_path ws_root = (case fd_path of Some p \<Rightarrow> path_starts_with p ws_root | None \<Rightarrow> False)"

text \<open>What an opened path contributes: its bytes, when the handle is under the root and the read
  succeeds.\<close>

definition readable :: "file_system \<Rightarrow> string \<Rightarrow> string \<Rightarrow> string option" where
  "readable fs ws_root path =
     Option.bind (open_file fs path) (\<lambda>(fd_path, bytes).
       if handle_under_root fd_path ws_root then bytes else None)"

text \<open>The digests of the files, while their total stays within the budget. The reader takes one
  byte past the budget, so a file over it is noticed.\<close>

fun hash_paths :: "file_system \<Rightarrow> string \<Rightarrow> nat \<Rightarrow> string list \<Rightarrow> expression_error + string" where
  "hash_paths fs ws_root used [] = Inr []"
| "hash_paths fs ws_root used (path # paths) =
     (case readable fs ws_root path of
        None \<Rightarrow> hash_paths fs ws_root used paths
      | Some bytes \<Rightarrow>
          (let budget = MAX_TOTAL_BYTES - used; limited = take (budget + 1) bytes
           in if budget < length limited then Inl (HashFilesTooLarge MAX_TOTAL_BYTES)
              else and_then (hash_paths fs ws_root (used + length limited) paths) (\<lambda>combined.
                Inr (sha256 fs limited @ combined))))"

definition hash_files :: "file_system \<Rightarrow> expr_ext \<Rightarrow> expr_context \<Rightarrow> json list \<Rightarrow> expression_error + string" where
  "hash_files fs x c values =
     (case workspace_dir c of
        None \<Rightarrow> Inr []
      | Some workspace \<Rightarrow>
          and_then (hash_arguments True (map (string_value x) values)) (\<lambda>(follow, patterns).
            case canonicalize fs workspace of
              None \<Rightarrow> Inr []
            | Some ws_root \<Rightarrow>
                and_then (expand_patterns fs follow workspace ws_root (0, []) patterns) (\<lambda>(_, seen).
                  if seen = [] then Inr []
                  else and_then (hash_paths fs ws_root 0 (sort_key components seen)) (\<lambda>combined.
                    if combined = [] then Inr [] else Inr (hex_text fs (sha256 fs combined))))))"

section \<open>Confinement\<close>






section \<open>What is hashed\<close>













definition one_file_system :: file_system where
  "one_file_system =
     \<lparr>canonicalize = Some, glob_paths = (\<lambda>_. Some [''/w/a'']), symlink_metadata = (\<lambda>_. Some RegularFile),
      is_regular = (\<lambda>_. True), open_file = (\<lambda>p. Some (Some p, Some ''data'')), sha256 = id, hex_text = id\<rparr>"

definition plain_ext :: expr_ext where
  "plain_ext =
     \<lparr>from_str = (\<lambda>_. Inl []), to_json_text = (\<lambda>_. []), to_json_pretty_text = (\<lambda>_. []), float_text = (\<lambda>_. []),
      simple_upper = map of_char\<rparr>"

definition plain_context :: expr_context where
  "plain_context =
     \<lparr>roots = [], ctx_success = True, ctx_failure = False, ctx_cancelled = False, workspace_dir = Some ''/w''\<rparr>"



section \<open>What is outside the workspace does not matter\<close>

text \<open>The file system in which a path opens only when the kernel's path of the handle is under the
  workspace root.\<close>

definition confine :: "string \<Rightarrow> file_system \<Rightarrow> file_system" where
  "confine ws_root fs =
     fs\<lparr>open_file := (\<lambda>path. Option.bind (open_file fs path) (\<lambda>(fd_path, bytes).
       if handle_under_root fd_path ws_root then Some (fd_path, bytes) else None))\<rparr>"

lemma confine_simps [simp]:
  "canonicalize (confine r fs) = canonicalize fs" "glob_paths (confine r fs) = glob_paths fs"
  "symlink_metadata (confine r fs) = symlink_metadata fs" "is_regular (confine r fs) = is_regular fs"
  "sha256 (confine r fs) = sha256 fs" "hex_text (confine r fs) = hex_text fs"
  by (simp_all add: confine_def)

lemma entry_taken_confine [simp]: "entry_taken (confine r fs) follow ws_root e = entry_taken fs follow ws_root e"
  by (simp add: entry_taken_def cong: option.case_cong)

lemma readable_confine: "readable (confine ws_root fs) ws_root path = readable fs ws_root path"
  by (auto simp: readable_def confine_def split: option.splits bind_splits)

lemma visit_entries_confine: "visit_entries (confine r fs) follow ws_root st es = visit_entries fs follow ws_root st es"
  by (induction fs follow ws_root st es rule: visit_entries.induct) auto

lemma expand_patterns_confine:
  "expand_patterns (confine r fs) follow w ws_root st ps = expand_patterns fs follow w ws_root st ps"
  by (induction ps arbitrary: st) (auto simp: visit_entries_confine split: option.splits intro!: and_then_cong)

lemma hash_paths_confine: "hash_paths (confine ws_root fs) ws_root used ps = hash_paths fs ws_root used ps"
  by (induction ps arbitrary: used) (auto simp: readable_confine Let_def split: option.splits intro!: and_then_cong)

text \<open>C16. \<^verbatim>\<open>hashFiles\<close> is no oracle for files outside the workspace: whatever paths become between
  the check and the open, hiding every handle that is not under the workspace root changes no result
  and no error.\<close>

theorem hash_files_confined:
  assumes "workspace_dir c = Some workspace" "canonicalize fs workspace = Some ws_root"
  shows "hash_files fs x c values = hash_files (confine ws_root fs) x c values"
  using assms by (simp add: hash_files_def expand_patterns_confine hash_paths_confine cong: option.case_cong if_cong)

theorem hash_files_confined_witness:
  "hash_files one_file_system plain_ext plain_context [JString ''*''] =
   hash_files (confine ''/w'' one_file_system) plain_ext plain_context [JString ''*'']"
  by (rule hash_files_confined [where workspace = "''/w''"]) (simp_all add: plain_context_def one_file_system_def)

end
