(* ===== verification/Expr_Eval.thy ===== *)
theory Expr_Eval
  imports Expr_Syntax Lenient_Json Hash_Files
begin

text \<open>
  The evaluator (\<^verbatim>\<open>eval\<close> and its helpers in \<^verbatim>\<open>evaluator.rs\<close>) and the entry points of the crate
  (\<^verbatim>\<open>lib.rs\<close>, \<^verbatim>\<open>conditions.rs\<close>).

  The budget's \<^verbatim>\<open>used_bytes\<close> is passed along and returned; its \<^verbatim>\<open>eval_depth\<close>, which the source
  restores on the way out, is the argument \<open>depth\<close>. An error ends the evaluation.
\<close>

section \<open>Functions\<close>

definition function_arity :: "string \<Rightarrow> (nat \<times> nat) option" where
  "function_arity name =
     (if name = ''always'' \<or> name = ''cancelled'' then Some (0, 0)
      else if name = ''success'' \<or> name = ''failure'' then Some (0, 255)
      else if name = ''contains'' \<or> name = ''startswith'' \<or> name = ''endswith'' then Some (2, 2)
      else if name = ''format'' then Some (1, 255)
      else if name = ''fromjson'' \<or> name = ''tojson'' then Some (1, 1)
      else if name = ''join'' then Some (1, 2)
      else if name = ''hashfiles'' then Some (1, 255)
      else if name = ''case'' then Some (3, 255)
      else None)"

definition validate_function_arity :: "string \<Rightarrow> nat \<Rightarrow> expression_error + unit" where
  "validate_function_arity name actual =
     (let lower = to_lower name
      in case function_arity lower of
        None \<Rightarrow> Inl (UnknownFunction name)
      | Some (lo, hi) \<Rightarrow>
          if lower = ''case'' \<and> even actual then Inl EvenCaseParameters
          else if \<not> (lo \<le> actual \<and> actual \<le> hi) then Inl (InvalidFunctionArity name lo hi actual)
          else Inr ())"

fun validate_function_calls :: "expr \<Rightarrow> expression_error + unit" where
  "validate_function_calls (Literal _) = Inr ()"
| "validate_function_calls (Path _) = Inr ()"
| "validate_function_calls (UnaryNot e) = validate_function_calls e"
| "validate_function_calls (MemberAccess e _) = validate_function_calls e"
| "validate_function_calls (Index base key) =
     and_then (validate_function_calls base) (\<lambda>_. validate_function_calls key)"
| "validate_function_calls (Binary _ l r) =
     and_then (validate_function_calls l) (\<lambda>_. validate_function_calls r)"
| "validate_function_calls (Call name args) =
     and_then (validate_function_arity name (length args)) (\<lambda>_.
       and_then (try_map validate_function_calls args) (\<lambda>_. Inr ()))"

definition string_arg :: "expr_ext \<Rightarrow> json list \<Rightarrow> nat \<Rightarrow> string" where
  "string_arg x values i = (case slice_get values i of Some v \<Rightarrow> string_value x v | None \<Rightarrow> [])"

definition string_result :: "expression_error + string \<Rightarrow> expression_error + json" where
  "string_result r = and_then r (\<lambda>s. Inr (JString s))"

text \<open>The functions whose arguments are all evaluated first.\<close>

definition call_function ::
  "file_system \<Rightarrow> expr_ext \<Rightarrow> expr_context \<Rightarrow> nat \<Rightarrow> string \<Rightarrow> json list \<Rightarrow> expression_error + json" where
  "call_function fs x c used name values =
     (let lower = to_lower name
      in if lower = ''always'' then Inr (JBool True)
         else if lower = ''success'' then Inr (JBool (ctx_success c))
         else if lower = ''failure'' then Inr (JBool (ctx_failure c))
         else if lower = ''cancelled'' then Inr (JBool (ctx_cancelled c))
         else if lower = ''contains'' then
           Inr (JBool (case (slice_get values 0, slice_get values 1) of
             (Some haystack, Some needle) \<Rightarrow> contains x haystack needle | _ \<Rightarrow> False))
         else if lower = ''startswith'' then
           Inr (JBool (starts_with_ordinal_ignore_case x (string_arg x values 0) (string_arg x values 1)))
         else if lower = ''endswith'' then
           Inr (JBool (ends_with_ordinal_ignore_case x (string_arg x values 0) (string_arg x values 1)))
         else if lower = ''format'' then string_result (format_args x used values)
         else if lower = ''fromjson'' then
           (case from_json_lenient x (string_arg x values 0) of Inr v \<Rightarrow> Inr v | Inl e \<Rightarrow> Inl (InvalidJson e))
         else if lower = ''join'' then string_result (join_args x used values)
         else if lower = ''hashfiles'' then string_result (hash_files fs x c values)
         else if lower = ''tojson'' then
           string_result (to_json_pretty x used (unwrap_or (slice_get values 0) JNull))
         else Inl (UnknownFunction name))"

section \<open>Evaluation\<close>

type_synonym eval_result = "expression_error + json \<times> nat"

definition charged :: "nat \<Rightarrow> json \<Rightarrow> eval_result" where
  "charged used v = and_then (charge used v) (\<lambda>used. Inr (v, used))"

definition index_value :: "json \<Rightarrow> string \<Rightarrow> json" where
  "index_value base key =
     (case base of
        JObject m \<Rightarrow> unwrap_or (map_of m key) JNull
      | JArray items \<Rightarrow> unwrap_or (Option.bind (parse_usize key) (slice_get items)) JNull
      | _ \<Rightarrow> JNull)"

definition eval_path :: "expr_context \<Rightarrow> nat \<Rightarrow> string list \<Rightarrow> eval_result" where
  "eval_path c used path =
     (case resolve_ref c path of
        Some v \<Rightarrow> charged used v
      | None \<Rightarrow> charged used (resolve c path))"

text \<open>Whether the left operand decides the result.\<close>

definition short_circuits :: "binary_op \<Rightarrow> json \<Rightarrow> bool" where
  "short_circuits bop left \<longleftrightarrow> (bop = OpOr \<and> is_truthy left) \<or> (bop = OpAnd \<and> \<not> is_truthy left)"

function eval :: "file_system \<Rightarrow> expr_ext \<Rightarrow> expr_context \<Rightarrow> nat \<Rightarrow> nat \<Rightarrow> expr \<Rightarrow> eval_result"
and eval_inner :: "file_system \<Rightarrow> expr_ext \<Rightarrow> expr_context \<Rightarrow> nat \<Rightarrow> nat \<Rightarrow> expr \<Rightarrow> eval_result"
and eval_args :: "file_system \<Rightarrow> expr_ext \<Rightarrow> expr_context \<Rightarrow> nat \<Rightarrow> nat \<Rightarrow> expr list \<Rightarrow> expression_error + json list \<times> nat"
and eval_case :: "file_system \<Rightarrow> expr_ext \<Rightarrow> expr_context \<Rightarrow> nat \<Rightarrow> nat \<Rightarrow> expr list \<Rightarrow> eval_result"
where
  "eval fs x c depth used e =
     (if MAX_EXPRESSION_DEPTH < depth + 1 then Inl (TooDeep MAX_EXPRESSION_DEPTH)
      else eval_inner fs x c (depth + 1) used e)"
| "eval_inner fs x c depth used (Literal v) = charged used v"
| "eval_inner fs x c depth used (Path path) = eval_path c used path"
| "eval_inner fs x c depth used (UnaryNot e) =
     and_then (eval fs x c depth used e) (\<lambda>(v, used). charged used (JBool (\<not> is_truthy v)))"
| "eval_inner fs x c depth used (Binary bop l r) =
     and_then (eval fs x c depth used l) (\<lambda>(left, used).
       if short_circuits bop left then charged used left
       else and_then (eval fs x c depth used r) (\<lambda>(right, used).
         charged used (combine_binary x bop left right)))"
| "eval_inner fs x c depth used (Call name args) =
     and_then (validate_function_arity name (length args)) (\<lambda>_.
       if to_lower name = ''case'' then
         and_then (eval_case fs x c depth used args) (\<lambda>(v, used). charged used v)
       else
         and_then (eval_args fs x c depth used args) (\<lambda>(values, used).
           and_then (call_function fs x c used name values) (charged used)))"
| "eval_inner fs x c depth used (MemberAccess e path) =
     and_then (eval fs x c depth used e) (\<lambda>(base, used). charged used (resolve_value base path))"
| "eval_inner fs x c depth used (Index base key) =
     and_then (eval fs x c depth used base) (\<lambda>(base, used).
       and_then (eval fs x c depth used key) (\<lambda>(key, used).
         charged used (index_value base (string_value x key))))"
| "eval_args fs x c depth used [] = Inr ([], used)"
| "eval_args fs x c depth used (e # es) =
     and_then (eval fs x c depth used e) (\<lambda>(v, used).
       and_then (eval_args fs x c depth used es) (\<lambda>(vs, used). Inr (v # vs, used)))"
| "eval_case fs x c depth used [] = Inl Eof"
| "eval_case fs x c depth used [e] = eval fs x c depth used e"
| "eval_case fs x c depth used (p # e # es) =
     and_then (eval fs x c depth used p) (\<lambda>(predicate, used).
       case predicate of
         JBool b \<Rightarrow> if b then eval fs x c depth used e else eval_case fs x c depth used es
       | _ \<Rightarrow> Inl NonBooleanCasePredicate)"
  by pat_completeness auto
termination
  by (relation "measure (\<lambda>p. case p of
      Inl (Inl (_, _, _, _, _, e)) \<Rightarrow> 2 * size e + 1
    | Inl (Inr (_, _, _, _, _, e)) \<Rightarrow> 2 * size e
    | Inr (Inl (_, _, _, _, _, es)) \<Rightarrow> 2 * size_list size es
    | Inr (Inr (_, _, _, _, _, es)) \<Rightarrow> 2 * size_list size es)") auto

declare eval.simps [simp del]

section \<open>Entry points\<close>

definition trim_expression_markers :: "string \<Rightarrow> string" where
  "trim_expression_markers input =
     (let value = trim input
      in case Option.bind (strip_prefix ''${{'' value) (strip_suffix ''}}'') of
        Some inner \<Rightarrow> trim inner
      | None \<Rightarrow> value)"

definition validate_expression :: "(string \<Rightarrow> jnum option) \<Rightarrow> string \<Rightarrow> expression_error + unit" where
  "validate_expression number input = and_then (parse_input number (trim_expression_markers input)) validate_function_calls"

definition eval_expression ::
  "(string \<Rightarrow> jnum option) \<Rightarrow> file_system \<Rightarrow> expr_ext \<Rightarrow> string \<Rightarrow> expr_context \<Rightarrow> expression_error + json" where
  "eval_expression number fs x input c =
     and_then (parse_input number (trim_expression_markers input)) (\<lambda>e.
       and_then (eval fs x c 0 0 e) (\<lambda>(v, used). Inr v))"

definition eval_bool ::
  "(string \<Rightarrow> jnum option) \<Rightarrow> file_system \<Rightarrow> expr_ext \<Rightarrow> string \<Rightarrow> expr_context \<Rightarrow> expression_error + bool" where
  "eval_bool number fs x input c = and_then (eval_expression number fs x input c) (\<lambda>v. Inr (is_truthy v))"

section \<open>Paths\<close>

lemma resolve_ref_from_agrees: "resolve_ref_from v path = Some w \<Longrightarrow> foldl resolve_segment v path = w"
proof (induction v path rule: resolve_ref_from.induct)
  case (2 v segment rest)
  then show ?case
    by (cases v rule: json.exhaust) (auto simp: resolve_segment_def split: if_splits option.splits bind_splits)
qed simp

text \<open>The borrowing fast path of variable lookup is exact: evaluating a path charges and returns
  what the general resolution gives, wildcards, projections and missing properties included.\<close>

theorem eval_path_resolves: "eval_path c used path = charged used (resolve c path)"
  by (cases path)
    (auto simp: eval_path_def resolve_ref_def resolve_def dest: resolve_ref_from_agrees split: option.splits bind_splits)

section \<open>The budget bounds every value\<close>

lemma charged_Inr:
  "charged used v = Inr (w, used') \<longleftrightarrow>
   w = v \<and> used' = used + value_size v \<and> used' \<le> MAX_EVALUATED_VALUE_BYTES"
  by (auto simp: charged_def charge_def)

lemma case_JBool_Inr:
  "(case v of JBool b \<Rightarrow> f b | _ \<Rightarrow> Inl e) = Inr r \<longleftrightarrow> (\<exists>b. v = JBool b \<and> f b = Inr r)"
  by (cases v rule: json.exhaust) auto

lemma eval_budget:
  "eval fs x c depth used e = Inr (v, used') \<Longrightarrow>
     used + value_size v \<le> used' \<and> used' \<le> MAX_EVALUATED_VALUE_BYTES"
  "eval_inner fs x c depth used e = Inr (v, used') \<Longrightarrow>
     used + value_size v \<le> used' \<and> used' \<le> MAX_EVALUATED_VALUE_BYTES"
  "eval_args fs x c depth used es = Inr (vs, used') \<Longrightarrow> used + sum_list (map value_size vs) \<le> used'"
  "eval_case fs x c depth used es = Inr (v, used') \<Longrightarrow>
     used + value_size v \<le> used' \<and> used' \<le> MAX_EVALUATED_VALUE_BYTES"
proof (induction fs x c depth used e and fs x c depth used e and fs x c depth used es and fs x c depth used es
    arbitrary: v used' and v used' and vs used' and v used'
    rule: eval_eval_inner_eval_args_eval_case.induct)
  case (1 fs x c depth used e)
  then show ?case by (simp add: eval.simps split: if_splits)
next
  case (3 fs x c depth used path)
  then show ?case by (simp add: eval_path_resolves charged_Inr)
next
  case (6 fs x c depth used name args)
  then have ok: "validate_function_arity name (length args) = Inr ()" by (simp add: and_then_Inr_iff)
  show ?case
  proof (cases "to_lower name = ''case''")
    case True
    with 6(3) ok obtain w u where "eval_case fs x c depth used args = Inr (w, u)" "charged u w = Inr (v, used')"
      by (auto simp: and_then_Inr_iff)
    with 6(1) [OF ok True] show ?thesis by (fastforce simp: charged_Inr)
  next
    case False
    with 6(3) ok obtain ws u w where "eval_args fs x c depth used args = Inr (ws, u)" "charged u w = Inr (v, used')"
      by (auto simp: and_then_Inr_iff)
    with 6(2) [OF ok False] show ?thesis by (fastforce simp: charged_Inr)
  qed
next
  case (10 fs x c depth used e es)
  then show ?case by (fastforce simp: and_then_Inr_iff)
next
  case (13 fs x c depth used p e es)
  then obtain b u where p: "eval fs x c depth used p = Inr (JBool b, u)"
    and r: "(if b then eval fs x c depth u e else eval_case fs x c depth u es) = Inr (v, used')"
    by (auto simp: and_then_Inr_iff case_JBool_Inr)
  have "used \<le> u" using 13(1) [OF p] by simp
  moreover have "u + value_size v \<le> used' \<and> used' \<le> MAX_EVALUATED_VALUE_BYTES"
    using 13(2,3) p r by (cases b) auto
  ultimately show ?case by simp
qed (fastforce simp: and_then_Inr_iff charged_Inr split: if_splits)+

text \<open>C37. Every value an expression evaluates to fits the evaluation budget of eight mebibytes, and so
  do all the values computed on the way together.\<close>

theorem eval_expression_bounded:
  assumes "eval_expression number fs x input c = Inr v"
  shows "value_size v \<le> MAX_EVALUATED_VALUE_BYTES"
  using assms eval_budget(1) by (fastforce simp: eval_expression_def and_then_Inr_iff)

section \<open>The recursion ceiling is never met by a parsed expression\<close>

definition not_deep :: "expression_error + 'a \<Rightarrow> bool" where
  "not_deep r \<longleftrightarrow> (\<forall>n. r \<noteq> Inl (TooDeep n))"

named_theorems not_deep_intros \<open>results that are not the depth error\<close>

lemma not_deep_and_then [not_deep_intros]: "not_deep m \<Longrightarrow> (\<And>v. m = Inr v \<Longrightarrow> not_deep (f v)) \<Longrightarrow> not_deep (and_then m f)"
  by (cases m) (auto simp: not_deep_def)

lemma not_deep_Inr [simp, not_deep_intros]: "not_deep (Inr v)"
  by (simp add: not_deep_def)

lemma not_deep_Inl [simp]: "not_deep (Inl e) \<longleftrightarrow> (\<forall>n. e \<noteq> TooDeep n)"
  by (simp add: not_deep_def)

lemma not_deep_if [not_deep_intros]: "(P \<Longrightarrow> not_deep a) \<Longrightarrow> (\<not> P \<Longrightarrow> not_deep b) \<Longrightarrow> not_deep (if P then a else b)"
  by simp

lemma not_deep_pair [not_deep_intros]: "(\<And>a b. p = (a, b) \<Longrightarrow> not_deep (f a b)) \<Longrightarrow> not_deep (case p of (a, b) \<Rightarrow> f a b)"
  by (cases p) simp

lemma not_deep_charged [not_deep_intros]: "not_deep (charged used v)"
  by (simp add: charged_def charge_def evaluation_too_large_def)

lemma not_deep_pushes [not_deep_intros]:
  "not_deep (push_format_capped used out s)" "not_deep (push_evaluation_capped used out s)"
  "not_deep (string_value_bounded x v limit format_overflow)" "not_deep (string_value_capped x v limit)"
  "not_deep (to_json_pretty x used v)" "not_deep (placeholder values template cs)"
  by (auto simp: push_format_capped_def push_evaluation_capped_def string_value_bounded_def string_value_capped_def
      to_json_pretty_def placeholder_def Let_def format_overflow_def evaluation_too_large_def
      split: option.splits list.splits)

lemma not_deep_format_loop: "not_deep (format_loop x used vs template out segment cs)"
  by (induction x used vs template out segment cs rule: format_loop.induct)
    (auto intro!: not_deep_intros)

lemma not_deep_join_loop: "not_deep (join_loop x used separator out first vs)"
  by (induction x used separator out first vs rule: join_loop.induct) (auto intro!: not_deep_intros)

lemma not_deep_hash_arguments: "not_deep (hash_arguments first ss)"
  by (induction first ss rule: hash_arguments.induct) (auto intro!: not_deep_intros)

lemma not_deep_visit_entries: "not_deep (visit_entries fs follow r st es)"
  by (induction fs follow r st es rule: visit_entries.induct) auto

lemma not_deep_expand_patterns: "not_deep (expand_patterns fs follow w r st ps)"
  by (induction ps arbitrary: st) (auto intro!: not_deep_intros not_deep_visit_entries split: option.splits)

lemma not_deep_hash_paths: "not_deep (hash_paths fs r used ps)"
  by (induction ps arbitrary: used) (auto simp: Let_def intro!: not_deep_intros split: option.splits)

lemma not_deep_functions [not_deep_intros]:
  "not_deep (format_args x used values)" "not_deep (join_args x used values)" "not_deep (hash_files fs x c values)"
  by (auto simp: format_args_def join_args_def hash_files_def
      intro!: not_deep_intros not_deep_format_loop not_deep_join_loop not_deep_hash_arguments
        not_deep_expand_patterns not_deep_hash_paths
      split: option.splits json.splits)

lemma not_deep_call_function [not_deep_intros]: "not_deep (call_function fs x c used name values)"
  unfolding call_function_def Let_def string_result_def
  by (intro not_deep_intros) (auto split: sum.splits)

lemma not_deep_arity [not_deep_intros]: "not_deep (validate_function_arity name n)"
  by (auto simp: validate_function_arity_def Let_def split: option.splits)

lemma eval_not_deep:
  "depth + expr_depth e \<le> MAX_EXPRESSION_DEPTH \<Longrightarrow> not_deep (eval fs x c depth used e)"
  "depth + expr_depth e \<le> Suc MAX_EXPRESSION_DEPTH \<Longrightarrow> not_deep (eval_inner fs x c depth used e)"
  "list_all (\<lambda>e. depth + expr_depth e \<le> MAX_EXPRESSION_DEPTH) es \<Longrightarrow> not_deep (eval_args fs x c depth used es)"
  "list_all (\<lambda>e. depth + expr_depth e \<le> MAX_EXPRESSION_DEPTH) es \<Longrightarrow> not_deep (eval_case fs x c depth used es)"
proof (induction fs x c depth used e and fs x c depth used e and fs x c depth used es and fs x c depth used es
    rule: eval_eval_inner_eval_args_eval_case.induct)
  case (1 fs x c depth used e)
  have "0 < expr_depth e" by (cases e) auto
  with 1 show ?case by (auto simp: eval.simps)
next
  case (3 fs x c depth used path)
  show ?case by (simp add: eval_path_resolves not_deep_charged)
next
  case (6 fs x c depth used name args)
  then have "list_all (\<lambda>e. depth + expr_depth e \<le> MAX_EXPRESSION_DEPTH) args"
    using max_fold_le [of "map expr_depth args" 0 "MAX_EXPRESSION_DEPTH - depth"]
    by (auto simp: list_all_iff)
  with 6 show ?case unfolding eval_inner.simps by (intro not_deep_intros) simp_all
next
  case (13 fs x c depth used p e es)
  show ?case unfolding eval_case.simps
  proof (intro not_deep_intros)
    show "not_deep (eval fs x c depth used p)" using 13 by simp
    fix r a b assume "eval fs x c depth used p = Inr r" "r = (a, b)"
    then show "not_deep (case a of JBool q \<Rightarrow> if q then eval fs x c depth b e else eval_case fs x c depth b es
        | _ \<Rightarrow> Inl NonBooleanCasePredicate)"
      using 13 by (cases a rule: json.exhaust) auto
  qed
qed (auto intro!: not_deep_intros simp: max_def split: if_splits)

text \<open>C38. An expression that parses never runs into the evaluator's recursion ceiling: the parser's
  depth bound is enough, so the belt-and-braces check only matters for trees built by hand.\<close>

theorem eval_expression_not_too_deep:
  assumes "parse_input number (trim_expression_markers input) = Inr e"
  shows "eval_expression number fs x input c \<noteq> Inl (TooDeep n)"
proof -
  have "not_deep (eval fs x c 0 0 e)"
    using parse_input_depth [OF assms] by (intro eval_not_deep(1)) simp
  then have "not_deep (eval_expression number fs x input c)"
    unfolding eval_expression_def assms by (intro not_deep_intros) (auto simp: assms)
  then show ?thesis by (simp add: not_deep_def)
qed

section \<open>Literal indices of arrays\<close>

definition array_context :: expr_context where
  "array_context =
     \<lparr>roots = [(''a'', JArray [JString ''x'', JString ''y''])], ctx_success = True, ctx_failure = False,
      ctx_cancelled = False, workspace_dir = None\<rparr>"

definition zero_text :: "string \<Rightarrow> jnum option" where
  "zero_text s = (if s = ''0'' then Some (PosInt 0) else None)"

lemma computed_index_evaluates: "eval_expression zero_text fs x ''a[(0)]'' array_context = Inr (JString ''x'')"
proof -
  have "parse_input zero_text (trim_expression_markers ''a[(0)]'') = Inr (Index (Path [''a'']) (Literal (JNumber (PosInt 0))))"
    "resolve array_context [''a''] = JArray [JString ''x'', JString ''y'']"
    "parse_usize ''0'' = Some 0" "nat_to_string 0 = ''0''"
    by code_simp+
  then show ?thesis
    by (simp add: eval_expression_def eval.simps eval_path_resolves charged_def charge_def MAX_EXPRESSION_DEPTH_def
        MAX_EVALUATED_VALUE_BYTES_def index_value_def slice_get_def)
qed

text \<open>A literal index is not an index: \<^verbatim>\<open>a[0]\<close> becomes a path segment, which on an array selects
  the property \<^verbatim>\<open>0\<close> of every element, so the result is the empty array, while a computed index of
  the same value, \<^verbatim>\<open>a[(0)]\<close>, gives the first element.\<close>

theorem literal_array_index_projects:
  "eval_expression zero_text fs x ''a[0]'' array_context = Inr (JArray []) \<and>
   eval_expression zero_text fs x ''a[(0)]'' array_context = Inr (JString ''x'')"
proof -
  have "parse_input zero_text (trim_expression_markers ''a[0]'') = Inr (Path [''a'', ''0''])"
    "resolve array_context [''a'', ''0''] = JArray []"
    by code_simp+
  then have "eval_expression zero_text fs x ''a[0]'' array_context = Inr (JArray [])"
    by (simp add: eval_expression_def eval.simps eval_path_resolves charged_def charge_def MAX_EXPRESSION_DEPTH_def
        MAX_EVALUATED_VALUE_BYTES_def)
  then show ?thesis by (simp add: computed_index_evaluates)
qed

theorem eval_expression_bounded_witness:
  "value_size (JString ''x'') \<le> MAX_EVALUATED_VALUE_BYTES"
  using eval_expression_bounded [OF computed_index_evaluates] .

theorem eval_expression_not_too_deep_witness:
  "eval_expression zero_text one_file_system plain_ext ''a[(0)]'' array_context \<noteq> Inl (TooDeep 128)"
proof -
  have "parse_input zero_text (trim_expression_markers ''a[(0)]'') = Inr (Index (Path [''a'']) (Literal (JNumber (PosInt 0))))"
    by code_simp
  then show ?thesis by (rule eval_expression_not_too_deep)
qed

end
