(* ===== verification/Expr_Conditions.thy ===== *)
theory Expr_Conditions
  imports Expr_Enclosed Expr_Print Expr_Eval
begin

text \<open>
  Conditions of jobs and steps (\<^verbatim>\<open>conditions.rs\<close>): a condition that calls no status function gets
  the implicit gate \<^verbatim>\<open>success() && (...)\<close>. The gate is put around the text; what it means is a
  theorem about the lexer, the parser and the evaluator together, for every condition that is an
  expression by itself; the text of one that is none can escape the gate.
\<close>

fun skip_quoted :: "string \<Rightarrow> string" where
  "skip_quoted [] = []"
| "skip_quoted [c] = []"
| "skip_quoted (c # d # cs) =
     (if c = QUOTE then if d = QUOTE then skip_quoted cs else d # cs else skip_quoted (d # cs))"

definition is_status_name :: "string \<Rightarrow> bool" where
  "is_status_name ident \<longleftrightarrow> to_lower ident \<in> {''success'', ''failure'', ''cancelled'', ''always''}"

definition is_word_char :: "char \<Rightarrow> bool" where
  "is_word_char c \<longleftrightarrow> c = CHR ''_'' \<or> is_ascii_alphanumeric c"

lemma skip_quoted_length: "length (skip_quoted cs) \<le> length cs"
  by (induction cs rule: skip_quoted.induct) auto

function contains_status_check_function :: "string \<Rightarrow> bool" where
  "contains_status_check_function [] = False"
| "contains_status_check_function (c # cs) =
     (if c = QUOTE then contains_status_check_function (skip_quoted cs)
      else if c = CHR ''_'' \<or> is_ascii_alphabetic c then
        (let ident = c # takeWhile is_word_char cs;
             rest = dropWhile is_whitespace (dropWhile is_word_char cs)
         in if is_status_name ident \<and> rest \<noteq> [] \<and> hd rest = CHR ''('' then True
            else contains_status_check_function rest)
      else contains_status_check_function cs)"
  by pat_completeness auto

lemma word_rest_length: "length (dropWhile is_whitespace (dropWhile is_word_char cs)) \<le> length cs"
  using length_dropWhile_le le_trans by blast

termination contains_status_check_function
  by (relation "measure length") (auto simp: less_Suc_eq_le skip_quoted_length word_rest_length)

definition effective_condition :: "string option \<Rightarrow> string" where
  "effective_condition raw =
     (case raw of
        None \<Rightarrow> ''success()''
      | Some condition \<Rightarrow>
          if trim condition = [] then ''success()''
          else (let stripped = trim_expression_markers condition
                in if contains_status_check_function stripped then stripped
                   else ''success() && ('' @ stripped @ '')''))"

section \<open>Lexing text that is put in parentheses\<close>

lemma lex_string_append:
  "lex_string acc cs = Some (s, rest) \<Longrightarrow> r = [] \<or> hd r \<noteq> QUOTE \<Longrightarrow> lex_string acc (cs @ r) = Some (s, rest @ r)"
proof (induction acc cs rule: lex_string.induct)
  case (2 acc c)
  then show ?case by (cases r) (auto split: if_splits)
qed (auto split: if_splits)

lemma takeWhile_stop: "\<not> P d \<Longrightarrow> takeWhile P (cs @ d # r) = takeWhile P cs \<and> dropWhile P (cs @ d # r) = dropWhile P cs @ d # r"
  by (induction cs) auto

lemma emit_Inr: "emit t m = Inr ts \<longleftrightarrow> (\<exists>us. m = Inr us \<and> ts = t # us)"
  by (auto simp: emit_def and_then_Inr_iff)

definition close_paren :: "expr_token list \<Rightarrow> expr_token list" where
  "close_paren ts = butlast ts @ [TRParen, TEnd]"

lemma close_paren_Cons: "ts \<noteq> [] \<Longrightarrow> close_paren (t # ts) = t # close_paren ts"
  by (simp add: close_paren_def)

lemma lex_not_Nil: "lex s = Inr ts \<Longrightarrow> ts \<noteq> []"
  by (induction s arbitrary: ts rule: lex.induct) (auto simp: emit_Inr split: if_splits option.splits prod.splits)

lemma lex_close: "lex s = Inr ts \<Longrightarrow> lex (s @ '')'') = Inr (close_paren ts)"
proof (induction s arbitrary: ts rule: lex.induct)
  case 1
  then have "ts = [TEnd]" by simp
  then show ?case by (simp add: lex_chars close_paren_def emit_def)
next
  case (2 c cs)
  have stop: "\<not> is_number_char CHR '')''" "\<not> is_ident_char CHR '')''" by (simp_all add: lex_chars)
  note tw = takeWhile_stop [of is_number_char, OF stop(1), of cs "[]"] takeWhile_stop [of is_ident_char, OF stop(2), of cs "[]"]
  consider (space) "is_whitespace c" | (quote) "\<not> is_whitespace c" "c = QUOTE"
    | (digit) "\<not> is_whitespace c" "c \<noteq> QUOTE" "is_ascii_digit c"
    | (ident) "\<not> is_whitespace c" "c \<noteq> QUOTE" "\<not> is_ascii_digit c" "is_ident_start c"
    | (sym) "\<not> is_whitespace c" "c \<noteq> QUOTE" "\<not> is_ascii_digit c" "\<not> is_ident_start c" by blast
  then show ?case
  proof cases
    case space
    with 2 show ?thesis by simp
  next
    case quote
    with "2.prems" obtain s rest us where s: "lex_string [] cs = Some (s, rest)" "lex rest = Inr us" "ts = TString s # us"
      by (auto simp: emit_Inr split: option.splits)
    have "lex_string [] (cs @ '')'') = Some (s, rest @ '')'')" by (rule lex_string_append [OF s(1)]) (simp add: QUOTE_def)
    with quote s "2.IH"(2) show ?thesis by (simp add: emit_def close_paren_Cons lex_not_Nil [OF s(2)])
  next
    case digit
    with "2.prems" obtain us where us: "lex (dropWhile is_number_char cs) = Inr us" "ts = TNumber (c # takeWhile is_number_char cs) # us"
      by (auto simp: emit_Inr)
    with digit "2.IH"(3) tw(1) show ?thesis by (simp add: emit_def close_paren_Cons lex_not_Nil [OF us(1)])
  next
    case ident
    with "2.prems" obtain us where us: "lex (dropWhile is_ident_char cs) = Inr us" "ts = ident_token (c # takeWhile is_ident_char cs) # us"
      by (auto simp: emit_Inr)
    with ident "2.IH"(4) tw(2) show ?thesis by (simp add: emit_def close_paren_Cons lex_not_Nil [OF us(1)])
  next
    case sym
    show ?thesis
    proof (cases "punctuation c")
      case (Some t)
      with sym "2.prems" obtain us where us: "lex cs = Inr us" "ts = t # us" by (auto simp: emit_Inr)
      with sym "2.IH"(7) [OF sym Some us(1)] Some show ?thesis by (simp add: emit_def close_paren_Cons lex_not_Nil [OF us(1)])
    next
      case None
      obtain second long short where op: "operator c = Some (second, long, short)"
        using sym None "2.prems" by (cases "operator c") auto
      have not_paren: "second \<noteq> CHR '')''" using op by (auto simp: operator.simps split: if_splits)
      show ?thesis
      proof (cases "cs \<noteq> [] \<and> hd cs = second")
        case True
        with sym None op "2.prems" obtain us where us: "lex (tl cs) = Inr us" "ts = long # us" by (auto simp: emit_Inr)
        with sym None op True "2.IH"(5) [OF sym None op refl refl True us(1)] show ?thesis by (simp add: emit_def close_paren_Cons lex_not_Nil [OF us(1)])
      next
        case False
        with sym None op "2.prems" obtain t us where us: "short = Some t" "lex cs = Inr us" "ts = t # us"
          by (auto simp: emit_Inr split: option.splits if_splits)
        have "\<not> (cs @ '')'' \<noteq> [] \<and> hd (cs @ '')'') = second)" using False not_paren by (cases cs) auto
        with sym None op us False "2.IH"(6) [OF sym None op refl refl False us(1) us(2)] show ?thesis by (simp add: emit_def close_paren_Cons lex_not_Nil [OF us(2)])
      qed
    qed
  qed
qed

lemma lex_gate_prefix:
  "lex (''success() && ('' @ cs) = and_then (lex cs) (\<lambda>ts. Inr ([TIdent ''success'', TLParen, TRParen, TAnd, TLParen] @ ts))"
proof -
  have "takeWhile is_ident_char (''uccess() && ('' @ cs) = ''uccess''" "dropWhile is_ident_char (''uccess() && ('' @ cs) = ''() && ('' @ cs"
    by (simp_all add: lex_chars)
  moreover have "ident_token ''success'' = TIdent ''success''" by code_simp
  ultimately have "lex (''success() && ('' @ cs) = emit (TIdent ''success'') (lex (''() && ('' @ cs))"
    by (simp add: lex_chars)
  also have "lex (''() && ('' @ cs) = emit TLParen (emit TRParen (emit TAnd (emit TLParen (lex cs))))"
    by (simp add: lex_chars)
  finally show ?thesis by (cases "lex cs") (simp_all add: emit_def)
qed

lemma lex_gated: "lex s = Inr (ts @ [TEnd]) \<Longrightarrow>
  lex (''success() && ('' @ s @ '')'') = Inr ([TIdent ''success'', TLParen, TRParen, TAnd, TLParen] @ ts @ [TRParen, TEnd])"
  using lex_close [of s "ts @ [TEnd]"] by (simp only: lex_gate_prefix) (simp add: close_paren_def)

section \<open>The gate\<close>

lemma trim_id:
  assumes "s \<noteq> []" "\<not> is_whitespace (hd s)" "\<not> is_whitespace (last s)"
  shows "trim s = s"
proof -
  have "dropWhile is_whitespace s = s" using assms by (cases s) auto
  moreover have "dropWhile is_whitespace (rev s) = rev s" using assms by (cases s rule: rev_cases) auto
  ultimately show ?thesis by (simp add: trim_def trim_start_def trim_end_def)
qed

lemma trim_gated: "trim_expression_markers (''success() && ('' @ s @ '')'') = ''success() && ('' @ s @ '')''"
proof -
  have "trim (''success() && ('' @ s @ '')'') = ''success() && ('' @ s @ '')''"
    by (rule trim_id) (simp_all add: is_whitespace_def)
  then show ?thesis by (simp add: trim_expression_markers_def strip_prefix_def)
qed

lemma binary_level_fails:
  assumes "shortens operand" "operand ts = Inr (l, rest)" "op_of (current rest) = Some op"
    "operand (advance rest) = Inl err \<or> (\<exists>r rest'. operand (advance rest) = Inr (r, rest') \<and> parsed_binary op l r = Inl err)"
  shows "binary_level op_of operand ts = Inl err"
  using assms by (auto simp: binary_level_def run_loop_unfold [OF binary_round_ok] binary_round_def)

lemma parse_and_fails:
  assumes sh: "shortens u" and l: "u ts = Inr (l, TAnd # rest)"
    and r: "u rest = Inl err \<or> (\<exists>r rest'. u rest = Inr (r, rest') \<and> ends_expr (current rest') \<and> parsed_binary OpAnd l r = Inl err)"
  shows "parse_or u ts = Inl err"
proof -
  have one: "parse_eq u ts = Inr (l, TAnd # rest)"
    unfolding parse_eq_def by (rule binary_level_stop [where operand = u, OF sh l]) simp
  have two: "parse_eq u rest = Inl err \<or> (\<exists>r rest'. parse_eq u rest = Inr (r, rest') \<and> parsed_binary OpAnd l r = Inl err)"
    using r
  proof
    assume "u rest = Inl err"
    then show ?thesis by (simp add: parse_eq_def binary_level_def)
  next
    assume "\<exists>r rest'. u rest = Inr (r, rest') \<and> ends_expr (current rest') \<and> parsed_binary OpAnd l r = Inl err"
    then obtain r rest' where r: "u rest = Inr (r, rest')" "ends_expr (current rest')" "parsed_binary OpAnd l r = Inl err" by blast
    have "parse_eq u rest = Inr (r, rest')"
      unfolding parse_eq_def by (rule binary_level_stop [OF sh r(1)]) (use r(2) in \<open>auto simp: ends_expr_def\<close>)
    with r(3) show ?thesis by blast
  qed
  have "parse_and u ts = Inl err"
    unfolding parse_and_def by (rule binary_level_fails [OF parse_eq_shortens [OF sh] one, where op = OpAnd]) (use two in simp_all)
  then show ?thesis by (simp add: parse_or_def binary_level_def)
qed

text \<open>The tokens behind the gate: the conjunction with what the tokens by themselves are, or too deep.\<close>

lemma parse_gated_tokens:
  assumes "parse_tokens number (ts @ [TEnd]) = Inr e" "TEnd \<notin> set ts"
  shows "too_deep (parse_tokens number ([TIdent ''success'', TLParen, TRParen, TAnd, TLParen] @ ts @ [TRParen, TEnd])) \<or>
    parse_tokens number ([TIdent ''success'', TLParen, TRParen, TAnd, TLParen] @ ts @ [TRParen, TEnd]) =
      Inr (Binary OpAnd (Call ''success'' []) e)"
proof -
  obtain n where n: "MAX_EXPRESSION_DEPTH = Suc (Suc n)" by (simp add: MAX_EXPRESSION_DEPTH_def)
  let ?u = "parse_unary number (Suc n)" and ?deep = "TooDeep MAX_EXPRESSION_DEPTH"
  let ?rest = "TLParen # ts @ [TRParen, TEnd]" and ?success = "parsed_of (Call ''success'' [])"
  obtain p rest where p: "parse_tracked_expr number (Suc (Suc n)) (ts @ [TEnd]) = Inr (p, rest)" "current rest = TEnd" "e = pexpr p"
    using assms(1) by (auto simp: parse_tokens_def and_then_Inr_iff n expect_end_def split: if_splits)
  have call: "?u ([TIdent ''success'', TLParen, TRParen] @ TAnd # ?rest) = Inr (?success, TAnd # ?rest)"
    by (simp add: parse_unary.simps parse_primary_def parse_ident_or_call_def advance_def expect_def node_depth_def
        MAX_EXPRESSION_DEPTH_def parse_member_suffix_def run_loop_def suffix_round_def parsed_of_def)
  have "?u ?rest = and_then (parse_tracked_expr number (Suc n) (ts @ [TRParen, TEnd])) (\<lambda>(e, ts). and_then (expect TRParen ts) (\<lambda>ts. Inr (e, ts)))"
    by (simp add: parse_unary.simps [of number "Suc n"] parse_primary_def)
  then have inner: "(\<exists>d. ?u ?rest = Inl (TooDeep d)) \<or> ?u ?rest = Inr (p, [TEnd])"
    using enclosed_parse [OF p(1) assms(2) p(2), of "[TEnd]"] by (auto simp: expect_def)
  consider (deep) d where "?u ?rest = Inl (TooDeep d)" | (top) "?u ?rest = Inr (p, [TEnd])" "parsed_binary OpAnd ?success p = Inl ?deep"
    | (ok) b where "?u ?rest = Inr (p, [TEnd])" "parsed_binary OpAnd ?success p = Inr b" "pexpr b = Binary OpAnd (Call ''success'' []) e"
    using inner p(3) by (cases "parsed_binary OpAnd ?success p")
      (auto simp: parsed_binary_def node_depth_def parsed_of_def and_then_Inr_iff split: if_splits)
  then show ?thesis
  proof cases
    case ok
    from parse_or_binary [OF parse_shortens(2) call [folded op_token.simps(2)] ok(1) _ ok(2)]
    show ?thesis using ok(3) by (simp add: parse_tokens_def parse_tracked_expr.simps n ends_expr_def expect_end_def)
  qed (use parse_and_fails [OF parse_shortens(2) call] in
      \<open>force simp: parse_tokens_def parse_tracked_expr.simps n ends_expr_def\<close>)+
qed


lemma eval_success_call:
  "depth < 127 \<Longrightarrow> eval fs x c depth 0 (Call ''success'' []) = Inr (JBool (ctx_success c), 16)"
  by (simp add: eval.simps MAX_EXPRESSION_DEPTH_def validate_function_arity_def function_arity_def char_lower_def Let_def
      call_function_def charged_def charge_def MAX_EVALUATED_VALUE_BYTES_def)

text \<open>C3. A condition without a status function that is an expression by itself runs behind the implicit
  gate: when the needs have not all succeeded, the effective condition is false and the condition itself
  is not evaluated; otherwise its value decides, at one more level and after the 16 bytes that the call
  costs. The parentheses take a level, so a condition at the nesting limit is refused instead. A text that
  is no expression by itself can escape the gate (\<open>unbalanced_condition_escapes_gate\<close>).\<close>

theorem implicit_success_gate:
  assumes "trim condition \<noteq> []" "\<not> contains_status_check_function (trim_expression_markers condition)"
    "parse_input number (trim_expression_markers condition) = Inr e"
  shows "too_deep (parse_input number (effective_condition (Some condition))) \<and>
      too_deep (eval_bool number fs x (effective_condition (Some condition)) c) \<or>
    eval_bool number fs x (effective_condition (Some condition)) c =
      (if ctx_success c
       then and_then (eval fs x c 1 16 e) (\<lambda>(v, used). and_then (charge used v) (\<lambda>_. Inr (is_truthy v)))
       else Inr False)"
proof -
  have eff: "effective_condition (Some condition) = ''success() && ('' @ trim_expression_markers condition @ '')''"
    using assms(1,2) by (simp add: effective_condition_def)
  have trimmed: "trim_expression_markers (effective_condition (Some condition)) = effective_condition (Some condition)"
    unfolding eff by (rule trim_gated)
  obtain ts where ts: "lex (trim_expression_markers condition) = Inr ts" "parse_tokens number ts = Inr e"
    using assms(3) by (auto simp: parse_input_def and_then_Inr_iff)
  obtain us where us: "ts = us @ [TEnd]" "TEnd \<notin> set us" using lex_ends [OF ts(1)] by (auto simp: ends_def)
  have "parse_input number (effective_condition (Some condition)) =
      parse_tokens number ([TIdent ''success'', TLParen, TRParen, TAnd, TLParen] @ us @ [TRParen, TEnd])"
    unfolding eff parse_input_def lex_gated [OF ts(1) [unfolded us(1)]] by simp
  then consider (deep) "too_deep (parse_input number (effective_condition (Some condition)))"
    | (ok) "parse_input number (effective_condition (Some condition)) = Inr (Binary OpAnd (Call ''success'' []) e)"
    using parse_gated_tokens [of number us e] ts(2) us by auto
  then show ?thesis
  proof cases
    case deep
    then have "too_deep (eval_bool number fs x (effective_condition (Some condition)) c)"
      by (auto simp: eval_bool_def eval_expression_def trimmed too_deep_def)
    with deep show ?thesis by blast
  next
    case ok
    have "eval fs x c 0 0 (Binary OpAnd (Call ''success'' []) e) =
        (if ctx_success c then and_then (eval fs x c 1 16 e) (\<lambda>(v, used). charged used v) else Inr (JBool False, 32))"
      by (simp add: eval.simps [of fs x c 0] MAX_EXPRESSION_DEPTH_def eval_success_call short_circuits_def is_truthy_def
          charged_def charge_def MAX_EVALUATED_VALUE_BYTES_def case_prod_beta)
    with ok show ?thesis
      by (cases "eval fs x c 1 16 e")
        (auto simp: trimmed eval_bool_def eval_expression_def is_truthy_def charged_def and_then_def split: sum.splits)
  qed
qed

definition failed_context :: expr_context where
  "failed_context = plain_context\<lparr>ctx_success := False, ctx_failure := True\<rparr>"

text \<open>A condition as it is written, without parentheses of its own.\<close>

theorem implicit_success_gate_witness:
  "eval_bool (\<lambda>_. None) one_file_system plain_ext (effective_condition (Some ''${{ github.ref == 'main' || true }}'')) failed_context = Inr False"
proof -
  let ?c = "''${{ github.ref == 'main' || true }}''" and ?t = "''github.ref == 'main' || true''"
  have t: "trim ?c \<noteq> []" "trim_expression_markers ?c = ?t" "\<not> contains_status_check_function ?t"
    by code_simp+
  let ?e = "Binary OpOr (Binary OpEq (Path [''github'', ''ref'']) (Literal (JString ''main''))) (Literal (JBool True))"
  have e: "parse_input (\<lambda>_. None) ?t = Inr ?e"
    "parse_input (\<lambda>_. None) (effective_condition (Some ?c)) = Inr (Binary OpAnd (Call ''success'' []) ?e)"
    by code_simp+
  from implicit_success_gate [OF t(1) _ e(1) [folded t(2)], of one_file_system plain_ext failed_context] t e
  show ?thesis by (simp add: failed_context_def)
qed

text \<open>The gate is put around the text without checking that the text is an expression: a condition
  with unbalanced parentheses, which does not parse, becomes an accepted expression that escapes the
  gate and runs the job when its needs have failed.\<close>

theorem unbalanced_condition_escapes_gate:
  "parse_input number ''true) || (true'' = Inl (UnexpectedToken TRParen) \<and>
   validate_expression number (effective_condition (Some ''true) || (true'')) = Inr () \<and>
   eval_bool number fs x (effective_condition (Some ''true) || (true'')) failed_context = Inr True"
proof -
  have eff: "effective_condition (Some ''true) || (true'') = ''success() && (true) || (true)''"
    "trim_expression_markers ''success() && (true) || (true)'' = ''success() && (true) || (true)''"
    by code_simp+
  have p: "parse_input number ''success() && (true) || (true)'' =
      Inr (Binary OpOr (Binary OpAnd (Call ''success'' []) (Literal (JBool True))) (Literal (JBool True)))"
    by code_simp
  have "parse_input number ''true) || (true'' = Inl (UnexpectedToken TRParen)" by code_simp
  moreover have "validate_expression number (effective_condition (Some ''true) || (true'')) = Inr ()"
    by (simp add: eff validate_expression_def p validate_function_arity_def function_arity_def char_lower_def)
  moreover have "eval_bool number fs x (effective_condition (Some ''true) || (true'')) failed_context = Inr True"
    by (simp add: eff eval_bool_def eval_expression_def p eval.simps [of _ _ _ _ _ "Binary _ _ _"] eval_success_call
        eval.simps [of _ _ _ _ _ "Literal _"] short_circuits_def is_truthy_def failed_context_def charged_def charge_def
        MAX_EXPRESSION_DEPTH_def MAX_EVALUATED_VALUE_BYTES_def)
  ultimately show ?thesis by blast
qed

end
