(* ===== verification/Expr_Format.thy ===== *)
theory Expr_Format
  imports Expr_Value
begin

text \<open>
  What \<^verbatim>\<open>format\<close> and \<^verbatim>\<open>join\<close> compute, without their limits: \<open>format_plain\<close> and \<open>join_plain\<close> are
  reference definitions that build the whole text. The capped routines of the source return exactly
  that text when it fits the limits and an error when it does not.
\<close>

definition value_text :: "expr_ext \<Rightarrow> json \<Rightarrow> string" where
  "value_text x v = (if is_primitive v then string_value x v else to_json_text x v)"

definition push_text :: "string \<Rightarrow> string option \<Rightarrow> string option" where
  "push_text s r = map_option ((@) s) r"

lemma push_text_Some: "push_text s r = Some t \<longleftrightarrow> (\<exists>u. r = Some u \<and> t = s @ u)"
  by (auto simp: push_text_def)

function format_plain :: "expr_ext \<Rightarrow> json list \<Rightarrow> string \<Rightarrow> string option" where
  "format_plain x vs [] = Some []"
| "format_plain x vs (c # cs) =
     (if c = CHR ''{'' then
        if cs \<noteq> [] \<and> hd cs = CHR ''{'' then push_text ''{'' (format_plain x vs (tl cs))
        else (case placeholder vs [] cs of
          Inl _ \<Rightarrow> None
        | Inr (v, rest) \<Rightarrow> push_text (value_text x v) (format_plain x vs rest))
      else if c = CHR ''}'' then
        if cs \<noteq> [] \<and> hd cs = CHR ''}'' then push_text ''}'' (format_plain x vs (tl cs)) else None
      else push_text [c] (format_plain x vs cs))"
  by pat_completeness auto
termination
  by (relation "measure (\<lambda>(x, vs, cs). length cs)") (auto simp: less_Suc_eq_le dest: placeholder_shorter)

section \<open>Within the limits\<close>

definition fits :: "nat \<Rightarrow> string \<Rightarrow> bool" where
  "fits used s \<longleftrightarrow> length s \<le> MAX_FORMAT_OUTPUT_BYTES \<and> length s \<le> remaining used"

lemma push_format_Inr:
  "fits used out \<Longrightarrow> push_format_capped used out s = Inr t \<longleftrightarrow> t = out @ s \<and> fits used t"
  by (auto simp: push_format_capped_def fits_def split: if_splits)

lemma bounded_Inr:
  "fits used out \<Longrightarrow>
   and_then (string_value_bounded x v (MAX_FORMAT_OUTPUT_BYTES - length out) err) (push_format_capped used out) = Inr t
   \<longleftrightarrow> t = out @ value_text x v \<and> fits used t"
  by (auto simp: string_value_bounded_def capped_text_def value_text_def and_then_Inr_iff push_format_Inr fits_def
      split: if_splits option.splits)

lemma placeholder_template: "placeholder vs t cs = Inr r \<longleftrightarrow> placeholder vs t' cs = Inr r"
  by (auto simp: placeholder_def Let_def simp del: dropWhile_eq_Nil_conv split: if_splits option.splits list.splits)

lemma fits_prefix: "fits used (a @ b) \<Longrightarrow> fits used a"
  by (simp add: fits_def)

lemma fits_inner: "fits used (a @ b @ c) \<Longrightarrow> fits used (a @ b)"
  by (simp add: fits_def)

text \<open>\<open>exact used out r result\<close>: the result is the output followed by the text \<open>r\<close>, if there is one
  and it fits.\<close>

definition exact :: "nat \<Rightarrow> string \<Rightarrow> string option \<Rightarrow> expression_error + string \<Rightarrow> bool" where
  "exact used out r result \<longleftrightarrow> (\<forall>s. result = Inr s \<longleftrightarrow> (\<exists>t. r = Some t \<and> s = out @ t \<and> fits used s))"

lemma exact_push:
  assumes "fits used out" "fits used (out @ t) \<Longrightarrow> exact used (out @ t) r (f (out @ t))"
  shows "exact used out (push_text t r) (and_then (push_format_capped used out t) f)"
  using assms by (auto simp: exact_def and_then_Inr_iff push_format_Inr push_text_Some dest: fits_inner)

lemma exact_value:
  assumes "fits used out"
    "fits used (out @ value_text x v) \<Longrightarrow> exact used (out @ value_text x v) r (f (out @ value_text x v))"
  shows "exact used out (push_text (value_text x v) r)
    (and_then (string_value_bounded x v (MAX_FORMAT_OUTPUT_BYTES - length out) err) (\<lambda>rendered.
       and_then (push_format_capped used out rendered) f))"
proof -
  have "and_then (string_value_bounded x v (MAX_FORMAT_OUTPUT_BYTES - length out) err) (\<lambda>rendered.
      and_then (push_format_capped used out rendered) f) = Inr s \<longleftrightarrow>
      fits used (out @ value_text x v) \<and> f (out @ value_text x v) = Inr s" for s
    unfolding and_then_assoc [symmetric] using bounded_Inr [OF assms(1), of x v err] by (auto simp: and_then_Inr_iff)
  then show ?thesis using assms(2) by (auto simp: exact_def push_text_Some dest: fits_inner)
qed

lemma exact_error: "exact used out None (Inl e)"
  by (simp add: exact_def)

lemma push_text_Nil: "push_text [] r = r"
  by (cases r) (simp_all add: push_text_def)

lemma push_text_push: "push_text a (push_text b r) = push_text (a @ b) r"
  by (cases r) (simp_all add: push_text_def)

lemma format_loop_exact:
  "fits used out \<Longrightarrow>
   exact used out (push_text segment (format_plain x vs cs)) (format_loop x used vs template out segment cs)"
proof (induction x used vs template out segment cs rule: format_loop.induct)
  case (1 x used vs template out segment)
  then show ?case by (auto simp: exact_def push_format_Inr push_text_Some)
next
  case (2 x used vs template out segment c cs)
  have pushed: "push_format_capped used out segment = Inr (out @ segment)"
    "push_format_capped used (out @ segment) t = Inr ((out @ segment) @ t)" if "fits used ((out @ segment) @ t)" for t
    using that "2.prems" fits_prefix [OF that] by (simp_all add: push_format_Inr)
  show ?case
  proof (cases "c = CHR ''{''")
    case brace: True
    show ?thesis
    proof (cases "cs \<noteq> [] \<and> hd cs = CHR ''{''")
      case True
      have "exact used out (push_text segment (push_text ''{'' (format_plain x vs (tl cs))))
         (and_then (push_format_capped used out segment) (\<lambda>out.
            and_then (push_format_capped used out ''{'') (\<lambda>out. format_loop x used vs template out [] (tl cs))))"
        by (intro exact_push "2.prems") (use "2.IH"(1) [OF brace pushed(1) True pushed(2)] in \<open>simp_all add: push_text_Nil\<close>)
      with brace True show ?thesis by simp
    next
      case False
      show ?thesis
      proof (cases "placeholder vs template cs")
        case (Inl e)
        then have "placeholder vs [] cs \<noteq> Inr r" for r using placeholder_template [of vs "[]" cs r template] by simp
        then obtain e' where "placeholder vs [] cs = Inl e'" by (cases "placeholder vs [] cs") auto
        with Inl brace False exact_push [OF "2.prems", of segment None "\<lambda>_. Inl e"] exact_error show ?thesis
          by (auto simp: push_text_def)
      next
        case (Inr p)
        obtain v rest where p: "p = (v, rest)" by (cases p)
        have "placeholder vs [] cs = Inr p" using Inr placeholder_template by blast
        moreover have "exact used out (push_text segment (push_text (value_text x v) (format_plain x vs rest)))
          (and_then (push_format_capped used out segment) (\<lambda>out.
            and_then (string_value_bounded x v (MAX_FORMAT_OUTPUT_BYTES - length out) format_overflow) (\<lambda>rendered.
              and_then (push_format_capped used out rendered) (\<lambda>out. format_loop x used vs template out [] rest))))"
        proof (rule exact_push [OF "2.prems"], rule exact_value, assumption)
          assume f: "fits used ((out @ segment) @ value_text x v)"
          have "and_then (string_value_bounded x v (MAX_FORMAT_OUTPUT_BYTES - length (out @ segment)) format_overflow)
              (push_format_capped used (out @ segment)) = Inr ((out @ segment) @ value_text x v)"
            using bounded_Inr f fits_prefix by blast
          then obtain t where t: "string_value_bounded x v (MAX_FORMAT_OUTPUT_BYTES - length (out @ segment)) format_overflow = Inr t"
            "push_format_capped used (out @ segment) t = Inr ((out @ segment) @ value_text x v)"
            by (auto simp: and_then_Inr_iff)
          show "exact used ((out @ segment) @ value_text x v) (format_plain x vs rest)
              (format_loop x used vs template ((out @ segment) @ value_text x v) [] rest)"
            using "2.IH"(2) [OF brace pushed(1) [OF f] False Inr p [symmetric] t(1) t(2)] f by (simp add: push_text_Nil)
        qed
        moreover have "(cs \<noteq> [] \<and> hd cs = CHR ''{'') = False" using False by blast
        ultimately show ?thesis unfolding format_loop.simps format_plain.simps by (simp only: Inr p brace) simp
      qed
    qed
  next
    case not_open: False
    show ?thesis
    proof (cases "c = CHR ''}''")
      case True
      show ?thesis
      proof (cases "cs = [] \<or> hd cs \<noteq> CHR ''}''")
        case bad: True
        then show ?thesis
          using exact_push [OF "2.prems", of segment None "\<lambda>_. Inl (InvalidFormat template)"] exact_error True
          by (auto simp: push_text_def)
      next
        case False
        have "exact used out (push_text segment (push_text ''}'' (format_plain x vs (tl cs))))
           (and_then (push_format_capped used out segment) (\<lambda>out.
              and_then (push_format_capped used out ''}'') (\<lambda>out. format_loop x used vs template out [] (tl cs))))"
          by (intro exact_push "2.prems")
            (use "2.IH"(3) [OF not_open True pushed(1) False pushed(2)] in \<open>simp_all add: push_text_Nil\<close>)
        with True False show ?thesis by simp
      qed
    next
      case False
      with not_open "2.IH"(4) "2.prems" show ?thesis by (simp add: push_text_push)
    qed
  qed
qed

lemma string_template: "format_args x used (JString t # vs) = format_loop x used (JString t # vs) t [] [] t"
  by (simp add: format_args_def string_value_bounded_def slice_get_def)

text \<open>C34. \<^verbatim>\<open>format\<close> with its caps computes the same text as formatting without any: it returns that
  text exactly when the template is valid, its arguments exist and the whole output fits both the
  cap of one mebibyte and what is left of the evaluation budget.\<close>

theorem format_args_exact:
  "format_args x used (JString template # vs) = Inr s \<longleftrightarrow>
   format_plain x (JString template # vs) template = Some s \<and> fits used s"
proof -
  have "exact used [] (push_text [] (format_plain x (JString template # vs) template))
      (format_loop x used (JString template # vs) template [] [] template)"
    by (rule format_loop_exact) (simp add: fits_def)
  then show ?thesis by (auto simp: exact_def string_template push_text_def)
qed

section \<open>Templates\<close>

text \<open>A template as text and references to arguments, and how it is written.\<close>

datatype template_piece = PieceText string | PieceArg nat

fun escape_braces :: "string \<Rightarrow> string" where
  "escape_braces [] = []"
| "escape_braces (c # cs) =
     (if c = CHR ''{'' \<or> c = CHR ''}'' then c # c # escape_braces cs else c # escape_braces cs)"

fun piece_source :: "template_piece \<Rightarrow> string" where
  "piece_source (PieceText s) = escape_braces s"
| "piece_source (PieceArg i) = ''{'' @ nat_to_string i @ ''}''"

fun piece_ok :: "json list \<Rightarrow> template_piece \<Rightarrow> bool" where
  "piece_ok vs (PieceText _) \<longleftrightarrow> True"
| "piece_ok vs (PieceArg i) \<longleftrightarrow> i < length vs \<and> i < 256"

fun piece_value :: "expr_ext \<Rightarrow> json list \<Rightarrow> template_piece \<Rightarrow> string" where
  "piece_value x vs (PieceText s) = s"
| "piece_value x vs (PieceArg i) = value_text x (vs ! i)"

lemma format_plain_text: "format_plain x vs (escape_braces s @ cs) = push_text s (format_plain x vs cs)"
  by (induction s) (simp_all add: push_text_push push_text_Nil)

lemma digit_not_brace: "is_ascii_digit c \<Longrightarrow> c \<noteq> CHR ''{'' \<and> c \<noteq> CHR ''}''"
  by (auto simp: is_ascii_digit_def)

lemma takeWhile_digits: "list_all is_ascii_digit ds \<Longrightarrow>
  takeWhile is_ascii_digit (ds @ CHR ''}'' # cs) = ds \<and> dropWhile is_ascii_digit (ds @ CHR ''}'' # cs) = CHR ''}'' # cs"
  by (induction ds) (auto simp: is_ascii_digit_def)

lemma placeholder_arg:
  assumes "i < length vs" "i < 256"
  shows "placeholder (t # vs) template (nat_to_string i @ CHR ''}'' # cs) = Inr (vs ! i, cs)"
proof -
  have d: "list_all is_ascii_digit (nat_to_string i)" "nat_to_string i \<noteq> []" using digits_nat_to_string by auto
  show ?thesis
    using assms takeWhile_digits [OF d(1), of cs] d(2)
    by (simp add: placeholder_def Let_def parse_u8_def opt_filter_def slice_get_def)
qed

lemma format_plain_arg:
  assumes "piece_ok vs (PieceArg i)"
  shows "format_plain x (t # vs) (piece_source (PieceArg i) @ cs) = push_text (value_text x (vs ! i)) (format_plain x (t # vs) cs)"
proof -
  obtain d ds where n: "nat_to_string i = d # ds" and dig: "is_ascii_digit d"
    using digits_nat_to_string [of i] by (cases "nat_to_string i") auto
  have "placeholder (t # vs) [] (nat_to_string i @ CHR ''}'' # cs) = Inr (vs ! i, cs)"
    using assms by (intro placeholder_arg) auto
  with digit_not_brace [OF dig] n show ?thesis by simp
qed

lemma format_plain_pieces:
  "list_all (piece_ok vs) ps \<Longrightarrow>
   format_plain x (t # vs) (concat (map piece_source ps)) = Some (concat (map (piece_value x vs) ps))"
proof (induction ps)
  case (Cons p ps)
  have "format_plain x (t # vs) (piece_source p @ cs) = push_text (piece_value x vs p) (format_plain x (t # vs) cs)" for cs
  proof (cases p)
    case (PieceText s)
    then show ?thesis by (simp add: format_plain_text)
  next
    case (PieceArg i)
    with Cons.prems have "piece_ok vs (PieceArg i)" by simp
    from format_plain_arg [OF this, of x t cs] PieceArg show ?thesis by simp
  qed
  with Cons show ?case by (simp add: push_text_def)
qed simp

text \<open>Every template that is written from text and argument references formats to the text with
  each argument's rendering in its place, escaped braces included, when that fits the limits.\<close>

theorem format_template:
  assumes "list_all (piece_ok vs) ps" "fits used (concat (map (piece_value x vs) ps))"
  shows "format_args x used (JString (concat (map piece_source ps)) # vs) = Inr (concat (map (piece_value x vs) ps))"
  using format_plain_pieces [OF assms(1)] assms(2) by (simp add: format_args_exact)

theorem format_template_witness:
  "\<forall>x. format_args x 0 [JString (concat (map piece_source [PieceText ''{x} = '', PieceArg 0])), JString ''1''] = Inr ''{x} = 1''"
proof
  fix x
  show "format_args x 0 [JString (concat (map piece_source [PieceText ''{x} = '', PieceArg 0])), JString ''1''] = Inr ''{x} = 1''"
    using format_template [of "[JString ''1'']" "[PieceText ''{x} = '', PieceArg 0]" 0 x]
    by (simp add: fits_def remaining_def MAX_FORMAT_OUTPUT_BYTES_def MAX_EVALUATED_VALUE_BYTES_def value_text_def)
qed

section \<open>Joining\<close>

definition join_plain :: "expr_ext \<Rightarrow> string \<Rightarrow> json list \<Rightarrow> string" where
  "join_plain x separator items = join separator (map (value_text x) items)"

lemma push_evaluation_Inr:
  "length out \<le> remaining used \<Longrightarrow>
   push_evaluation_capped used out s = Inr t \<longleftrightarrow> t = out @ s \<and> length t \<le> remaining used"
  by (auto simp: push_evaluation_capped_def split: if_splits)

lemma capped_push_Inr:
  "length out \<le> remaining used \<Longrightarrow>
   and_then (string_value_capped x v (remaining used - length out)) (\<lambda>rendered.
     and_then (push_evaluation_capped used out rendered) f) = Inr s \<longleftrightarrow>
   length (out @ value_text x v) \<le> remaining used \<and> f (out @ value_text x v) = Inr s"
  by (auto simp: string_value_capped_def string_value_bounded_def capped_text_def value_text_def and_then_Inr_iff
      push_evaluation_Inr split: if_splits option.splits)

lemma join_loop_rest:
  "length out \<le> remaining used \<Longrightarrow>
   join_loop x used separator out False items = Inr s \<longleftrightarrow>
   s = out @ concat (map (\<lambda>v. separator @ value_text x v) items) \<and> length s \<le> remaining used"
proof (induction items arbitrary: out)
  case (Cons v vs)
  have "join_loop x used separator out False (v # vs) = Inr s \<longleftrightarrow>
      length (out @ separator) \<le> remaining used \<and> length ((out @ separator) @ value_text x v) \<le> remaining used \<and>
      join_loop x used separator ((out @ separator) @ value_text x v) False vs = Inr s"
    using Cons.prems capped_push_Inr [of "out @ separator" used x v "\<lambda>out. join_loop x used separator out False vs" s]
    by (simp add: and_then_Inr_iff [of "push_evaluation_capped used out separator"] push_evaluation_Inr) blast
  also have "\<dots> \<longleftrightarrow> s = out @ concat (map (\<lambda>v. separator @ value_text x v) (v # vs)) \<and> length s \<le> remaining used"
    using Cons.IH [of "(out @ separator) @ value_text x v"] by auto
  finally show ?case .
qed auto

lemma capped_string: "string_value_capped x (JString s) limit = Inr s"
  by (simp add: string_value_capped_def string_value_bounded_def)

lemma join_concat: "join separator (t # ts) = t @ concat (map (\<lambda>u. separator @ u) ts)"
  by (induction ts arbitrary: t) auto

text \<open>\<^verbatim>\<open>join\<close> over an array returns the renderings of its items with the separator between them,
  exactly when the whole text fits what is left of the evaluation budget.\<close>

theorem join_args_exact:
  "join_args x used [JArray items, JString separator] = Inr s \<longleftrightarrow>
   s = join_plain x separator items \<and> length s \<le> remaining used"
proof (cases items)
  case (Cons v vs)
  have "join_args x used [JArray items, JString separator] = Inr s \<longleftrightarrow>
      length (value_text x v) \<le> remaining used \<and> join_loop x used separator (value_text x v) False vs = Inr s"
    using capped_push_Inr [of "[]" used x v "\<lambda>out. join_loop x used separator out False vs"] Cons
    by (simp add: join_args_def slice_get_def capped_string)
  also have "\<dots> \<longleftrightarrow> s = join_plain x separator items \<and> length s \<le> remaining used"
    using join_loop_rest [of "value_text x v" used] by (auto simp: join_plain_def Cons join_concat comp_def)
  finally show ?thesis .
qed (auto simp: join_args_def slice_get_def capped_string join_plain_def)

end
