(* ===== verification/Secret_Reads.thy ===== *)
theory Secret_Reads
  imports Expr_Eval Expr_Format
begin

text \<open>
  Static analysis of expressions (\<^verbatim>\<open>collect_*_from_expr\<close> of \<^verbatim>\<open>evaluator.rs\<close> and the entry points of
  \<^verbatim>\<open>lib.rs\<close>): which contexts, properties and secrets an expression reads. The analysis of secrets
  decides which secrets a job is given; that it is sound is a property of the evaluator: an
  expression evaluates to the same value whatever the secrets it is not reported to read.
\<close>

section \<open>Collectors\<close>

record context_function_call =
  function_name :: string
  argument_count :: nat

record expression_references =
  contexts :: "string set"
  context_calls :: "context_function_call list"

definition is_context_function :: "string \<Rightarrow> bool" where
  "is_context_function lower \<longleftrightarrow> lower \<in> {''always'', ''success'', ''failure'', ''cancelled'', ''hashfiles''}"

definition add_call :: "string \<Rightarrow> nat \<Rightarrow> expression_references \<Rightarrow> expression_references" where
  "add_call name n refs =
     (let lower = to_lower name
      in if is_context_function lower then
           refs\<lparr>contexts := insert lower (contexts refs),
                context_calls := context_calls refs @ [\<lparr>function_name = lower, argument_count = n\<rparr>]\<rparr>
         else refs)"

fun collect_expression_references_from_expr :: "expr \<Rightarrow> expression_references \<Rightarrow> expression_references" where
  "collect_expression_references_from_expr (Path path) refs =
     (case path of
        first # _ \<Rightarrow> refs\<lparr>contexts := insert (to_lower first) (contexts refs)\<rparr>
      | [] \<Rightarrow> refs)"
| "collect_expression_references_from_expr (Literal _) refs = refs"
| "collect_expression_references_from_expr (UnaryNot e) refs = collect_expression_references_from_expr e refs"
| "collect_expression_references_from_expr (MemberAccess e _) refs = collect_expression_references_from_expr e refs"
| "collect_expression_references_from_expr (Index base key) refs =
     collect_expression_references_from_expr key (collect_expression_references_from_expr base refs)"
| "collect_expression_references_from_expr (Binary _ l r) refs =
     collect_expression_references_from_expr r (collect_expression_references_from_expr l refs)"
| "collect_expression_references_from_expr (Call name args) refs =
     fold collect_expression_references_from_expr args (add_call name (length args) refs)"

definition add_property :: "string \<Rightarrow> string \<Rightarrow> (string \<times> string set) list \<Rightarrow> (string \<times> string set) list" where
  "add_property ctx_name prop m = btree_insert ctx_name (insert prop (unwrap_or (map_of m ctx_name) {})) m"

fun collect_context_properties_from_expr :: "expr \<Rightarrow> (string \<times> string set) list \<Rightarrow> (string \<times> string set) list" where
  "collect_context_properties_from_expr (Path path) m =
     (case path of
        ctx_name # prop # _ \<Rightarrow> add_property (to_lower ctx_name) prop m
      | _ \<Rightarrow> m)"
| "collect_context_properties_from_expr (Literal _) m = m"
| "collect_context_properties_from_expr (UnaryNot e) m = collect_context_properties_from_expr e m"
| "collect_context_properties_from_expr (MemberAccess e _) m = collect_context_properties_from_expr e m"
| "collect_context_properties_from_expr (Index base key) m =
     collect_context_properties_from_expr key (collect_context_properties_from_expr base m)"
| "collect_context_properties_from_expr (Binary _ l r) m =
     collect_context_properties_from_expr r (collect_context_properties_from_expr l m)"
| "collect_context_properties_from_expr (Call _ args) m = fold collect_context_properties_from_expr args m"

record secret_reads =
  read_names :: "string set"
  dynamic :: bool

definition no_reads :: secret_reads where "no_reads = \<lparr>read_names = {}, dynamic = False\<rparr>"

definition is_secrets :: "string \<Rightarrow> bool" where
  "is_secrets first \<longleftrightarrow> eq_ignore_ascii_case first ''secrets''"

definition collect_path :: "string list \<Rightarrow> secret_reads \<Rightarrow> secret_reads" where
  "collect_path path reads =
     (case path of
        [] \<Rightarrow> reads
      | first # rest \<Rightarrow>
          if \<not> is_secrets first then reads
          else case rest of
            [] \<Rightarrow> reads\<lparr>dynamic := True\<rparr>
          | segment # _ \<Rightarrow>
              if segment = ''*'' then reads\<lparr>dynamic := True\<rparr>
              else reads\<lparr>read_names := insert segment (read_names reads)\<rparr>)"

definition is_secrets_path :: "expr \<Rightarrow> bool" where
  "is_secrets_path e = (case e of Path [first] \<Rightarrow> is_secrets first | _ \<Rightarrow> False)"

definition literal_name :: "expr \<Rightarrow> string option" where
  "literal_name e = (case e of Literal (JString name) \<Rightarrow> Some name | _ \<Rightarrow> None)"

fun collect_secret_reads_from_expr :: "expr \<Rightarrow> secret_reads \<Rightarrow> secret_reads" where
  "collect_secret_reads_from_expr (Path path) reads = collect_path path reads"
| "collect_secret_reads_from_expr (Literal _) reads = reads"
| "collect_secret_reads_from_expr (UnaryNot e) reads = collect_secret_reads_from_expr e reads"
| "collect_secret_reads_from_expr (MemberAccess e _) reads = collect_secret_reads_from_expr e reads"
| "collect_secret_reads_from_expr (Index base key) reads =
     (if is_secrets_path base then
        (case literal_name key of
           Some name \<Rightarrow> reads\<lparr>read_names := insert name (read_names reads)\<rparr>
         | None \<Rightarrow> collect_secret_reads_from_expr key (reads\<lparr>dynamic := True\<rparr>))
      else collect_secret_reads_from_expr key (collect_secret_reads_from_expr base reads))"
| "collect_secret_reads_from_expr (Binary _ l r) reads =
     collect_secret_reads_from_expr r (collect_secret_reads_from_expr l reads)"
| "collect_secret_reads_from_expr (Call _ args) reads = fold collect_secret_reads_from_expr args reads"

definition collect_expression_references :: "(string \<Rightarrow> jnum option) \<Rightarrow> string \<Rightarrow> expression_error + expression_references" where
  "collect_expression_references number input =
     and_then (parse_input number (trim_expression_markers input)) (\<lambda>e.
       Inr (collect_expression_references_from_expr e \<lparr>contexts = {}, context_calls = []\<rparr>))"

definition collect_contexts :: "(string \<Rightarrow> jnum option) \<Rightarrow> string \<Rightarrow> expression_error + string set" where
  "collect_contexts number input = and_then (collect_expression_references number input) (\<lambda>refs. Inr (contexts refs))"

definition collect_context_properties ::
  "(string \<Rightarrow> jnum option) \<Rightarrow> string \<Rightarrow> expression_error + (string \<times> string set) list" where
  "collect_context_properties number input =
     and_then (parse_input number (trim_expression_markers input)) (\<lambda>e.
       Inr (collect_context_properties_from_expr e []))"

definition collect_secret_reads :: "(string \<Rightarrow> jnum option) \<Rightarrow> string \<Rightarrow> expression_error + secret_reads" where
  "collect_secret_reads number input =
     and_then (parse_input number (trim_expression_markers input)) (\<lambda>e.
       Inr (collect_secret_reads_from_expr e no_reads))"

section \<open>The collector adds to what it is given\<close>

definition reads_within :: "secret_reads \<Rightarrow> secret_reads \<Rightarrow> bool" where
  "reads_within a b \<longleftrightarrow> read_names a \<subseteq> read_names b \<and> (dynamic a \<longrightarrow> dynamic b)"

lemma within_refl [simp]: "reads_within a a"
  by (simp add: reads_within_def)

lemma within_trans: "reads_within a b \<Longrightarrow> reads_within b c \<Longrightarrow> reads_within a c"
  by (auto simp: reads_within_def)

lemma within_fold: "(\<And>e r. e \<in> set es \<Longrightarrow> reads_within r (f e r)) \<Longrightarrow> reads_within r (fold f es r)"
  by (induction es arbitrary: r) (auto intro: within_trans)

lemma within_path: "reads_within r (collect_path path r)"
  by (auto simp: reads_within_def collect_path_def split: list.splits)

lemma collect_grows: "reads_within r (collect_secret_reads_from_expr e r)"
proof (induction e arbitrary: r)
  case (Index base key)
  have "reads_within r (collect_secret_reads_from_expr key (r\<lparr>dynamic := True\<rparr>))"
    using Index(2) [of "r\<lparr>dynamic := True\<rparr>"] by (auto simp: reads_within_def)
  moreover have "reads_within r (r\<lparr>read_names := insert n (read_names r)\<rparr>)" for n by (auto simp: reads_within_def)
  moreover have "reads_within r (collect_secret_reads_from_expr key (collect_secret_reads_from_expr base r))"
    using Index within_trans by blast
  ultimately show ?case by (auto split: option.splits)
next
  case (Binary bop l r')
  then show ?case using within_trans by fastforce
next
  case (Call name args)
  then show ?case by (simp add: within_fold)
qed (simp_all add: within_path)

definition covered :: "secret_reads \<Rightarrow> expr \<Rightarrow> bool" where
  "covered b e \<longleftrightarrow> (\<exists>r. reads_within (collect_secret_reads_from_expr e r) b)"

lemma covered_fold: "reads_within (fold collect_secret_reads_from_expr es r) b \<Longrightarrow> e \<in> set es \<Longrightarrow> covered b e"
proof (induction es arbitrary: r)
  case (Cons a es)
  show ?case
  proof (cases "e = a")
    case True
    have "reads_within (collect_secret_reads_from_expr a r) (fold collect_secret_reads_from_expr es (collect_secret_reads_from_expr a r))"
      by (rule within_fold) (rule collect_grows)
    with Cons.prems True show ?thesis by (auto simp: covered_def intro: within_trans)
  next
    case False
    with Cons show ?thesis by simp
  qed
qed simp

lemma covered_parts:
  "covered b (UnaryNot e) \<Longrightarrow> covered b e"
  "covered b (MemberAccess e path) \<Longrightarrow> covered b e"
  "covered b (Binary bop l r) \<Longrightarrow> covered b l \<and> covered b r"
  "covered b (Call name args) \<Longrightarrow> list_all (covered b) args"
  "covered b (Index e k) \<Longrightarrow> \<not> is_secrets_path e \<Longrightarrow> covered b e \<and> covered b k"
proof -
  show "covered b (UnaryNot e) \<Longrightarrow> covered b e" "covered b (MemberAccess e path) \<Longrightarrow> covered b e"
    by (simp_all add: covered_def)
  show "covered b (Binary bop l r) \<Longrightarrow> covered b l \<and> covered b r"
    "covered b (Index e k) \<Longrightarrow> \<not> is_secrets_path e \<Longrightarrow> covered b e \<and> covered b k"
    using within_trans [OF collect_grows] by (fastforce simp: covered_def)+
  show "covered b (Call name args) \<Longrightarrow> list_all (covered b) args"
    using covered_fold by (fastforce simp: covered_def [of b "Call name args"] list_all_iff)
qed

section \<open>The budget decides only whether there is a result\<close>

lemma push_evaluation_value: "push_evaluation_capped used out s = Inr t \<Longrightarrow> t = out @ s"
  by (simp add: push_evaluation_capped_def split: if_splits)

lemma string_value_capped_value: "string_value_capped x v limit = Inr t \<Longrightarrow> t = value_text x v"
  by (auto simp: string_value_capped_def string_value_bounded_def capped_text_def value_text_def split: if_splits option.splits)

lemma join_loop_value:
  "join_loop x used separator out first vs = Inr s \<Longrightarrow>
   s = out @ (if first then join_plain x separator vs else concat (map (\<lambda>v. separator @ value_text x v) vs))"
proof (induction vs arbitrary: out first)
  case (Cons v vs)
  have "join_plain x separator (v # vs) = value_text x v @ concat (map (\<lambda>v. separator @ value_text x v) vs)"
    by (simp add: join_plain_def join_concat comp_def)
  with Cons.prems show ?case
    by (auto simp: and_then_Inr_iff split: if_splits dest!: push_evaluation_value string_value_capped_value Cons.IH)
qed (auto simp: join_plain_def)

lemma format_args_value:
  assumes "format_args x used vs = Inr s"
  shows "format_plain x vs (value_text x (unwrap_or (slice_get vs 0) JNull)) = Some s"
proof -
  obtain t where t: "t = value_text x (unwrap_or (slice_get vs 0) JNull)" "format_loop x used vs t [] [] t = Inr s"
    using assms by (auto simp: format_args_def and_then_Inr_iff string_value_bounded_def capped_text_def value_text_def
        split: if_splits option.splits)
  have "exact used [] (push_text [] (format_plain x vs t)) (format_loop x used vs t [] [] t)"
    by (rule format_loop_exact) (simp add: fits_def)
  with t show ?thesis by (auto simp: exact_def push_text_Nil)
qed

lemma join_args_value: "join_args x used vs = Inr s \<Longrightarrow> join_args x used' vs = Inr s' \<Longrightarrow> s = s'"
  by (auto simp: join_args_def and_then_Inr_iff split: option.splits json.splits if_splits
      dest!: push_evaluation_value string_value_capped_value join_loop_value)

lemma to_json_pretty_value: "to_json_pretty x used v = Inr s \<Longrightarrow> s = to_json_pretty_text x v"
  by (auto simp: to_json_pretty_def capped_text_def split: option.splits if_splits)

definition same_status :: "expr_context \<Rightarrow> expr_context \<Rightarrow> bool" where
  "same_status c c' \<longleftrightarrow> ctx_success c = ctx_success c' \<and> ctx_failure c = ctx_failure c' \<and>
     ctx_cancelled c = ctx_cancelled c' \<and> workspace_dir c = workspace_dir c'"

lemma string_results_agree:
  "(\<And>s s'. r = Inr s \<Longrightarrow> r' = Inr s' \<Longrightarrow> s = s') \<Longrightarrow> string_result r = Inr v \<Longrightarrow> string_result r' = Inr v' \<Longrightarrow> v = v'"
  by (auto simp: string_result_def and_then_Inr_iff)

lemma call_function_value:
  assumes "same_status c c'" "call_function fs x c used name vs = Inr v" "call_function fs x c' used' name vs = Inr v'"
  shows "v = v'"
proof -
  have h: "hash_files fs x c vs = hash_files fs x c' vs" using assms(1) by (simp add: hash_files_def same_status_def)
  have f: "string_result (format_args x used vs) = Inr v \<Longrightarrow> string_result (format_args x used' vs) = Inr v' \<Longrightarrow> v = v'"
    by (rule string_results_agree) (auto dest!: format_args_value)
  have j: "string_result (join_args x used vs) = Inr v \<Longrightarrow> string_result (join_args x used' vs) = Inr v' \<Longrightarrow> v = v'"
    by (rule string_results_agree) (auto dest: join_args_value)
  have p: "string_result (to_json_pretty x used w) = Inr v \<Longrightarrow> string_result (to_json_pretty x used' w) = Inr v' \<Longrightarrow> v = v'" for w
    by (rule string_results_agree) (auto dest!: to_json_pretty_value)
  show ?thesis
    using assms f j p unfolding call_function_def Let_def same_status_def h
    by (simp split: if_splits)
qed

section \<open>Secrets that are not read do not matter\<close>

text \<open>Two values of a \<^verbatim>\<open>secrets\<close> root that agree on some names.\<close>

definition secrets_agree :: "string set \<Rightarrow> json option \<Rightarrow> json option \<Rightarrow> bool" where
  "secrets_agree names a b \<longleftrightarrow>
     a = b \<or> (\<exists>m m'. a = Some (JObject m) \<and> b = Some (JObject m') \<and> (\<forall>n \<in> names. map_of m n = map_of m' n))"

definition same_but_secrets :: "string set \<Rightarrow> expr_context \<Rightarrow> expr_context \<Rightarrow> bool" where
  "same_but_secrets names c c' \<longleftrightarrow>
     same_status c c' \<and>
     (\<forall>first. if is_secrets first then secrets_agree names (map_of (roots c) first) (map_of (roots c') first)
              else map_of (roots c) first = map_of (roots c') first)"

lemma secrets_agree_segment:
  assumes "secrets_agree names a b" "n \<in> names"
  shows "n \<noteq> ''*'' \<Longrightarrow> resolve_segment (unwrap_or a JNull) n = resolve_segment (unwrap_or b JNull) n"
    and "index_value (unwrap_or a JNull) n = index_value (unwrap_or b JNull) n"
  using assms by (auto simp: secrets_agree_def resolve_segment_def index_value_def)

lemma resolve_path_agrees:
  assumes "same_but_secrets names c c'" "covered \<lparr>read_names = names, dynamic = False\<rparr> (Path path)"
  shows "resolve c path = resolve c' path"
proof (cases path)
  case (Cons first rest)
  show ?thesis
  proof (cases "is_secrets first")
    case True
    obtain r where r: "reads_within (collect_path (first # rest) r) \<lparr>read_names = names, dynamic = False\<rparr>"
      using assms(2) Cons by (auto simp: covered_def)
    then obtain n rest' where rest: "rest = n # rest'" using True by (cases rest) (simp_all add: collect_path_def reads_within_def)
    then have rest: "rest = n # rest'" "n \<noteq> ''*''" "n \<in> names"
      using r True by (cases "n = ''*''"; simp add: collect_path_def reads_within_def)+
    have "secrets_agree names (map_of (roots c) first) (map_of (roots c') first)"
      using assms(1) True by (auto simp: same_but_secrets_def split: if_splits)
    from secrets_agree_segment(1) [OF this rest(3,2)] rest Cons show ?thesis by (simp add: resolve_def)
  next
    case False
    with assms(1) Cons show ?thesis by (auto simp: resolve_def same_but_secrets_def split: if_splits)
  qed
qed (simp add: resolve_def)

lemma covered_secrets_index:
  assumes "covered \<lparr>read_names = names, dynamic = False\<rparr> (Index base key)" "is_secrets_path base"
  obtains first n where "base = Path [first]" "is_secrets first" "key = Literal (JString n)" "n \<in> names"
proof -
  obtain first where b: "base = Path [first]" "is_secrets first"
    using assms(2) by (auto simp: is_secrets_path_def split: expr.splits list.splits)
  obtain r where r: "reads_within (collect_secret_reads_from_expr (Index base key) r) \<lparr>read_names = names, dynamic = False\<rparr>"
    using assms(1) by (auto simp: covered_def)
  show ?thesis
  proof (cases "literal_name key")
    case None
    have "reads_within (r\<lparr>dynamic := True\<rparr>) \<lparr>read_names = names, dynamic = False\<rparr>"
      using r None assms(2) within_trans [OF collect_grows] by simp
    then show ?thesis by (simp add: reads_within_def)
  next
    case (Some n)
    with r assms(2) have "n \<in> names" by (simp add: reads_within_def)
    moreover have "key = Literal (JString n)" using Some by (auto simp: literal_name_def split: expr.splits json.splits)
    ultimately show ?thesis using b that by blast
  qed
qed

lemma eval_leaf:
  "eval fs x c depth used (Literal v) = Inr (w, u) \<Longrightarrow> w = v"
  "eval fs x c depth used (Path path) = Inr (w, u) \<Longrightarrow> w = resolve c path"
  by (auto simp: eval.simps eval_path_resolves charged_Inr split: if_splits)

definition agree :: "expression_error + 'v \<times> nat \<Rightarrow> expression_error + 'v \<times> nat \<Rightarrow> bool" where
  "agree r r' \<longleftrightarrow> (\<forall>v u v' u'. r = Inr (v, u) \<longrightarrow> r' = Inr (v', u') \<longrightarrow> v = v')"

lemma agree_charged: "agree (charged used v) (charged used' v)"
  by (auto simp: agree_def charged_Inr)

lemma agree_and_then:
  assumes "agree r r'" "\<And>v u u'. r = Inr (v, u) \<Longrightarrow> r' = Inr (v, u') \<Longrightarrow> agree (f v u) (f' v u')"
  shows "agree (and_then r (\<lambda>(v, u). f v u)) (and_then r' (\<lambda>(v, u). f' v u))"
  using assms by (force simp: agree_def and_then_Inr_iff)

lemma agree_Inl [simp]: "agree (Inl e) r" "agree r (Inl e)"
  by (simp_all add: agree_def)

lemma agree_Inr [simp]: "agree (Inr (v, u)) (Inr (v', u')) \<longleftrightarrow> v = v'"
  by (simp add: agree_def)

lemma agree_if: "(P \<Longrightarrow> agree a a') \<Longrightarrow> (\<not> P \<Longrightarrow> agree b b') \<Longrightarrow> agree (if P then a else b) (if P then a' else b')"
  by simp

lemma agree_call:
  assumes "same_status c c'"
  shows "agree (and_then (call_function fs x c used name vs) (charged used)) (and_then (call_function fs x c' used' name vs) (charged used'))"
  using call_function_value [OF assms] by (fastforce simp: agree_def and_then_Inr_iff charged_Inr)

lemmas agree_intros = agree_charged agree_and_then agree_if agree_call

lemma eval_agrees:
  assumes "same_but_secrets names c c'"
  defines "b \<equiv> \<lparr>read_names = names, dynamic = False\<rparr>"
  shows "covered b e \<Longrightarrow> agree (eval fs x c depth used e) (eval fs x c' depth used' e)"
    "covered b e \<Longrightarrow> agree (eval_inner fs x c depth used e) (eval_inner fs x c' depth used' e)"
    "list_all (covered b) es \<Longrightarrow> agree (eval_args fs x c depth used es) (eval_args fs x c' depth used' es)"
    "list_all (covered b) es \<Longrightarrow> agree (eval_case fs x c depth used es) (eval_case fs x c' depth used' es)"
  using assms(1)
proof (induction fs x c depth used e and fs x c depth used e and fs x c depth used es and fs x c depth used es
    arbitrary: used' and used' and used' and used'
    rule: eval_eval_inner_eval_args_eval_case.induct)
  case (1 fs x c depth used e)
  then show ?case by (auto simp: eval.simps)
next
  case (2 fs x c depth used v)
  show ?case by (simp add: agree_charged)
next
  case (3 fs x c depth used path)
  then show ?case using resolve_path_agrees [of names c c' path] by (simp add: eval_path_resolves agree_charged b_def)
next
  case (4 fs x c depth used e)
  then show ?case using covered_parts(1) by (auto intro!: agree_intros)
next
  case (5 fs x c depth used bop l r)
  then show ?case using covered_parts(3) [OF "5.prems"(1)] by (auto intro!: agree_intros)
next
  case (6 fs x c depth used name args)
  show ?case
  proof (cases "validate_function_arity name (length args)")
    case (Inr ok)
    have st: "same_status c c'" using "6.prems"(2) by (simp add: same_but_secrets_def)
    show ?thesis
      using 6 covered_parts(4) [OF "6.prems"(1)] Inr st by (auto intro!: agree_intros)
  qed simp
next
  case (7 fs x c depth used e path)
  then show ?case using covered_parts(2) by (auto intro!: agree_intros)
next
  case (8 fs x c depth used base key)
  show ?case
  proof (cases "is_secrets_path base")
    case False
    with 8 show ?thesis using covered_parts(5) [OF "8.prems"(1)] by (auto intro!: agree_intros)
  next
    case True
    obtain first n where i: "base = Path [first]" "is_secrets first" "key = Literal (JString n)" "n \<in> names"
      using covered_secrets_index [OF "8.prems"(1) [unfolded b_def] True] .
    have "secrets_agree names (map_of (roots c) first) (map_of (roots c') first)"
      using "8.prems"(2) i(2) by (auto simp: same_but_secrets_def split: if_splits)
    then have "index_value (resolve c [first]) n = index_value (resolve c' [first]) n"
      using secrets_agree_segment(2) i(4) by (simp add: resolve_def)
    then show ?thesis
      unfolding agree_def i eval_inner.simps
      by (fastforce simp: and_then_Inr_iff charged_Inr dest!: eval_leaf)
  qed
next
  case (10 fs x c depth used e es)
  then show ?case by (auto intro!: agree_intros)
next
  case (13 fs x c depth used p e es)
  have "agree (case v of JBool q \<Rightarrow> if q then eval fs x c depth u e else eval_case fs x c depth u es
        | _ \<Rightarrow> Inl NonBooleanCasePredicate)
      (case v of JBool q \<Rightarrow> if q then eval fs x c' depth u' e else eval_case fs x c' depth u' es
        | _ \<Rightarrow> Inl NonBooleanCasePredicate)"
    if "eval fs x c depth used p = Inr (v, u)" for v u u'
    using 13 that by (cases v rule: json.exhaust) auto
  with 13 show ?case by (auto intro!: agree_and_then)
qed simp_all

lemma evaluation_agrees:
  assumes "collect_secret_reads number input = Inr reads" "\<not> dynamic reads" "read_names reads \<subseteq> names"
    "same_but_secrets names c c'"
    "eval_expression number fs x input c = Inr v" "eval_expression number fs x input c' = Inr v'"
  shows "v = v'"
proof -
  obtain e where e: "parse_input number (trim_expression_markers input) = Inr e"
    and r: "reads = collect_secret_reads_from_expr e no_reads"
    using assms(1) by (auto simp: collect_secret_reads_def and_then_Inr_iff)
  have "covered \<lparr>read_names = names, dynamic = False\<rparr> e"
    using r assms(2,3) unfolding covered_def by (intro exI [of _ no_reads]) (simp add: reads_within_def)
  then have "agree (eval fs x c 0 0 e) (eval fs x c' 0 0 e)" by (rule eval_agrees(1) [OF assms(4)])
  with assms(5,6) e show ?thesis by (fastforce simp: eval_expression_def and_then_Inr_iff agree_def)
qed

text \<open>C10. The analysis of secrets is sound: an expression that is not reported as dynamic evaluates to
  the same value in any two contexts that differ only in secrets it is not reported to read, whenever
  both evaluations stay within their budgets.\<close>

theorem secret_reads_sound:
  assumes "collect_secret_reads number input = Inr reads" "\<not> dynamic reads"
    "same_but_secrets (read_names reads) c c'"
    "eval_expression number fs x input c = Inr v" "eval_expression number fs x input c' = Inr v'"
  shows "v = v'"
  using assms(1,2) subset_refl assms(3-5) by (rule evaluation_agrees)

definition secret_context :: "(string \<times> json) list \<Rightarrow> expr_context" where
  "secret_context secrets =
     \<lparr>roots = [(''secrets'', JObject secrets)], ctx_success = True, ctx_failure = False, ctx_cancelled = False,
      workspace_dir = None\<rparr>"

lemma secret_contexts_agree:
  "(\<And>n. n \<in> names \<Longrightarrow> map_of m n = map_of m' n) \<Longrightarrow> same_but_secrets names (secret_context m) (secret_context m')"
  by (auto simp: same_but_secrets_def secret_context_def same_status_def secrets_agree_def is_secrets_def)

theorem secret_reads_sound_witness:
  "collect_secret_reads (\<lambda>_. None) ''secrets.A'' = Inr \<lparr>read_names = {''A''}, dynamic = False\<rparr> \<and>
   eval_expression (\<lambda>_. None) one_file_system plain_ext ''secrets.A'' (secret_context [(''A'', JString ''1''), (''B'', JString ''2'')]) =
     Inr (JString ''1'')"
proof -
  let ?c = "secret_context [(''A'', JString ''1''), (''B'', JString ''2'')]" and ?c' = "secret_context [(''A'', JString ''1'')]"
  have r: "collect_secret_reads (\<lambda>_. None) ''secrets.A'' = Inr \<lparr>read_names = {''A''}, dynamic = False\<rparr>" by code_simp
  have p: "parse_input (\<lambda>_. None) (trim_expression_markers ''secrets.A'') = Inr (Path [''secrets'', ''A''])" by code_simp
  have v: "eval_expression (\<lambda>_. None) one_file_system plain_ext ''secrets.A'' c = Inr (JString ''1'')"
    if "resolve c [''secrets'', ''A''] = JString ''1''" for c
    using that by (simp add: eval_expression_def p eval.simps eval_path_resolves charged_def charge_def
        MAX_EXPRESSION_DEPTH_def MAX_EVALUATED_VALUE_BYTES_def)
  have "eval_expression (\<lambda>_. None) one_file_system plain_ext ''secrets.A'' ?c' = Inr (JString ''1'')"
    by (rule v) (simp add: resolve_def secret_context_def resolve_segment_def)
  moreover obtain w where w: "eval_expression (\<lambda>_. None) one_file_system plain_ext ''secrets.A'' ?c = Inr w"
    using v [of ?c] by (simp add: resolve_def secret_context_def resolve_segment_def)
  moreover have "same_but_secrets {''A''} ?c' ?c" by (rule secret_contexts_agree) simp
  ultimately have "JString ''1'' = w" using secret_reads_sound [OF r] by simp
  with r w show ?thesis by simp
qed

end
