(* ===== verification/Template_Render.thy ===== *)
theory Template_Render
  imports Expr_Eval
begin

text \<open>
  Rendering of the expressions in a text: the scan for the end of an expression (\<^verbatim>\<open>expr_scan.rs\<close> of
  \<^verbatim>\<open>preloop-gha-protocol\<close>), shared by the server and the runner, and the runner's renderer
  (\<^verbatim>\<open>worker/template.rs\<close>) in its strict and its lenient form. Positions are byte offsets.

  Shown: where the text up to the first \<^verbatim>\<open>}}\<close> is a sequence of tokens, the scan stops there, so that it
  finds the span that a search for the plain \<^verbatim>\<open>}}\<close> finds; what is rendered strictly is rendered leniently
  to the same text.
\<close>

section \<open>The end of an expression\<close>

fun find_end :: "bool \<Rightarrow> nat \<Rightarrow> string \<Rightarrow> nat option" where
  "find_end in_quote pos [] = None"
| "find_end in_quote pos [c] = None"
| "find_end in_quote pos (c # d # cs) =
     (if c = QUOTE then
        if \<not> in_quote then find_end True (pos + 1) (d # cs)
        else if d = QUOTE then find_end True (pos + 2) cs
        else find_end False (pos + 1) (d # cs)
      else if c = CHR ''}'' \<and> \<not> in_quote \<and> d = CHR ''}'' then Some pos
      else find_end in_quote (pos + 1) (d # cs))"

definition find_expression_end :: "string \<Rightarrow> nat option" where
  "find_expression_end s = find_end False 0 s"

lemma find_end_Some: "find_end q pos s = Some i \<Longrightarrow> pos \<le> i \<and> starts_with ''}}'' (drop (i - pos) s)"
proof (induction q pos s arbitrary: i rule: find_end.induct)
  case (3 q pos c d cs)
  have "pos + 1 \<le> i \<Longrightarrow> drop (i - pos) (c # d # cs) = drop (i - (pos + 1)) (d # cs)"
    "pos + 2 \<le> i \<Longrightarrow> drop (i - pos) (c # d # cs) = drop (i - (pos + 2)) cs"
    by (simp_all add: drop_Cons' Suc_diff_le split: nat.splits)
  then show ?case using 3 by (auto simp: starts_with_def split: if_splits)
qed auto

section \<open>Values in a text\<close>

definition value_to_string :: "expr_ext \<Rightarrow> json \<Rightarrow> string" where
  "value_to_string x v =
     (case v of
        JNull \<Rightarrow> []
      | JBool b \<Rightarrow> bool_text b
      | JNumber (PosInt n) \<Rightarrow> nat_to_string n
      | JNumber (NegInt i) \<Rightarrow> int_to_string i
      | JNumber (JFloat q) \<Rightarrow> if q = of_int \<lfloor>q\<rfloor> then int_to_string \<lfloor>q\<rfloor> else to_json_text x v
      | JString s \<Rightarrow> s
      | other \<Rightarrow> to_json_text x other)"

section \<open>The renderer\<close>

datatype template_error =
    FailedExpression string expression_error
  | Propagated expression_error
  | UnclosedExpression

text \<open>The errors that a lenient rendering does not keep as the text of the token.\<close>

fun always_fails :: "expression_error \<Rightarrow> bool" where
  "always_fails (FormatOutputTooLarge _) = True"
| "always_fails (EvaluationTooLarge _) = True"
| "always_fails (InvalidJson _) = True"
| "always_fails _ = False"

lemma find_sub_length: "find_sub p s = Some i \<Longrightarrow> p \<noteq> [] \<Longrightarrow> i < length s"
  by (induction s arbitrary: i) (auto split: if_splits)

function render_loop ::
  "(string \<Rightarrow> jnum option) \<Rightarrow> file_system \<Rightarrow> expr_ext \<Rightarrow> expr_context \<Rightarrow> bool \<Rightarrow> string \<Rightarrow> template_error + string" where
  "render_loop number fs x c strict rest =
     (case find_sub ''${{'' rest of
        None \<Rightarrow> Inr rest
      | Some start \<Rightarrow>
          (let remaining = drop (start + 3) rest
           in case find_expression_end remaining of
                Some stop \<Rightarrow>
                  (let expr = trim (take stop remaining)
                   in and_then
                        (case eval_expression number fs x expr c of
                           Inr v \<Rightarrow> Inr (value_to_string x v)
                         | Inl e \<Rightarrow>
                             if strict then Inl (FailedExpression expr e)
                             else if always_fails e then Inl (Propagated e)
                             else Inr (take (stop + 5) (drop start rest)))
                        (\<lambda>piece. and_then (render_loop number fs x c strict (drop (stop + 2) remaining))
                           (\<lambda>out. Inr (take start rest @ piece @ out))))
              | None \<Rightarrow> if strict then Inl UnclosedExpression else Inr rest))"
  by pat_completeness auto
termination
  by (relation "measure (\<lambda>(_, _, _, _, _, rest). length rest)") (auto dest: find_sub_length)

declare render_loop.simps [simp del]

definition evaluate_template_inner ::
  "(string \<Rightarrow> jnum option) \<Rightarrow> file_system \<Rightarrow> expr_ext \<Rightarrow> string \<Rightarrow> expr_context \<Rightarrow> bool \<Rightarrow> template_error + string" where
  "evaluate_template_inner number fs x input c strict =
     (if \<not> str_contains input ''${{'' then Inr input else render_loop number fs x c strict input)"

definition evaluate_template ::
  "(string \<Rightarrow> jnum option) \<Rightarrow> file_system \<Rightarrow> expr_ext \<Rightarrow> string \<Rightarrow> expr_context \<Rightarrow> template_error + string" where
  "evaluate_template number fs x input c = evaluate_template_inner number fs x input c False"

definition evaluate_template_strict ::
  "(string \<Rightarrow> jnum option) \<Rightarrow> file_system \<Rightarrow> expr_ext \<Rightarrow> string \<Rightarrow> expr_context \<Rightarrow> template_error + string" where
  "evaluate_template_strict number fs x input c = evaluate_template_inner number fs x input c True"

lemma evaluate_template_loop: "evaluate_template_inner number fs x input c strict = render_loop number fs x c strict input"
  by (cases "find_sub ''${{'' input")
    (simp_all add: evaluate_template_inner_def str_contains_def render_loop.simps [of number fs x c strict input])

section \<open>The scan follows the tokens\<close>

lemma find_end_skip:
  assumes "list_all (\<lambda>c. c \<noteq> QUOTE \<and> c \<noteq> CHR ''}'') u"
  shows "find_end False pos (u @ r) = find_end False (pos + length u) r"
  using assms
proof (induction u arbitrary: pos)
  case (Cons a u)
  then show ?case by (cases "u @ r") (auto simp: neq_Nil_conv)
qed simp

lemma find_end_string:
  "lex_string acc cs = Some (s, rest) \<Longrightarrow> R = [] \<or> hd R \<noteq> QUOTE \<Longrightarrow>
   find_end True pos (cs @ R) = find_end False (pos + (length cs - length rest)) (rest @ R)"
proof (induction acc cs arbitrary: pos rule: lex_string.induct)
  case (2 acc c)
  then show ?case by (cases R) (auto split: if_splits)
next
  case (3 acc c d cs)
  have shorter: "length rest < length cs" if "lex_string (acc @ [QUOTE]) cs = Some (s, rest)" using lex_string_shorter [OF that] .
  have shorter': "length rest < length (d # cs)" if "lex_string (acc @ [c]) (d # cs) = Some (s, rest)" using lex_string_shorter [OF that] .
  consider (escape) "c = QUOTE" "d = QUOTE" | (close) "c = QUOTE" "d \<noteq> QUOTE" | (inside) "c \<noteq> QUOTE" by blast
  then show ?case
  proof cases
    case escape
    then have l: "lex_string (acc @ [QUOTE]) cs = Some (s, rest)" using "3.prems"(1) by simp
    show ?thesis using "3.IH"(1) [OF escape l "3.prems"(2), of "pos + 2"] escape shorter [OF l] by (simp add: Suc_diff_le)
  next
    case close
    then show ?thesis using "3.prems" by auto
  next
    case inside
    then have l: "lex_string (acc @ [c]) (d # cs) = Some (s, rest)" using "3.prems"(1) by simp
    show ?thesis using "3.IH"(2) [OF inside l "3.prems"(2), of "pos + 1"] inside shorter' [OF l] by (simp add: Suc_diff_le)
  qed
qed simp

lemma find_end_one: "c \<noteq> QUOTE \<Longrightarrow> c \<noteq> CHR ''}'' \<Longrightarrow> find_end False pos (c # r) = find_end False (Suc pos) r"
  using find_end_skip [of "[c]" pos r] by simp

lemma plain_chars:
  "is_whitespace c \<Longrightarrow> c \<noteq> QUOTE \<and> c \<noteq> CHR ''}''" "is_number_char c \<Longrightarrow> c \<noteq> QUOTE \<and> c \<noteq> CHR ''}''"
  "is_ident_char c \<Longrightarrow> c \<noteq> QUOTE \<and> c \<noteq> CHR ''}''" "is_ascii_digit c \<Longrightarrow> c \<noteq> CHR ''}''" "is_ident_start c \<Longrightarrow> c \<noteq> CHR ''}''"
  "punctuation c = Some t \<Longrightarrow> c \<noteq> CHR ''}''" "operator c = Some q \<Longrightarrow> c \<noteq> CHR ''}''"
  "operator c = Some (second, long, short) \<Longrightarrow> second \<noteq> QUOTE \<and> second \<noteq> CHR ''}''"
  by (auto simp: QUOTE_def is_whitespace_def is_number_char_def is_ident_char_def is_ident_start_def is_ascii_digit_def
      is_ascii_alphabetic_def is_ascii_alphanumeric_def punctuation.simps operator.simps split: if_splits)

lemma find_end_while:
  assumes "\<And>c. P c \<Longrightarrow> c \<noteq> QUOTE \<and> c \<noteq> CHR ''}''"
  shows "find_end False pos (cs @ R) = find_end False (pos + (length cs - length (dropWhile P cs))) (dropWhile P cs @ R)"
proof -
  have "list_all (\<lambda>c. c \<noteq> QUOTE \<and> c \<noteq> CHR ''}'') (takeWhile P cs)"
    using assms by (auto simp: list_all_iff dest: set_takeWhileD)
  from find_end_skip [OF this, of pos "dropWhile P cs @ R"]
  have "find_end False pos (cs @ R) = find_end False (pos + length (takeWhile P cs)) (dropWhile P cs @ R)"
    by (metis append.assoc takeWhile_dropWhile_id)
  moreover have "length (takeWhile P cs) = length cs - length (dropWhile P cs)"
    by (metis add_diff_cancel_right' length_append takeWhile_dropWhile_id)
  ultimately show ?thesis by simp
qed

text \<open>Over a text of tokens the scan goes from the start to the end, outside of quotes at both.\<close>

lemma find_end_tokens:
  "lex s = Inr ts \<Longrightarrow> R = [] \<or> hd R \<noteq> QUOTE \<Longrightarrow> find_end False pos (s @ R) = find_end False (pos + length s) R"
proof (induction s arbitrary: ts pos rule: lex.induct)
  case (2 c cs)
  have le: "length (dropWhile P cs) \<le> length cs" for P by (rule length_dropWhile_le)
  consider (space) "is_whitespace c" | (quote) "\<not> is_whitespace c" "c = QUOTE"
    | (digit) "\<not> is_whitespace c" "c \<noteq> QUOTE" "is_ascii_digit c"
    | (ident) "\<not> is_whitespace c" "c \<noteq> QUOTE" "\<not> is_ascii_digit c" "is_ident_start c"
    | (sym) "\<not> is_whitespace c" "c \<noteq> QUOTE" "\<not> is_ascii_digit c" "\<not> is_ident_start c" by blast
  then show ?case
  proof cases
    case space
    then show ?thesis using 2 find_end_one [of c pos "cs @ R"] plain_chars(1) [OF space] by simp
  next
    case quote
    then obtain str rest us where s: "lex_string [] cs = Some (str, rest)" "lex rest = Inr us"
      using "2.prems"(1) by (auto simp: emit_def and_then_Inr_iff split: option.splits)
    have "find_end False pos ((c # cs) @ R) = find_end True (Suc pos) (cs @ R)"
      using quote s(1) by (cases "cs @ R") auto
    also have "\<dots> = find_end False (Suc pos + (length cs - length rest)) (rest @ R)"
      by (rule find_end_string [OF s(1) "2.prems"(2)])
    also have "\<dots> = find_end False (Suc pos + (length cs - length rest) + length rest) R"
      by (rule "2.IH"(2) [OF quote s(1) refl s(2) "2.prems"(2)])
    finally show ?thesis using lex_string_shorter [OF s(1)] by simp
  next
    case digit
    then obtain us where us: "lex (dropWhile is_number_char cs) = Inr us" using "2.prems"(1) by (auto simp: emit_def and_then_Inr_iff)
    have "find_end False pos ((c # cs) @ R) = find_end False (Suc pos) (cs @ R)"
      using find_end_one [of c pos "cs @ R"] plain_chars(4) digit by simp
    also have "\<dots> = find_end False (Suc pos + (length cs - length (dropWhile is_number_char cs))) (dropWhile is_number_char cs @ R)"
      by (rule find_end_while) (rule plain_chars(2))
    finally show ?thesis using "2.IH"(3) [OF digit us "2.prems"(2)] le [of is_number_char] by simp
  next
    case ident
    then obtain us where us: "lex (dropWhile is_ident_char cs) = Inr us" using "2.prems"(1) by (auto simp: emit_def and_then_Inr_iff)
    have "find_end False pos ((c # cs) @ R) = find_end False (Suc pos) (cs @ R)"
      using find_end_one [of c pos "cs @ R"] plain_chars(5) ident by simp
    also have "\<dots> = find_end False (Suc pos + (length cs - length (dropWhile is_ident_char cs))) (dropWhile is_ident_char cs @ R)"
      by (rule find_end_while) (rule plain_chars(3))
    finally show ?thesis using "2.IH"(4) [OF ident us "2.prems"(2)] le [of is_ident_char] by simp
  next
    case sym
    show ?thesis
    proof (cases "punctuation c")
      case (Some t)
      then obtain us where us: "lex cs = Inr us" using sym "2.prems"(1) by (auto simp: emit_def and_then_Inr_iff)
      show ?thesis using "2.IH"(7) [OF sym Some us "2.prems"(2)] find_end_one [of c pos "cs @ R"] plain_chars(6) [OF Some] sym by simp
    next
      case None
      obtain second long short where op: "operator c = Some (second, long, short)"
        using sym None "2.prems" by (cases "operator c") auto
      have c: "find_end False pos ((c # cs) @ R) = find_end False (Suc pos) (cs @ R)"
        using find_end_one [of c pos "cs @ R"] plain_chars(7) [OF op] sym by simp
      show ?thesis
      proof (cases "cs \<noteq> [] \<and> hd cs = second")
        case True
        then obtain us where us: "lex (tl cs) = Inr us" using sym None op "2.prems"(1) by (auto simp: emit_def and_then_Inr_iff)
        have cs: "cs = second # tl cs" "1 \<le> length cs" using True by (cases cs; auto)+
        then have "find_end False (Suc pos) (cs @ R) = find_end False (Suc (Suc pos)) (tl cs @ R)"
          using find_end_one [of second "Suc pos" "tl cs @ R"] plain_chars(8) [OF op] by (metis append_Cons)
        then show ?thesis using c cs(2) "2.IH"(5) [OF sym None op refl refl True us "2.prems"(2)] True by simp
      next
        case False
        then obtain t us where us: "short = Some t" "lex cs = Inr us"
          using sym None op "2.prems"(1) by (auto simp: emit_def and_then_Inr_iff split: option.splits if_splits)
        show ?thesis using c "2.IH"(6) [OF sym None op refl refl False us "2.prems"(2)] by simp
      qed
    qed
  qed
qed simp

text \<open>What is a sequence of tokens once it is trimmed ends for the scan at the braces that follow it.\<close>

lemma trim_parts:
  obtains u w where "s = u @ trim s @ w" "list_all is_whitespace u" "list_all is_whitespace w"
proof -
  let ?d = "dropWhile is_whitespace s"
  have "s = takeWhile is_whitespace s @ rev (dropWhile is_whitespace (rev ?d)) @ rev (takeWhile is_whitespace (rev ?d))"
    by (metis rev_append rev_rev_ident takeWhile_dropWhile_id)
  then have "s = takeWhile is_whitespace s @ trim s @ rev (takeWhile is_whitespace (rev ?d))"
    by (simp add: trim_def trim_start_def trim_end_def)
  then show thesis by (rule that) (auto simp: list_all_iff dest: set_takeWhileD)
qed

lemma expression_end_tokens:
  assumes "lex (trim s) = Inr ts"
  shows "find_expression_end (s @ ''}}'' @ r) = Some (length s)"
proof -
  define t where "t = trim s"
  obtain u w where s: "s = u @ t @ w" "list_all is_whitespace u" "list_all is_whitespace w"
    unfolding t_def by (rule trim_parts)
  have plain: "list_all (\<lambda>c. c \<noteq> QUOTE \<and> c \<noteq> CHR ''}'') u" "list_all (\<lambda>c. c \<noteq> QUOTE \<and> c \<noteq> CHR ''}'') w"
    using s(2,3) plain_chars(1) by (auto simp: list_all_iff)
  have not_quote: "w @ ''}}'' @ r = [] \<or> hd (w @ ''}}'' @ r) \<noteq> QUOTE" using plain(2) by (cases w) (auto simp: QUOTE_def)
  have "find_expression_end (s @ ''}}'' @ r) = find_end False (length u) (t @ w @ ''}}'' @ r)"
    using find_end_skip [OF plain(1), of 0 "t @ w @ ''}}'' @ r"] by (simp add: s(1) find_expression_end_def)
  also have "\<dots> = find_end False (length u + length t + length w) (''}}'' @ r)"
    using find_end_tokens [OF assms [folded t_def] not_quote, of "length u"]
      find_end_skip [OF plain(2), of "length u + length t" "''}}'' @ r"] by simp
  also have "\<dots> = Some (length s)" by (cases r) (simp_all add: s(1) QUOTE_def)
  finally show ?thesis .
qed

text \<open>What is rendered strictly is rendered leniently to the same text.\<close>

theorem lenient_extends_strict:
  assumes "evaluate_template_strict number fs x input c = Inr out"
  shows "evaluate_template number fs x input c = Inr out"
proof -
  have "render_loop number fs x c True rest = Inr out \<Longrightarrow> render_loop number fs x c False rest = Inr out" for rest out
  proof (induction "length rest" arbitrary: rest out rule: less_induct)
    case less
    show ?case
    proof (cases "find_sub ''${{'' rest")
      case None
      then have "render_loop number fs x c strict rest = Inr rest" for strict by (subst render_loop.simps) simp
      then show ?thesis using less.prems by simp
    next
      case (Some start)
      let ?r = "drop (start + 3) rest"
      obtain stop where stop: "find_expression_end ?r = Some stop"
        using less.prems Some by (cases "find_expression_end ?r") (simp_all add: render_loop.simps [of number fs x c True rest] Let_def)
      obtain v out' where v: "eval_expression number fs x (trim (take stop ?r)) c = Inr v"
        "render_loop number fs x c True (drop (stop + 2) ?r) = Inr out'" "out = take start rest @ value_to_string x v @ out'"
        using less.prems Some stop by (auto simp: render_loop.simps [of number fs x c True rest] Let_def and_then_Inr_iff split: sum.splits)
      have "length (drop (stop + 2) ?r) < length rest" using find_sub_length [OF Some] by simp
      from less.hyps [OF this v(2)] show ?thesis using v Some stop
        by (simp add: render_loop.simps [of number fs x c False rest] Let_def)
    qed
  qed
  then show ?thesis using assms by (simp add: evaluate_template_strict_def evaluate_template_def evaluate_template_loop)
qed

theorem lenient_extends_strict_witness:
  "evaluate_template (\<lambda>_. None) one_file_system plain_ext ''a ${{ 'x}}y' }} b'' plain_context = Inr ''a x}}y b''"
proof (rule lenient_extends_strict)
  have p: "parse_input (\<lambda>_. None) (trim_expression_markers (trim '' 'x}}y' '')) = Inr (Literal (JString ''x}}y''))" by code_simp
  have v: "eval_expression (\<lambda>_. None) one_file_system plain_ext (trim '' 'x}}y' '') plain_context = Inr (JString ''x}}y'')"
    unfolding eval_expression_def p by (simp add: eval.simps charged_def charge_def MAX_EXPRESSION_DEPTH_def MAX_EVALUATED_VALUE_BYTES_def)
  have s: "find_sub ''${{'' ''a ${{ 'x}}y' }} b'' = Some 2" "find_expression_end '' 'x}}y' }} b'' = Some 8" "find_sub ''${{'' '' b'' = None"
    by code_simp+
  have r: "render_loop (\<lambda>_. None) one_file_system plain_ext plain_context True '' b'' = Inr '' b''"
    by (subst render_loop.simps) (simp only: s option.case)
  have d: "drop (2 + 3) ''a ${{ 'x}}y' }} b'' = '' 'x}}y' }} b''" "take 8 '' 'x}}y' }} b'' = '' 'x}}y' ''"
    "drop (8 + 2) '' 'x}}y' }} b'' = '' b''" "take 2 ''a ${{ 'x}}y' }} b'' = ''a ''" by simp_all
  show "evaluate_template_strict (\<lambda>_. None) one_file_system plain_ext ''a ${{ 'x}}y' }} b'' plain_context = Inr ''a x}}y b''"
    unfolding evaluate_template_strict_def evaluate_template_loop
    by (subst render_loop.simps) (simp only: s d v r option.case Let_def sum.case and_then_simps value_to_string_def json.case append.simps)
qed

end
