(* ===== verification/Secret_Scope.thy ===== *)
theory Secret_Scope
  imports Secret_Reads Template_Render
begin

text \<open>
  Which stored secrets a job is given (\<^verbatim>\<open>secrets.rs\<close> of \<^verbatim>\<open>preloop-gha-parser\<close> and the choice of
  \<^verbatim>\<open>spec_names\<close> in \<^verbatim>\<open>build_job_artifacts\<close>, \<^verbatim>\<open>runs.rs\<close>): the names its expressions read, or the
  whole scope when some access cannot be enumerated. The plan records hold the fields that are read.
  At the claim the stored secrets of these names are stamped into the job's variables
  (\<^verbatim>\<open>fill_template\<close>, \<^verbatim>\<open>message_template.rs\<close>), and the runner makes its \<^verbatim>\<open>secrets\<close> context of the secret
  variables (\<^verbatim>\<open>contexts.rs\<close>). Shown: a text of the job renders to the same with the narrowed secrets.
\<close>

record step_plan =
  step_name :: "string option"
  step_run :: "string option"
  step_uses :: "string option"
  step_env :: "(string \<times> string) list"
  step_with :: "(string \<times> json) list"
  step_if :: "string option"
  working_directory :: "string option"
  step_shell :: "string option"

record job_plan =
  plan_id :: string
  plan_name :: string
  job_env :: "(string \<times> string) list"
  steps :: "step_plan list"
  if_condition :: "string option"
  secrets_inherit :: bool
  container :: "json option"
  services :: "json option"
  secrets_map :: "(string \<times> string) list"
  job_outputs :: "(string \<times> string) list"
  oidc_environment :: "string option"
  plan_environment :: "json option"
  concurrency_group :: "string option"
  concurrency_cancel_in_progress :: "string option"

section \<open>Expressions of a field\<close>

definition collect_reads_from_expression :: "(string \<Rightarrow> jnum option) \<Rightarrow> string \<Rightarrow> secret_reads \<Rightarrow> secret_reads" where
  "collect_reads_from_expression number expression reads =
     (case collect_secret_reads number expression of
        Inr found \<Rightarrow> reads\<lparr>read_names := read_names reads \<union> read_names found, dynamic := dynamic reads \<or> dynamic found\<rparr>
      | Inl _ \<Rightarrow> reads\<lparr>dynamic := True\<rparr>)"

text \<open>The spans between \<^verbatim>\<open>${{\<close> and the next \<^verbatim>\<open>}}\<close>.\<close>

function text_spans :: "string \<Rightarrow> string list" where
  "text_spans rest =
     (case find_sub ''${{'' rest of
        None \<Rightarrow> []
      | Some start \<Rightarrow>
          (let after = drop (start + 3) rest
           in case find_sub ''}}'' after of
             None \<Rightarrow> []
           | Some stop \<Rightarrow> take stop after # text_spans (drop (stop + 2) after)))"
  by pat_completeness auto
termination
  by (relation "measure length") (auto dest: find_sub_length)

declare text_spans.simps [simp del]

definition collect_reads_from_text :: "(string \<Rightarrow> jnum option) \<Rightarrow> string \<Rightarrow> secret_reads \<Rightarrow> secret_reads" where
  "collect_reads_from_text number text_field reads = fold (collect_reads_from_expression number) (text_spans text_field) reads"

definition collect_reads_from_condition :: "(string \<Rightarrow> jnum option) \<Rightarrow> string \<Rightarrow> secret_reads \<Rightarrow> secret_reads" where
  "collect_reads_from_condition number condition reads =
     (if str_contains condition ''${{'' then collect_reads_from_text number condition reads
      else collect_reads_from_expression number condition reads)"

fun collect_reads_from_json :: "(string \<Rightarrow> jnum option) \<Rightarrow> json \<Rightarrow> secret_reads \<Rightarrow> secret_reads" where
  "collect_reads_from_json number (JString t) reads = collect_reads_from_text number t reads"
| "collect_reads_from_json number (JArray vs) reads = fold (collect_reads_from_json number) vs reads"
| "collect_reads_from_json number (JObject m) reads = fold (\<lambda>(_, v). collect_reads_from_json number v) m reads"
| "collect_reads_from_json number _ reads = reads"

definition is_remote_action :: "string \<Rightarrow> bool" where
  "is_remote_action uses \<longleftrightarrow> \<not> starts_with ''docker://'' uses"

definition collect_reads_from_step :: "(string \<Rightarrow> jnum option) \<Rightarrow> step_plan \<Rightarrow> secret_reads \<Rightarrow> secret_reads" where
  "collect_reads_from_step number step reads =
     (let reads = fold (collect_reads_from_text number) (opt_iter (step_name step) @ opt_iter (step_run step)) reads;
          reads = fold (collect_reads_from_text number) (map snd (step_env step)) reads;
          reads = fold (collect_reads_from_json number) (map snd (step_with step)) reads;
          reads = fold (collect_reads_from_condition number) (opt_iter (step_if step)) reads;
          reads = fold (collect_reads_from_text number) (opt_iter (working_directory step) @ opt_iter (step_shell step)) reads
      in case step_uses step of
           Some uses \<Rightarrow> if is_remote_action uses then reads\<lparr>dynamic := True\<rparr> else reads
         | None \<Rightarrow> reads)"

section \<open>A job's reads\<close>

definition ENGINE_PROVIDED_SECRETS :: "string list" where
  "ENGINE_PROVIDED_SECRETS =
     [''GITHUB_TOKEN'', ''ACTIONS_ID_TOKEN_REQUEST_TOKEN'', ''ACTIONS_ID_TOKEN_REQUEST_URL'',
      ''ACTIONS_RUNTIME_TOKEN'', ''ACTIONS_RUNTIME_URL'', ''ACTIONS_CACHE_URL'', ''ACTIONS_RESULTS_URL'']"

definition is_engine_provided :: "string \<Rightarrow> bool" where
  "is_engine_provided name \<longleftrightarrow> to_upper name \<in> set ENGINE_PROVIDED_SECRETS"

definition collect_job_secret_reads :: "(string \<Rightarrow> jnum option) \<Rightarrow> job_plan \<Rightarrow> secret_reads" where
  "collect_job_secret_reads number job =
     (let reads = fold (collect_reads_from_text number) (map snd (job_env job)) no_reads;
          reads = fold (collect_reads_from_condition number) (opt_iter (if_condition job)) reads;
          reads = fold (collect_reads_from_json number) (opt_iter (container job) @ opt_iter (services job)) reads;
          reads = fold (collect_reads_from_json number) (opt_iter (plan_environment job)) reads;
          reads = fold (collect_reads_from_text number) (map snd (secrets_map job)) reads;
          reads = fold (collect_reads_from_text number) (map snd (job_outputs job)) reads;
          reads = fold (collect_reads_from_text number)
            (opt_iter (concurrency_group job) @ opt_iter (concurrency_cancel_in_progress job) @ [plan_name job]) reads;
          reads = fold (collect_reads_from_step number) (steps job) reads
      in reads\<lparr>read_names := Set.filter (\<lambda>name. \<not> is_engine_provided name) (read_names reads)\<rparr>)"

text \<open>The names a job is given out of those in scope (\<^verbatim>\<open>spec_names\<close> of \<^verbatim>\<open>runs.rs\<close>).\<close>

definition spec_names :: "secret_reads \<Rightarrow> string set \<Rightarrow> string set" where
  "spec_names reads merged_names =
     (if dynamic reads then merged_names
      else (let referenced = to_upper ` read_names reads
            in Set.filter (\<lambda>name. to_upper name \<in> referenced) merged_names))"

definition builder_names :: "secret_reads \<Rightarrow> bool \<Rightarrow> bool \<Rightarrow> string set \<Rightarrow> string set" where
  "builder_names reads has_workflow_file inherit merged_names =
     (if has_workflow_file \<and> inherit then merged_names else spec_names reads merged_names)"

subsection \<open>Requirements\<close>

record secret_requirements =
  req_names :: "string set"
  by_environment :: "(string \<times> string set) list"
  inherits :: "string set"

definition literal_environment :: "job_plan \<Rightarrow> string option" where
  "literal_environment job =
     Option.bind
       (or_else (opt_filter (\<lambda>name. name \<noteq> []) (map_option trim (oidc_environment job)))
         (case plan_environment job of
            Some (JString name) \<Rightarrow> Some (trim name)
          | Some (JObject m) \<Rightarrow> map_option trim (Option.bind (map_of m ''name'') as_str)
          | _ \<Rightarrow> None))
       (\<lambda>name. if name = [] \<or> str_contains name ''${{'' then None else Some name)"

definition add_requirements :: "(string \<Rightarrow> jnum option) \<Rightarrow> job_plan \<Rightarrow> secret_requirements \<Rightarrow> secret_requirements" where
  "add_requirements number job req =
     (let reads = collect_job_secret_reads number job;
          req = (if secrets_inherit job then req\<lparr>inherits := insert (plan_id job) (inherits req)\<rparr> else req);
          req = (case literal_environment job of
              Some env \<Rightarrow> req\<lparr>by_environment :=
                btree_insert env (unwrap_or (map_of (by_environment req) env) {} \<union> read_names reads) (by_environment req)\<rparr>
            | None \<Rightarrow> req)
      in req\<lparr>req_names := req_names req \<union> read_names reads\<rparr>)"

definition collect_secret_requirements :: "(string \<Rightarrow> jnum option) \<Rightarrow> job_plan list \<Rightarrow> secret_requirements" where
  "collect_secret_requirements number jobs =
     fold (add_requirements number) jobs \<lparr>req_names = {}, by_environment = [], inherits = {}\<rparr>"

definition missing_from :: "secret_requirements \<Rightarrow> string set \<Rightarrow> string set" where
  "missing_from req configured = Set.filter (\<lambda>name. name \<notin> configured) (req_names req)"

section \<open>The reads of a job are the reads of what is scanned\<close>

text \<open>The expressions that the collector's scan visits, for the proofs.\<close>

definition condition_expressions :: "string \<Rightarrow> string list" where
  "condition_expressions condition = (if str_contains condition ''${{'' then text_spans condition else [condition])"

fun json_expressions :: "json \<Rightarrow> string list" where
  "json_expressions (JString t) = text_spans t"
| "json_expressions (JArray vs) = concat (map json_expressions vs)"
| "json_expressions (JObject m) = concat (map (\<lambda>(_, v). json_expressions v) m)"
| "json_expressions _ = []"

definition texts_expressions :: "string list \<Rightarrow> string list" where
  "texts_expressions ts = concat (map text_spans ts)"

definition step_expressions :: "step_plan \<Rightarrow> string list" where
  "step_expressions step =
     texts_expressions (opt_iter (step_name step) @ opt_iter (step_run step)) @
     texts_expressions (map snd (step_env step)) @
     concat (map json_expressions (map snd (step_with step))) @
     concat (map condition_expressions (opt_iter (step_if step))) @
     texts_expressions (opt_iter (working_directory step) @ opt_iter (step_shell step))"

definition job_expressions :: "job_plan \<Rightarrow> string list" where
  "job_expressions job =
     texts_expressions (map snd (job_env job)) @
     concat (map condition_expressions (opt_iter (if_condition job))) @
     concat (map json_expressions (opt_iter (container job) @ opt_iter (services job))) @
     concat (map json_expressions (opt_iter (plan_environment job))) @
     texts_expressions (map snd (secrets_map job)) @
     texts_expressions (map snd (job_outputs job)) @
     texts_expressions (opt_iter (concurrency_group job) @ opt_iter (concurrency_cancel_in_progress job) @ [plan_name job]) @
     concat (map step_expressions (steps job))"

text \<open>Collecting over a field is adding the reads of its expressions to what is there.\<close>

definition adds :: "(string \<Rightarrow> jnum option) \<Rightarrow> string list \<Rightarrow> (secret_reads \<Rightarrow> secret_reads) \<Rightarrow> bool" where
  "adds number es f \<longleftrightarrow>
     (\<forall>r. reads_within r (f r) \<and> (\<forall>e \<in> set es. dynamic (f r) \<or>
        (\<exists>found. collect_secret_reads number e = Inr found \<and> \<not> dynamic found \<and> read_names found \<subseteq> read_names (f r))))"

lemma adds_expression: "adds number [e] (collect_reads_from_expression number e)"
  by (auto simp: adds_def collect_reads_from_expression_def reads_within_def split: sum.splits)

lemma adds_id: "adds number [] (\<lambda>r. r)"
  by (simp add: adds_def)

lemma adds_comp:
  assumes "adds number es f" "adds number es' g"
  shows "adds number (es @ es') (\<lambda>r. g (f r))"
  unfolding adds_def
proof (intro allI conjI ballI)
  fix r
  have f: "reads_within r (f r)" and g: "reads_within (f r) (g (f r))" using assms by (simp_all add: adds_def)
  then show "reads_within r (g (f r))" by (rule within_trans)
  fix e assume "e \<in> set (es @ es')"
  then consider "e \<in> set es" | "e \<in> set es'" by auto
  then show "dynamic (g (f r)) \<or> (\<exists>found. collect_secret_reads number e = Inr found \<and> \<not> dynamic found \<and>
      read_names found \<subseteq> read_names (g (f r)))"
    by cases (use assms g in \<open>force simp: adds_def reads_within_def\<close>)+
qed

lemma adds_fold:
  "(\<And>a. a \<in> set xs \<Longrightarrow> adds number (es a) (f a)) \<Longrightarrow> adds number (concat (map es xs)) (fold f xs)"
proof (induction xs)
  case (Cons a xs)
  have "adds number (es a @ concat (map es xs)) (\<lambda>r. fold f xs (f a r))"
    by (rule adds_comp) (use Cons in auto)
  then show ?case by (simp add: comp_def)
qed (simp add: adds_id id_def)

lemma adds_text: "adds number (text_spans t) (collect_reads_from_text number t)"
  using adds_fold [of "text_spans t" number "\<lambda>e. [e]" "collect_reads_from_expression number"] adds_expression
  by (simp add: collect_reads_from_text_def [abs_def])

lemma adds_condition: "adds number (condition_expressions t) (collect_reads_from_condition number t)"
  using adds_text adds_expression
  by (simp add: collect_reads_from_condition_def [abs_def] condition_expressions_def)

lemma adds_json: "adds number (json_expressions v) (collect_reads_from_json number v)"
proof (induction v)
  case (JArray vs)
  then show ?case using adds_fold [of vs number json_expressions "collect_reads_from_json number"] by (simp add: fun_eq_iff)
next
  case (JObject m)
  have "adds number ((\<lambda>(_, v). json_expressions v) p) ((\<lambda>(_, v). collect_reads_from_json number v) p)" if "p \<in> set m" for p
    using that JObject.IH [of p] by (cases p rule: prod.exhaust) auto
  then show ?case using adds_fold [of m number "\<lambda>(_, v). json_expressions v" "\<lambda>(_, v). collect_reads_from_json number v"]
    by simp
qed (simp_all add: adds_id adds_text)

lemma adds_texts: "adds number (texts_expressions ts) (fold (collect_reads_from_text number) ts)"
  unfolding texts_expressions_def by (rule adds_fold) (rule adds_text)

lemma adds_jsons: "adds number (concat (map json_expressions vs)) (fold (collect_reads_from_json number) vs)"
  by (rule adds_fold) (rule adds_json)

lemma adds_conditions: "adds number (concat (map condition_expressions vs)) (fold (collect_reads_from_condition number) vs)"
  by (rule adds_fold) (rule adds_condition)

lemma adds_dynamic: "adds number [] (\<lambda>r. case u of Some uses \<Rightarrow> if P uses then r\<lparr>dynamic := True\<rparr> else r | None \<Rightarrow> r)"
  by (auto simp: adds_def reads_within_def split: option.splits)

lemma adds_step: "adds number (step_expressions step) (collect_reads_from_step number step)"
proof -
  have "adds number (step_expressions step @ []) (collect_reads_from_step number step)"
    unfolding step_expressions_def collect_reads_from_step_def [abs_def] Let_def append_assoc
    by (intro adds_comp [OF adds_texts] adds_comp [OF adds_jsons] adds_comp [OF adds_conditions] adds_dynamic)
  then show ?thesis by simp
qed

lemma job_reads_cover:
  assumes "e \<in> set (job_expressions job)" "\<not> dynamic (collect_job_secret_reads number job)"
  obtains found where "collect_secret_reads number e = Inr found" "\<not> dynamic found"
    "\<And>n. n \<in> read_names found \<Longrightarrow> \<not> is_engine_provided n \<Longrightarrow> n \<in> read_names (collect_job_secret_reads number job)"
proof -
  define all where "all r =
     fold (collect_reads_from_step number) (steps job)
      (fold (collect_reads_from_text number)
        (opt_iter (concurrency_group job) @ opt_iter (concurrency_cancel_in_progress job) @ [plan_name job])
       (fold (collect_reads_from_text number) (map snd (job_outputs job))
        (fold (collect_reads_from_text number) (map snd (secrets_map job))
         (fold (collect_reads_from_json number) (opt_iter (plan_environment job))
          (fold (collect_reads_from_json number) (opt_iter (container job) @ opt_iter (services job))
           (fold (collect_reads_from_condition number) (opt_iter (if_condition job))
            (fold (collect_reads_from_text number) (map snd (job_env job)) r)))))))" for r
  have "adds number (job_expressions job) all"
    unfolding job_expressions_def all_def [abs_def] append_assoc
    by (intro adds_comp [OF adds_texts] adds_comp [OF adds_jsons] adds_comp [OF adds_conditions] adds_fold adds_step)
  moreover have "dynamic (collect_job_secret_reads number job) = dynamic (all no_reads)"
    "read_names (collect_job_secret_reads number job) = {n \<in> read_names (all no_reads). \<not> is_engine_provided n}"
    by (simp_all add: collect_job_secret_reads_def all_def Let_def)
  ultimately show ?thesis using assms that unfolding adds_def by blast
qed

section \<open>Narrowing the scope loses nothing\<close>

subsection \<open>The secrets of a claimed job\<close>

record variable_value =
  var_value :: "string option"
  is_secret :: "bool option"

definition is_claim_owned_variable :: "string \<Rightarrow> bool" where
  "is_claim_owned_variable name \<longleftrightarrow>
     eq_ignore_ascii_case name ''github_token'' \<or> eq_ignore_ascii_case name ''system.github.token''"

text \<open>The fill: the stored secrets of the spec's names, or all of them, what the caller's map gives (\<open>mapped\<close>, its
  expressions resolved), and not the names that the claim owns.\<close>

definition resolved_secrets ::
  "bool \<Rightarrow> string set \<Rightarrow> (string \<times> string) list \<Rightarrow> (string \<times> string) list \<Rightarrow> (string \<times> string) list" where
  "resolved_secrets inherit names mapped scoped =
     filter (\<lambda>(name, _). \<not> is_claim_owned_variable name)
       (fold (\<lambda>(name, value). btree_insert name value) mapped (filter (\<lambda>(name, _). inherit \<or> name \<in> names) scoped))"

definition stamp_variables ::
  "(string \<times> string) list \<Rightarrow> (string \<times> variable_value) list \<Rightarrow> (string \<times> variable_value) list" where
  "stamp_variables resolved vars =
     fold (\<lambda>(name, value). btree_insert name \<lparr>var_value = Some value, is_secret = Some True\<rparr>) resolved vars"

text \<open>The runner's \<^verbatim>\<open>secrets\<close> context.\<close>

definition add_secret :: "string \<times> variable_value \<Rightarrow> (string \<times> json) list \<Rightarrow> (string \<times> json) list" where
  "add_secret kv secrets =
     (case kv of (key, val) \<Rightarrow>
        if starts_with ''system.'' key then secrets
        else if unwrap_or (is_secret val) False
        then (case var_value val of
                Some v \<Rightarrow>
                  (let secrets = btree_insert key (JString v) secrets
                   in if key = ''github_token'' then btree_insert ''GITHUB_TOKEN'' (JString v) secrets else secrets)
              | None \<Rightarrow> secrets)
        else secrets)"

definition secrets_context :: "(string \<times> variable_value) list \<Rightarrow> (string \<times> json) list" where
  "secrets_context vars = fold add_secret vars []"

definition with_secrets :: "(string \<times> json) list \<Rightarrow> expr_context \<Rightarrow> expr_context" where
  "with_secrets secrets c = c\<lparr>roots := btree_insert ''secrets'' (JObject secrets) (roots c)\<rparr>"

text \<open>The runner's context for a claimed job with the secrets of the given names.\<close>

definition job_context ::
  "bool \<Rightarrow> string set \<Rightarrow> (string \<times> string) list \<Rightarrow> (string \<times> string) list \<Rightarrow> (string \<times> variable_value) list \<Rightarrow>
   expr_context \<Rightarrow> expr_context" where
  "job_context inherit names mapped scoped vars c =
     with_secrets (secrets_context (stamp_variables (resolved_secrets inherit names mapped scoped) vars)) c"

lemma with_secrets_agree:
  "(\<And>n. n \<in> names \<Longrightarrow> map_of m n = map_of m' n) \<Longrightarrow> same_but_secrets names (with_secrets m c) (with_secrets m' c)"
  by (auto simp: same_but_secrets_def same_status_def with_secrets_def secrets_agree_def is_secrets_def)

subsection \<open>What a name looks up\<close>

lemma filter_btree_insert:
  "btree_wf m \<Longrightarrow> filter (\<lambda>(k, _). k \<in> K) (btree_insert k v m) =
     (if k \<in> K then btree_insert k v (filter (\<lambda>(k, _). k \<in> K) m) else filter (\<lambda>(k, _). k \<in> K) m)"
proof (induction k v m rule: btree_insert.induct)
  case (2 k v k' v' m)
  have wf: "btree_wf m" "\<forall>(k2, _) \<in> set m. k' < k2"
    using "2.prems" by (fastforce simp: btree_wf_def image_iff order_less_le)+
  have first: "btree_insert k v (filter (\<lambda>(k, _). k \<in> K) m) = (k, v) # filter (\<lambda>(k, _). k \<in> K) m" if "k \<le> k'"
  proof (cases "filter (\<lambda>(k, _). k \<in> K) m")
    case (Cons q qs)
    have "q \<in> set (filter (\<lambda>(k, _). k \<in> K) m)" by (simp add: Cons)
    then have "q \<in> set m" by simp
    then have "k < fst q" using wf(2) that by (auto simp: case_prod_beta)
    then show ?thesis using Cons by (cases q) simp
  qed simp
  show ?case
  proof (cases "k < k'")
    case True
    then show ?thesis using first by (auto simp: not_less less_imp_le)
  next
    case False
    then show ?thesis using "2.IH" wf(1) first by (cases "k = k'") auto
  qed
qed simp

lemma btree_wf_filter: "btree_wf m \<Longrightarrow> btree_wf (filter P m)"
  by (induction m) (auto simp: btree_wf_def image_iff)

lemma filter_inserts:
  assumes "btree_wf m"
  shows "filter (\<lambda>(k, _). k \<in> K) (fold (\<lambda>(k, v). btree_insert k (f v)) kvs m) =
    fold (\<lambda>(k, v). btree_insert k (f v)) (filter (\<lambda>(k, _). k \<in> K) kvs) (filter (\<lambda>(k, _). k \<in> K) m)"
  using assms
proof (induction kvs arbitrary: m)
  case (Cons kv kvs)
  obtain k v where kv: "kv = (k, v)" by fastforce
  show ?case using Cons.IH [OF btree_wf_insert [OF Cons.prems, of k "f v"]] filter_btree_insert [OF Cons.prems, of K k "f v"]
    by (simp add: kv)
qed simp

lemma secrets_context_filter:
  assumes "n \<in> K" and "n = ''GITHUB_TOKEN'' \<Longrightarrow> ''github_token'' \<in> K"
  shows "map_of (secrets_context vars) n = map_of (secrets_context (filter (\<lambda>(k, _). k \<in> K) vars)) n"
proof -
  have "map_of (fold add_secret vars m) n = map_of (fold add_secret (filter (\<lambda>(k, _). k \<in> K) vars) m') n"
    if "map_of m n = map_of m' n" for m m'
    using that
  proof (induction vars arbitrary: m m')
    case (Cons kv vars)
    obtain k v where kv: "kv = (k, v)" by fastforce
    show ?case
    proof (cases "k \<in> K")
      case True
      have "map_of (add_secret kv m) n = map_of (add_secret kv m') n"
        using Cons.prems by (auto simp: add_secret_def kv Let_def split: option.split)
      then show ?thesis using True Cons.IH by (simp add: kv)
    next
      case False
      then have "map_of (add_secret kv m) n = map_of m n"
        using assms by (auto simp: add_secret_def kv Let_def split: option.split)
      then show ?thesis using False Cons by (simp add: kv)
    qed
  qed simp
  then show ?thesis by (simp add: secrets_context_def)
qed

lemma filter_resolved:
  assumes "btree_wf scoped"
  shows "filter (\<lambda>(k, _). k \<in> K) (resolved_secrets inherit names mapped scoped) =
    fold (\<lambda>(k, v). btree_insert k v) (filter (\<lambda>(k, _). k \<in> {k \<in> K. \<not> is_claim_owned_variable k}) mapped)
      (filter (\<lambda>(k, _). k \<in> K \<and> \<not> is_claim_owned_variable k \<and> (inherit \<or> k \<in> names)) scoped)"
proof -
  let ?K = "{k \<in> K. \<not> is_claim_owned_variable k}"
  have "filter (\<lambda>(k, _). k \<in> K) (resolved_secrets inherit names mapped scoped) =
      filter (\<lambda>(k, _). k \<in> ?K) (fold (\<lambda>(k, v). btree_insert k v) mapped (filter (\<lambda>(k, _). inherit \<or> k \<in> names) scoped))"
    by (auto simp: resolved_secrets_def intro!: filter_cong)
  also have "\<dots> = fold (\<lambda>(k, v). btree_insert k v) (filter (\<lambda>(k, _). k \<in> ?K) mapped)
      (filter (\<lambda>(k, _). k \<in> ?K) (filter (\<lambda>(k, _). inherit \<or> k \<in> names) scoped))"
    by (rule filter_inserts [OF btree_wf_filter [OF assms], where f = "\<lambda>v. v"])
  also have "filter (\<lambda>(k, _). k \<in> ?K) (filter (\<lambda>(k, _). inherit \<or> k \<in> names) scoped) =
      filter (\<lambda>(k, _). k \<in> K \<and> \<not> is_claim_owned_variable k \<and> (inherit \<or> k \<in> names)) scoped"
    by (auto intro: filter_cong)
  finally show ?thesis .
qed

lemma stamped_agree:
  assumes "btree_wf scoped" "btree_wf vars" "n \<in> K" "n = ''GITHUB_TOKEN'' \<Longrightarrow> ''github_token'' \<in> K"
    and "\<And>k. k \<in> K \<Longrightarrow> k \<in> fst ` set scoped \<Longrightarrow> \<not> is_claim_owned_variable k \<Longrightarrow> k \<in> names \<longleftrightarrow> k \<in> names'"
  shows "map_of (secrets_context (stamp_variables (resolved_secrets inherit names mapped scoped) vars)) n =
    map_of (secrets_context (stamp_variables (resolved_secrets inherit names' mapped scoped) vars)) n"
proof -
  have "filter (\<lambda>(k, _). k \<in> K \<and> \<not> is_claim_owned_variable k \<and> (inherit \<or> k \<in> names)) scoped =
      filter (\<lambda>(k, _). k \<in> K \<and> \<not> is_claim_owned_variable k \<and> (inherit \<or> k \<in> names')) scoped"
  proof (rule filter_cong [OF refl])
    fix q
    assume q: "q \<in> set scoped"
    obtain k v where kv: "q = (k, v)" by fastforce
    have "k \<in> fst ` set scoped" using q by (force simp: kv)
    then show "(case q of (k, _) \<Rightarrow> k \<in> K \<and> \<not> is_claim_owned_variable k \<and> (inherit \<or> k \<in> names)) =
        (case q of (k, _) \<Rightarrow> k \<in> K \<and> \<not> is_claim_owned_variable k \<and> (inherit \<or> k \<in> names'))"
      using assms(5) [of k] by (auto simp: kv)
  qed
  then have "filter (\<lambda>(k, _). k \<in> K) (resolved_secrets inherit names mapped scoped) =
      filter (\<lambda>(k, _). k \<in> K) (resolved_secrets inherit names' mapped scoped)"
    by (simp only: filter_resolved [OF assms(1)])
  then have eq: "filter (\<lambda>(k, _). k \<in> K) (stamp_variables (resolved_secrets inherit names mapped scoped) vars) =
      filter (\<lambda>(k, _). k \<in> K) (stamp_variables (resolved_secrets inherit names' mapped scoped) vars)"
    unfolding stamp_variables_def
    by (simp only: filter_inserts [OF assms(2), where f = "\<lambda>v. \<lparr>var_value = Some v, is_secret = Some True\<rparr>"])
  show ?thesis
    by (rule trans [OF secrets_context_filter [OF assms(3,4)] trans [OF _ secrets_context_filter [OF assms(3,4), symmetric]]])
      (simp_all only: eq)
qed

subsection \<open>Rendering\<close>

text \<open>The span that the collector cuts out at the next \<^verbatim>\<open>}}\<close> is the one that the renderer evaluates: either it
  is a sequence of tokens, or the collector does not know what it reads.\<close>

lemma span_end:
  assumes stop: "find_sub ''}}'' after = Some stop" and "collect_secret_reads number (take stop after) = Inr found"
  shows "find_expression_end after = Some stop"
proof -
  define e where "e = take stop after"
  obtain r where r: "after = e @ ''}}'' @ r"
    using find_sub_Some [OF stop] unfolding e_def by (metis append_take_drop_id starts_with_iff)
  have len: "length e = stop" using find_sub_Some [OF stop] by (simp add: e_def)
  have inside: False if "e = u @ ''}}'' @ w" for u w
  proof -
    have "length u < stop" using that len by auto
    moreover have "starts_with ''}}'' (drop (length u) after)" by (simp add: r that starts_with_def)
    ultimately show False using find_sub_Some [OF stop] by blast
  qed
  have trimmed: "trim_expression_markers e = trim e"
  proof -
    obtain u w where e: "e = u @ trim e @ w" by (rule trim_parts)
    have "Option.bind (strip_prefix ''${{'' (trim e)) (strip_suffix ''}}'') = None"
    proof (rule ccontr)
      assume "Option.bind (strip_prefix ''${{'' (trim e)) (strip_suffix ''}}'') \<noteq> None"
      then obtain inner where "trim e = ''${{'' @ inner @ ''}}''"
        by (auto simp: bind_eq_Some_conv strip_prefix_Some strip_suffix_Some)
      then have "e = (u @ ''${{'' @ inner) @ ''}}'' @ w" using e by (metis append.assoc)
      then show False by (rule inside)
    qed
    then show ?thesis by (simp add: trim_expression_markers_def)
  qed
  obtain ts where "lex (trim e) = Inr ts"
    using assms(2) unfolding e_def [symmetric] by (auto simp: collect_secret_reads_def parse_input_def trimmed and_then_Inr_iff)
  from expression_end_tokens [OF this, of r] show ?thesis unfolding r len .
qed

lemma trim_trim: "trim (trim s) = trim s"
proof (cases "trim s = []")
  case False
  have d: "dropWhile is_whitespace s \<noteq> []"
    using False by (rule contrapos_nn) (simp add: trim_def trim_start_def trim_end_def del: dropWhile_eq_Nil_conv)
  have first: "\<not> is_whitespace (hd (dropWhile is_whitespace s))" using d by (rule hd_dropWhile)
  have last: "\<not> is_whitespace (last (trim s))"
    using False hd_dropWhile [of is_whitespace "rev (dropWhile is_whitespace s)"]
    by (auto simp: trim_def trim_start_def trim_end_def last_rev)
  obtain v where v: "dropWhile is_whitespace s = trim s @ v"
    by (metis rev_append rev_rev_ident takeWhile_dropWhile_id trim_def trim_end_def trim_start_def)
  then have "\<not> is_whitespace (hd (trim s))" using first False by (simp add: hd_append)
  then have "dropWhile is_whitespace (trim s) = trim s" using False by (cases "trim s") auto
  moreover have "dropWhile is_whitespace (rev (trim s)) = rev (trim s)"
    using last False by (cases "trim s" rule: rev_cases) auto
  ultimately show ?thesis by (simp add: trim_def [of "trim s"] trim_start_def trim_end_def)
next
  case True
  have "trim [] = []" by (simp add: trim_def trim_start_def trim_end_def)
  with True show ?thesis by simp
qed

lemma eval_trim: "eval_expression number fs x (trim e) c = eval_expression number fs x e c"
  by (simp add: eval_expression_def trim_expression_markers_def trim_trim)

lemma render_agrees:
  assumes same: "same_but_secrets names c c'"
  shows "\<forall>e \<in> set (text_spans t). \<exists>found. collect_secret_reads number e = Inr found \<and> \<not> dynamic found \<and> read_names found \<subseteq> names \<Longrightarrow>
    render_loop number fs x c True t = Inr out \<Longrightarrow> render_loop number fs x c' True t = Inr out' \<Longrightarrow> out = out'"
proof (induction "length t" arbitrary: t out out' rule: less_induct)
  case less
  note loop = render_loop.simps [of number fs x _ True t]
  show ?case
  proof (cases "find_sub ''${{'' t")
    case None
    then have "render_loop number fs x c True t = Inr t" for c by (subst render_loop.simps) simp
    then show ?thesis using less.prems(2,3) by simp
  next
    case (Some start)
    let ?r = "drop (start + 3) t"
    obtain stop where stop: "find_expression_end ?r = Some stop"
      using less.prems(2) Some by (cases "find_expression_end ?r") (simp_all add: loop Let_def)
    have "\<exists>i. find_sub ''}}'' ?r = Some i"
    proof (rule ccontr)
      assume none: "\<nexists>i. find_sub ''}}'' ?r = Some i"
      have at: "starts_with ''}}'' (drop stop ?r)"
        using find_end_Some [of False 0 ?r stop] stop by (simp add: find_expression_end_def)
      have "stop \<le> length ?r"
      proof (rule ccontr)
        assume "\<not> stop \<le> length ?r"
        then have "drop stop ?r = []" by simp
        then show False using at by (simp only: starts_with_def) simp
      qed
      then show False using at none find_sub_None [of "''}}''" ?r] by auto
    qed
    then obtain i where i: "find_sub ''}}'' ?r = Some i" by blast
    have spans: "text_spans t = take i ?r # text_spans (drop (i + 2) ?r)"
      by (simp add: text_spans.simps [of t] Some i Let_def)
    obtain found where found: "collect_secret_reads number (take i ?r) = Inr found" "\<not> dynamic found" "read_names found \<subseteq> names"
      using less.prems(1) by (auto simp: spans)
    have si: "stop = i" using span_end [OF i found(1)] stop by simp
    obtain v o1 where v: "eval_expression number fs x (take i ?r) c = Inr v"
      "render_loop number fs x c True (drop (i + 2) ?r) = Inr o1" "out = take start t @ value_to_string x v @ o1"
      using less.prems(2) Some stop si by (auto simp: loop Let_def and_then_Inr_iff eval_trim split: sum.splits)
    obtain w o2 where w: "eval_expression number fs x (take i ?r) c' = Inr w"
      "render_loop number fs x c' True (drop (i + 2) ?r) = Inr o2" "out' = take start t @ value_to_string x w @ o2"
      using less.prems(3) Some stop si by (auto simp: loop Let_def and_then_Inr_iff eval_trim split: sum.splits)
    have "v = w" by (rule evaluation_agrees [OF found same v(1) w(1)])
    moreover have "o1 = o2"
      by (rule less.hyps [OF _ _ v(2) w(2)]) (use find_sub_length [OF Some] less.prems(1) spans in auto)
    ultimately show ?thesis by (simp add: v w)
  qed
qed

subsection \<open>The texts of a job\<close>

fun json_texts :: "json \<Rightarrow> string list" where
  "json_texts (JString t) = [t]"
| "json_texts (JArray vs) = concat (map json_texts vs)"
| "json_texts (JObject m) = concat (map (\<lambda>(_, v). json_texts v) m)"
| "json_texts _ = []"

definition step_texts :: "step_plan \<Rightarrow> string list" where
  "step_texts step = opt_iter (step_name step) @ opt_iter (step_run step) @ map snd (step_env step) @
     concat (map json_texts (map snd (step_with step))) @ opt_iter (working_directory step) @ opt_iter (step_shell step)"

definition job_texts :: "job_plan \<Rightarrow> string list" where
  "job_texts job = [plan_name job] @ map snd (job_env job) @
     concat (map json_texts (opt_iter (container job) @ opt_iter (services job) @ opt_iter (plan_environment job))) @
     map snd (job_outputs job) @ concat (map step_texts (steps job))"

lemma json_texts_spans: "t \<in> set (json_texts v) \<Longrightarrow> set (text_spans t) \<subseteq> set (json_expressions v)"
proof (induction v)
  case (JObject m)
  then show ?case by fastforce
qed auto

lemma step_texts_spans: "t \<in> set (step_texts step) \<Longrightarrow> set (text_spans t) \<subseteq> set (step_expressions step)"
  using json_texts_spans by (fastforce simp: step_texts_def step_expressions_def texts_expressions_def)

lemma job_texts_spans: "t \<in> set (job_texts job) \<Longrightarrow> set (text_spans t) \<subseteq> set (job_expressions job)"
  using json_texts_spans step_texts_spans by (fastforce simp: job_texts_def job_expressions_def texts_expressions_def)

text \<open>C11. Injecting only the secrets that a job references changes none of its texts: rendered strictly in the
  runner's context, with the secrets of the claim's fill and the claim's own variables, a name, script,
  environment value, input, container, service or output of the job gives the same with the narrowed names
  as with all names in scope, whenever both renderings succeed. No stored secret may have the name of a token
  of the engine, other than those the claim owns, which the fill drops; conditions are not among the texts
  (\<open>quoted_marker_hides_reads\<close>).\<close>

theorem secret_narrowing_sound:
  assumes t: "t \<in> set (job_texts job)" and wf: "btree_wf scoped" "btree_wf vars"
    and stored: "\<forall>n \<in> fst ` set scoped. is_engine_provided n \<longrightarrow> is_claim_owned_variable n"
    and full: "evaluate_template_strict number fs x t (job_context inherit merged mapped scoped vars c) = Inr out"
    and narrowed: "evaluate_template_strict number fs x t
      (job_context inherit (spec_names (collect_job_secret_reads number job) merged) mapped scoped vars c) = Inr out'"
  shows "out = out'"
proof (cases "dynamic (collect_job_secret_reads number job)")
  case True
  with full narrowed show ?thesis by (simp add: spec_names_def)
next
  case False
  let ?reads = "collect_job_secret_reads number job"
  let ?names = "{n. is_engine_provided n \<or> n \<in> read_names ?reads}"
  let ?lookup = "\<lambda>names. map_of (secrets_context (stamp_variables (resolved_secrets inherit names mapped scoped) vars))"
  have agree: "?lookup merged n = ?lookup (spec_names ?reads merged) n" if n: "n \<in> ?names" for n
  proof (rule stamped_agree [OF wf, where K = "insert n (if n = ''GITHUB_TOKEN'' then {''github_token''} else {})"])
    fix k
    assume k: "k \<in> insert n (if n = ''GITHUB_TOKEN'' then {''github_token''} else {})" "k \<in> fst ` set scoped" "\<not> is_claim_owned_variable k"
    then have "k = n" by (auto simp: is_claim_owned_variable_def eq_ignore_ascii_case_def split: if_splits)
    then have "n \<in> read_names ?reads" using n k(2,3) stored by blast
    then show "k \<in> merged \<longleftrightarrow> k \<in> spec_names ?reads merged" using False \<open>k = n\<close> by (auto simp: spec_names_def)
  qed auto
  have same: "same_but_secrets ?names (job_context inherit merged mapped scoped vars c)
      (job_context inherit (spec_names ?reads merged) mapped scoped vars c)"
    unfolding job_context_def by (rule with_secrets_agree) (rule agree)
  have "\<exists>found. collect_secret_reads number e = Inr found \<and> \<not> dynamic found \<and> read_names found \<subseteq> ?names"
    if e: "e \<in> set (text_spans t)" for e
  proof -
    have "e \<in> set (job_expressions job)" using job_texts_spans [OF t] e by blast
    then obtain found where "collect_secret_reads number e = Inr found" "\<not> dynamic found"
      "\<And>n. n \<in> read_names found \<Longrightarrow> \<not> is_engine_provided n \<Longrightarrow> n \<in> read_names ?reads"
      using job_reads_cover False by metis
    then show ?thesis by blast
  qed
  then show ?thesis using render_agrees [OF same] full narrowed
    unfolding evaluate_template_strict_def evaluate_template_loop by blast
qed

definition one_read_job :: job_plan where
  "one_read_job =
     \<lparr>plan_id = ''b'', plan_name = ''b'', job_env = [(''K'', ''k=${{ secrets.A }}'')], steps = [], if_condition = None,
      secrets_inherit = False, container = None, services = None, secrets_map = [], job_outputs = [],
      oidc_environment = None, plan_environment = None, concurrency_group = None,
      concurrency_cancel_in_progress = None\<rparr>"

definition two_secrets :: "(string \<times> string) list" where
  "two_secrets = [(''A'', ''1''), (''B'', ''2'')]"

lemma secret_A_renders:
  assumes "resolve c [''secrets'', ''A''] = JString ''1''"
  shows "evaluate_template_strict (\<lambda>_. None) one_file_system plain_ext ''k=${{ secrets.A }}'' c = Inr ''k=1''"
proof -
  have p: "parse_input (\<lambda>_. None) (trim_expression_markers (trim '' secrets.A '')) = Inr (Path [''secrets'', ''A''])" by code_simp
  have v: "eval_expression (\<lambda>_. None) one_file_system plain_ext (trim '' secrets.A '') c = Inr (JString ''1'')"
    using assms unfolding eval_expression_def p
    by (simp add: eval.simps eval_path_resolves charged_def charge_def MAX_EXPRESSION_DEPTH_def MAX_EVALUATED_VALUE_BYTES_def)
  have s: "find_sub ''${{'' ''k=${{ secrets.A }}'' = Some 2" "find_expression_end '' secrets.A }}'' = Some 11" by code_simp+
  have r: "render_loop (\<lambda>_. None) one_file_system plain_ext c True [] = Inr []" by (subst render_loop.simps) simp
  have d: "drop (2 + 3) ''k=${{ secrets.A }}'' = '' secrets.A }}''" "take 11 '' secrets.A }}'' = '' secrets.A ''"
    "drop (11 + 2) '' secrets.A }}'' = []" "take 2 ''k=${{ secrets.A }}'' = ''k=''" by simp_all
  show ?thesis unfolding evaluate_template_strict_def evaluate_template_loop
    by (subst render_loop.simps) (simp only: s d v r option.case Let_def sum.case and_then_simps value_to_string_def json.case append.simps)
qed

theorem secret_narrowing_sound_witness:
  "evaluate_template_strict (\<lambda>_. None) one_file_system plain_ext ''k=${{ secrets.A }}''
     (job_context False (spec_names (collect_job_secret_reads (\<lambda>_. None) one_read_job) {''A'', ''B''}) [] two_secrets [] plain_context) =
   Inr ''k=1'' \<and>
   spec_names (collect_job_secret_reads (\<lambda>_. None) one_read_job) {''A'', ''B''} = {''A''}"
proof -
  have r: "spec_names (collect_job_secret_reads (\<lambda>_. None) one_read_job) {''A'', ''B''} = {''A''}" by code_simp
  have t: "''k=${{ secrets.A }}'' \<in> set (job_texts one_read_job)" by code_simp
  have ctx: "secrets_context (stamp_variables (resolved_secrets False {''A'', ''B''} [] two_secrets) []) = [(''A'', JString ''1''), (''B'', JString ''2'')]"
    "secrets_context (stamp_variables (resolved_secrets False {''A''} [] two_secrets) []) = [(''A'', JString ''1'')]"
    by code_simp+
  have full: "evaluate_template_strict (\<lambda>_. None) one_file_system plain_ext ''k=${{ secrets.A }}''
      (job_context False {''A'', ''B''} [] two_secrets [] plain_context) = Inr ''k=1''"
    by (rule secret_A_renders) (simp add: job_context_def ctx resolve_def with_secrets_def plain_context_def resolve_segment_def)
  have narrowed: "evaluate_template_strict (\<lambda>_. None) one_file_system plain_ext ''k=${{ secrets.A }}''
      (job_context False {''A''} [] two_secrets [] plain_context) = Inr ''k=1''"
    by (rule secret_A_renders) (simp add: job_context_def ctx resolve_def with_secrets_def plain_context_def resolve_segment_def)
  have "btree_wf two_secrets" "\<forall>n \<in> fst ` set two_secrets. is_engine_provided n \<longrightarrow> is_claim_owned_variable n"
    by (simp_all add: two_secrets_def btree_wf_def is_engine_provided_def ENGINE_PROVIDED_SECRETS_def char_upper_def)
  from secret_narrowing_sound [OF t this(1) btree_wf_Nil this(2) full] narrowed r show ?thesis by simp
qed

text \<open>A condition that quotes \<^verbatim>\<open>${{\<close> hides its reads: it is scanned for spans and has none, so
  \<^verbatim>\<open>secrets.A == '${{'\<close> is reported to read nothing while the expression itself reads \<^verbatim>\<open>A\<close>.\<close>

theorem quoted_marker_hides_reads:
  "collect_reads_from_condition (\<lambda>_. None) (''secrets.A == '' @ [QUOTE] @ ''${{'' @ [QUOTE]) no_reads = no_reads \<and>
   collect_secret_reads (\<lambda>_. None) (''secrets.A == '' @ [QUOTE] @ ''${{'' @ [QUOTE]) =
     Inr \<lparr>read_names = {''A''}, dynamic = False\<rparr>"
  by code_simp

end
