(* ===== verification/Github_Breaker.thy ===== *)
theory Github_Breaker
  imports Rust_Base
begin

text \<open>
  The circuit breaker around GitHub calls, \<^verbatim>\<open>GithubBreaker\<close> of
  \<^verbatim>\<open>crates/preloop-runner-server/src/github_breaker.rs\<close>: its configuration, its state and the
  operations that admit a call and record its outcome, and the classification of a response from its
  status and its rate-limit headers.

  Every operation runs under the breaker's lock, so it is one function of the state. Each reads the
  monotonic clock before it takes the lock: the reading is the argument \<open>now\<close>, and two calls may
  take the lock in the opposite order of their readings. Instants and durations are counted in
  nanoseconds. The wall clock that \<^verbatim>\<open>x-ratelimit-reset\<close> is compared with is the argument
  \<open>unix_now\<close>, in whole seconds; the values of the environment variables are arguments too.

  The properties: a call is never admitted inside an open window; of the calls that find the window
  elapsed, one per probe timeout is admitted; a breaker is never stuck, since some bounded time after
  the last operation a call is admitted; a disabled breaker admits everything; the failure
  threshold and the growth of the window are exact.
\<close>

named_theorems breaker_defs \<open>definitions of the breaker's operations\<close>

section \<open>Durations and numbers\<close>

definition secs :: "nat \<Rightarrow> nat" where "secs n = n * 1000000000"
definition as_secs :: "nat \<Rightarrow> nat" where "as_secs d = d div 1000000000"
definition DURATION_MAX :: nat where "DURATION_MAX = secs (2 ^ 64 - 1) + 999999999"

definition saturating_mul :: "nat \<Rightarrow> nat \<Rightarrow> nat" where
  "saturating_mul d n = min (d * n) DURATION_MAX"

definition checked_duration_since :: "nat \<Rightarrow> nat \<Rightarrow> nat option" where
  "checked_duration_since now started = (if started \<le> now then Some (now - started) else None)"

section \<open>State\<close>

datatype github_failure_kind =
    Unavailable
  | RateLimited "nat option"

record breaker_config =
  enabled :: bool
  failure_threshold :: nat
  base_open :: nat
  max_open :: nat
  probe_timeout :: nat

definition default_config :: breaker_config where
  "default_config = \<lparr>enabled = True, failure_threshold = 3, base_open = secs 30, max_open = secs 300,
     probe_timeout = secs 60\<rparr>"

definition from_env :: "string option \<Rightarrow> string option \<Rightarrow> breaker_config" where
  "from_env breaker threshold =
     (let config = default_config;
          config = (case breaker of
              None \<Rightarrow> config
            | Some v \<Rightarrow>
                if to_lower (trim v) \<in> {''off'', ''0'', ''false'', ''disabled''}
                then config\<lparr>enabled := False\<rparr> else config)
      in case opt_filter (\<lambda>n. 0 < n) (Option.bind threshold (\<lambda>v. parse_unsigned 32 (trim v))) of
           None \<Rightarrow> config
         | Some n \<Rightarrow> config\<lparr>failure_threshold := n\<rparr>)"

record breaker_inner =
  consecutive_failures :: nat
  open_until :: "nat option"
  probe_started :: "nat option"
  trips :: nat
  open_streak :: nat
  rate_limited :: bool
  last_error :: "string option"

record breaker_snapshot =
  snap_open :: bool
  snap_retry_in_seconds :: "nat option"
  snap_consecutive_failures :: nat
  snap_trips :: nat
  snap_rate_limited :: bool
  snap_last_error :: "string option"

definition new_breaker :: breaker_inner where
  "new_breaker = \<lparr>consecutive_failures = 0, open_until = None, probe_started = None, trips = 0,
     open_streak = 0, rate_limited = False, last_error = None\<rparr>"

section \<open>Response headers\<close>

text \<open>A header map is the list of its entries, names in lower case, as \<^verbatim>\<open>HeaderMap\<close> keeps them; a
  value that is not visible ASCII has no string.\<close>

type_synonym headers = "(string \<times> string) list"

definition visible_ascii :: "char \<Rightarrow> bool" where
  "visible_ascii c \<longleftrightarrow> (32 \<le> (of_char c :: nat) \<and> (of_char c :: nat) < 127) \<or> (of_char c :: nat) = 9"

definition header_str :: "headers \<Rightarrow> string \<Rightarrow> string option" where
  "header_str headers name = opt_filter (list_all visible_ascii) (map_of headers name)"

definition retry_after_from_headers :: "nat \<Rightarrow> headers \<Rightarrow> nat option" where
  "retry_after_from_headers unix_now headers =
     (case opt_filter (\<lambda>n. 0 < n)
             (Option.bind (header_str headers ''retry-after'') (\<lambda>v. parse_unsigned 64 (trim v))) of
        Some n \<Rightarrow> Some (secs n)
      | None \<Rightarrow>
          Option.bind (Option.bind (header_str headers ''x-ratelimit-reset'') (\<lambda>v. parse_unsigned 64 (trim v)))
            (\<lambda>reset_at. map_option secs
               (opt_filter (\<lambda>n. 0 < n) (if unix_now \<le> reset_at then Some (reset_at - unix_now) else None))))"

definition budget_exhausted :: "headers \<Rightarrow> bool" where
  "budget_exhausted headers =
     (case Option.bind (header_str headers ''x-ratelimit-remaining'') (\<lambda>v. parse_i64 (trim v)) of
        None \<Rightarrow> False | Some n \<Rightarrow> n \<le> 0)"

definition is_server_error :: "nat \<Rightarrow> bool" where
  "is_server_error status \<longleftrightarrow> 500 \<le> status \<and> status < 600"

definition classify_status :: "nat \<Rightarrow> nat \<Rightarrow> headers \<Rightarrow> github_failure_kind option" where
  "classify_status unix_now status headers =
     (let retry_after = retry_after_from_headers unix_now headers
      in if status = 429 then Some (RateLimited retry_after)
         else if status = 403 then
           (if budget_exhausted headers \<or> retry_after \<noteq> None then Some (RateLimited retry_after) else None)
         else if is_server_error status then Some Unavailable
         else None)"

section \<open>Operations\<close>

definition remaining_open :: "breaker_inner \<Rightarrow> nat \<Rightarrow> nat option" where
  "remaining_open inner now = map_option (\<lambda>u. u - now) (opt_filter (\<lambda>u. now < u) (open_until inner))"

definition retry_after :: "breaker_config \<Rightarrow> nat \<Rightarrow> breaker_inner \<Rightarrow> nat option" where
  "retry_after config now inner =
     (case remaining_open inner now of
        Some r \<Rightarrow> Some r
      | None \<Rightarrow>
          (case (open_until inner, Option.bind (probe_started inner) (checked_duration_since now)) of
             (Some _, Some elapsed) \<Rightarrow>
               if elapsed < probe_timeout config then Some (probe_timeout config - elapsed) else None
           | _ \<Rightarrow> None))"

definition is_open :: "breaker_config \<Rightarrow> nat \<Rightarrow> breaker_inner \<Rightarrow> bool" where
  "is_open config now inner \<longleftrightarrow> retry_after config now inner \<noteq> None"

definition probe_live :: "breaker_config \<Rightarrow> nat \<Rightarrow> breaker_inner \<Rightarrow> bool" where
  "probe_live config now inner =
     (case probe_started inner of None \<Rightarrow> False | Some started \<Rightarrow> now - started < probe_timeout config)"

definition breaker_acquire :: "breaker_config \<Rightarrow> nat \<Rightarrow> breaker_inner \<Rightarrow> (nat + unit) \<times> breaker_inner" where
  "breaker_acquire config now inner =
     (case remaining_open inner now of
        Some r \<Rightarrow> (Inl r, inner)
      | None \<Rightarrow>
          if open_until inner \<noteq> None then
            if probe_live config now inner then (Inl (probe_timeout config), inner)
            else (Inr (), inner\<lparr>probe_started := Some now\<rparr>)
          else (Inr (), inner))"

definition record_success :: "breaker_inner \<Rightarrow> breaker_inner" where
  "record_success inner = inner\<lparr>consecutive_failures := 0, open_until := None, probe_started := None,
     open_streak := 0, rate_limited := False, last_error := None\<rparr>"

definition open_for :: "nat \<Rightarrow> nat \<Rightarrow> breaker_inner \<Rightarrow> breaker_inner" where
  "open_for now wait inner = inner\<lparr>open_until := Some (now + wait),
     open_streak := sat_u32 (open_streak inner + 1), trips := sat_u64 (trips inner + 1)\<rparr>"

definition backoff :: "breaker_config \<Rightarrow> nat \<Rightarrow> nat" where
  "backoff config streak = min (saturating_mul (base_open config) (2 ^ min streak 4)) (max_open config)"

definition record_failure ::
  "breaker_config \<Rightarrow> nat \<Rightarrow> github_failure_kind \<Rightarrow> string \<Rightarrow> breaker_inner \<Rightarrow> breaker_inner" where
  "record_failure config now kind err inner =
     (let inner = inner\<lparr>consecutive_failures := sat_u32 (consecutive_failures inner + 1),
                        last_error := Some err, probe_started := None\<rparr>
      in if \<not> enabled config then inner
         else case kind of
           RateLimited wait \<Rightarrow>
             open_for now (clamp (secs 1) (secs 3600) (unwrap_or wait (base_open config)))
               (inner\<lparr>rate_limited := True\<rparr>)
         | Unavailable \<Rightarrow>
             (let inner = inner\<lparr>rate_limited := False\<rparr>
              in if consecutive_failures inner < failure_threshold config then inner
                 else open_for now (backoff config (open_streak inner)) inner))"

text \<open>A response, as far as this code looks at it: its status, that status as it prints, its headers.\<close>

record response =
  resp_status :: nat
  resp_status_text :: string
  resp_headers :: headers

definition observe_status ::
  "breaker_config \<Rightarrow> nat \<Rightarrow> nat \<Rightarrow> response \<Rightarrow> breaker_inner \<Rightarrow> github_failure_kind option \<times> breaker_inner" where
  "observe_status config now unix_now r inner =
     (case classify_status unix_now (resp_status r) (resp_headers r) of
        Some kind \<Rightarrow> (Some kind, record_failure config now kind (''GitHub responded '' @ resp_status_text r) inner)
      | None \<Rightarrow> (None, record_success inner))"

definition observe_rate_budget ::
  "breaker_config \<Rightarrow> nat \<Rightarrow> nat \<Rightarrow> headers \<Rightarrow> breaker_inner \<Rightarrow> breaker_inner" where
  "observe_rate_budget config now unix_now headers inner =
     (if \<not> enabled config then inner
      else if \<not> budget_exhausted headers then inner
      else case retry_after_from_headers unix_now headers of
        None \<Rightarrow> inner
      | Some wait \<Rightarrow>
          open_for now (clamp (secs 1) (secs 3600) wait)
            (inner\<lparr>rate_limited := True, last_error := Some ''GitHub primary rate limit exhausted''\<rparr>))"

definition observe_transport_error ::
  "breaker_config \<Rightarrow> nat \<Rightarrow> string \<Rightarrow> breaker_inner \<Rightarrow> github_failure_kind \<times> breaker_inner" where
  "observe_transport_error config now err inner = (Unavailable, record_failure config now Unavailable err inner)"

definition snapshot :: "nat \<Rightarrow> breaker_inner \<Rightarrow> breaker_snapshot" where
  "snapshot now inner =
     \<lparr>snap_open = remaining_open inner now \<noteq> None,
      snap_retry_in_seconds = map_option as_secs (remaining_open inner now),
      snap_consecutive_failures = consecutive_failures inner, snap_trips = trips inner,
      snap_rate_limited = rate_limited inner, snap_last_error = last_error inner\<rparr>"

lemmas [breaker_defs] = breaker_acquire_def record_success_def record_failure_def open_for_def observe_status_def
  observe_rate_budget_def observe_transport_error_def

section \<open>The step relation\<close>

text \<open>What one call does to the state of a breaker, with the clock reading it has. A failure whose
  error text nobody reads again may have any text.\<close>

inductive breaker_step :: "breaker_config \<Rightarrow> nat \<Rightarrow> breaker_inner \<Rightarrow> breaker_inner \<Rightarrow> bool"
  for config :: breaker_config and now :: nat where
  acquires: "breaker_step config now b (snd (breaker_acquire config now b))"
| succeeds: "breaker_step config now b (record_success b)"
| fails: "breaker_step config now b (record_failure config now kind err b)"
| budget: "breaker_step config now b (observe_rate_budget config now unix_now headers b)"

text \<open>The states a new breaker reaches when every call reads the clock at \<open>now\<close> or before.\<close>

inductive breaker_reach :: "breaker_config \<Rightarrow> nat \<Rightarrow> breaker_inner \<Rightarrow> bool" for config :: breaker_config where
  init: "breaker_reach config now new_breaker"
| step: "breaker_reach config now b \<Longrightarrow> now \<le> now' \<Longrightarrow> t \<le> now' \<Longrightarrow> breaker_step config t b b' \<Longrightarrow>
    breaker_reach config now' b'"

inductive_cases breaker_stepE: "breaker_step config now b b'"

section \<open>Admission\<close>

lemma remaining_open_None: "remaining_open b now = None \<longleftrightarrow> (\<forall>u. open_until b = Some u \<longrightarrow> u \<le> now)"
  by (cases "open_until b") (auto simp: remaining_open_def)

lemma acquire_Inr:
  "fst (breaker_acquire config now b) = Inr () \<longleftrightarrow>
     (case open_until b of None \<Rightarrow> True | Some u \<Rightarrow> u \<le> now \<and> \<not> probe_live config now b)"
  by (auto simp: breaker_acquire_def remaining_open_def split: option.splits)

lemma acquire_closed: "open_until b = None \<Longrightarrow> breaker_acquire config now b = (Inr (), b)"
  by (simp add: breaker_acquire_def remaining_open_def)

lemma acquire_frame:
  "open_until (snd (breaker_acquire config now b)) = open_until b"
  "consecutive_failures (snd (breaker_acquire config now b)) = consecutive_failures b"
  "trips (snd (breaker_acquire config now b)) = trips b"
  "open_streak (snd (breaker_acquire config now b)) = open_streak b"
  "rate_limited (snd (breaker_acquire config now b)) = rate_limited b"
  by (auto simp: breaker_acquire_def split: option.splits)

lemma acquire_probe:
  "fst (breaker_acquire config now b) = Inr () \<Longrightarrow> open_until b \<noteq> None \<Longrightarrow>
   probe_started (snd (breaker_acquire config now b)) = Some now"
  by (auto simp: breaker_acquire_def split: option.splits if_splits)

lemma acquire_refused: "fst (breaker_acquire config now b) = Inl r \<Longrightarrow> snd (breaker_acquire config now b) = b"
  by (auto simp: breaker_acquire_def split: option.splits if_splits)

text \<open>A run of calls that only ask for admission, none of which has reported back; the clock readings
  of those that are admitted.\<close>

fun admitted :: "breaker_config \<Rightarrow> nat list \<Rightarrow> breaker_inner \<Rightarrow> nat list" where
  "admitted config [] b = []"
| "admitted config (t # ts) b =
     (let (r, b') = breaker_acquire config t b
      in (case r of Inl _ \<Rightarrow> [] | Inr _ \<Rightarrow> [t]) @ admitted config ts b')"

lemma admitted_after_probe:
  assumes "open_until b = Some u" and "probe_started b = Some p" and "0 < probe_timeout config"
  shows "sorted_wrt (\<lambda>s t. s + probe_timeout config \<le> t) (admitted config ts b) \<and>
    list_all (\<lambda>t. u \<le> t \<and> p + probe_timeout config \<le> t) (admitted config ts b)"
  using assms(1,2)
proof (induction ts arbitrary: b p)
  case (Cons t ts)
  obtain r b' where ab: "breaker_acquire config t b = (r, b')" by fastforce
  have u': "open_until b' = Some u" using acquire_frame(1) [of config t b] ab Cons.prems by simp
  show ?case
  proof (cases r)
    case (Inl e)
    then have "b' = b" using acquire_refused [of config t b e] ab by simp
    then show ?thesis using Cons.IH [OF Cons.prems] ab Inl by simp
  next
    case (Inr x)
    then have adm: "fst (breaker_acquire config t b) = Inr ()" using ab by (simp add: unit_eq)
    then have t: "u \<le> t" "p + probe_timeout config \<le> t"
      using Cons.prems assms(3) by (auto simp: acquire_Inr probe_live_def)
    have p': "probe_started b' = Some t" using acquire_probe [OF adm] Cons.prems ab by simp
    have "list_all (\<lambda>s. u \<le> s \<and> t + probe_timeout config \<le> s) (admitted config ts b')"
      using Cons.IH [OF u' p'] by simp
    then have "list_all (\<lambda>s. u \<le> s \<and> p + probe_timeout config \<le> s) (admitted config ts b')"
      using t by (auto simp: list_all_iff)
    then show ?thesis using Cons.IH [OF u' p'] t ab Inr by (auto simp: list_all_iff)
  qed
qed simp

lemma admitted_first:
  assumes "open_until b = Some u" and "probe_started b = None"
  shows "(case find (\<lambda>t. u \<le> t) ts of
            None \<Rightarrow> admitted config ts b = []
          | Some t \<Rightarrow> \<exists>rest b'. admitted config ts b = t # admitted config rest b' \<and>
              open_until b' = Some u \<and> probe_started b' = Some t)"
  using assms
proof (induction ts)
  case (Cons t ts)
  show ?case
  proof (cases "u \<le> t")
    case True
    then have "breaker_acquire config t b = (Inr (), b\<lparr>probe_started := Some t\<rparr>)"
      using Cons.prems by (simp add: breaker_acquire_def remaining_open_def probe_live_def)
    then have "admitted config (t # ts) b = t # admitted config ts (b\<lparr>probe_started := Some t\<rparr>)"
      by simp
    moreover have "open_until (b\<lparr>probe_started := Some t\<rparr>) = Some u"
        "probe_started (b\<lparr>probe_started := Some t\<rparr>) = Some t"
      using Cons.prems by simp_all
    ultimately have "\<exists>rest b'. admitted config (t # ts) b = t # admitted config rest b' \<and>
        open_until b' = Some u \<and> probe_started b' = Some t" by blast
    with True show ?thesis by (simp del: admitted.simps)
  next
    case False
    then have "breaker_acquire config t b = (Inl (u - t), b)"
      using Cons.prems by (simp add: breaker_acquire_def remaining_open_def)
    then have "admitted config (t # ts) b = admitted config ts b" by simp
    then show ?thesis using Cons.IH [OF Cons.prems] False by (simp del: admitted.simps cong: option.case_cong)
  qed
qed simp

text \<open>C28. An open breaker lets no call through before its window ends; the first call that reads the
  clock after that is admitted as the probe, and as long as no call has reported back, the next one is
  admitted only a full probe timeout after the one before.\<close>

theorem breaker_single_probe:
  assumes "open_until b = Some u" and "probe_started b = None" and "0 < probe_timeout config"
  shows "list_all (\<lambda>t. u \<le> t) (admitted config ts b) \<and>
    sorted_wrt (\<lambda>s t. s + probe_timeout config \<le> t) (admitted config ts b) \<and>
    find (\<lambda>t. u \<le> t) ts = (case admitted config ts b of [] \<Rightarrow> None | t # _ \<Rightarrow> Some t)"
proof (cases "find (\<lambda>t. u \<le> t) ts")
  case None
  then show ?thesis using admitted_first [OF assms(1,2), of config ts] by simp
next
  case (Some t)
  then obtain rest b' where a: "admitted config ts b = t # admitted config rest b'"
      "open_until b' = Some u" "probe_started b' = Some t"
    using admitted_first [OF assms(1,2), of config ts] by auto
  have "u \<le> t" using Some by (auto simp: find_Some_iff)
  then show ?thesis using a(1) Some admitted_after_probe [OF a(2,3) assms(3), of rest]
    by (auto simp: list_all_iff)
qed

definition tripped_breaker :: breaker_inner where
  "tripped_breaker = new_breaker\<lparr>open_until := Some (secs 100), open_streak := 1, trips := 1\<rparr>"

theorem breaker_single_probe_witness:
  "open_until tripped_breaker = Some (secs 100) \<and> probe_started tripped_breaker = None \<and>
   0 < probe_timeout default_config \<and>
   admitted default_config (map secs [50, 100, 101, 159, 160, 200]) tripped_breaker = map secs [100, 160] \<and>
   sorted_wrt (\<lambda>s t. s + probe_timeout default_config \<le> t)
     (admitted default_config (map secs [50, 100, 101, 159, 160, 200]) tripped_breaker)"
  using breaker_single_probe [of tripped_breaker "secs 100" default_config "map secs [50, 100, 101, 159, 160, 200]"]
  by (simp add: tripped_breaker_def new_breaker_def default_config_def secs_def breaker_acquire_def remaining_open_def
      probe_live_def Let_def)

section \<open>Reachable states\<close>

definition window_bound :: "breaker_config \<Rightarrow> nat" where
  "window_bound config = max (secs 3600) (max_open config)"

definition breaker_timed :: "breaker_config \<Rightarrow> nat \<Rightarrow> breaker_inner \<Rightarrow> bool" where
  "breaker_timed config now b \<longleftrightarrow>
     (case open_until b of None \<Rightarrow> True | Some u \<Rightarrow> u \<le> now + window_bound config) \<and>
     (case probe_started b of None \<Rightarrow> True | Some p \<Rightarrow> p \<le> now)"

lemma clamped_wait: "clamp (secs 1) (secs 3600) w \<le> window_bound config"
  using clamp_in [of "secs 1" "secs 3600" w] by (simp add: window_bound_def secs_def max.coboundedI1)

lemma backoff_bound: "backoff config n \<le> window_bound config"
  by (simp add: backoff_def window_bound_def)

lemma breaker_timed_mono:
  assumes "breaker_timed config now b" and "now \<le> now'"
  shows "breaker_timed config now' b"
proof (cases "open_until b")
  case None
  then show ?thesis using assms by (cases "probe_started b") (simp_all add: breaker_timed_def)
next
  case (Some u)
  then show ?thesis using assms by (cases "probe_started b") (simp_all add: breaker_timed_def)
qed

lemma breaker_timed_step:
  assumes "breaker_timed config now b" and "breaker_step config t b b'" and "t \<le> now"
  shows "breaker_timed config now b'"
  using assms(2)
proof cases
  case acquires
  then show ?thesis using assms(1,3)
    by (auto simp: breaker_acquire_def breaker_timed_def split: option.splits)
next
  case succeeds
  then show ?thesis by (simp add: record_success_def breaker_timed_def)
next
  case (fails kind err)
  have "t + clamp (secs 1) (secs 3600) w \<le> now + window_bound config" for w
    using clamped_wait [of w config] assms(3) by simp
  moreover have "t + backoff config n \<le> now + window_bound config" for n
    using backoff_bound [of config n] assms(3) by simp
  ultimately show ?thesis using fails assms(1)
    by (cases kind) (simp_all add: record_failure_def open_for_def breaker_timed_def Let_def)
next
  case (budget unix_now headers)
  have "t + clamp (secs 1) (secs 3600) w \<le> now + window_bound config" for w
    using clamped_wait [of w config] assms(3) by simp
  then show ?thesis using budget assms(1)
    by (cases "retry_after_from_headers unix_now headers")
       (simp_all add: observe_rate_budget_def open_for_def breaker_timed_def)
qed

lemma breaker_reach_timed: "breaker_reach config now b \<Longrightarrow> breaker_timed config now b"
proof (induction rule: breaker_reach.induct)
  case (init now)
  then show ?case by (simp add: breaker_timed_def new_breaker_def)
next
  case (step now b now' t b')
  then show ?case using breaker_timed_mono breaker_timed_step by blast
qed

text \<open>A breaker is never stuck open: whatever its history, once no call has touched it for an hour
  (or the configured longest window, or the probe timeout, if longer), the next call is admitted. A
  header cannot park a credential for longer, and neither can a probe that never reports back.\<close>

theorem breaker_never_stuck:
  assumes "breaker_reach config now b"
    and "now + max (window_bound config) (probe_timeout config) \<le> t"
  shows "fst (breaker_acquire config t b) = Inr ()"
  using breaker_reach_timed [OF assms(1)] assms(2)
  by (auto simp: breaker_timed_def acquire_Inr probe_live_def split: option.splits)

definition throttled_breaker :: breaker_inner where
  "throttled_breaker = record_failure default_config 0 (RateLimited (Some (secs 86400))) ''429'' new_breaker"

lemma throttled_reach: "breaker_reach default_config 0 throttled_breaker"
  unfolding throttled_breaker_def
  by (rule breaker_reach.step [OF breaker_reach.init _ _ breaker_step.fails]) simp_all

theorem breaker_never_stuck_witness:
  "fst (breaker_acquire default_config (secs 3600) throttled_breaker) = Inr () \<and>
   fst (breaker_acquire default_config (secs 3599) throttled_breaker) = Inl (secs 1)"
  using breaker_never_stuck [OF throttled_reach, of "secs 3600"]
  by (simp add: throttled_breaker_def default_config_def new_breaker_def record_failure_def open_for_def
      breaker_acquire_def remaining_open_def clamp_def secs_def window_bound_def)

section \<open>Switched off\<close>

text \<open>With \<^verbatim>\<open>PRELOOP_GITHUB_BREAKER=off\<close> the breaker never opens, by a failure, a rate limit or an
  exhausted budget: in every state it reaches, every call is admitted and it announces no wait.\<close>

theorem disabled_breaker_admits:
  assumes "breaker_reach config now b" and "\<not> enabled config"
  shows "breaker_acquire config t b = (Inr (), b) \<and> retry_after config t b = None \<and> trips b = 0"
proof -
  have "open_until b = None \<and> trips b = 0" using assms
  proof (induction rule: breaker_reach.induct)
    case (step now b now' t b')
    from step.hyps(4) step.IH [OF step.prems] step.prems show ?case
      by cases (simp_all add: breaker_defs remaining_open_def)
  qed (simp add: new_breaker_def)
  then show ?thesis by (simp add: acquire_closed retry_after_def remaining_open_def)
qed

definition off_config :: breaker_config where "off_config = from_env (Some ''OFF '') None"

theorem disabled_breaker_admits_witness:
  "\<not> enabled off_config \<and>
   breaker_acquire off_config 7 (record_failure off_config 0 (RateLimited (Some (secs 60))) ''429'' new_breaker) =
     (Inr (), record_failure off_config 0 (RateLimited (Some (secs 60))) ''429'' new_breaker)"
proof -
  have off: "\<not> enabled off_config"
    by (simp add: off_config_def from_env_def default_config_def rust_simps Let_def char_of_def bit_0)
  have "breaker_reach off_config 0 (record_failure off_config 0 (RateLimited (Some (secs 60))) ''429'' new_breaker)"
    by (rule breaker_reach.step [OF breaker_reach.init _ _ breaker_step.fails]) simp_all
  from disabled_breaker_admits [OF this off, of 7] off show ?thesis by simp
qed

section \<open>The failure threshold and the window\<close>

text \<open>A run of failures to reach GitHub, each with its clock reading and its error.\<close>

definition outage :: "breaker_config \<Rightarrow> (nat \<times> string) list \<Rightarrow> breaker_inner \<Rightarrow> breaker_inner" where
  "outage config fs b = fold (\<lambda>(t, err). record_failure config t Unavailable err) fs b"

lemma outage_Nil [simp]: "outage config [] b = b"
  by (simp add: outage_def)

lemma outage_snoc:
  "outage config (fs @ [(t, err)]) b = record_failure config t Unavailable err (outage config fs b)"
  by (simp add: outage_def)

lemma sat_u32_small: "n < 2 ^ 32 \<Longrightarrow> sat_u32 n = n"
  by (simp add: sat_u32_def)

text \<open>The counters after \<open>n\<close> failures in a row: the streak counts those from the threshold on.\<close>

lemma outage_counters:
  assumes "enabled config" and "0 < failure_threshold config" and "length fs < 2 ^ 32"
  shows "consecutive_failures (outage config fs new_breaker) = length fs \<and>
    open_streak (outage config fs new_breaker) = length fs + 1 - failure_threshold config"
  using assms(3)
proof (induction fs rule: rev_induct)
  case (snoc f fs)
  obtain t err where f: "f = (t, err)" by fastforce
  have n: "length fs + 1 < 2 ^ 32" using snoc.prems by simp
  have sat: "sat_u32 (length fs + 1) = length fs + 1" by (rule sat_u32_small [OF n])
  have IH: "consecutive_failures (outage config fs new_breaker) = length fs"
      "open_streak (outage config fs new_breaker) = length fs + 1 - failure_threshold config"
    using snoc.IH n by simp_all
  have streak: "sat_u32 (length fs + 1 - failure_threshold config + 1) = length fs + 1 - failure_threshold config + 1"
    by (rule sat_u32_small) (use n assms(2) in linarith)
  show ?case using assms(1,2) sat streak
    by (simp add: f outage_snoc record_failure_def open_for_def IH Let_def Suc_diff_le)
qed (use assms(2) in \<open>simp add: new_breaker_def\<close>)

text \<open>The threshold is exact: a run of failures to reach GitHub opens the breaker with the failure
  that reaches the threshold and no sooner, and from then on each failure opens it from the time of
  that failure for the base window, doubled for every opening before it up to sixteen times, and never
  for longer than the configured maximum.\<close>

theorem outage_opens_at_threshold:
  assumes "enabled config" and "0 < failure_threshold config" and "length fs + 1 < 2 ^ 32"
  shows "open_until (outage config (fs @ [(t, err)]) new_breaker) =
    (if length fs + 1 < failure_threshold config then None
     else Some (t + min (saturating_mul (base_open config) (2 ^ min (length fs + 1 - failure_threshold config) 4))
                        (max_open config)))"
proof -
  have n: "length fs < 2 ^ 32" using assms(3) by simp
  have sat: "sat_u32 (length fs + 1) = length fs + 1" by (rule sat_u32_small [OF assms(3)])
  have closed: "open_until (outage config gs new_breaker) = None"
    if "length gs < failure_threshold config" "length gs < 2 ^ 32" for gs
    using that
  proof (induction gs rule: rev_induct)
    case (snoc g gs)
    then show ?case
      using assms(1) outage_counters [OF assms(1,2), of gs] sat_u32_small [of "length gs + 1"]
      by (cases g) (simp add: outage_snoc record_failure_def Let_def)
  qed (simp add: new_breaker_def)
  show ?thesis
  proof (cases "length fs + 1 < failure_threshold config")
    case True
    then show ?thesis using closed [of "fs @ [(t, err)]"] assms(3) by simp
  next
    case False
    then show ?thesis using assms(1) outage_counters [OF assms(1,2) n] sat
      by (simp add: outage_snoc record_failure_def open_for_def backoff_def Let_def)
  qed
qed

theorem outage_opens_at_threshold_witness:
  "open_until (outage default_config [(secs 1, ''502''), (secs 2, ''502'')] new_breaker) = None \<and>
   open_until (outage default_config [(secs 1, ''502''), (secs 2, ''502''), (secs 3, ''502'')] new_breaker) =
     Some (secs 33) \<and>
   open_until (outage default_config
     [(secs 1, ''502''), (secs 2, ''502''), (secs 3, ''502''), (secs 33, ''502''), (secs 93, ''502'')] new_breaker) =
     Some (secs 213)"
  using outage_opens_at_threshold [of default_config "[(secs 1, ''502'')]" "secs 2" "''502''"]
    outage_opens_at_threshold [of default_config "[(secs 1, ''502''), (secs 2, ''502'')]" "secs 3" "''502''"]
    outage_opens_at_threshold [of default_config
      "[(secs 1, ''502''), (secs 2, ''502''), (secs 3, ''502''), (secs 33, ''502'')]" "secs 93" "''502''"]
  by (simp add: default_config_def saturating_mul_def DURATION_MAX_def secs_def)

section \<open>The advertised wait\<close>

text \<open>C39. The wait that \<^verbatim>\<open>retry_after\<close> announces, without reserving anything, agrees with
  what \<^verbatim>\<open>acquire\<close> would do: in every reachable state, at a time no earlier than the calls so far,
  it announces a wait exactly when a call would be refused, and a call that comes any sooner than the
  announced wait is refused as well.\<close>

theorem retry_after_exact:
  assumes "breaker_reach config now b" and "now \<le> t"
  shows "(retry_after config t b = None \<longleftrightarrow> fst (breaker_acquire config t b) = Inr ()) \<and>
    (\<forall>d t'. retry_after config t b = Some d \<and> t \<le> t' \<and> t' < t + d \<longrightarrow> fst (breaker_acquire config t' b) \<noteq> Inr ())"
proof -
  have timed: "breaker_timed config t b"
    using breaker_timed_mono [OF breaker_reach_timed [OF assms(1)] assms(2)] .
  show ?thesis
  proof (cases "open_until b")
    case None
    then show ?thesis by (simp add: retry_after_def remaining_open_def acquire_Inr)
  next
    case (Some u)
    show ?thesis
    proof (cases "probe_started b")
      case None
      with Some show ?thesis by (simp add: retry_after_def remaining_open_def acquire_Inr probe_live_def)
    next
      case (Some p)
      then have "p \<le> t" using timed by (simp add: breaker_timed_def)
      with Some \<open>open_until b = Some u\<close> show ?thesis
        by (auto simp: retry_after_def remaining_open_def acquire_Inr probe_live_def checked_duration_since_def)
    qed
  qed
qed

theorem retry_after_exact_witness:
  "retry_after default_config (secs 10) throttled_breaker = Some (secs 3590) \<and>
   fst (breaker_acquire default_config (secs 10) throttled_breaker) \<noteq> Inr ()"
  using retry_after_exact [OF throttled_reach, of "secs 10"]
  by (simp add: throttled_breaker_def default_config_def new_breaker_def record_failure_def open_for_def
      retry_after_def remaining_open_def clamp_def secs_def)

end
