(* ===== verification/Github_Funnel.thy ===== *)
theory Github_Funnel
  imports Github_Breaker Json_Value
begin

text \<open>
  The funnel of outbound GitHub calls, the rest of
  \<^verbatim>\<open>crates/preloop-runner-server/src/github_breaker.rs\<close>: the credential buckets, the registry that
  keeps one breaker per bucket and service origin, the per-subsystem accounting, and
  \<^verbatim>\<open>send_observed_labeled_at\<close>, the one path a request takes.

  A breaker is shared by reference (\<^verbatim>\<open>Arc\<close>): a request holds the breaker it was admitted by across the
  network exchange, even when the registry drops it meanwhile. So the breakers live in a heap, a list
  of states, and the registry maps a key to an address. A request is two steps with the network in
  between: \<open>admit_call\<close> before it and \<open>settle_call\<close> after it. In the code looking up the breaker and asking
  it, and noting the status and the budget of one response, each take a lock after the other; here each
  pair is one step, so another request between the two is not considered.
  \<open>send_observed_labeled_at\<close> is their composition, and \<open>funnel_reach\<close> lets any number of requests
  interleave. What GitHub answers is an argument. The counters are the wrapping 64-bit atomics of the
  code.

  The properties: whatever the interleaving, calls under one key leave every other key's breaker
  alone, no key is refused for ever, and the registry is the least-recently-used cache its comment
  promises; a refused call spends no budget, and a rate limit trips a breaker once.
\<close>

unbundle bit_operations_syntax

section \<open>Buckets and keys\<close>

datatype github_credential_bucket =
    Installation "64 word"
  | Pat
  | App "64 word"
  | InstallationToken "64 word"
  | Relay
  | Anonymous

definition fnv1a_64 :: "string \<Rightarrow> 64 word" where
  "fnv1a_64 bytes =
     foldl (\<lambda>hash byte. (hash XOR of_nat (of_char byte)) * 0x100000001b3) 0xcbf29ce484222325 bytes"

definition for_app :: "string \<Rightarrow> github_credential_bucket" where
  "for_app app_id =
     (let app_id = trim app_id
      in App (case parse_unsigned 64 app_id of Some n \<Rightarrow> of_nat n | None \<Rightarrow> fnv1a_64 app_id))"

definition for_installation_token :: "string \<Rightarrow> github_credential_bucket" where
  "for_installation_token token = InstallationToken (fnv1a_64 token)"

definition hex_digit :: "nat \<Rightarrow> char" where
  "hex_digit n = (if n < 10 then char_of (48 + n) else char_of (87 + n))"

definition hex_016 :: "64 word \<Rightarrow> string" where
  "hex_016 w = map (\<lambda>i. hex_digit (unat (drop_bit (4 * i) w) mod 16)) (rev [0..<16])"

fun bucket_label :: "github_credential_bucket \<Rightarrow> string" where
  "bucket_label (Installation n) = ''installation:'' @ nat_to_string (unat n)"
| "bucket_label Pat = ''pat''"
| "bucket_label (App n) = ''app:'' @ nat_to_string (unat n)"
| "bucket_label (InstallationToken fingerprint) = ''installation-token:'' @ hex_016 fingerprint"
| "bucket_label Relay = ''relay''"
| "bucket_label Anonymous = ''anonymous''"

text \<open>The parts of a parsed URL the code reads, as the \<^verbatim>\<open>url\<close> crate gives them: the scheme, the host,
  and a port other than the scheme's default. The parser is an argument; it gives an error's text
  for a string that is no URL.\<close>

record parsed_url =
  url_scheme :: string
  url_host :: "string option"
  url_port :: "nat option"

definition service_origin :: "(string \<Rightarrow> string + parsed_url) \<Rightarrow> string \<Rightarrow> string" where
  "service_origin url_parse url =
     (case url_parse url of
        Inl _ \<Rightarrow> to_lower (trim url)
      | Inr parsed \<Rightarrow>
          (case url_host parsed of
             None \<Rightarrow> to_lower (trim url)
           | Some host \<Rightarrow>
               (case url_port parsed of
                  Some n \<Rightarrow> to_lower host @ '':'' @ nat_to_string n
                | None \<Rightarrow> to_lower host)))"

definition default_github_origin :: "(string \<Rightarrow> string + parsed_url) \<Rightarrow> string option \<Rightarrow> string" where
  "default_github_origin url_parse api_url =
     (case opt_filter (\<lambda>v. trim v \<noteq> []) api_url of
        Some v \<Rightarrow> service_origin url_parse v
      | None \<Rightarrow> ''api.github.com'')"

record github_breaker_key =
  key_origin :: string
  key_bucket :: github_credential_bucket

fun is_installation_token :: "github_credential_bucket \<Rightarrow> bool" where
  "is_installation_token (InstallationToken _) = True"
| "is_installation_token _ = False"

abbreviation is_unnamed :: "github_breaker_key \<Rightarrow> bool" where
  "is_unnamed key \<equiv> is_installation_token (key_bucket key)"

section \<open>Accounting\<close>

datatype github_subsystem =
    CheckRuns | Actions | RefResolve | Env | Snapshots | Workflows | Webhooks | AppAuth | Golden
  | Dispatch | PushBack | Credentials | Oidc

fun subsystem_as_str :: "github_subsystem \<Rightarrow> string" where
  "subsystem_as_str CheckRuns = ''check-runs''"
| "subsystem_as_str Actions = ''actions''"
| "subsystem_as_str RefResolve = ''ref-resolve''"
| "subsystem_as_str Env = ''env''"
| "subsystem_as_str Snapshots = ''snapshots''"
| "subsystem_as_str Workflows = ''workflows''"
| "subsystem_as_str Webhooks = ''webhooks''"
| "subsystem_as_str AppAuth = ''app-auth''"
| "subsystem_as_str Golden = ''golden''"
| "subsystem_as_str Dispatch = ''dispatch''"
| "subsystem_as_str PushBack = ''push-back''"
| "subsystem_as_str Credentials = ''credentials''"
| "subsystem_as_str Oidc = ''oidc''"

definition ALL_SUBSYSTEMS :: "github_subsystem list" where
  "ALL_SUBSYSTEMS = [CheckRuns, Actions, RefResolve, Env, Snapshots, Workflows, Webhooks, AppAuth, Golden,
     Dispatch, PushBack, Credentials, Oidc]"

record subsystem_counters =
  requests :: "64 word"
  counted_bytes :: "64 word"
  cross_host_bytes :: "64 word"
  rate_limits :: "64 word"
  breaker_blocked :: "64 word"

type_synonym github_consumption = "subsystem_counters list"

definition no_counters :: subsystem_counters where
  "no_counters = \<lparr>requests = 0, counted_bytes = 0, cross_host_bytes = 0, rate_limits = 0, breaker_blocked = 0\<rparr>"

definition new_consumption :: github_consumption where
  "new_consumption = replicate (length ALL_SUBSYSTEMS) no_counters"

text \<open>\<^verbatim>\<open>counters\<close>: the index of a subsystem, whose \<^verbatim>\<open>expect\<close> never fires (\<open>subsystem_index_ok\<close>).\<close>

definition subsystem_index :: "github_subsystem \<Rightarrow> nat option" where
  "subsystem_index s = position (\<lambda>c. c = s) ALL_SUBSYSTEMS"

definition counters :: "github_subsystem \<Rightarrow> github_consumption \<Rightarrow> subsystem_counters option" where
  "counters s c = Option.bind (subsystem_index s) (slice_get c)"

definition upd_counters ::
  "(subsystem_counters \<Rightarrow> subsystem_counters) \<Rightarrow> github_subsystem \<Rightarrow> github_consumption \<Rightarrow> github_consumption" where
  "upd_counters f s c = (case subsystem_index s of Some i \<Rightarrow> c[i := f (c ! i)] | None \<Rightarrow> c)"

definition record_request :: "github_subsystem \<Rightarrow> github_consumption \<Rightarrow> github_consumption" where
  "record_request = upd_counters (\<lambda>n. n\<lparr>requests := requests n + 1\<rparr>)"

definition record_bytes :: "64 word \<Rightarrow> github_subsystem \<Rightarrow> github_consumption \<Rightarrow> github_consumption" where
  "record_bytes b = upd_counters (\<lambda>n. n\<lparr>counted_bytes := counted_bytes n + b\<rparr>)"

definition record_cross_host_bytes :: "64 word \<Rightarrow> github_subsystem \<Rightarrow> github_consumption \<Rightarrow> github_consumption" where
  "record_cross_host_bytes b = upd_counters (\<lambda>n. n\<lparr>cross_host_bytes := cross_host_bytes n + b\<rparr>)"

definition record_rate_limited :: "github_subsystem \<Rightarrow> github_consumption \<Rightarrow> github_consumption" where
  "record_rate_limited = upd_counters (\<lambda>n. n\<lparr>rate_limits := rate_limits n + 1\<rparr>)"

definition record_breaker_blocked :: "github_subsystem \<Rightarrow> github_consumption \<Rightarrow> github_consumption" where
  "record_breaker_blocked = upd_counters (\<lambda>n. n\<lparr>breaker_blocked := breaker_blocked n + 1\<rparr>)"

definition record_advertised_bytes :: "github_subsystem \<Rightarrow> response \<Rightarrow> github_consumption \<Rightarrow> github_consumption" where
  "record_advertised_bytes s r c =
     (let n = unwrap_or (Option.bind (header_str (resp_headers r) ''content-length'') (parse_unsigned 64)) 0
      in if 0 < n then record_bytes (of_nat n) s c else c)"

record subsystem_usage =
  usage_subsystem :: string
  usage_counters :: subsystem_counters

definition consumption_snapshot :: "github_consumption \<Rightarrow> subsystem_usage list" where
  "consumption_snapshot c =
     map (\<lambda>s. \<lparr>usage_subsystem = subsystem_as_str s, usage_counters = unwrap_or (counters s c) no_counters\<rparr>)
       ALL_SUBSYSTEMS"

section \<open>The registry\<close>

definition MAX_UNNAMED_INSTALLATION_BUCKETS :: nat where "MAX_UNNAMED_INSTALLATION_BUCKETS = 256"

record breaker_registry =
  reg_config :: breaker_config
  github_origin :: string
  reg_breakers :: "(github_breaker_key \<times> nat) list"
  reg_unnamed :: "github_breaker_key list"

record github_funnel =
  registry :: breaker_registry
  breaker_heap :: "breaker_inner list"
  consumption :: github_consumption

definition for_origin :: "breaker_config \<Rightarrow> string \<Rightarrow> breaker_registry" where
  "for_origin config origin =
     \<lparr>reg_config = config, github_origin = origin, reg_breakers = [], reg_unnamed = []\<rparr>"

definition new_funnel :: "breaker_config \<Rightarrow> string \<Rightarrow> github_funnel" where
  "new_funnel config origin =
     \<lparr>registry = for_origin config origin, breaker_heap = [], consumption = new_consumption\<rparr>"

definition touch_unnamed :: "github_breaker_key \<Rightarrow> github_breaker_key list \<Rightarrow> github_breaker_key list" where
  "touch_unnamed key unnamed =
     (if \<not> is_unnamed key then unnamed
      else case position (\<lambda>candidate. candidate = key) unnamed of
        Some i \<Rightarrow> take i unnamed @ drop (Suc i) unnamed @ [unnamed ! i]
      | None \<Rightarrow> unnamed)"

fun evict_unnamed ::
  "(github_breaker_key \<times> nat) list \<Rightarrow> github_breaker_key list \<Rightarrow>
   (github_breaker_key \<times> nat) list \<times> github_breaker_key list" where
  "evict_unnamed breakers [] = (breakers, [])"
| "evict_unnamed breakers (evicted # unnamed) =
     (if MAX_UNNAMED_INSTALLATION_BUCKETS < length (evicted # unnamed)
      then evict_unnamed (AList.delete evicted breakers) unnamed
      else (breakers, evicted # unnamed))"

definition breaker_at :: "string \<Rightarrow> github_credential_bucket \<Rightarrow> github_funnel \<Rightarrow> nat \<times> github_funnel" where
  "breaker_at origin bucket f =
     (let key = \<lparr>key_origin = origin, key_bucket = bucket\<rparr>;
          reg = registry f;
          unnamed = touch_unnamed key (reg_unnamed reg)
      in case map_of (reg_breakers reg) key of
           Some a \<Rightarrow> (a, f\<lparr>registry := reg\<lparr>reg_unnamed := unnamed\<rparr>\<rparr>)
         | None \<Rightarrow>
             (let a = length (breaker_heap f);
                  breakers = AList.update key a (reg_breakers reg);
                  (breakers, unnamed) =
                    (if is_installation_token bucket then evict_unnamed breakers (unnamed @ [key])
                     else (breakers, unnamed))
              in (a, f\<lparr>registry := reg\<lparr>reg_breakers := breakers, reg_unnamed := unnamed\<rparr>,
                       breaker_heap := breaker_heap f @ [new_breaker]\<rparr>)))"

definition breaker_for :: "github_credential_bucket \<Rightarrow> github_funnel \<Rightarrow> nat \<times> github_funnel" where
  "breaker_for bucket f = breaker_at (github_origin (registry f)) bucket f"

text \<open>A method call through the reference: it reads the cell, or replaces it.\<close>

abbreviation config_of :: "github_funnel \<Rightarrow> breaker_config" where
  "config_of f \<equiv> reg_config (registry f)"

definition put_breaker :: "nat \<Rightarrow> breaker_inner \<Rightarrow> github_funnel \<Rightarrow> github_funnel" where
  "put_breaker a b f = f\<lparr>breaker_heap := (breaker_heap f)[a := b]\<rparr>"

definition retry_after_for :: "nat \<Rightarrow> github_credential_bucket \<Rightarrow> github_funnel \<Rightarrow> nat option \<times> github_funnel" where
  "retry_after_for now bucket f =
     (let (a, f) = breaker_for bucket f in (retry_after (config_of f) now (breaker_heap f ! a), f))"

fun option_min :: "nat list \<Rightarrow> nat option" where
  "option_min [] = None"
| "option_min (x # xs) = Some (case option_min xs of None \<Rightarrow> x | Some y \<Rightarrow> min x y)"

definition unavailable_retry_after_at :: "nat \<Rightarrow> string \<Rightarrow> github_funnel \<Rightarrow> nat option" where
  "unavailable_retry_after_at now origin f =
     option_min (List.map_filter (retry_after (config_of f) now)
       (filter (\<lambda>b. \<not> snap_rate_limited (snapshot now b))
         (map (\<lambda>(_, a). breaker_heap f ! a)
           (filter (\<lambda>(key, _). key_origin key = origin) (reg_breakers (registry f))))))"

definition unavailable_retry_after :: "nat \<Rightarrow> github_funnel \<Rightarrow> nat option" where
  "unavailable_retry_after now f = unavailable_retry_after_at now (github_origin (registry f)) f"

definition bucket_name :: "github_funnel \<Rightarrow> github_breaker_key \<Rightarrow> string" where
  "bucket_name f key =
     (if key_origin key = github_origin (registry f) then bucket_label (key_bucket key)
      else bucket_label (key_bucket key) @ ''@'' @ key_origin key)"

definition registry_snapshot :: "nat \<Rightarrow> github_funnel \<Rightarrow> (string \<times> breaker_snapshot) list" where
  "registry_snapshot now f =
     sort_key fst (map (\<lambda>(key, a). (bucket_name f key, snapshot now (breaker_heap f ! a))) (reg_breakers (registry f)))"

section \<open>One call\<close>

text \<open>The clock readings of one call: the monotonic clock where \<^verbatim>\<open>acquire\<close>, \<^verbatim>\<open>record_failure\<close> and
  \<^verbatim>\<open>observe_rate_budget\<close> read it, the wall clock where the two readers of the headers do, and the
  monotonic clock where a caller asks for the wait beforehand (one reading for all the breakers it
  asks).\<close>

record readings =
  at_check :: nat
  at_acquire :: nat
  at_observe :: nat
  at_budget :: nat
  unix_observe :: nat
  unix_budget :: nat

datatype send_error =
    BreakerOpen nat
  | Transport string

definition admit_call ::
  "nat \<Rightarrow> string \<Rightarrow> github_credential_bucket \<Rightarrow> github_subsystem \<Rightarrow> github_funnel \<Rightarrow>
   (nat + nat) \<times> github_funnel" where
  "admit_call now origin bucket subsystem f =
     (let (a, f) = breaker_at origin bucket f;
          (r, b) = breaker_acquire (config_of f) now (breaker_heap f ! a);
          f = put_breaker a b f
      in case r of
           Inl wait \<Rightarrow> (Inl wait, f\<lparr>consumption := record_breaker_blocked subsystem (consumption f)\<rparr>)
         | Inr _ \<Rightarrow> (Inr a, f))"

definition settle_call ::
  "readings \<Rightarrow> github_subsystem \<Rightarrow> nat list \<Rightarrow> nat \<Rightarrow> string + response \<Rightarrow> github_funnel \<Rightarrow>
   (send_error + response) \<times> github_funnel" where
  "settle_call clk subsystem expect a outcome f =
     (let config = config_of f; b = breaker_heap f ! a
      in case outcome of
           Inl err \<Rightarrow> (Inl (Transport err), put_breaker a (snd (observe_transport_error config (at_observe clk) err b)) f)
         | Inr r \<Rightarrow>
             (let f = f\<lparr>consumption := record_request subsystem (consumption f)\<rparr>
              in if resp_status r \<in> set expect then
                   (Inr r, put_breaker a (observe_rate_budget config (at_budget clk) (unix_budget clk) (resp_headers r) b) f)
                 else case observe_status config (at_observe clk) (unix_observe clk) r b of
                   (Some (RateLimited _), b) \<Rightarrow>
                     (Inr r, put_breaker a b (f\<lparr>consumption := record_rate_limited subsystem (consumption f)\<rparr>))
                 | (_, b) \<Rightarrow>
                     (Inr r, put_breaker a (observe_rate_budget config (at_budget clk) (unix_budget clk) (resp_headers r) b) f)))"

definition send_observed_labeled_at ::
  "readings \<Rightarrow> string \<Rightarrow> github_credential_bucket \<Rightarrow> github_subsystem \<Rightarrow> nat list \<Rightarrow> string + response \<Rightarrow>
   github_funnel \<Rightarrow> (send_error + response) \<times> github_funnel" where
  "send_observed_labeled_at clk origin bucket subsystem expect outcome f =
     (case admit_call (at_acquire clk) origin bucket subsystem f of
        (Inl wait, f) \<Rightarrow> (Inl (BreakerOpen wait), f)
      | (Inr a, f) \<Rightarrow> settle_call clk subsystem expect a outcome f)"

definition send_observed_labeled ::
  "readings \<Rightarrow> github_credential_bucket \<Rightarrow> github_subsystem \<Rightarrow> string + response \<Rightarrow> github_funnel \<Rightarrow>
   (send_error + response) \<times> github_funnel" where
  "send_observed_labeled clk bucket subsystem outcome f =
     send_observed_labeled_at clk (github_origin (registry f)) bucket subsystem [] outcome f"

definition send_observed ::
  "readings \<Rightarrow> github_credential_bucket \<Rightarrow> string + response \<Rightarrow> github_funnel \<Rightarrow> (send_error + response) \<times> github_funnel" where
  "send_observed clk bucket outcome f =
     (let (a, f) = breaker_for bucket f;
          (r, b) = breaker_acquire (config_of f) (at_acquire clk) (breaker_heap f ! a);
          f = put_breaker a b f; b = breaker_heap f ! a
      in case r of
           Inl wait \<Rightarrow> (Inl (BreakerOpen wait), f)
         | Inr _ \<Rightarrow>
             (case outcome of
                Inr resp \<Rightarrow> (Inr resp, put_breaker a (snd (observe_status (config_of f) (at_observe clk) (unix_observe clk) resp b)) f)
              | Inl err \<Rightarrow> (Inl (Transport err), put_breaker a (snd (observe_transport_error (config_of f) (at_observe clk) err b)) f)))"

text \<open>\<^verbatim>\<open>GithubCredential\<close>, \<^verbatim>\<open>GithubApiError\<close> and \<^verbatim>\<open>send_github\<close>. A request is the list of its headers
  here: \<^verbatim>\<open>authorize\<close> adds one.\<close>

record github_credential =
  credential_token :: "string option"
  credential_bucket :: github_credential_bucket

definition bearer :: "string \<Rightarrow> github_credential_bucket \<Rightarrow> github_credential" where
  "bearer token bucket = \<lparr>credential_token = Some token, credential_bucket = bucket\<rparr>"

definition unauthenticated :: "github_credential_bucket \<Rightarrow> github_credential" where
  "unauthenticated bucket = \<lparr>credential_token = None, credential_bucket = bucket\<rparr>"

definition anonymous :: github_credential where "anonymous = unauthenticated Anonymous"

definition authorize :: "github_credential \<Rightarrow> headers \<Rightarrow> headers" where
  "authorize credential request =
     (case credential_token credential of
        Some token \<Rightarrow> request @ [(''authorization'', ''Bearer '' @ token)]
      | None \<Rightarrow> request)"

record github_api_error =
  err_method :: string
  err_url :: string
  err_status :: nat
  err_body :: string

definition BODY_LIMIT :: nat where "BODY_LIMIT = 1024"

definition new_api_error :: "string \<Rightarrow> string \<Rightarrow> nat \<Rightarrow> string \<Rightarrow> github_api_error" where
  "new_api_error m url status body =
     \<lparr>err_method = m, err_url = url, err_status = status, err_body = take BODY_LIMIT body\<rparr>"

text \<open>\<open>github\<close> is what answers the authorized request.\<close>

definition send_github ::
  "(headers \<Rightarrow> string + response) \<Rightarrow> readings \<Rightarrow> github_credential \<Rightarrow> github_subsystem \<Rightarrow> headers \<Rightarrow> github_funnel \<Rightarrow>
   (send_error + response) \<times> github_funnel" where
  "send_github github clk credential subsystem request f =
     (case send_observed_labeled clk (credential_bucket credential) subsystem (github (authorize credential request)) f of
        (Inl e, f) \<Rightarrow> (Inl e, f)
      | (Inr r, f) \<Rightarrow> (Inr r, f\<lparr>consumption := record_advertised_bytes subsystem r (consumption f)\<rparr>))"

definition api_error_text :: "github_api_error \<Rightarrow> string" where
  "api_error_text e = ''GitHub API '' @ err_method e @ '' '' @ err_url e @ '' failed with status '' @
     nat_to_string (err_status e) @ '': '' @ err_body e"

text \<open>The engine's JSON call. What answers sees the headers and the JSON body, whose content type the client
  adds; the parser of the answer is an argument.\<close>

datatype json_call_error =
    SendFailed send_error
  | ApiFailed github_api_error
  | NotJson string

definition send_github_json ::
  "(headers \<Rightarrow> json option \<Rightarrow> string + response \<times> string) \<Rightarrow> (string \<Rightarrow> string + json) \<Rightarrow> readings \<Rightarrow> github_credential \<Rightarrow>
   github_subsystem \<Rightarrow> string \<Rightarrow> string \<Rightarrow> json option \<Rightarrow> github_funnel \<Rightarrow> (json_call_error + json) \<times> github_funnel" where
  "send_github_json github from_str clk credential subsystem m url body f =
     (let request = [(''user-agent'', ''preloop''), (''accept'', ''application/vnd.github+json'')] @
            (if body \<noteq> None then [(''content-type'', ''application/json'')] else []);
          answer = github (authorize credential request) body
      in case send_github (\<lambda>_. map_sum id fst answer) clk credential subsystem request f of
           (Inl e, f) \<Rightarrow> (Inl (SendFailed e), f)
         | (Inr r, f) \<Rightarrow>
             (let txt = (case answer of Inr (_, txt) \<Rightarrow> txt | Inl _ \<Rightarrow> [])
              in if \<not> (200 \<le> resp_status r \<and> resp_status r < 300)
                 then (Inl (ApiFailed (new_api_error m url (resp_status r) txt)), f)
                 else case from_str txt of
                        Inr v \<Rightarrow> (Inr v, f)
                      | Inl err \<Rightarrow> (Inl (NotJson (''GitHub API '' @ m @ '' '' @ url @ '' returned a non-JSON body: '' @ err)), f)))"

section \<open>Any interleaving of calls\<close>

text \<open>The funnel with the calls in flight: the breaker each holds, the key it looked it up by, its
  subsystem and the statuses it expects. A call may be dropped between its two sections (its task was
  cancelled). As for a single breaker, every clock reading so far is at most \<open>now\<close>.\<close>

type_synonym call = "nat \<times> github_breaker_key \<times> github_subsystem \<times> nat list"

inductive funnel_reach :: "breaker_config \<Rightarrow> string \<Rightarrow> nat \<Rightarrow> github_funnel \<Rightarrow> call list \<Rightarrow> bool"
  for config :: breaker_config and home :: string where
  start: "funnel_reach config home now (new_funnel config home) []"
| tick: "funnel_reach config home now f cs \<Longrightarrow> now \<le> now' \<Longrightarrow> funnel_reach config home now' f cs"
| admit: "funnel_reach config home now f cs \<Longrightarrow> t \<le> now \<Longrightarrow> admit_call t origin bucket s f = (Inr a, f') \<Longrightarrow>
    funnel_reach config home now f' ((a, \<lparr>key_origin = origin, key_bucket = bucket\<rparr>, s, expect) # cs)"
| refuse: "funnel_reach config home now f cs \<Longrightarrow> t \<le> now \<Longrightarrow> admit_call t origin bucket s f = (Inl wait, f') \<Longrightarrow>
    funnel_reach config home now f' cs"
| settle: "funnel_reach config home now f cs \<Longrightarrow> (a, key, s, expect) \<in> set cs \<Longrightarrow>
    at_observe clk \<le> now \<Longrightarrow> at_budget clk \<le> now \<Longrightarrow>
    funnel_reach config home now (snd (settle_call clk s expect a outcome f)) (remove1 (a, key, s, expect) cs)"
| dropped: "funnel_reach config home now f cs \<Longrightarrow> funnel_reach config home now f (remove1 c cs)"
| look: "funnel_reach config home now f cs \<Longrightarrow>
    funnel_reach config home now (snd (retry_after_for t bucket f)) cs"

section \<open>The order of the unnamed buckets\<close>

text \<open>A bounded list of keys in order of use. Given only that using a present key moves it to the end
  and that using a new one appends it and keeps the last \<open>cap\<close> keys, what is kept after any sequence
  of uses is its last \<open>cap\<close> different keys, in the order of their last use.\<close>

definition last_n :: "nat \<Rightarrow> 'a list \<Rightarrow> 'a list" where
  "last_n n xs = drop (length xs - n) xs"

lemma last_n_snoc: "0 < n \<Longrightarrow> last_n n (xs @ [x]) = last_n (n - 1) xs @ [x]"
  by (cases n) (auto simp: last_n_def)

lemma length_last_n: "length (last_n n xs) = min n (length xs)"
  by (auto simp: last_n_def)

lemma set_last_n: "set (last_n n xs) \<subseteq> set xs"
  by (auto simp: last_n_def dest: in_set_dropD)

lemma remdups_snoc: "remdups (xs @ [x]) = filter (\<lambda>y. y \<noteq> x) (remdups xs) @ [x]"
  by (induction xs) auto

lemma filter_ne: "x \<notin> set xs \<Longrightarrow> filter (\<lambda>y. y \<noteq> x) xs = xs"
  by (induction xs) auto

lemma filter_ne_middle: "distinct (ys @ x # zs) \<Longrightarrow> filter (\<lambda>y. y \<noteq> x) (ys @ x # zs) = ys @ zs"
  by (simp add: filter_ne)

lemma length_filter_ne: "distinct xs \<Longrightarrow> x \<in> set xs \<Longrightarrow> Suc (length (filter (\<lambda>y. y \<noteq> x) xs)) = length xs"
  by (induction xs) (auto simp: filter_ne)

lemma set_drop_distinct:
  assumes "distinct xs"
  shows "set (drop i xs) = set xs - set (take i xs)"
proof -
  have "set xs = set (take i xs) \<union> set (drop i xs)" by (metis append_take_drop_id set_append)
  moreover have "set (take i xs) \<inter> set (drop i xs) = {}"
    by (rule set_take_disj_set_drop_if_distinct [OF assms]) simp
  ultimately show ?thesis by blast
qed

lemma last_n_filter_out:
  assumes "distinct xs" and "x \<notin> set (last_n n xs)"
  shows "last_n (n - 1) (filter (\<lambda>y. y \<noteq> x) xs) = last_n (n - 1) xs"
proof (cases "x \<in> set xs")
  case True
  then obtain ys zs where xs: "xs = ys @ x # zs" by (auto simp: in_set_conv_decomp)
  have f: "filter (\<lambda>y. y \<noteq> x) xs = ys @ zs" using assms(1) filter_ne_middle xs by metis
  have "n \<le> length zs"
  proof (rule ccontr)
    assume "\<not> n \<le> length zs"
    then have "length xs - n \<le> length ys" using xs by simp
    then have "x \<in> set (last_n n xs)" unfolding last_n_def xs by simp
    with assms(2) show False by simp
  qed
  then have "Suc (length zs) - (n - 1) = Suc (length zs - (n - 1))" by simp
  then show ?thesis unfolding f unfolding xs by (simp add: last_n_def)
qed (simp add: filter_ne)

lemma last_n_filter_in:
  assumes "distinct xs" and "x \<in> set (last_n n xs)"
  shows "last_n (n - 1) (filter (\<lambda>y. y \<noteq> x) xs) = filter (\<lambda>y. y \<noteq> x) (last_n n xs)"
proof -
  define ys q where "ys = take (length xs - n) xs" and "q = last_n n xs"
  have xs: "xs = ys @ q" by (simp add: ys_def q_def last_n_def)
  obtain q1 q2 where q: "q = q1 @ x # q2" using assms(2) q_def by (auto simp: in_set_conv_decomp)
  have f: "filter (\<lambda>y. y \<noteq> x) xs = ys @ q1 @ q2" "filter (\<lambda>y. y \<noteq> x) q = q1 @ q2"
    using assms(1) by (auto simp: xs q filter_ne)
  have "length ys = length xs - n" "length q = min n (length xs)"
    by (simp_all add: ys_def q_def last_n_def)
  then have "length (ys @ q1 @ q2) - (n - 1) = length ys" using xs q by auto
  then show ?thesis unfolding f q_def [symmetric] by (simp add: last_n_def)
qed

locale lru_index =
  fixes cap :: nat and valid :: "'k \<Rightarrow> bool" and access :: "'k \<Rightarrow> 'k list \<Rightarrow> 'k list"
  assumes cap_pos: "0 < cap"
    and hit: "valid k \<Longrightarrow> distinct q \<Longrightarrow> k \<in> set q \<Longrightarrow> access k q = filter (\<lambda>x. x \<noteq> k) q @ [k]"
    and miss: "valid k \<Longrightarrow> distinct q \<Longrightarrow> k \<notin> set q \<Longrightarrow> access k q = last_n cap (q @ [k])"
begin

lemma access_lru:
  assumes "valid k"
  shows "access k (last_n cap (remdups ks)) = last_n cap (remdups (ks @ [k]))"
proof -
  have dq: "distinct (last_n cap (remdups ks))" by (simp add: last_n_def)
  show ?thesis
  proof (cases "k \<in> set (last_n cap (remdups ks))")
    case True
    then show ?thesis using hit [OF assms dq] last_n_filter_in [of "remdups ks" k cap]
      by (simp add: remdups_snoc last_n_snoc cap_pos)
  next
    case False
    have "last_n (cap - 1) (last_n cap (remdups ks)) = last_n (cap - 1) (remdups ks)"
      by (cases "cap \<le> length (remdups ks)") (auto simp: last_n_def)
    then show ?thesis using miss [OF assms dq False] last_n_filter_out [OF distinct_remdups False]
      by (simp add: remdups_snoc last_n_snoc cap_pos)
  qed
qed

lemma fold_access: "list_all valid ks \<Longrightarrow> fold access ks [] = last_n cap (remdups ks)"
proof (induction ks rule: rev_induct)
  case (snoc k ks)
  then show ?case by (simp add: access_lru)
qed (simp add: last_n_def)

end

lemma touch_unnamed_distinct:
  assumes "distinct q"
  shows "touch_unnamed k q = (if is_unnamed k \<and> k \<in> set q then filter (\<lambda>x. x \<noteq> k) q @ [k] else q)"
proof (cases "is_unnamed k \<and> k \<in> set q")
  case True
  then obtain i where i: "position (\<lambda>c. c = k) q = Some i"
    using position_complete [of k q "\<lambda>c. c = k"] by blast
  then have n: "i < length q" "q ! i = k" using position_Some [OF i] by simp_all
  then have q: "q = take i q @ k # drop (Suc i) q" using id_take_nth_drop [OF n(1)] by simp
  then have "filter (\<lambda>x. x \<noteq> k) q = take i q @ drop (Suc i) q"
    using filter_ne_middle [of "take i q" k "drop (Suc i) q"] assms by metis
  then show ?thesis using True i n by (simp add: touch_unnamed_def)
next
  case False
  then show ?thesis using position_None [of "\<lambda>c. c = k" q] by (auto simp: touch_unnamed_def split: option.splits)
qed

lemma evict_unnamed_eq:
  "evict_unnamed m q = (let n = length q - MAX_UNNAMED_INSTALLATION_BUCKETS
     in (filter (\<lambda>(k, _). k \<notin> set (take n q)) m, drop n q))"
proof (induction m q rule: evict_unnamed.induct)
  case (2 m e q)
  show ?case
  proof (cases "MAX_UNNAMED_INSTALLATION_BUCKETS < length (e # q)")
    case True
    then have "length (e # q) - MAX_UNNAMED_INSTALLATION_BUCKETS = Suc (length q - MAX_UNNAMED_INSTALLATION_BUCKETS)"
      by simp
    then show ?thesis using "2.IH" [OF True] True
      by (auto simp: Let_def AList.delete_eq filter_filter intro!: filter_cong)
  qed simp
qed simp

definition unnamed_access :: "github_breaker_key \<Rightarrow> github_breaker_key list \<Rightarrow> github_breaker_key list" where
  "unnamed_access key q =
     (if key \<in> set q then touch_unnamed key q else snd (evict_unnamed [] (touch_unnamed key q @ [key])))"

interpretation unnamed: lru_index MAX_UNNAMED_INSTALLATION_BUCKETS is_unnamed unnamed_access
proof (unfold_locales, goal_cases)
  case 1
  then show ?case by (simp add: MAX_UNNAMED_INSTALLATION_BUCKETS_def)
next
  case (2 k q)
  then show ?case by (simp add: unnamed_access_def touch_unnamed_distinct)
next
  case (3 k q)
  then show ?case
    by (simp add: unnamed_access_def touch_unnamed_distinct evict_unnamed_eq last_n_def Let_def)
qed

section \<open>The invariant\<close>

text \<open>Each key has a breaker of its own, at a valid address; the unnamed keys are those in the order
  list, each once and at most 256; every breaker ever made is in a state that the breaker alone can
  reach.\<close>

definition registry_wf :: "(github_breaker_key \<times> nat) list \<Rightarrow> github_breaker_key list \<Rightarrow> nat \<Rightarrow> bool" where
  "registry_wf m q n \<longleftrightarrow>
     distinct (map fst m) \<and> distinct (map snd m) \<and> list_all (\<lambda>(_, a). a < n) m \<and>
     distinct q \<and> length q \<le> MAX_UNNAMED_INSTALLATION_BUCKETS \<and>
     set q = {k \<in> fst ` set m. is_unnamed k}"

definition funnel_wf :: "nat \<Rightarrow> github_funnel \<Rightarrow> bool" where
  "funnel_wf now f \<longleftrightarrow>
     registry_wf (reg_breakers (registry f)) (reg_unnamed (registry f)) (length (breaker_heap f)) \<and>
     list_all (breaker_reach (config_of f) now) (breaker_heap f) \<and>
     length (consumption f) = length ALL_SUBSYSTEMS"

lemma registry_wf_touch:
  assumes "registry_wf m q n"
  shows "registry_wf m (touch_unnamed k q) n"
proof -
  have "set (touch_unnamed k q) = set q" "distinct (touch_unnamed k q)" "length (touch_unnamed k q) = length q"
    using assms by (auto simp: registry_wf_def touch_unnamed_distinct length_filter_ne)
  then show ?thesis using assms by (simp add: registry_wf_def)
qed

lemma registry_wf_insert:
  assumes "registry_wf m q n" and "k \<notin> fst ` set m" and "\<not> is_unnamed k"
  shows "registry_wf (im_insert k n m) q (Suc n)"
proof -
  have "n \<notin> snd ` set m" using assms(1) by (auto simp: registry_wf_def list_all_iff)
  moreover have "{x \<in> fst ` set m. is_unnamed x} = {x \<in> insert k (fst ` set m). is_unnamed x}"
    using assms(3) by auto
  ultimately show ?thesis using assms
    by (auto simp: registry_wf_def im_insert_fresh list_all_iff less_Suc_eq)
qed

lemma registry_wf_evict:
  assumes "registry_wf m q n" and "k \<notin> fst ` set m" and "is_unnamed k"
    and "evict_unnamed (im_insert k n m) (q @ [k]) = (m', q')"
  shows "registry_wf m' q' (Suc n)"
proof -
  let ?i = "length q + 1 - MAX_UNNAMED_INSTALLATION_BUCKETS"
  have m': "m' = filter (\<lambda>(x, _). x \<notin> set (take ?i (q @ [k]))) (m @ [(k, n)])" and q': "q' = drop ?i (q @ [k])"
    using assms(2,4) by (auto simp: evict_unnamed_eq Let_def im_insert_fresh)
  have fresh: "n \<notin> snd ` set m" "k \<notin> set q" using assms(1,2) by (auto simp: registry_wf_def list_all_iff)
  have dq: "distinct (q @ [k])" using assms(1) fresh by (simp add: registry_wf_def)
  have "set q' = set (q @ [k]) - set (take ?i (q @ [k]))"
    unfolding q' by (rule set_drop_distinct [OF dq])
  also have "\<dots> = {x \<in> insert k (fst ` set m) - set (take ?i (q @ [k])). is_unnamed x}"
    using assms(1,3) by (auto simp: registry_wf_def simp del: take_append)
  also have "insert k (fst ` set m) - set (take ?i (q @ [k])) = fst ` set m'"
    unfolding m' by (force simp del: take_append)
  finally have sq: "set q' = {x \<in> fst ` set m'. is_unnamed x}" .
  have "distinct (map fst (m @ [(k, n)]))" "distinct (map snd (m @ [(k, n)]))"
    using assms(1,2) fresh by (auto simp: registry_wf_def)
  then have "distinct (map fst m')" "distinct (map snd m')"
    unfolding m' by (auto intro: distinct_map_filter)
  moreover have "list_all (\<lambda>(_, a). a < Suc n) m'"
    using assms(1) by (auto simp: m' registry_wf_def list_all_iff)
  moreover have "length q' \<le> MAX_UNNAMED_INSTALLATION_BUCKETS" "distinct q'"
    using distinct_drop [OF dq] by (simp_all add: q' del: drop_append)
  ultimately show ?thesis using sq by (simp add: registry_wf_def)
qed

lemma key_in_domain: "map_of m k = None \<longleftrightarrow> k \<notin> fst ` set m"
  by (simp add: map_of_eq_None_iff)

text \<open>What looking a breaker up does to the registry's map and order.\<close>

definition reg_access ::
  "github_breaker_key \<Rightarrow> nat \<Rightarrow> (github_breaker_key \<times> nat) list \<Rightarrow> github_breaker_key list \<Rightarrow>
   (github_breaker_key \<times> nat) list \<times> github_breaker_key list" where
  "reg_access key n m q =
     (if map_of m key \<noteq> None then (m, touch_unnamed key q)
      else if is_unnamed key then evict_unnamed (im_insert key n m) (touch_unnamed key q @ [key])
      else (im_insert key n m, touch_unnamed key q))"

lemma breaker_at_eq:
  "breaker_at origin bucket f =
     (let key = \<lparr>key_origin = origin, key_bucket = bucket\<rparr>; reg = registry f;
          known = map_of (reg_breakers reg) key; n = length (breaker_heap f);
          (m, q) = reg_access key n (reg_breakers reg) (reg_unnamed reg)
      in (unwrap_or known n,
          f\<lparr>registry := reg\<lparr>reg_breakers := m, reg_unnamed := q\<rparr>,
            breaker_heap := breaker_heap f @ (if known = None then [new_breaker] else [])\<rparr>))"
  by (simp add: breaker_at_def reg_access_def Let_def split: option.splits prod.splits)

lemma reg_access_wf:
  assumes "registry_wf m q n" and "reg_access k n m q = (m', q')"
  shows "registry_wf m' q' (if map_of m k = None then Suc n else n)"
proof (cases "map_of m k")
  case None
  note wf = registry_wf_touch [OF assms(1), of k]
  show ?thesis
  proof (cases "is_unnamed k")
    case True
    then show ?thesis using registry_wf_evict [OF wf, of k m' q'] None assms(2)
      by (simp add: reg_access_def key_in_domain)
  next
    case False
    then show ?thesis using registry_wf_insert [OF wf, of k] None assms(2)
      by (auto simp: reg_access_def key_in_domain)
  qed
next
  case (Some a)
  then show ?thesis using registry_wf_touch [OF assms(1)] assms(2) by (auto simp: reg_access_def)
qed

lemma reg_access_order:
  assumes "registry_wf m q n" and "reg_access k n m q = (m', q')"
  shows "q' = (if is_unnamed k then unnamed_access k q else q)"
proof -
  have "k \<in> set q \<longleftrightarrow> is_unnamed k \<and> map_of m k \<noteq> None" using assms(1)
    by (auto simp: registry_wf_def key_in_domain)
  then show ?thesis using assms
    by (auto simp: reg_access_def unnamed_access_def evict_unnamed_eq touch_unnamed_def Let_def)
qed

lemma map_of_filter_keys: "map_of (filter (\<lambda>(k, _). P k) m) k = (if P k then map_of m k else None)"
  by (induction m) auto

lemma evict_keeps_last:
  "fst (evict_unnamed m (q @ [k])) = filter (\<lambda>(x, _). x \<notin> set (take (length q + 1 - MAX_UNNAMED_INSTALLATION_BUCKETS) q)) m"
  by (simp add: evict_unnamed_eq Let_def MAX_UNNAMED_INSTALLATION_BUCKETS_def)

lemma reg_access_self:
  assumes "registry_wf m q n" and "reg_access k n m q = (m', q')"
  shows "map_of m' k = Some (unwrap_or (map_of m k) n)"
proof (cases "map_of m k")
  case None
  then have "k \<notin> set q" using assms(1) by (auto simp: registry_wf_def key_in_domain)
  then have t: "touch_unnamed k q = q" "k \<notin> set (take i q)" for i
    using assms(1) by (auto simp: registry_wf_def touch_unnamed_distinct dest: in_set_takeD)
  show ?thesis
  proof (cases "is_unnamed k")
    case True
    then have "m' = fst (evict_unnamed (im_insert k n m) (q @ [k]))"
      using None assms(2) t by (simp add: reg_access_def)
    then show ?thesis using None t
      by (simp add: evict_keeps_last map_of_filter_keys update_conv' del: take_append)
  qed (use None assms(2) in \<open>auto simp: reg_access_def update_conv'\<close>)
qed (use assms(2) in \<open>auto simp: reg_access_def\<close>)

lemma reg_access_other:
  assumes "registry_wf m q n" and "reg_access k n m q = (m', q')" and "x \<noteq> k"
  shows "map_of m' x = (if is_unnamed x \<and> x \<notin> set q' then None else map_of m x)"
proof -
  have wf': "registry_wf m' q' (if map_of m k = None then Suc n else n)"
    by (rule reg_access_wf [OF assms(1,2)])
  have sub: "map_of m' x = map_of m x \<or> (is_unnamed x \<and> map_of m' x = None)"
  proof (cases "map_of m k = None \<and> is_unnamed k")
    case True
    then have m': "m' = fst (evict_unnamed (im_insert k n m) (touch_unnamed k q @ [k]))"
      using assms(2) by (simp add: reg_access_def)
    have "set (take i (touch_unnamed k q)) \<subseteq> set (touch_unnamed k q)" for i by (rule set_take_subset)
    moreover have "\<forall>y \<in> set (touch_unnamed k q). is_unnamed y"
      using registry_wf_touch [OF assms(1), of k] by (auto simp: registry_wf_def)
    ultimately show ?thesis using assms(3)
      by (auto simp: m' evict_keeps_last map_of_filter_keys update_conv')
  next
    case False
    then show ?thesis using assms(2,3) by (auto simp: reg_access_def update_conv' split: if_splits)
  qed
  show ?thesis
  proof (cases "is_unnamed x \<and> x \<notin> set q'")
    case True
    then have "x \<notin> fst ` set m'" using wf' by (auto simp: registry_wf_def)
    then show ?thesis using True by (simp add: key_in_domain)
  next
    case False
    then have "is_unnamed x \<Longrightarrow> map_of m' x \<noteq> None" using wf' by (auto simp: registry_wf_def key_in_domain)
    then show ?thesis using sub False by auto
  qed
qed

abbreviation mk_key :: "string \<Rightarrow> github_credential_bucket \<Rightarrow> github_breaker_key" where
  "mk_key origin bucket \<equiv> \<lparr>key_origin = origin, key_bucket = bucket\<rparr>"

lemma mk_key_eta [simp]: "mk_key (key_origin k) (key_bucket k) = k"
  by (cases k) simp

text \<open>What looking a breaker up does to the funnel: the key has a breaker, a new one if it had none;
  every breaker there was keeps its state and its address; no other key gets one, and only unnamed
  keys may lose theirs.\<close>

lemma breaker_at_frame:
  assumes "breaker_at origin bucket f = (a, f')"
  shows "config_of f' = config_of f" "github_origin (registry f') = github_origin (registry f)"
    "consumption f' = consumption f"
    "a = unwrap_or (map_of (reg_breakers (registry f)) (mk_key origin bucket)) (length (breaker_heap f))"
    "breaker_heap f' = breaker_heap f @
       (if map_of (reg_breakers (registry f)) (mk_key origin bucket) = None then [new_breaker] else [])"
    "reg_access (mk_key origin bucket) (length (breaker_heap f)) (reg_breakers (registry f)) (reg_unnamed (registry f)) =
       (reg_breakers (registry f'), reg_unnamed (registry f'))"
  using assms by (auto simp: breaker_at_eq Let_def split: prod.splits)

lemma known_address:
  assumes "funnel_wf now f" and "map_of (reg_breakers (registry f)) k = Some a"
  shows "a < length (breaker_heap f)"
  using assms map_of_SomeD [OF assms(2)] by (auto simp: funnel_wf_def registry_wf_def list_all_iff)

lemma address_inj:
  assumes "funnel_wf now f" and "map_of (reg_breakers (registry f)) k = Some a"
    and "map_of (reg_breakers (registry f)) k' = Some a"
  shows "k = k'"
proof -
  have "(k, a) \<in> set (reg_breakers (registry f))" "(k', a) \<in> set (reg_breakers (registry f))"
    using assms(2,3) by (simp_all add: map_of_SomeD)
  moreover have "inj_on snd (set (reg_breakers (registry f)))"
    using assms(1) by (simp add: funnel_wf_def registry_wf_def distinct_map)
  ultimately show ?thesis unfolding inj_on_def by fastforce
qed

lemma breaker_at_wf:
  assumes "funnel_wf now f" and "breaker_at origin bucket f = (a, f')"
  shows "funnel_wf now f'"
    and "map_of (reg_breakers (registry f')) (mk_key origin bucket) = Some a"
    and "a < length (breaker_heap f')"
proof -
  note fr = breaker_at_frame [OF assms(2)]
  have reg: "registry_wf (reg_breakers (registry f)) (reg_unnamed (registry f)) (length (breaker_heap f))"
    using assms(1) by (simp add: funnel_wf_def)
  show wf: "funnel_wf now f'"
    using reg_access_wf [OF reg fr(6)] assms(1) fr(1,3,5)
    by (auto simp: funnel_wf_def breaker_reach.init)
  show known: "map_of (reg_breakers (registry f')) (mk_key origin bucket) = Some a"
    using reg_access_self [OF reg fr(6)] fr(4) by simp
  show "a < length (breaker_heap f')" by (rule known_address [OF wf known])
qed

lemma breaker_at_other:
  assumes "funnel_wf now f" and "breaker_at origin bucket f = (a, f')" and "k \<noteq> mk_key origin bucket"
  shows "map_of (reg_breakers (registry f')) k =
    (if is_unnamed k \<and> k \<notin> set (reg_unnamed (registry f')) then None else map_of (reg_breakers (registry f)) k)"
  using assms(1) reg_access_other [OF _ breaker_at_frame(6) [OF assms(2)] assms(3)]
  by (simp add: funnel_wf_def)

lemma breaker_at_order:
  assumes "funnel_wf now f" and "breaker_at origin bucket f = (a, f')"
  shows "reg_unnamed (registry f') =
    (if is_installation_token bucket then unnamed_access (mk_key origin bucket) (reg_unnamed (registry f))
     else reg_unnamed (registry f))"
  using assms(1) reg_access_order [OF _ breaker_at_frame(6) [OF assms(2)]] by (simp add: funnel_wf_def)

lemma put_breaker_simps [simp]:
  "registry (put_breaker a b f) = registry f" "consumption (put_breaker a b f) = consumption f"
  "breaker_heap (put_breaker a b f) = (breaker_heap f)[a := b]"
  by (simp_all add: put_breaker_def)

lemma put_breaker_wf:
  assumes "funnel_wf now f" and "breaker_reach (config_of f) now b"
  shows "funnel_wf now (put_breaker a b f)"
proof -
  have "list_all (breaker_reach (config_of f) now) ((breaker_heap f)[a := b])"
    using assms set_update_subset_insert [of "breaker_heap f" a b]
    by (auto simp: funnel_wf_def list_all_iff)
  then show ?thesis using assms(1) by (simp add: funnel_wf_def)
qed

lemma heap_reach: "funnel_wf now f \<Longrightarrow> a < length (breaker_heap f) \<Longrightarrow> breaker_reach (config_of f) now (breaker_heap f ! a)"
  by (simp add: funnel_wf_def list_all_length)

lemma breaker_reach_step:
  "breaker_reach config now b \<Longrightarrow> t \<le> now \<Longrightarrow> breaker_step config t b b' \<Longrightarrow> breaker_reach config now b'"
  by (rule breaker_reach.step [of config now b now t]) simp_all

lemma observe_status_step: "breaker_step config t b (snd (observe_status config t unix_now r b))"
  by (auto simp: observe_status_def intro: breaker_step.intros split: option.split)

lemma upd_counters_length [simp]: "length (upd_counters g s c) = length c"
  by (simp add: upd_counters_def split: option.split)

lemma consumption_wf: "funnel_wf now f \<Longrightarrow> length c = length (consumption f) \<Longrightarrow> funnel_wf now (f\<lparr>consumption := c\<rparr>)"
  by (simp add: funnel_wf_def)

lemmas record_lengths = record_request_def record_rate_limited_def record_breaker_blocked_def record_bytes_def
  record_cross_host_bytes_def

text \<open>The three ways a call is settled.\<close>

lemma settle_call_cases:
  obtains (transport) err where "outcome = Inl err"
      "settle_call clk s expect a outcome f =
        (Inl (Transport err), put_breaker a (record_failure (config_of f) (at_observe clk) Unavailable err (breaker_heap f ! a)) f)"
  | (expected) r where "outcome = Inr r" "resp_status r \<in> set expect"
      "settle_call clk s expect a outcome f =
        (Inr r, put_breaker a (observe_rate_budget (config_of f) (at_budget clk) (unix_budget clk) (resp_headers r) (breaker_heap f ! a))
           (f\<lparr>consumption := record_request s (consumption f)\<rparr>))"
  | (limited) r w where "outcome = Inr r" "resp_status r \<notin> set expect"
      "classify_status (unix_observe clk) (resp_status r) (resp_headers r) = Some (RateLimited w)"
      "settle_call clk s expect a outcome f =
        (Inr r, put_breaker a (record_failure (config_of f) (at_observe clk) (RateLimited w)
                   (''GitHub responded '' @ resp_status_text r) (breaker_heap f ! a))
           (f\<lparr>consumption := record_rate_limited s (record_request s (consumption f))\<rparr>))"
  | (answered) r where "outcome = Inr r" "resp_status r \<notin> set expect"
      "classify_status (unix_observe clk) (resp_status r) (resp_headers r) \<in> {None, Some Unavailable}"
      "settle_call clk s expect a outcome f =
        (Inr r, put_breaker a (observe_rate_budget (config_of f) (at_budget clk) (unix_budget clk) (resp_headers r)
                   (snd (observe_status (config_of f) (at_observe clk) (unix_observe clk) r (breaker_heap f ! a))))
           (f\<lparr>consumption := record_request s (consumption f)\<rparr>))"
proof (cases outcome)
  case (Inl err)
  then show thesis by (intro transport [of err]) (simp_all add: settle_call_def observe_transport_error_def)
next
  case (Inr r)
  show thesis
  proof (cases "resp_status r \<in> set expect")
    case True
    with Inr show thesis by (intro expected [of r]) (simp_all add: settle_call_def)
  next
    case False
    consider w where "classify_status (unix_observe clk) (resp_status r) (resp_headers r) = Some (RateLimited w)"
      | "classify_status (unix_observe clk) (resp_status r) (resp_headers r) \<in> {None, Some Unavailable}"
      by (metis github_failure_kind.exhaust insertCI not_None_eq)
    then show thesis
    proof cases
      case 1
      with Inr False show thesis by (intro limited [of r w]) (simp_all add: settle_call_def observe_status_def)
    next
      case 2
      with Inr False show thesis by (intro answered [of r]) (auto simp: settle_call_def observe_status_def Let_def)
    qed
  qed
qed

lemma settle_call_wf:
  assumes "funnel_wf now f" and "a < length (breaker_heap f)" and "at_observe clk \<le> now" and "at_budget clk \<le> now"
  shows "funnel_wf now (snd (settle_call clk s expect a outcome f))"
proof -
  note r0 = heap_reach [OF assms(1,2)]
  note fails = breaker_reach_step [OF r0 assms(3) breaker_step.fails]
  have c: "funnel_wf now (f\<lparr>consumption := c\<rparr>)" if "length c = length (consumption f)" for c
    using consumption_wf [OF assms(1) that] .
  show ?thesis
  proof (cases rule: settle_call_cases [of outcome clk s expect a f])
    case (transport err)
    then show ?thesis using put_breaker_wf [OF assms(1) fails] by simp
  next
    case (expected r)
    have "breaker_reach (config_of f) now (observe_rate_budget (config_of f) (at_budget clk) (unix_budget clk) (resp_headers r) (breaker_heap f ! a))"
      by (rule breaker_reach_step [OF r0 assms(4) breaker_step.budget])
    then show ?thesis using expected c put_breaker_wf by (simp add: record_lengths)
  next
    case (limited r w)
    then show ?thesis using c put_breaker_wf fails by (simp add: record_lengths)
  next
    case (answered r)
    have "breaker_reach (config_of f) now (observe_rate_budget (config_of f) (at_budget clk) (unix_budget clk) (resp_headers r)
        (snd (observe_status (config_of f) (at_observe clk) (unix_observe clk) r (breaker_heap f ! a))))"
      by (rule breaker_reach_step [OF breaker_reach_step [OF r0 assms(3) observe_status_step] assms(4) breaker_step.budget])
    then show ?thesis using answered c put_breaker_wf by (simp add: record_lengths)
  qed
qed

lemma settle_call_frame:
  "registry (snd (settle_call clk s expect a outcome f)) = registry f"
  "length (breaker_heap (snd (settle_call clk s expect a outcome f))) = length (breaker_heap f)"
  "i \<noteq> a \<Longrightarrow> breaker_heap (snd (settle_call clk s expect a outcome f)) ! i = breaker_heap f ! i"
  by (cases rule: settle_call_cases [of outcome clk s expect a f]; simp)+

lemma admit_call_eq:
  assumes "breaker_at origin bucket f = (a, g)"
  shows "admit_call t origin bucket s f =
    (let (r, b) = breaker_acquire (config_of g) t (breaker_heap g ! a)
     in case r of
          Inl wait \<Rightarrow> (Inl wait, put_breaker a b (g\<lparr>consumption := record_breaker_blocked s (consumption g)\<rparr>))
        | Inr _ \<Rightarrow> (Inr a, put_breaker a b g))"
  using assms by (simp add: admit_call_def put_breaker_def Let_def split: prod.splits sum.splits)

lemma admit_call_wf:
  assumes "funnel_wf now f" and "t \<le> now" and "admit_call t origin bucket s f = (r, f')"
  shows "funnel_wf now f'"
proof -
  obtain a g where ag: "breaker_at origin bucket f = (a, g)" by fastforce
  note g = breaker_at_wf [OF assms(1) ag]
  have "breaker_reach (config_of g) now (snd (breaker_acquire (config_of g) t (breaker_heap g ! a)))"
    by (rule breaker_reach_step [OF heap_reach [OF g(1,3)] assms(2) breaker_step.acquires])
  then show ?thesis using assms(3) put_breaker_wf g(1) consumption_wf [OF g(1)]
    by (auto simp: admit_call_eq [OF ag] record_lengths split: prod.splits sum.splits)
qed

lemma breaker_reach_mono: "breaker_reach config now b \<Longrightarrow> now \<le> now' \<Longrightarrow> breaker_reach config now' b"
proof (induction arbitrary: now' rule: breaker_reach.induct)
  case (init now)
  show ?case by (rule breaker_reach.init)
next
  case (step now b t' t b')
  then show ?case using breaker_reach.step [of config now b now' t b'] by simp
qed

lemma funnel_wf_mono: "funnel_wf now f \<Longrightarrow> now \<le> now' \<Longrightarrow> funnel_wf now' f"
  by (auto simp: funnel_wf_def list_all_iff intro: breaker_reach_mono)

lemma new_funnel_wf: "funnel_wf now (new_funnel config home)"
  by (simp add: funnel_wf_def registry_wf_def new_funnel_def for_origin_def new_consumption_def)

text \<open>A call in flight holds a breaker that no key but its own names.\<close>

definition call_ok :: "github_funnel \<Rightarrow> call \<Rightarrow> bool" where
  "call_ok f c = (case c of (a, key, _, _) \<Rightarrow> a < length (breaker_heap f) \<and>
     list_all (\<lambda>(k, a'). a' = a \<longrightarrow> k = key) (reg_breakers (registry f)))"

lemma call_ok_iff:
  assumes "funnel_wf now f"
  shows "call_ok f (a, key, s, e) \<longleftrightarrow>
    a < length (breaker_heap f) \<and> (\<forall>k. map_of (reg_breakers (registry f)) k = Some a \<longrightarrow> k = key)"
  using assms by (auto simp: call_ok_def list_all_iff funnel_wf_def registry_wf_def)

lemma breaker_at_call_ok:
  assumes "funnel_wf now f" and "breaker_at origin bucket f = (a, g)" and "call_ok f c"
  shows "call_ok g c"
proof -
  obtain a' key s e where c: "c = (a', key, s, e)" by (cases c)
  note wf = breaker_at_wf [OF assms(1,2)] and fr = breaker_at_frame [OF assms(2)]
  have lt: "a' < length (breaker_heap f)" and own: "\<And>k. map_of (reg_breakers (registry f)) k = Some a' \<Longrightarrow> k = key"
    using assms(1,3) call_ok_iff c by auto
  have "k = key" if k: "map_of (reg_breakers (registry g)) k = Some a'" for k
  proof (cases "k = mk_key origin bucket")
    case True
    then have "a = a'" using k wf(2) by simp
    then have "map_of (reg_breakers (registry f)) k = Some a'"
      using fr(4) lt True by (cases "map_of (reg_breakers (registry f)) k") auto
    then show ?thesis by (rule own)
  next
    case False
    then show ?thesis using k own breaker_at_other [OF assms(1,2) False] by (simp split: if_splits)
  qed
  then show ?thesis using lt fr(5) call_ok_iff [OF wf(1)] by (simp add: c)
qed

lemma admit_call_registry:
  assumes "breaker_at origin bucket f = (a, g)" and "admit_call t origin bucket s f = (r, f')"
  shows "registry f' = registry g" "length (breaker_heap f') = length (breaker_heap g)"
    "i \<noteq> a \<Longrightarrow> breaker_heap f' ! i = breaker_heap g ! i" "r = Inr a' \<Longrightarrow> a' = a"
  using assms(2) by (auto simp: admit_call_eq [OF assms(1)] split: prod.splits sum.splits)

lemma call_ok_registry: "registry f' = registry f \<Longrightarrow> length (breaker_heap f') = length (breaker_heap f) \<Longrightarrow> call_ok f' = call_ok f"
  by (simp add: call_ok_def fun_eq_iff)

definition funnel_ok :: "breaker_config \<Rightarrow> string \<Rightarrow> nat \<Rightarrow> github_funnel \<Rightarrow> call list \<Rightarrow> bool" where
  "funnel_ok config home now f cs \<longleftrightarrow>
     funnel_wf now f \<and> config_of f = config \<and> github_origin (registry f) = home \<and> list_all (call_ok f) cs"

lemma admit_call_ok:
  assumes "funnel_ok config home now f cs" and "t \<le> now" and "admit_call t origin bucket s f = (r, f')"
  shows "funnel_ok config home now f' cs" "r = Inr a \<Longrightarrow> call_ok f' (a, mk_key origin bucket, s, expect)"
proof -
  have wf: "funnel_wf now f" using assms(1) by (simp add: funnel_ok_def)
  obtain a0 g where ag: "breaker_at origin bucket f = (a0, g)" by fastforce
  note g = breaker_at_wf [OF wf ag] and fr = breaker_at_frame [OF ag] and reg = admit_call_registry [OF ag assms(3)]
  have "list_all (call_ok g) cs" using assms(1) breaker_at_call_ok [OF wf ag] by (auto simp: funnel_ok_def list_all_iff)
  then show "funnel_ok config home now f' cs"
    using assms(1) admit_call_wf [OF wf assms(2,3)] call_ok_registry [OF reg(1,2)] reg(1) fr(1,2)
    by (simp add: funnel_ok_def)
  show "call_ok f' (a, mk_key origin bucket, s, expect)" if "r = Inr a"
  proof -
    have "a = a0" using reg(4) [OF that] .
    moreover have "call_ok g (a0, mk_key origin bucket, s, expect)"
      unfolding call_ok_iff [OF g(1)] using g(3) address_inj [OF g(1) _ g(2)] by blast
    ultimately show ?thesis unfolding call_ok_registry [OF reg(1,2)] by simp
  qed
qed

lemma settle_call_ok:
  assumes "funnel_ok config home now f cs" and "(a, key, s, e) \<in> set cs" and "at_observe clk \<le> now" and "at_budget clk \<le> now"
  shows "funnel_ok config home now (snd (settle_call clk s e a outcome f)) cs"
proof -
  have "a < length (breaker_heap f)" using assms(1,2) by (auto simp: funnel_ok_def list_all_iff call_ok_def)
  moreover have "call_ok (snd (settle_call clk s e a outcome f)) = call_ok f"
    by (rule call_ok_registry [OF settle_call_frame(1,2)])
  ultimately show ?thesis
    using assms(1) settle_call_wf [of now f a clk s e outcome] settle_call_frame(1) [of clk s e a outcome f] assms(3,4)
    by (simp add: funnel_ok_def)
qed

lemma funnel_reach_ok: "funnel_reach config home now f cs \<Longrightarrow> funnel_ok config home now f cs"
proof (induction rule: funnel_reach.induct)
  case (start now)
  then show ?case using new_funnel_wf by (simp add: funnel_ok_def new_funnel_def for_origin_def)
next
  case (tick now f cs now')
  then show ?case by (auto simp: funnel_ok_def intro: funnel_wf_mono)
next
  case (admit now f cs t origin bucket s a f' expect)
  show ?case using admit_call_ok [OF admit.IH admit.hyps(2,3)] by (simp add: funnel_ok_def)
next
  case (refuse now f cs t origin bucket s wait f')
  show ?case by (rule admit_call_ok(1) [OF refuse.IH refuse.hyps(2,3)])
next
  case (settle now f cs a key s expect clk outcome)
  have "funnel_ok config home now (snd (settle_call clk s expect a outcome f)) cs"
    by (rule settle_call_ok [OF settle.IH settle.hyps(2,3,4)])
  then show ?case by (auto simp: funnel_ok_def list_all_iff dest: notin_set_remove1)
next
  case (dropped now f cs c)
  then show ?case by (auto simp: funnel_ok_def list_all_iff dest: notin_set_remove1)
next
  case (look now f cs t bucket)
  obtain a g where ag: "breaker_at home bucket f = (a, g)" by fastforce
  have wf: "funnel_wf now f" and home: "github_origin (registry f) = home" using look.IH by (simp_all add: funnel_ok_def)
  have "snd (retry_after_for t bucket f) = g" using ag home by (simp add: retry_after_for_def breaker_for_def)
  then show ?case using look.IH breaker_at_wf(1) [OF wf ag] breaker_at_frame(1,2) [OF ag] breaker_at_call_ok [OF wf ag]
    by (auto simp: funnel_ok_def list_all_iff)
qed

section \<open>Properties\<close>

lemma send_eq:
  assumes "breaker_at origin bucket f = (a, g)"
  shows "send_observed_labeled_at clk origin bucket s expect outcome f =
    (let (r, b) = breaker_acquire (config_of g) (at_acquire clk) (breaker_heap g ! a)
     in case r of
          Inl wait \<Rightarrow> (Inl (BreakerOpen wait), put_breaker a b (g\<lparr>consumption := record_breaker_blocked s (consumption g)\<rparr>))
        | Inr _ \<Rightarrow> settle_call clk s expect a outcome (put_breaker a b g))"
  by (simp add: send_observed_labeled_at_def admit_call_eq [OF assms] split: prod.splits sum.splits)

definition first_call :: readings where
  "first_call = \<lparr>at_check = 0, at_acquire = 0, at_observe = 0, at_budget = 0, unix_observe = 1000, unix_budget = 1000\<rparr>"

definition too_many :: response where
  "too_many = \<lparr>resp_status = 429, resp_status_text = ''429 Too Many Requests'',
     resp_headers = [(''retry-after'', ''120'')]\<rparr>"

definition throttled_at :: "string \<Rightarrow> github_credential_bucket \<Rightarrow> github_funnel" where
  "throttled_at origin bucket = snd (send_observed_labeled_at first_call origin bucket CheckRuns []
     (Inr too_many) (new_funnel default_config ''api.github.com''))"

abbreviation throttled_funnel :: github_funnel where
  "throttled_funnel \<equiv> throttled_at ''api.github.com'' (Installation 7)"

text \<open>C29. No key is refused for ever: whatever calls were made, answered, refused, interleaved or
  abandoned, for whatever buckets and origins, an hour after the last of them (or the longest window,
  or the probe timeout, if longer) a call on any key is sent, and returns what the network
  returned.\<close>

theorem funnel_never_stuck:
  assumes "funnel_reach config home now f cs"
    and "now + max (window_bound config) (probe_timeout config) \<le> at_acquire clk"
  shows "fst (send_observed_labeled_at clk origin bucket s expect outcome f) =
    (case outcome of Inl err \<Rightarrow> Inl (Transport err) | Inr r \<Rightarrow> Inr r)"
proof -
  have ok: "funnel_wf now f" "config_of f = config" using funnel_reach_ok [OF assms(1)] by (simp_all add: funnel_ok_def)
  obtain a g where ag: "breaker_at origin bucket f = (a, g)" by fastforce
  note g = breaker_at_wf [OF ok(1) ag]
  have config: "config_of g = config" using breaker_at_frame(1) [OF ag] ok(2) by simp
  have "breaker_timed config now (breaker_heap g ! a)"
    using breaker_reach_timed heap_reach [OF g(1,3)] config by simp
  then have "fst (breaker_acquire config (at_acquire clk) (breaker_heap g ! a)) = Inr ()"
    using assms(2) by (auto simp: breaker_timed_def acquire_Inr probe_live_def split: option.splits)
  then obtain b where "breaker_acquire config (at_acquire clk) (breaker_heap g ! a) = (Inr (), b)"
    by (metis prod.collapse)
  then have "send_observed_labeled_at clk origin bucket s expect outcome f = settle_call clk s expect a outcome (put_breaker a b g)"
    by (simp add: send_eq [OF ag] config)
  then show ?thesis
    by (cases rule: settle_call_cases [of outcome clk s expect a "put_breaker a b g"]) simp_all
qed

lemma breaker_at_new:
  "\<not> is_installation_token bucket \<Longrightarrow> breaker_at origin bucket (new_funnel config home) =
  (0, (new_funnel config home)\<lparr>registry := (for_origin config home)\<lparr>reg_breakers := [(mk_key origin bucket, 0)]\<rparr>,
     breaker_heap := [new_breaker]\<rparr>)"
  by (simp add: breaker_at_def new_funnel_def for_origin_def touch_unnamed_def Let_def)

lemma admit_new:
  "\<not> is_installation_token bucket \<Longrightarrow> admit_call 0 origin bucket CheckRuns (new_funnel default_config home) =
  (Inr 0, snd (breaker_at origin bucket (new_funnel default_config home)))"
  by (simp add: admit_call_eq [OF breaker_at_new] breaker_at_new put_breaker_def breaker_acquire_def remaining_open_def new_breaker_def)

lemma throttled_settled:
  "\<not> is_installation_token bucket \<Longrightarrow> throttled_at origin bucket = snd (settle_call first_call CheckRuns [] 0 (Inr too_many)
     (snd (breaker_at origin bucket (new_funnel default_config ''api.github.com''))))"
  by (simp add: throttled_at_def send_observed_labeled_at_def first_call_def admit_new)

lemma throttled_at_reach:
  assumes "\<not> is_installation_token bucket"
  shows "funnel_reach default_config ''api.github.com'' 0 (throttled_at origin bucket) []"
proof -
  let ?f = "new_funnel default_config ''api.github.com''"
  have "funnel_reach default_config ''api.github.com'' 0 (snd (breaker_at origin bucket ?f))
      [(0, mk_key origin bucket, CheckRuns, [])]"
    by (rule funnel_reach.admit [OF funnel_reach.start _ admit_new [OF assms]]) simp
  from funnel_reach.settle [OF this, of 0 "mk_key origin bucket" CheckRuns "[]" first_call "Inr too_many"]
  show ?thesis unfolding throttled_settled [OF assms] by (simp add: first_call_def)
qed

lemmas throttled_funnel_reach = throttled_at_reach [of "Installation 7" "''api.github.com''", simplified]
lemmas throttled_funnel_settled = throttled_settled [of "Installation 7" "''api.github.com''", simplified]

lemma too_many_kind:
  "classify_status (unix_observe first_call) (resp_status too_many) (resp_headers too_many) = Some (RateLimited (Some (secs 120)))"
  by (simp add: first_call_def too_many_def classify_status_def retry_after_from_headers_def header_str_def
      parse_unsigned_def parse_digits_def digits_value_def visible_ascii_def rust_simps)

theorem funnel_never_stuck_witness:
  "fst (send_observed_labeled_at (first_call\<lparr>at_acquire := secs 3600\<rparr>) ''api.github.com'' (Installation 7) CheckRuns []
     (Inr too_many) throttled_funnel) = Inr too_many"
  using funnel_never_stuck [OF throttled_funnel_reach, of "first_call\<lparr>at_acquire := secs 3600\<rparr>" "''api.github.com''"
      "Installation 7" CheckRuns "[]" "Inr too_many"]
  by (simp add: window_bound_def default_config_def secs_def)

text \<open>What a key's next call finds: the state of its breaker, if it has one.\<close>

definition breaker_of :: "github_funnel \<Rightarrow> github_breaker_key \<Rightarrow> breaker_inner option" where
  "breaker_of f k = map_option ((!) (breaker_heap f)) (map_of (reg_breakers (registry f)) k)"

lemma breaker_at_isolated:
  assumes "funnel_wf now f" and "breaker_at origin bucket f = (a, g)" and "k \<noteq> mk_key origin bucket"
  shows "breaker_of g k =
    (if is_unnamed k \<and> k \<notin> set (reg_unnamed (registry g)) then None else breaker_of f k)"
proof -
  have "breaker_heap g ! a' = breaker_heap f ! a'" if "map_of (reg_breakers (registry f)) k = Some a'" for a'
    using known_address [OF assms(1) that] breaker_at_frame(5) [OF assms(2)] by (simp add: nth_append)
  then show ?thesis using breaker_at_other [OF assms]
    by (cases "map_of (reg_breakers (registry f)) k") (auto simp: breaker_of_def)
qed

text \<open>C30. Budgets are isolated: in any interleaving, neither admitting or refusing a call nor
  settling it changes the breaker of another key, that is of another credential bucket or of the
  same bucket at another service. The one effect across keys is that the registry may forget the
  least recently used of the unnamed installation tokens when an unnamed token is admitted.\<close>

theorem funnel_isolation:
  assumes "funnel_reach config home now f cs"
  shows "(k \<noteq> \<lparr>key_origin = origin, key_bucket = bucket\<rparr> \<longrightarrow>
      breaker_of (snd (admit_call t origin bucket s f)) k =
        (if is_unnamed k \<and> k \<notin> set (reg_unnamed (registry (snd (admit_call t origin bucket s f)))) then None
         else breaker_of f k)) \<and>
    ((a, key, s, expect) \<in> set cs \<and> k \<noteq> key \<longrightarrow>
      breaker_of (snd (settle_call clk s expect a outcome f)) k = breaker_of f k)"
proof (intro conjI impI)
  have ok: "funnel_wf now f" "list_all (call_ok f) cs" using funnel_reach_ok [OF assms] by (simp_all add: funnel_ok_def)
  assume k: "k \<noteq> \<lparr>key_origin = origin, key_bucket = bucket\<rparr>"
  obtain b g where ag: "breaker_at origin bucket f = (b, g)" by fastforce
  obtain r f' where f': "admit_call t origin bucket s f = (r, f')" by fastforce
  note reg = admit_call_registry [OF ag f'] and g = breaker_at_wf [OF ok(1) ag]
  have "map_of (reg_breakers (registry g)) k \<noteq> Some b" using address_inj [OF g(1) g(2)] k by metis
  then have "breaker_of f' k = breaker_of g k"
    using reg(1,3) by (cases "map_of (reg_breakers (registry g)) k") (auto simp: breaker_of_def)
  then show "breaker_of (snd (admit_call t origin bucket s f)) k =
      (if is_unnamed k \<and> k \<notin> set (reg_unnamed (registry (snd (admit_call t origin bucket s f)))) then None
       else breaker_of f k)"
    using breaker_at_isolated [OF ok(1) ag k] f' reg(1) by simp
next
  have ok: "funnel_wf now f" "list_all (call_ok f) cs" using funnel_reach_ok [OF assms] by (simp_all add: funnel_ok_def)
  assume c: "(a, key, s, expect) \<in> set cs \<and> k \<noteq> key"
  then have "map_of (reg_breakers (registry f)) k \<noteq> Some a"
    using ok call_ok_iff [OF ok(1)] by (auto simp: list_all_iff)
  then show "breaker_of (snd (settle_call clk s expect a outcome f)) k = breaker_of f k"
    by (cases "map_of (reg_breakers (registry f)) k") (auto simp: breaker_of_def settle_call_frame)
qed

text \<open>Installation 7 throttled; installation 8 is admitted, and its new breaker is still closed.\<close>

theorem funnel_isolation_witness:
  "breaker_of (snd (admit_call 0 ''api.github.com'' (Installation 8) CheckRuns throttled_funnel))
      (mk_key ''api.github.com'' (Installation 7)) =
    breaker_of throttled_funnel (mk_key ''api.github.com'' (Installation 7)) \<and>
   breaker_of throttled_funnel (mk_key ''api.github.com'' (Installation 7)) \<noteq> None"
proof -
  have "breaker_of throttled_funnel (mk_key ''api.github.com'' (Installation 7)) \<noteq> None"
    by (simp add: breaker_of_def throttled_funnel_settled settle_call_frame breaker_at_new)
  then show ?thesis
    using funnel_isolation [OF throttled_funnel_reach, of "mk_key ''api.github.com'' (Installation 7)" "''api.github.com''" "Installation 8" 0 CheckRuns]
    by simp
qed

text \<open>Looking up a sequence of keys.\<close>

definition look_up_all :: "github_breaker_key list \<Rightarrow> github_funnel \<Rightarrow> github_funnel" where
  "look_up_all ks f = fold (\<lambda>k f. snd (breaker_at (key_origin k) (key_bucket k) f)) ks f"

lemma look_up_all_snoc:
  "look_up_all (ks @ [k]) f = snd (breaker_at (key_origin k) (key_bucket k) (look_up_all ks f))"
  by (simp add: look_up_all_def)

lemma look_up_all_wf: "funnel_wf now f \<Longrightarrow> funnel_wf now (look_up_all ks f)"
proof (induction ks rule: rev_induct)
  case (snoc k ks)
  then show ?case using breaker_at_wf(1) by (metis look_up_all_snoc prod.collapse)
qed (simp add: look_up_all_def)

lemma look_up_all_order:
  "reg_unnamed (registry (look_up_all ks (new_funnel config home))) = fold unnamed_access (filter is_unnamed ks) []"
proof (induction ks rule: rev_induct)
  case Nil
  then show ?case by (simp add: look_up_all_def new_funnel_def for_origin_def)
next
  case (snoc k ks)
  let ?f = "look_up_all ks (new_funnel config home)"
  have wf: "funnel_wf 0 ?f" by (rule look_up_all_wf [OF new_funnel_wf])
  obtain a g where ag: "breaker_at (key_origin k) (key_bucket k) ?f = (a, g)" by fastforce
  show ?case using breaker_at_order [OF wf ag] ag snoc.IH by (simp add: look_up_all_snoc)
qed

text \<open>C31. The registry is the cache its documentation promises. After any sequence of look-ups the
  unnamed tokens it keeps are the last 256 different ones that were used, least recently used first;
  a key that the server itself chose has a breaker from its first use on, and an unnamed one has a
  breaker exactly while it is among those 256.\<close>

theorem registry_is_lru:
  "reg_unnamed (registry (look_up_all ks (new_funnel config home))) =
     last_n MAX_UNNAMED_INSTALLATION_BUCKETS (remdups (filter is_unnamed ks)) \<and>
   (breaker_of (look_up_all ks (new_funnel config home)) k \<noteq> None \<longleftrightarrow>
     (if is_unnamed k then k \<in> set (last_n MAX_UNNAMED_INSTALLATION_BUCKETS (remdups (filter is_unnamed ks)))
      else k \<in> set ks))"
proof -
  let ?f = "\<lambda>ks. look_up_all ks (new_funnel config home)"
  have wf: "funnel_wf 0 (?f ks)" for ks by (rule look_up_all_wf [OF new_funnel_wf])
  have order: "reg_unnamed (registry (?f ks)) = last_n MAX_UNNAMED_INSTALLATION_BUCKETS (remdups (filter is_unnamed ks))"
    unfolding look_up_all_order by (rule unnamed.fold_access) (simp add: list_all_iff)
  have named: "breaker_of (?f ks) k \<noteq> None \<longleftrightarrow> k \<in> set ks" if "\<not> is_unnamed k" for ks
  proof (induction ks rule: rev_induct)
    case Nil
    then show ?case by (simp add: look_up_all_def breaker_of_def new_funnel_def for_origin_def)
  next
    case (snoc x ks)
    obtain a g where ag: "breaker_at (key_origin x) (key_bucket x) (?f ks) = (a, g)" by fastforce
    show ?case
    proof (cases "x = k")
      case True
      then show ?thesis using breaker_at_wf(2) [OF wf ag] ag by (simp add: look_up_all_snoc breaker_of_def)
    next
      case False
      then show ?thesis using breaker_at_isolated [OF wf ag, of k] ag snoc.IH that by (simp add: look_up_all_snoc)
    qed
  qed
  have "breaker_of (?f ks) k \<noteq> None \<longleftrightarrow> k \<in> set (reg_unnamed (registry (?f ks)))" if "is_unnamed k"
    using wf [of ks] that by (auto simp: funnel_wf_def registry_wf_def breaker_of_def key_in_domain)
  then show ?thesis using order named [of ks] by simp
qed

section \<open>Accounting, per call\<close>

lemma subsystem_index_ok: "\<exists>i < length ALL_SUBSYSTEMS. subsystem_index s = Some i \<and> ALL_SUBSYSTEMS ! i = s"
proof -
  have "s \<in> set ALL_SUBSYSTEMS" by (cases s) (simp_all add: ALL_SUBSYSTEMS_def)
  then obtain i where i: "subsystem_index s = Some i"
    using position_complete [of s ALL_SUBSYSTEMS "\<lambda>c. c = s"] by (auto simp: subsystem_index_def)
  then show ?thesis using position_Some [of "\<lambda>c. c = s" ALL_SUBSYSTEMS i] by (auto simp: subsystem_index_def)
qed

lemma counters_upd:
  assumes "length c = length ALL_SUBSYSTEMS"
  shows "counters s' (upd_counters g s c) = (if s' = s then map_option g (counters s c) else counters s' c)"
proof -
  obtain i j where i: "i < length ALL_SUBSYSTEMS" "subsystem_index s = Some i" "ALL_SUBSYSTEMS ! i = s"
    and j: "j < length ALL_SUBSYSTEMS" "subsystem_index s' = Some j" "ALL_SUBSYSTEMS ! j = s'"
    using subsystem_index_ok by meson
  show ?thesis
  proof (cases "s' = s")
    case True
    then show ?thesis using i assms by (simp add: counters_def upd_counters_def slice_get_def)
  next
    case False
    then have "j \<noteq> i" using i j by auto
    then show ?thesis using False i j assms by (simp add: counters_def upd_counters_def slice_get_def)
  qed
qed

lemma counters_Some: "length c = length ALL_SUBSYSTEMS \<Longrightarrow> \<exists>n. counters s c = Some n"
  using subsystem_index_ok [of s] by (auto simp: counters_def slice_get_def)

text \<open>Accounting is exact. A call refused by the breaker counts as blocked and as nothing else: no
  budget was spent. A call that failed to reach GitHub changes no counter. A call GitHub answered
  counts as one request, and as rate limited exactly when the caller did not expect the status and the
  response is a rate limit. No call changes another subsystem's counters.\<close>

theorem funnel_accounting:
  assumes "funnel_reach config home now f cs"
    and "send_observed_labeled_at clk origin bucket s expect outcome f = (res, f')"
    and "counters s (consumption f) = Some n"
  shows "counters s (consumption f') = Some (case res of
      Inl (BreakerOpen _) \<Rightarrow> n\<lparr>breaker_blocked := breaker_blocked n + 1\<rparr>
    | Inl (Transport _) \<Rightarrow> n
    | Inr r \<Rightarrow> n\<lparr>requests := requests n + 1,
        rate_limits := rate_limits n +
          (case classify_status (unix_observe clk) (resp_status r) (resp_headers r) of
             Some (RateLimited _) \<Rightarrow> if resp_status r \<in> set expect then 0 else 1 | _ \<Rightarrow> 0)\<rparr>)
    \<and> (s' \<noteq> s \<longrightarrow> counters s' (consumption f') = counters s' (consumption f))"
proof -
  have wf: "funnel_wf now f" using funnel_reach_ok [OF assms(1)] by (simp add: funnel_ok_def)
  then have len: "length (consumption f) = length ALL_SUBSYSTEMS" by (simp add: funnel_wf_def)
  obtain a g where ag: "breaker_at origin bucket f = (a, g)" by fastforce
  have c: "consumption g = consumption f" by (rule breaker_at_frame(3) [OF ag])
  obtain r b where rb: "breaker_acquire (config_of g) (at_acquire clk) (breaker_heap g ! a) = (r, b)" by fastforce
  show ?thesis
  proof (cases r)
    case (Inl wait)
    then show ?thesis using rb c len assms(2,3)
      by (auto simp: send_eq [OF ag] counters_upd record_breaker_blocked_def)
  next
    case (Inr u)
    then have sent: "settle_call clk s expect a outcome (put_breaker a b g) = (res, f')"
      using rb assms(2) by (simp add: send_eq [OF ag])
    have len': "length (consumption g) = length ALL_SUBSYSTEMS" using c len by simp
    show ?thesis
    proof (cases rule: settle_call_cases [of outcome clk s expect a "put_breaker a b g"])
      case (transport err)
      then show ?thesis using sent c assms(3) by auto
    next
      case (expected resp)
      then show ?thesis using sent c len' assms(3)
        by (auto simp: counters_upd record_lengths split: option.splits github_failure_kind.splits)
    next
      case (limited resp w)
      then show ?thesis using sent c len' assms(3) by (auto simp: counters_upd record_lengths)
    next
      case (answered resp)
      then show ?thesis using sent c len' assms(3) by (auto simp: counters_upd record_lengths)
    qed
  qed
qed

theorem funnel_accounting_witness:
  "counters CheckRuns (consumption throttled_funnel) =
     Some (no_counters\<lparr>requests := 1, rate_limits := 1\<rparr>) \<and>
   counters Golden (consumption throttled_funnel) = Some no_counters"
proof -
  let ?f = "new_funnel default_config ''api.github.com''"
  obtain res f' where sent: "send_observed_labeled_at first_call ''api.github.com'' (Installation 7) CheckRuns []
     (Inr too_many) ?f = (res, f')" by fastforce
  have f': "throttled_funnel = f'" by (simp add: throttled_at_def sent)
  have res: "res = Inr too_many"
    using funnel_never_stuck [OF funnel_reach.start [of default_config "''api.github.com''" 0],
        of "first_call\<lparr>at_acquire := secs 3600\<rparr>"] sent
    by (cases rule: settle_call_cases [of "Inr too_many" first_call CheckRuns "[]" 0
          "snd (breaker_at ''api.github.com'' (Installation 7) ?f)"])
       (simp_all add: send_observed_labeled_at_def first_call_def admit_new)
  have c0: "counters s (consumption ?f) = Some no_counters" for s
    using subsystem_index_ok [of s] by (auto simp: counters_def slice_get_def new_funnel_def new_consumption_def)
  show ?thesis
    using funnel_accounting [OF funnel_reach.start [of _ _ 0] sent c0, of Golden] res too_many_kind
    by (simp add: f' c0) (simp add: no_counters_def)
qed

text \<open>A rate limit trips the breaker once, whatever budget headers the response carries beside it,
  and opens it until the time GitHub named, clamped to between one second and one hour. A status the
  caller expected leaves the failure streak as it was, and does not close the breaker.\<close>

theorem response_effect:
  assumes "a < length (breaker_heap f)" and "enabled (config_of f)" and "trips (breaker_heap f ! a) < 2 ^ 64 - 1"
  shows "(classify_status (unix_observe clk) (resp_status r) (resp_headers r) = Some (RateLimited w) \<and>
      resp_status r \<notin> set expect \<longrightarrow>
      trips (breaker_heap (snd (settle_call clk s expect a (Inr r) f)) ! a) = trips (breaker_heap f ! a) + 1 \<and>
      open_until (breaker_heap (snd (settle_call clk s expect a (Inr r) f)) ! a) =
        Some (at_observe clk + clamp (secs 1) (secs 3600) (unwrap_or w (base_open (config_of f))))) \<and>
    (resp_status r \<in> set expect \<longrightarrow>
      consecutive_failures (breaker_heap (snd (settle_call clk s expect a (Inr r) f)) ! a) =
        consecutive_failures (breaker_heap f ! a) \<and>
      (open_until (breaker_heap f ! a) \<noteq> None \<longrightarrow>
        open_until (breaker_heap (snd (settle_call clk s expect a (Inr r) f)) ! a) \<noteq> None))"
proof (intro conjI impI)
  assume lim: "classify_status (unix_observe clk) (resp_status r) (resp_headers r) = Some (RateLimited w) \<and>
    resp_status r \<notin> set expect"
  then have "breaker_heap (snd (settle_call clk s expect a (Inr r) f)) ! a =
      record_failure (config_of f) (at_observe clk) (RateLimited w) (''GitHub responded '' @ resp_status_text r) (breaker_heap f ! a)"
    using assms(1) by (simp add: settle_call_def observe_status_def)
  then show "trips (breaker_heap (snd (settle_call clk s expect a (Inr r) f)) ! a) = trips (breaker_heap f ! a) + 1"
    "open_until (breaker_heap (snd (settle_call clk s expect a (Inr r) f)) ! a) =
      Some (at_observe clk + clamp (secs 1) (secs 3600) (unwrap_or w (base_open (config_of f))))"
    using assms(2,3) by (simp_all add: record_failure_def open_for_def sat_u64_def)
next
  assume "resp_status r \<in> set expect"
  then have b: "breaker_heap (snd (settle_call clk s expect a (Inr r) f)) ! a =
      observe_rate_budget (config_of f) (at_budget clk) (unix_budget clk) (resp_headers r) (breaker_heap f ! a)"
    using assms(1) by (simp add: settle_call_def)
  show "consecutive_failures (breaker_heap (snd (settle_call clk s expect a (Inr r) f)) ! a) =
      consecutive_failures (breaker_heap f ! a)"
    unfolding b by (simp add: observe_rate_budget_def open_for_def split: option.split)
  show "open_until (breaker_heap (snd (settle_call clk s expect a (Inr r) f)) ! a) \<noteq> None"
    if "open_until (breaker_heap f ! a) \<noteq> None"
    unfolding b using that by (simp add: observe_rate_budget_def open_for_def split: option.split)
qed

theorem response_effect_witness:
  "trips (breaker_heap throttled_funnel ! 0) = 1 \<and>
   open_until (breaker_heap throttled_funnel ! 0) = Some (secs 120)"
proof -
  let ?f = "snd (breaker_at ''api.github.com'' (Installation 7) (new_funnel default_config ''api.github.com''))"
  have f: "breaker_heap ?f = [new_breaker]" "config_of ?f = default_config"
    by (simp_all add: breaker_at_new for_origin_def)
  have d: "enabled default_config" "trips new_breaker = 0" "at_observe first_call = 0"
      "clamp (secs 1) (secs 3600) (secs 120) = secs 120"
    by (simp_all add: default_config_def new_breaker_def first_call_def clamp_def secs_def)
  show ?thesis unfolding throttled_funnel_settled
    using response_effect [of 0 ?f first_call too_many "Some (secs 120)" "[]" CheckRuns] too_many_kind
    by (simp add: f d [simplified])
qed

end
