(* ===== verification/Oci_Registry.thy ===== *)
theory Oci_Registry
  imports Github_Funnel
begin

text \<open>
  The anonymous OCI registry client, \<^verbatim>\<open>crates/preloop-orchestrator/src/oci.rs\<close>, and
  \<^verbatim>\<open>golden_send\<close> of \<^verbatim>\<open>lib.rs\<close>, through which its requests enter the GitHub funnel: image references,
  \<^verbatim>\<open>Bearer\<close> challenges, the token handshake, manifests and one level of OCI index.

  The network is an argument: what it answers to a request, given its URL, bearer token and byte
  offset. So are the \<^verbatim>\<open>url\<close> crate (\<open>url_parse\<close>, and \<open>with_query\<close> for a URL with query pairs appended)
  and \<^verbatim>\<open>serde_json\<close>'s parser. The clock readings of the requests of one fetch, in the order they are
  sent, are a list.

  The properties: a reference with a digest is fetched by that digest; a printed reference of a
  registry other than Docker Hub reads back as itself; challenge parameters are split outside quotes;
  a fetch with an open breaker behind it. The last one is a defect: once the breaker of a registry that
  issues its own tokens has opened, the handshake never closes it again.
\<close>

section \<open>References\<close>

fun split_once :: "char \<Rightarrow> string \<Rightarrow> (string \<times> string) option" where
  "split_once c [] = None"
| "split_once c (x # s) =
     (if x = c then Some ([], s) else map_option (\<lambda>(a, b). (x # a, b)) (split_once c s))"

definition rsplit_next :: "char \<Rightarrow> string \<Rightarrow> string" where
  "rsplit_next c s = rev (takeWhile (\<lambda>x. x \<noteq> c) (rev s))"

datatype oci_error =
    Unauthorized
  | NotFound
  | StatusError nat
  | ManifestUnreadable string
  | Message string

record oci_reference =
  ref_registry :: string
  ref_repository :: string
  ref_reference :: string

definition status_error :: "nat \<Rightarrow> oci_error" where
  "status_error status =
     (if status = 401 \<or> status = 403 then Unauthorized
      else if status = 404 then NotFound else StatusError status)"

fun oci_error_text :: "(nat \<Rightarrow> string) \<Rightarrow> oci_error \<Rightarrow> string" where
  "oci_error_text status_text Unauthorized = ''the registry refused anonymous access (HTTP 401 or 403)''"
| "oci_error_text status_text NotFound = ''the registry has no such manifest (HTTP 404)''"
| "oci_error_text status_text (StatusError status) = ''the registry returned HTTP '' @ status_text status"
| "oci_error_text status_text (ManifestUnreadable err) = ''the manifest is not JSON this client can read ('' @ err @ '')''"
| "oci_error_text status_text (Message message) = message"

definition split_tag :: "string \<Rightarrow> (string \<times> string) option" where
  "split_tag reference =
     (case split_once CHR '':'' (rsplit_next CHR ''/'' reference) of
        None \<Rightarrow> None
      | Some (_, tag) \<Rightarrow>
          if tag = [] then None else Some (take (length reference - length tag - 1) reference, tag))"

definition strip_tag :: "string \<Rightarrow> string" where
  "strip_tag reference = unwrap_or (map_option fst (split_tag reference)) reference"

definition normalize_registry :: "string \<Rightarrow> string" where
  "normalize_registry host =
     (if host = ''docker.io'' \<or> host = ''index.docker.io'' then ''registry-1.docker.io'' else host)"

definition is_registry_host :: "string \<Rightarrow> bool" where
  "is_registry_host first \<longleftrightarrow> CHR ''.'' \<in> set first \<or> CHR '':'' \<in> set first \<or> first = ''localhost''"

definition parse_reference :: "string \<Rightarrow> oci_error + oci_reference" where
  "parse_reference raw =
     (let (name, reference) =
        (case split_once CHR ''@'' raw of
           Some (name, digest) \<Rightarrow> (strip_tag name, digest)
         | None \<Rightarrow> (case split_tag raw of Some (name, tag) \<Rightarrow> (name, tag) | None \<Rightarrow> (raw, ''latest'')))
      in if name = [] \<or> reference = [] then Inl (Message (''`'' @ raw @ ''` is not a valid image reference''))
         else let (registry, repository) =
           (case split_once CHR ''/'' name of
              Some (first, rest) \<Rightarrow>
                if is_registry_host first then (normalize_registry first, rest)
                else (''registry-1.docker.io'', name)
            | None \<Rightarrow> (''registry-1.docker.io'', ''library/'' @ name))
           in Inr \<lparr>ref_registry = registry, ref_repository = repository, ref_reference = reference\<rparr>)"

definition is_digest_pinned :: "oci_reference \<Rightarrow> bool" where
  "is_digest_pinned r \<longleftrightarrow> starts_with ''sha256:'' (ref_reference r)"

definition display_reference :: "oci_reference \<Rightarrow> string" where
  "display_reference r =
     (let repository = unwrap_or
        (opt_filter (\<lambda>_. ref_registry r = ''registry-1.docker.io'') (strip_prefix ''library/'' (ref_repository r)))
        (ref_repository r)
      in ref_registry r @ ''/'' @ repository @ (if is_digest_pinned r then ''@'' else '':'') @ ref_reference r)"

definition manifest_url :: "oci_reference \<Rightarrow> string \<Rightarrow> string" where
  "manifest_url r reference =
     ''https://'' @ ref_registry r @ ''/v2/'' @ ref_repository r @ ''/manifests/'' @ reference"

definition blob_url :: "oci_reference \<Rightarrow> string \<Rightarrow> string" where
  "blob_url r digest = ''https://'' @ ref_registry r @ ''/v2/'' @ ref_repository r @ ''/blobs/'' @ digest"

section \<open>Challenges\<close>

record bearer_challenge_t =
  challenge_realm :: string
  challenge_service :: "string option"
  challenge_scope :: "string option"

definition trim_quotes :: "string \<Rightarrow> string" where
  "trim_quotes s = rev (dropWhile (\<lambda>c. c = CHR 0x22) (rev (dropWhile (\<lambda>c. c = CHR 0x22) s)))"

definition challenge_param :: "string \<Rightarrow> (string \<times> string) list" where
  "challenge_param raw =
     (case split_once CHR ''='' raw of
        Some (key, v) \<Rightarrow> [(to_lower (trim key), trim_quotes (trim v))]
      | None \<Rightarrow> [])"

fun split_params_loop :: "bool \<Rightarrow> string \<Rightarrow> string \<Rightarrow> (string \<times> string) list" where
  "split_params_loop quoted current [] = challenge_param current"
| "split_params_loop quoted current (c # raw) =
     (if c = CHR 0x22 then split_params_loop (\<not> quoted) (current @ [c]) raw
      else if c = CHR '','' \<and> \<not> quoted then challenge_param current @ split_params_loop quoted [] raw
      else split_params_loop quoted (current @ [c]) raw)"

definition split_challenge_params :: "string \<Rightarrow> (string \<times> string) list" where
  "split_challenge_params raw = split_params_loop False [] raw"

definition bearer_challenge :: "string \<Rightarrow> bearer_challenge_t option" where
  "bearer_challenge header =
     Option.bind (or_else (strip_prefix ''Bearer '' header) (strip_prefix ''bearer '' header)) (\<lambda>parameters.
       let params = split_challenge_params parameters
       in map_option (\<lambda>realm. \<lparr>challenge_realm = realm, challenge_service = map_of params ''service'',
                                challenge_scope = map_of params ''scope''\<rparr>)
            (map_of params ''realm''))"

section \<open>Requests\<close>

text \<open>A request as the network sees it, and an answer with its body.\<close>

record registry_request =
  rq_url :: string
  rq_accept :: "string option"
  rq_token :: "string option"
  rq_offset :: "nat option"

type_synonym reply = "response \<times> string"

text \<open>What is outside the source.\<close>

record outside =
  url_parse :: "string \<Rightarrow> string + parsed_url"
  with_query :: "string \<Rightarrow> (string \<times> string) list \<Rightarrow> string"
  network :: "registry_request \<Rightarrow> string + reply"
  from_json :: "string \<Rightarrow> string + json"

definition is_success :: "nat \<Rightarrow> bool" where "is_success status \<longleftrightarrow> 200 \<le> status \<and> status < 300"

text \<open>The text of \<^verbatim>\<open>BreakerOpen\<close> ends in a floating-point number of seconds; the argument \<open>secs_text\<close>
  prints it.\<close>

definition breaker_open_text :: "(nat \<Rightarrow> string) \<Rightarrow> nat \<Rightarrow> string" where
  "breaker_open_text secs_text wait = ''GitHub circuit breaker is open (retry after '' @ secs_text wait @ ''s)''"

definition golden_send ::
  "outside \<Rightarrow> readings \<Rightarrow> string \<Rightarrow> nat list \<Rightarrow> string + reply \<Rightarrow> github_funnel \<Rightarrow> (send_error + reply) \<times> github_funnel" where
  "golden_send ext clk url expect outcome f =
     (let origin = service_origin (url_parse ext) url
      in case unavailable_retry_after_at (at_check clk) origin f of
           Some wait \<Rightarrow> (Inl (BreakerOpen wait), f\<lparr>consumption := record_breaker_blocked Golden (consumption f)\<rparr>)
         | None \<Rightarrow>
             (case send_observed_labeled_at clk origin Anonymous Golden expect (map_sum id fst outcome) f of
                (Inl e, f) \<Rightarrow> (Inl e, f)
              | (Inr r, f) \<Rightarrow> (Inr (r, case outcome of Inr (_, body) \<Rightarrow> body | Inl _ \<Rightarrow> []), f)))"

text \<open>\<^verbatim>\<open>send_registry_request\<close>: with a funnel or without one.\<close>

definition send_registry_request ::
  "outside \<Rightarrow> (nat \<Rightarrow> string) \<Rightarrow> readings \<Rightarrow> registry_request \<Rightarrow> nat list \<Rightarrow> github_funnel option \<Rightarrow>
   (oci_error + reply) \<times> github_funnel option" where
  "send_registry_request ext secs_text clk request expect github =
     (let url = rq_url request
      in case github of
           None \<Rightarrow>
             (case network ext request of
                Inl err \<Rightarrow> (Inl (Message (''cannot reach '' @ url @ '': '' @ err)), None)
              | Inr r \<Rightarrow> (Inr r, None))
         | Some f \<Rightarrow>
             (case golden_send ext clk url expect (network ext request) f of
                (Inr r, f) \<Rightarrow> (Inr r, Some f)
              | (Inl (BreakerOpen wait), f) \<Rightarrow> (Inl (Message (breaker_open_text secs_text wait)), Some f)
              | (Inl (Transport err), f) \<Rightarrow> (Inl (Message (''cannot reach '' @ url @ '': '' @ err)), Some f)))"

definition account_bytes :: "response \<Rightarrow> github_funnel option \<Rightarrow> github_funnel option" where
  "account_bytes r github =
     map_option (\<lambda>f. f\<lparr>consumption := record_advertised_bytes Golden r (consumption f)\<rparr>) github"

definition token_of_body :: "json \<Rightarrow> string option" where
  "token_of_body body = Option.bind (or_else (json_get body ''token'') (json_get body ''access_token'')) as_str"

definition token_url :: "outside \<Rightarrow> bearer_challenge_t \<Rightarrow> string \<Rightarrow> string" where
  "token_url ext challenge repository =
     with_query ext (challenge_realm challenge)
       ((''scope'', unwrap_or (challenge_scope challenge) (''repository:'' @ repository @ '':pull'')) #
        (case challenge_service challenge of Some s \<Rightarrow> [(''service'', s)] | None \<Rightarrow> []))"

definition request_bearer_token ::
  "outside \<Rightarrow> (nat \<Rightarrow> string) \<Rightarrow> readings \<Rightarrow> bearer_challenge_t \<Rightarrow> string \<Rightarrow> github_funnel option \<Rightarrow>
   (oci_error + string option) \<times> github_funnel option" where
  "request_bearer_token ext secs_text clk challenge repository github =
     (let realm = challenge_realm challenge
      in case url_parse ext realm of
           Inl err \<Rightarrow> (Inl (Message (''registry token realm `'' @ realm @ ''`: '' @ err)), github)
         | Inr parsed \<Rightarrow>
             if url_scheme parsed \<noteq> ''https'' then
               (Inl (Message (''registry token realm `'' @ realm @
                  ''` is not https; refusing to request a token over plain HTTP'')), github)
             else
               (let url = token_url ext challenge repository
                in case send_registry_request ext secs_text clk
                          \<lparr>rq_url = url, rq_accept = None, rq_token = None, rq_offset = None\<rparr> [] github of
                     (Inl (Message message), github) \<Rightarrow>
                       (Inl (Message (''requesting a registry token: '' @ message)), github)
                   | (Inl e, github) \<Rightarrow> (Inl e, github)
                   | (Inr (r, body), github) \<Rightarrow>
                       if \<not> is_success (resp_status r) then (Inr None, github)
                       else (case from_json ext body of
                               Inl err \<Rightarrow> (Inl (Message (''reading the registry token: '' @ err)), account_bytes r github)
                             | Inr v \<Rightarrow> (Inr (token_of_body v), account_bytes r github))))"

text \<open>The requests of one \<^verbatim>\<open>registry_get\<close> read the clock in turn: the first request, the token request, the
  request with the token.\<close>

definition registry_get ::
  "outside \<Rightarrow> (nat \<Rightarrow> string) \<Rightarrow> readings \<times> readings \<times> readings \<Rightarrow> string \<Rightarrow> string \<Rightarrow> string \<Rightarrow> string option \<Rightarrow>
   nat option \<Rightarrow> github_funnel option \<Rightarrow> (oci_error + reply) \<times> github_funnel option" where
  "registry_get ext secs_text clks url repository accept token resume_from github =
     (let (clk1, clk2, clk3) = clks;
          send = (\<lambda>clk token. send_registry_request ext secs_text clk
            \<lparr>rq_url = url, rq_accept = Some accept, rq_token = token, rq_offset = resume_from\<rparr>
            (if token = None then [401] else []))
      in case send clk1 token github of
           (Inl e, github) \<Rightarrow> (Inl e, github)
         | (Inr (r, body), github) \<Rightarrow>
             if is_success (resp_status r) then (Inr (r, body), github)
             else if resp_status r = 401 \<and> token = None then
               (case Option.bind (header_str (resp_headers r) ''www-authenticate'') bearer_challenge of
                  None \<Rightarrow> (Inl Unauthorized, github)
                | Some challenge \<Rightarrow>
                    (case request_bearer_token ext secs_text clk2 challenge repository github of
                       (Inl e, github) \<Rightarrow> (Inl e, github)
                     | (Inr None, github) \<Rightarrow> (Inl Unauthorized, github)
                     | (Inr (Some token), github) \<Rightarrow>
                         (case send clk3 (Some token) github of
                            (Inl e, github) \<Rightarrow> (Inl e, github)
                          | (Inr (r, body), github) \<Rightarrow>
                              if is_success (resp_status r) then (Inr (r, body), github)
                              else (Inl (status_error (resp_status r)), github))))
             else (Inl (status_error (resp_status r)), github))"

section \<open>Manifests\<close>

definition fetch_json ::
  "outside \<Rightarrow> (nat \<Rightarrow> string) \<Rightarrow> readings \<times> readings \<times> readings \<Rightarrow> string \<Rightarrow> oci_reference \<Rightarrow> string \<Rightarrow>
   github_funnel option \<Rightarrow> (oci_error + json) \<times> github_funnel option" where
  "fetch_json ext secs_text clks url reference accept github =
     (case registry_get ext secs_text clks url (ref_repository reference) accept None None github of
        (Inl e, github) \<Rightarrow> (Inl e, github)
      | (Inr (r, body), github) \<Rightarrow>
          ((case from_json ext body of Inl err \<Rightarrow> Inl (ManifestUnreadable err) | Inr v \<Rightarrow> Inr v), account_bytes r github))"

definition entry_platform :: "json \<Rightarrow> string option" where
  "entry_platform entry =
     Option.bind (json_get entry ''platform'') (\<lambda>platform.
       Option.bind (Option.bind (json_get platform ''os'') as_str) (\<lambda>os.
         map_option (\<lambda>arch. os @ ''/'' @ arch) (Option.bind (json_get platform ''architecture'') as_str)))"

definition entry_digest :: "json \<Rightarrow> string option" where
  "entry_digest entry = Option.bind (json_get entry ''digest'') as_str"

definition select_index_entry :: "json list \<Rightarrow> (string \<Rightarrow> bool) option \<Rightarrow> json option" where
  "select_index_entry entries select =
     (case select of
        None \<Rightarrow> find (\<lambda>entry. entry_digest entry \<noteq> None) entries
      | Some matches \<Rightarrow> find (\<lambda>entry. entry_digest entry \<noteq> None \<and>
          (case entry_platform entry of None \<Rightarrow> False | Some platform \<Rightarrow> matches platform)) entries)"

record resolved_manifest =
  manifest_top :: json
  manifest_image :: json
  selected_digest :: "string option"
  follow_error :: "oci_error option"

fun as_array :: "json \<Rightarrow> json list option" where
  "as_array (JArray a) = Some a"
| "as_array _ = None"

definition followed_digest :: "json \<Rightarrow> (string \<Rightarrow> bool) option \<Rightarrow> string option" where
  "followed_digest doc select =
     (let layers_empty = (case Option.bind (json_get doc ''layers'') as_array of None \<Rightarrow> True | Some ls \<Rightarrow> ls = [])
      in Option.bind (opt_filter (\<lambda>entries. layers_empty \<and> entries \<noteq> []) (Option.bind (json_get doc ''manifests'') as_array))
           (\<lambda>entries. Option.bind (select_index_entry entries select) entry_digest))"

definition get_manifest ::
  "outside \<Rightarrow> (nat \<Rightarrow> string) \<Rightarrow> (readings \<times> readings \<times> readings) \<times> (readings \<times> readings \<times> readings) \<Rightarrow>
   oci_reference \<Rightarrow> string \<Rightarrow> (string \<Rightarrow> bool) option \<Rightarrow> github_funnel option \<Rightarrow>
   (oci_error + resolved_manifest) \<times> github_funnel option" where
  "get_manifest ext secs_text clks reference accept select github =
     (case fetch_json ext secs_text (fst clks) (manifest_url reference (ref_reference reference)) reference accept github of
        (Inl e, github) \<Rightarrow> (Inl e, github)
      | (Inr doc, github) \<Rightarrow>
          (case followed_digest doc select of
             None \<Rightarrow> (Inr \<lparr>manifest_top = doc, manifest_image = doc, selected_digest = None, follow_error = None\<rparr>, github)
           | Some digest \<Rightarrow>
               (case fetch_json ext secs_text (snd clks) (manifest_url reference digest) reference accept github of
                  (Inr img, github) \<Rightarrow>
                    (Inr \<lparr>manifest_top = doc, manifest_image = img, selected_digest = Some digest, follow_error = None\<rparr>, github)
                | (Inl e, github) \<Rightarrow>
                    (Inr \<lparr>manifest_top = doc, manifest_image = doc, selected_digest = Some digest, follow_error = Some e\<rparr>, github))))"

text \<open>\<open>arch\<close> is \<^verbatim>\<open>std::env::consts::ARCH\<close>.\<close>

definition host_arch_aliases :: "string \<Rightarrow> string list" where
  "host_arch_aliases arch =
     (if arch = ''aarch64'' then [''arm64'', ''aarch64'']
      else if arch = ''x86_64'' then [''amd64'', ''x86_64'']
      else [arch, arch])"

definition platform_matches_host :: "string \<Rightarrow> string \<Rightarrow> bool" where
  "platform_matches_host host platform =
     (case split_once CHR ''/'' platform of
        None \<Rightarrow> False
      | Some (os, arch) \<Rightarrow> os = ''linux'' \<and> arch \<in> set (host_arch_aliases host))"

definition is_packed_vm_layer :: "string \<Rightarrow> bool" where
  "is_packed_vm_layer media_type \<longleftrightarrow>
     media_type = ''application/vnd.preloop.smolmachine.v1+zstd'' \<or>
     media_type = ''application/vnd.smolmachines.smolmachine.v1''"

section \<open>The handshake behind an open breaker\<close>

text \<open>The breaker of a registry has opened and has not been closed since.\<close>

definition tripped :: "string \<Rightarrow> github_funnel \<Rightarrow> bool" where
  "tripped origin f =
     (case map_of (reg_breakers (registry f)) \<lparr>key_origin = origin, key_bucket = Anonymous\<rparr> of
        None \<Rightarrow> False
      | Some a \<Rightarrow> a < length (breaker_heap f) \<and> open_until (breaker_heap f ! a) \<noteq> None)"

definition probing :: "string \<Rightarrow> nat \<Rightarrow> github_funnel \<Rightarrow> bool" where
  "probing origin p f =
     (case map_of (reg_breakers (registry f)) \<lparr>key_origin = origin, key_bucket = Anonymous\<rparr> of
        None \<Rightarrow> False
      | Some a \<Rightarrow> probe_started (breaker_heap f ! a) = Some p)"

lemma option_min_None: "option_min xs = None \<longleftrightarrow> xs = []"
  by (cases xs) auto

lemma breaker_at_anonymous:
  assumes "map_of (reg_breakers (registry f)) (mk_key origin Anonymous) = Some a"
  shows "breaker_at origin Anonymous f = (a, f)"
  using assms by (simp add: breaker_at_def touch_unnamed_def Let_def)

lemma refused_consumption: "tripped origin (f\<lparr>consumption := c\<rparr>) = tripped origin f"
  "config_of (f\<lparr>consumption := c\<rparr>) = config_of f"
  by (simp_all add: tripped_def cong: option.case_cong)

text \<open>The unauthenticated request: it is refused, or it is the probe, and the challenge it expects
  leaves the breaker as the probe found it.\<close>

lemma golden_challenge:
  assumes "tripped (service_origin (url_parse ext) url) f"
    and "resp_status r = 401" and "\<not> budget_exhausted (resp_headers r)"
    and "golden_send ext clk url [401] (Inr (r, body)) f = (res, f')"
  shows "tripped (service_origin (url_parse ext) url) f' \<and> config_of f' = config_of f \<and>
    (res = Inr (r, body) \<longrightarrow> probing (service_origin (url_parse ext) url) (at_acquire clk) f')"
proof -
  let ?o = "service_origin (url_parse ext) url"
  obtain a where a: "map_of (reg_breakers (registry f)) (mk_key ?o Anonymous) = Some a"
      "a < length (breaker_heap f)" "open_until (breaker_heap f ! a) \<noteq> None"
    using assms(1) by (auto simp: tripped_def split: option.splits)
  obtain rs b where rb: "breaker_acquire (config_of f) (at_acquire clk) (breaker_heap f ! a) = (rs, b)" by fastforce
  have b: "open_until b \<noteq> None" using acquire_frame(1) [of "config_of f" "at_acquire clk" "breaker_heap f ! a"] rb a by simp
  have p: "probe_started b = Some (at_acquire clk)" if "rs = Inr ()"
    using acquire_probe [of "config_of f" "at_acquire clk" "breaker_heap f ! a"] rb a(3) that by simp
  show ?thesis
  proof (cases "unavailable_retry_after_at (at_check clk) ?o f")
    case (Some wait)
    then show ?thesis using assms(1,4) by (auto simp: golden_send_def refused_consumption)
  next
    case None
    show ?thesis
    proof (cases rs)
      case (Inl wait)
      then have "res \<noteq> Inr (r, body)" "f' = put_breaker a b (f\<lparr>consumption := record_breaker_blocked Golden (consumption f)\<rparr>)"
        using assms(4) None rb by (auto simp: golden_send_def send_eq [OF breaker_at_anonymous [OF a(1)]])
      then show ?thesis using a b by (simp add: tripped_def)
    next
      case (Inr u)
      then have "f' = put_breaker a (observe_rate_budget (config_of f) (at_budget clk) (unix_budget clk) (resp_headers r) b)
          ((put_breaker a b f)\<lparr>consumption := record_request Golden (consumption f)\<rparr>)"
        using assms(2,4) None rb a(2) by (auto simp: golden_send_def send_eq [OF breaker_at_anonymous [OF a(1)]] settle_call_def)
      then have "map_of (reg_breakers (registry f')) (mk_key ?o Anonymous) = Some a" "a < length (breaker_heap f')"
          "breaker_heap f' ! a = b" "config_of f' = config_of f"
        using a(1,2) assms(3) by (auto simp: observe_rate_budget_def)
      then show ?thesis using b p Inr by (auto simp: tripped_def probing_def)
    qed
  qed
qed

text \<open>The token request that follows it: refused, by the check of the origin or by the probe that has not
  reported back.\<close>

lemma golden_token_refused:
  assumes "tripped (service_origin (url_parse ext) url) f" and "probing (service_origin (url_parse ext) url) p f"
    and "p \<le> at_acquire clk" and "at_acquire clk < p + probe_timeout (config_of f)"
    and "golden_send ext clk url expect outcome f = (res, f')"
  shows "\<exists>wait. res = Inl (BreakerOpen wait)" "tripped (service_origin (url_parse ext) url) f'"
    "config_of f' = config_of f"
proof -
  let ?o = "service_origin (url_parse ext) url"
  obtain a where a: "map_of (reg_breakers (registry f)) (mk_key ?o Anonymous) = Some a"
      "a < length (breaker_heap f)" "open_until (breaker_heap f ! a) \<noteq> None" "probe_started (breaker_heap f ! a) = Some p"
    using assms(1,2) by (auto simp: tripped_def probing_def split: option.splits)
  have "fst (breaker_acquire (config_of f) (at_acquire clk) (breaker_heap f ! a)) \<noteq> Inr ()"
    using a(3,4) assms(3,4) by (auto simp: acquire_Inr probe_live_def)
  then obtain wait where w: "breaker_acquire (config_of f) (at_acquire clk) (breaker_heap f ! a) = (Inl wait, breaker_heap f ! a)"
    using acquire_refused [of "config_of f" "at_acquire clk" "breaker_heap f ! a"]
    by (cases "breaker_acquire (config_of f) (at_acquire clk) (breaker_heap f ! a)";
        cases "fst (breaker_acquire (config_of f) (at_acquire clk) (breaker_heap f ! a))") auto
  have "(\<exists>wait. res = Inl (BreakerOpen wait)) \<and> f' = f\<lparr>consumption := record_breaker_blocked Golden (consumption f)\<rparr>"
  proof (cases "unavailable_retry_after_at (at_check clk) ?o f")
    case (Some wait)
    then show ?thesis using assms(5) by (auto simp: golden_send_def)
  next
    case None
    then show ?thesis using assms(5) w
      by (auto simp: golden_send_def send_eq [OF breaker_at_anonymous [OF a(1)]] put_breaker_def)
  qed
  then show "\<exists>wait. res = Inl (BreakerOpen wait)" "tripped ?o f'" "config_of f' = config_of f"
    using assms(1) by (simp_all add: refused_consumption)
qed

text \<open>A registry that asks for a token it issues itself: the first answer is a challenge whose realm is at
  the registry's own origin, and it advertises no exhausted budget. Nothing is said of its other
  answers.\<close>

definition self_issuing :: "outside \<Rightarrow> string \<Rightarrow> string \<Rightarrow> string \<Rightarrow> bool" where
  "self_issuing ext url repository accept =
     (case network ext \<lparr>rq_url = url, rq_accept = Some accept, rq_token = None, rq_offset = None\<rparr> of
        Inl _ \<Rightarrow> False
      | Inr (r, _) \<Rightarrow>
          resp_status r = 401 \<and> \<not> budget_exhausted (resp_headers r) \<and>
          (case Option.bind (header_str (resp_headers r) ''www-authenticate'') bearer_challenge of
             None \<Rightarrow> False
           | Some ch \<Rightarrow>
               (case url_parse ext (challenge_realm ch) of
                  Inl _ \<Rightarrow> False
                | Inr parsed \<Rightarrow>
                    url_scheme parsed = ''https'' \<and>
                    service_origin (url_parse ext) (token_url ext ch repository) =
                    service_origin (url_parse ext) url)))"

lemma self_issuingE:
  assumes "self_issuing ext url repository accept"
  obtains r body ch parsed where
    "network ext \<lparr>rq_url = url, rq_accept = Some accept, rq_token = None, rq_offset = None\<rparr> = Inr (r, body)"
    "resp_status r = 401" "\<not> budget_exhausted (resp_headers r)"
    "Option.bind (header_str (resp_headers r) ''www-authenticate'') bearer_challenge = Some ch"
    "url_parse ext (challenge_realm ch) = Inr parsed" "url_scheme parsed = ''https''"
    "service_origin (url_parse ext) (token_url ext ch repository) = service_origin (url_parse ext) url"
proof -
  let ?rq = "\<lparr>rq_url = url, rq_accept = Some accept, rq_token = None, rq_offset = None\<rparr>"
  obtain r body where net: "network ext ?rq = Inr (r, body)"
    using assms by (cases "network ext ?rq") (auto simp: self_issuing_def)
  moreover obtain ch where ch: "Option.bind (header_str (resp_headers r) ''www-authenticate'') bearer_challenge = Some ch"
    using assms net by (cases "Option.bind (header_str (resp_headers r) ''www-authenticate'') bearer_challenge")
      (auto simp: self_issuing_def)
  moreover obtain parsed where "url_parse ext (challenge_realm ch) = Inr parsed"
    using assms net ch by (cases "url_parse ext (challenge_realm ch)") (auto simp: self_issuing_def)
  ultimately show thesis using that [of r body ch parsed] assms by (simp add: self_issuing_def)
qed

text \<open>The token request comes within the probe timeout of the first request.\<close>

definition prompt :: "breaker_config \<Rightarrow> readings \<times> readings \<times> readings \<Rightarrow> bool" where
  "prompt config clks = (case clks of (clk1, clk2, _) \<Rightarrow>
     at_acquire clk1 \<le> at_acquire clk2 \<and> at_acquire clk2 < at_acquire clk1 + probe_timeout config)"

lemma send_registry_sent:
  "golden_send ext clk (rq_url rq) expect (network ext rq) f = (Inr r, f') \<Longrightarrow>
   send_registry_request ext secs_text clk rq expect (Some f) = (Inr r, Some f')"
  by (simp add: send_registry_request_def Let_def)

lemma send_registry_refused:
  "golden_send ext clk (rq_url rq) expect (network ext rq) f = (Inl (BreakerOpen wait), f') \<Longrightarrow>
   send_registry_request ext secs_text clk rq expect (Some f) =
     (Inl (Message (breaker_open_text secs_text wait)), Some f')"
  by (simp add: send_registry_request_def Let_def)

lemma golden_send_result:
  "golden_send ext clk url expect (Inr (r, body)) f = (res, f') \<Longrightarrow>
   res = Inr (r, body) \<or> (\<exists>wait. res = Inl (BreakerOpen wait))"
proof -
  assume g: "golden_send ext clk url expect (Inr (r, body)) f = (res, f')"
  obtain s f1 where s: "send_observed_labeled_at clk (service_origin (url_parse ext) url) Anonymous Golden expect (Inr r) f = (s, f1)"
    by fastforce
  obtain a f0 where a: "breaker_at (service_origin (url_parse ext) url) Anonymous f = (a, f0)" by fastforce
  have "s = Inr r \<or> (\<exists>wait. s = Inl (BreakerOpen wait))"
    using s by (auto simp: send_eq [OF a] settle_call_def Let_def split: prod.splits sum.splits if_splits option.splits github_failure_kind.splits)
  then show ?thesis using g s by (auto simp: golden_send_def Let_def split: option.splits)
qed

lemma registry_get_jammed:
  assumes "tripped (service_origin (url_parse ext) url) f" and "self_issuing ext url repository accept"
    and "prompt (config_of f) clks"
    and "registry_get ext secs_text clks url repository accept None None (Some f) = (res, g)"
  shows "\<exists>m f'. res = Inl (Message m) \<and> g = Some f' \<and> tripped (service_origin (url_parse ext) url) f' \<and>
    config_of f' = config_of f"
proof -
  obtain clk1 clk2 clk3 where clks: "clks = (clk1, clk2, clk3)" by (cases clks)
  let ?rq = "\<lparr>rq_url = url, rq_accept = Some accept, rq_token = None, rq_offset = None\<rparr>"
  obtain r body ch parsed where net: "network ext ?rq = Inr (r, body)" "resp_status r = 401" "\<not> budget_exhausted (resp_headers r)"
      "Option.bind (header_str (resp_headers r) ''www-authenticate'') bearer_challenge = Some ch"
      "url_parse ext (challenge_realm ch) = Inr parsed" "url_scheme parsed = ''https''"
      and org: "service_origin (url_parse ext) (token_url ext ch repository) = service_origin (url_parse ext) url"
    using self_issuingE [OF assms(2)] by blast
  let ?trq = "\<lparr>rq_url = token_url ext ch repository, rq_accept = None, rq_token = None, rq_offset = None\<rparr>"
  obtain r1 f1 where g1: "golden_send ext clk1 url [401] (Inr (r, body)) f = (r1, f1)" by fastforce
  note one = golden_challenge [OF assms(1) net(2,3) g1]
  obtain r2 f2 where g2: "golden_send ext clk2 (token_url ext ch repository) [] (network ext ?trq) f1 = (r2, f2)" by fastforce
  from golden_send_result [OF g1] show ?thesis
  proof
    assume r1: "r1 = Inr (r, body)"
    have two: "\<exists>wait. r2 = Inl (BreakerOpen wait)" "tripped (service_origin (url_parse ext) url) f2" "config_of f2 = config_of f1"
      using golden_token_refused [of ext "token_url ext ch repository" f1 "at_acquire clk1" clk2 "[]" _ r2 f2] one r1 org g2 assms(3)
      by (auto simp: prompt_def clks)
    then obtain wait where w: "r2 = Inl (BreakerOpen wait)" by blast
    have "send_registry_request ext secs_text clk2 ?trq [] (Some f1) = (Inl (Message (breaker_open_text secs_text wait)), Some f2)"
      by (rule send_registry_refused) (simp add: g2 w)
    then have "request_bearer_token ext secs_text clk2 ch repository (Some f1) =
        (Inl (Message (''requesting a registry token: '' @ breaker_open_text secs_text wait)), Some f2)"
      using net(5,6) by (simp add: request_bearer_token_def Let_def)
    moreover have "send_registry_request ext secs_text clk1 ?rq [401] (Some f) = (Inr (r, body), Some f1)"
      by (rule send_registry_sent) (simp add: g1 r1 net(1))
    ultimately show ?thesis using assms(4) net(2,4) two(2,3) one
      by (auto simp: registry_get_def clks is_success_def)
  next
    assume "\<exists>wait. r1 = Inl (BreakerOpen wait)"
    then obtain wait where w: "r1 = Inl (BreakerOpen wait)" by blast
    have "send_registry_request ext secs_text clk1 ?rq [401] (Some f) = (Inl (Message (breaker_open_text secs_text wait)), Some f1)"
      by (rule send_registry_refused) (simp add: g1 w net(1))
    then show ?thesis using assms(4) one by (auto simp: registry_get_def clks)
  qed
qed

text \<open>A sequence of fetches of one URL.\<close>

fun fetch_all ::
  "outside \<Rightarrow> (nat \<Rightarrow> string) \<Rightarrow> string \<Rightarrow> string \<Rightarrow> string \<Rightarrow> (readings \<times> readings \<times> readings) list \<Rightarrow> github_funnel option \<Rightarrow>
   (oci_error + reply) list" where
  "fetch_all ext secs_text url repository accept [] github = []"
| "fetch_all ext secs_text url repository accept (clks # rest) github =
     (let (r, github) = registry_get ext secs_text clks url repository accept None None github
      in r # fetch_all ext secs_text url repository accept rest github)"

lemma fetch_all_jammed:
  assumes "self_issuing ext url repository accept" and "list_all (prompt (config_of f)) attempts"
    and "tripped (service_origin (url_parse ext) url) f"
  shows "list_all isl (fetch_all ext secs_text url repository accept attempts (Some f))"
  using assms(2,3)
proof (induction attempts arbitrary: f)
  case (Cons clks rest)
  obtain r g where rg: "registry_get ext secs_text clks url repository accept None None (Some f) = (r, g)" by fastforce
  then obtain m f' where "r = Inl (Message m)" "g = Some f'" "tripped (service_origin (url_parse ext) url) f'" "config_of f' = config_of f"
    using registry_get_jammed [OF Cons.prems(2) assms(1) _ rg] Cons.prems(1) by auto
  then show ?case using Cons.IH [of f'] Cons.prems(1) rg by simp
qed simp

text \<open>C13. A defect: once the breaker of a registry that issues its own tokens (as \<^verbatim>\<open>ghcr.io\<close> does) has
  opened, the anonymous handshake never closes it again, even when the registry has recovered. The
  unauthenticated request is admitted as the probe, and the challenge it expects is recorded neither
  as a success nor as a failure, so the probe never reports back; the token request comes within the
  probe timeout and is refused. Every fetch of a sequence of any length fails, whatever the registry
  would answer to the token request and to the request with the token.\<close>

theorem handshake_never_recovers:
  assumes "funnel_reach config home now f cs"
    and "breaker_of f \<lparr>key_origin = service_origin (url_parse ext) url, key_bucket = Anonymous\<rparr> = Some b"
    and "open_until b \<noteq> None"
    and "self_issuing ext url repository accept" and "list_all (prompt config) attempts"
  shows "list_all isl (fetch_all ext secs_text url repository accept attempts (Some f))"
proof -
  have ok: "funnel_wf now f" "config_of f = config" using funnel_reach_ok [OF assms(1)] by (simp_all add: funnel_ok_def)
  obtain a where a: "map_of (reg_breakers (registry f)) (mk_key (service_origin (url_parse ext) url) Anonymous) = Some a"
      "b = breaker_heap f ! a"
    using assms(2) by (auto simp: breaker_of_def)
  have "tripped (service_origin (url_parse ext) url) f"
    using a assms(3) known_address [OF ok(1) a(1)] by (simp add: tripped_def)
  then show ?thesis using fetch_all_jammed assms(4,5) ok(2) by blast
qed

text \<open>A registry in good health that asks for its own token; two fetches, minutes after its breaker's window
  of two minutes has passed, fail.\<close>

definition healthy_registry :: outside where
  "healthy_registry =
     \<lparr>url_parse = (\<lambda>_. Inr \<lparr>url_scheme = ''https'', url_host = Some ''ghcr.io'', url_port = None\<rparr>),
      with_query = (\<lambda>url _. url),
      network = (\<lambda>rq. if rq_accept rq \<noteq> None \<and> rq_token rq = None
        then Inr (\<lparr>resp_status = 401, resp_status_text = ''401 Unauthorized'',
                   resp_headers = [(''www-authenticate'', ''Bearer realm=https://ghcr.io/token'')]\<rparr>, '''')
        else Inr (\<lparr>resp_status = 200, resp_status_text = ''200 OK'', resp_headers = []\<rparr>, ''{}'')),
      from_json = (\<lambda>_. Inr (JObject [(''token'', JString ''t'')]))\<rparr>"

definition reading :: "nat \<Rightarrow> readings" where
  "reading t = \<lparr>at_check = secs t, at_acquire = secs t, at_observe = secs t, at_budget = secs t,
     unix_observe = 1000 + t, unix_budget = 1000 + t\<rparr>"

lemma healthy_self_issuing: "self_issuing healthy_registry ''https://ghcr.io/v2/x/manifests/1'' ''x'' ''json''"
  by (simp add: self_issuing_def healthy_registry_def budget_exhausted_def header_str_def visible_ascii_def
      bearer_challenge_def split_challenge_params_def challenge_param_def trim_quotes_def token_url_def
      service_origin_def rust_simps)

lemma ghcr_tripped:
  "breaker_of (throttled_at ''ghcr.io'' Anonymous) (mk_key ''ghcr.io'' Anonymous) =
     Some (record_failure default_config 0 (RateLimited (Some (secs 120))) (''GitHub responded '' @ resp_status_text too_many) new_breaker)"
proof -
  have c: "classify_status (unix_observe first_call) (resp_status too_many) (resp_headers too_many) = Some (RateLimited (Some (secs 120)))"
    by (rule too_many_kind)
  have o0: "at_observe first_call = 0" by (simp add: first_call_def)
  show ?thesis
    by (simp add: breaker_of_def throttled_settled settle_call_frame breaker_at_new)
       (simp add: settle_call_def observe_status_def c o0 for_origin_def)
qed

theorem handshake_never_recovers_witness:
  "\<forall>secs_text. list_all isl (fetch_all healthy_registry secs_text ''https://ghcr.io/v2/x/manifests/1'' ''x'' ''json''
     [(reading 600, reading 601, reading 602), (reading 900, reading 901, reading 902)]
     (Some (throttled_at ''ghcr.io'' Anonymous)))"
proof
  fix secs_text
  have origin: "service_origin (url_parse healthy_registry) ''https://ghcr.io/v2/x/manifests/1'' = ''ghcr.io''"
    by (simp add: service_origin_def healthy_registry_def rust_simps)
  have prompt: "list_all (prompt default_config) [(reading 600, reading 601, reading 602), (reading 900, reading 901, reading 902)]"
    by (simp add: prompt_def reading_def secs_def default_config_def)
  have opened: "open_until (record_failure default_config 0 (RateLimited (Some (secs 120)))
      (''GitHub responded '' @ resp_status_text too_many) new_breaker) \<noteq> None"
    by (simp add: record_failure_def open_for_def default_config_def)
  have reach: "funnel_reach default_config ''api.github.com'' 0 (throttled_at ''ghcr.io'' Anonymous) []"
    by (rule throttled_at_reach) simp
  show "list_all isl (fetch_all healthy_registry secs_text ''https://ghcr.io/v2/x/manifests/1'' ''x'' ''json''
     [(reading 600, reading 601, reading 602), (reading 900, reading 901, reading 902)]
     (Some (throttled_at ''ghcr.io'' Anonymous)))"
    by (rule handshake_never_recovers [OF reach _ opened healthy_self_issuing prompt]) (simp add: origin ghcr_tripped)
qed

section \<open>Reading references and challenges\<close>

lemma split_once_append: "c \<notin> set a \<Longrightarrow> split_once c (a @ c # b) = Some (a, b)"
  by (induction a) auto

lemma split_once_None: "split_once c s = None \<longleftrightarrow> c \<notin> set s"
  by (induction s) auto

lemma rsplit_next_append: "c \<notin> set b \<Longrightarrow> rsplit_next c (a @ b) = rsplit_next c a @ b"
  by (simp add: rsplit_next_def takeWhile_append)

lemma rsplit_next_after: "rsplit_next c (a @ c # b) = rsplit_next c b"
  by (auto simp: rsplit_next_def takeWhile_append takeWhile_eq_all_conv [THEN iffD2])

definition reference_wf :: "oci_reference \<Rightarrow> bool" where
  "reference_wf r \<longleftrightarrow>
     is_registry_host (ref_registry r) \<and> normalize_registry (ref_registry r) = ref_registry r \<and>
     CHR ''/'' \<notin> set (ref_registry r) \<and> CHR ''@'' \<notin> set (ref_registry r) \<and>
     CHR ''@'' \<notin> set (ref_repository r) \<and> CHR '':'' \<notin> set (rsplit_next CHR ''/'' (ref_repository r)) \<and>
     ref_reference r \<noteq> [] \<and>
     (is_digest_pinned r \<or> CHR ''/'' \<notin> set (ref_reference r) \<and> CHR ''@'' \<notin> set (ref_reference r))"

lemma split_tag_untagged:
  "CHR '':'' \<notin> set (rsplit_next CHR ''/'' repo) \<Longrightarrow> split_tag (host @ CHR ''/'' # repo) = None"
  by (simp add: split_tag_def rsplit_next_after split_once_None [THEN iffD2])

lemma split_tag_tagged:
  assumes "CHR '':'' \<notin> set (rsplit_next CHR ''/'' repo)" and "CHR ''/'' \<notin> set tag" and "tag \<noteq> []"
  shows "split_tag (host @ CHR ''/'' # repo @ CHR '':'' # tag) = Some (host @ CHR ''/'' # repo, tag)"
proof -
  have "rsplit_next CHR ''/'' (host @ CHR ''/'' # repo @ CHR '':'' # tag) =
      rsplit_next CHR ''/'' repo @ CHR '':'' # tag"
    using rsplit_next_append [of "CHR ''/''" "CHR '':'' # tag" repo] assms(2) by (simp add: rsplit_next_after)
  then show ?thesis using assms split_once_append [OF assms(1), of tag] by (simp add: split_tag_def)
qed

text \<open>An image reference as it is printed names the same image when it is read again: registry,
  repository, and tag or digest come back, for every registry with a host name and a repository
  whose last component has no colon. The exception is Docker Hub's official namespace, which printing
  leaves out and reading puts back only when the registry is left out too.\<close>

theorem reference_roundtrip:
  assumes "reference_wf r"
    and "\<not> (ref_registry r = ''registry-1.docker.io'' \<and> starts_with ''library/'' (ref_repository r))"
  shows "parse_reference (display_reference r) = Inr r"
proof -
  let ?name = "ref_registry r @ CHR ''/'' # ref_repository r"
  have wf: "is_registry_host (ref_registry r)" "normalize_registry (ref_registry r) = ref_registry r"
      "CHR ''/'' \<notin> set (ref_registry r)" "CHR ''@'' \<notin> set (ref_registry r)" "CHR ''@'' \<notin> set (ref_repository r)"
      "CHR '':'' \<notin> set (rsplit_next CHR ''/'' (ref_repository r))" "ref_reference r \<noteq> []"
    using assms(1) by (simp_all add: reference_wf_def)
  have shown: "display_reference r = ?name @ (if is_digest_pinned r then CHR ''@'' else CHR '':'') # ref_reference r"
    using assms(2) by (auto simp: display_reference_def strip_prefix_def starts_with_def Let_def)
  have "CHR ''@'' \<notin> set ?name" using wf by simp
  have named: "split_once CHR ''/'' ?name = Some (ref_registry r, ref_repository r)"
    by (rule split_once_append [OF wf(3)])
  show ?thesis
  proof (cases "is_digest_pinned r")
    case True
    then have "split_once CHR ''@'' (display_reference r) = Some (?name, ref_reference r)"
      using split_once_append [OF \<open>CHR ''@'' \<notin> set ?name\<close>, of "ref_reference r"] shown by simp
    moreover have "strip_tag ?name = ?name" by (simp add: strip_tag_def split_tag_untagged [OF wf(6)])
    ultimately show ?thesis using wf named by (simp add: parse_reference_def)
  next
    case False
    then have tag: "CHR ''/'' \<notin> set (ref_reference r)" "CHR ''@'' \<notin> set (ref_reference r)"
      using assms(1) by (auto simp: reference_wf_def)
    have "split_once CHR ''@'' (display_reference r) = None"
      using False wf tag by (simp add: shown split_once_None)
    moreover have "split_tag (display_reference r) = Some (?name, ref_reference r)"
      using split_tag_tagged [OF wf(6) tag(1) wf(7)] False shown by simp
    ultimately show ?thesis using wf named by (simp add: parse_reference_def)
  qed
qed

theorem reference_roundtrip_witness:
  "parse_reference (display_reference \<lparr>ref_registry = ''localhost:5000'', ref_repository = ''team/base'', ref_reference = ''1.2''\<rparr>) =
     Inr \<lparr>ref_registry = ''localhost:5000'', ref_repository = ''team/base'', ref_reference = ''1.2''\<rparr>"
  by (rule reference_roundtrip)
     (simp_all add: reference_wf_def is_registry_host_def normalize_registry_def rsplit_next_def is_digest_pinned_def rust_simps)

text \<open>One parameter of a challenge, its value in quotes.\<close>

definition quoted_param :: "string \<times> string \<Rightarrow> string" where
  "quoted_param kv = fst kv @ CHR ''='' # CHR 0x22 # snd kv @ [CHR 0x22]"

definition param_ok :: "string \<times> string \<Rightarrow> bool" where
  "param_ok kv \<longleftrightarrow>
     list_all (\<lambda>c. c \<noteq> CHR ''='' \<and> c \<noteq> CHR '','' \<and> c \<noteq> CHR 0x22 \<and> \<not> is_whitespace c \<and> char_lower c = c) (fst kv) \<and>
     CHR 0x22 \<notin> set (snd kv)"

lemma trim_no_whitespace: "list_all (\<lambda>c. \<not> is_whitespace c) s \<Longrightarrow> trim s = s"
proof -
  assume a: "list_all (\<lambda>c. \<not> is_whitespace c) s"
  have "dropWhile is_whitespace t = t" if "list_all (\<lambda>c. \<not> is_whitespace c) t" for t
    using that by (cases t) auto
  then show ?thesis using a by (simp add: trim_def trim_start_def trim_end_def list_all_rev)
qed

lemma trim_quoted: "trim (CHR 0x22 # v @ [CHR 0x22]) = CHR 0x22 # v @ [CHR 0x22]"
  by (simp add: trim_def trim_start_def trim_end_def is_whitespace_def)

lemma trim_quotes_quoted: "CHR 0x22 \<notin> set v \<Longrightarrow> trim_quotes (CHR 0x22 # v @ [CHR 0x22]) = v"
proof (cases v rule: rev_cases)
  case Nil
  then show ?thesis by (simp add: trim_quotes_def)
next
  case (snoc w c)
  assume "CHR 0x22 \<notin> set v"
  then show ?thesis using snoc by (cases w) (auto simp: trim_quotes_def)
qed

lemma challenge_param_quoted:
  assumes "param_ok kv"
  shows "challenge_param (quoted_param kv) = [kv]"
proof -
  obtain k v where kv: "kv = (k, v)" by (cases kv)
  have "CHR ''='' \<notin> set k" "list_all (\<lambda>c. \<not> is_whitespace c) k" "to_lower k = k" "CHR 0x22 \<notin> set v"
    using assms by (auto simp: param_ok_def kv list_all_iff intro: map_idI)
  then show ?thesis
    by (simp add: challenge_param_def quoted_param_def kv split_once_append trim_no_whitespace trim_quoted trim_quotes_quoted)
qed

lemma loop_plain:
  "list_all (\<lambda>c. c \<noteq> CHR '','' \<and> c \<noteq> CHR 0x22) s \<Longrightarrow>
   split_params_loop q cur (s @ rest) = split_params_loop q (cur @ s) rest"
  by (induction s arbitrary: cur) auto

lemma loop_quoted:
  "CHR 0x22 \<notin> set v \<Longrightarrow> split_params_loop True cur (v @ rest) = split_params_loop True (cur @ v) rest"
  by (induction v arbitrary: cur) auto

lemma loop_param:
  assumes "param_ok kv"
  shows "split_params_loop False [] (quoted_param kv @ rest) = split_params_loop False (quoted_param kv) rest"
proof -
  obtain k v where kv: "kv = (k, v)" by (cases kv)
  have k: "list_all (\<lambda>c. c \<noteq> CHR '','' \<and> c \<noteq> CHR 0x22) k" and v: "CHR 0x22 \<notin> set v"
    using assms by (auto simp: param_ok_def kv list_all_iff)
  show ?thesis by (simp add: quoted_param_def kv loop_plain [OF k] loop_quoted [OF v])
qed

text \<open>A challenge whose parameters are quoted is read back exactly: each name with its value, in
  order, whatever commas, equal signs and spaces the values have.\<close>

theorem challenge_roundtrip:
  assumes "list_all param_ok params" and "params \<noteq> []"
  shows "split_challenge_params (join '','' (map quoted_param params)) = params"
  using assms unfolding split_challenge_params_def
proof (induction params rule: induct_list012)
  case (2 kv)
  then show ?case using loop_param [of kv "[]"] challenge_param_quoted [of kv] by simp
next
  case (3 kv kv' rest)
  then show ?case using loop_param [of kv] challenge_param_quoted [of kv] by simp
qed simp

theorem challenge_roundtrip_witness:
  "split_challenge_params (join '','' (map quoted_param
     [(''realm'', ''https://auth.example/token''), (''scope'', ''repository:a/b:pull,push'')])) =
     [(''realm'', ''https://auth.example/token''), (''scope'', ''repository:a/b:pull,push'')]"
  by (rule challenge_roundtrip) (simp_all add: param_ok_def is_whitespace_def char_lower_def)

end
