(* ===== verification/Base64_Scan.thy ===== *)
theory Base64_Scan
  imports Rust_Base "HOL-Library.Product_Lexorder"
begin

text \<open>
  The base64 pass of secret masking, \<^verbatim>\<open>crates/preloop-gha-protocol/src/masking.rs\<close>: which byte ranges of
  a text decode, at some group alignment, to bytes that contain a registered secret. The runs of
  base64 bytes of the text, their segments between padding and between the characters of the other
  alphabet, the lines of a wrapped token joined, and the ranges of the tainted segments sorted and
  merged.

  The \<^verbatim>\<open>base64\<close> crate is an argument: \<open>std_decode\<close> and \<open>url_decode\<close> are its two lenient engines and the
  four encoders are its presets. A visitor callback of the source is the list of what it is called
  with. Texts are byte strings; a text of the source is valid UTF-8 and base64 bytes are ASCII, so
  every offset the code slices at is a character boundary.
\<close>

record base64_ext =
  std_encode :: "string \<Rightarrow> string"
  std_encode_nopad :: "string \<Rightarrow> string"
  url_encode :: "string \<Rightarrow> string"
  url_encode_nopad :: "string \<Rightarrow> string"
  std_decode :: "string \<Rightarrow> string option"
  url_decode :: "string \<Rightarrow> string option"

definition slice :: "'a list \<Rightarrow> nat \<Rightarrow> nat \<Rightarrow> 'a list" where
  "slice xs a b = take (b - a) (drop a xs)"

definition rposition :: "('a \<Rightarrow> bool) \<Rightarrow> 'a list \<Rightarrow> nat option" where
  "rposition P xs = map_option (\<lambda>i. length xs - 1 - i) (position P (rev xs))"

section \<open>The scanner\<close>

definition MIN_ELIGIBLE_SECRET_LEN :: nat where "MIN_ELIGIBLE_SECRET_LEN = 4"

definition encoded_len :: "nat \<Rightarrow> nat" where "encoded_len byte_len = (4 * byte_len + 2) div 3"

definition decode_lenient :: "(string \<Rightarrow> string option) \<Rightarrow> string \<Rightarrow> string option" where
  "decode_lenient engine input =
     engine (if length input mod 4 = 1 then take (length input - 1) input else input)"

definition is_base64_byte :: "char \<Rightarrow> bool" where
  "is_base64_byte b \<longleftrightarrow> is_ascii_alphanumeric b \<or> b \<in> set ''+/-_=''"

record alignment_scanner =
  needles :: "string list"
  min_len :: nat
  span_bound :: nat

definition new_scanner :: "string list \<Rightarrow> alignment_scanner option" where
  "new_scanner raw_secrets =
     (let ns = remdups_adj (sort_key (\<lambda>n. - int (length n))
            (map to_lower (filter (\<lambda>s. MIN_ELIGIBLE_SECRET_LEN \<le> length s) raw_secrets)))
      in case ns of
           [] \<Rightarrow> None
         | longest # _ \<Rightarrow> Some \<lparr>needles = ns, min_len = encoded_len MIN_ELIGIBLE_SECRET_LEN,
                              span_bound = encoded_len (length longest + 2) + 2\<rparr>)"

definition hold_bound :: "alignment_scanner \<Rightarrow> nat" where
  "hold_bound scanner = span_bound scanner + 8"

fun contains_loop :: "string \<Rightarrow> string \<Rightarrow> bool" where
  "contains_loop needle [] = False"
| "contains_loop needle (c # cs) =
     (if char_lower c = char_lower (hd needle) \<and> length needle \<le> length (c # cs) \<and>
         eq_ignore_ascii_case (take (length needle) (c # cs)) needle
      then True else contains_loop needle cs)"

definition contains_subslice :: "string \<Rightarrow> string \<Rightarrow> bool" where
  "contains_subslice haystack needle =
     (if needle = [] \<or> length haystack < length needle then False else contains_loop needle haystack)"

definition segment_tainted :: "base64_ext \<Rightarrow> alignment_scanner \<Rightarrow> string \<Rightarrow> bool" where
  "segment_tainted ext scanner bytes =
     (if length bytes < min_len scanner then False
      else let standard = list_ex (\<lambda>b. b \<in> set ''+/'') bytes; url_safe = list_ex (\<lambda>b. b \<in> set ''-_'') bytes
      in if standard \<and> url_safe then False
         else let engine = (if url_safe then url_decode ext else std_decode ext)
         in list_ex (\<lambda>trim. trim \<le> length bytes \<and> min_len scanner \<le> length (drop trim bytes) \<and>
              (case decode_lenient engine (drop trim bytes) of
                 None \<Rightarrow> False
               | Some decoded \<Rightarrow> list_ex (contains_subslice decoded) (needles scanner))) [0, 1, 2, 3])"

section \<open>Segments\<close>

datatype alphabet_family = StandardFamily | UrlSafeFamily

fun family_contains :: "alphabet_family \<Rightarrow> char \<Rightarrow> bool" where
  "family_contains StandardFamily b \<longleftrightarrow> is_ascii_alphanumeric b \<or> b \<in> set ''+/''"
| "family_contains UrlSafeFamily b \<longleftrightarrow> is_ascii_alphanumeric b \<or> b \<in> set ''-_''"

definition newline_len_at :: "string \<Rightarrow> nat \<Rightarrow> nat" where
  "newline_len_at bytes p =
     (if slice_get bytes p = Some CHR 0x0A then 1
      else if slice_get bytes p = Some CHR 0x0D \<and> slice_get bytes (p + 1) = Some CHR 0x0A then 2
      else 0)"

definition wrapped_line_continues :: "string \<Rightarrow> nat \<Rightarrow> nat \<Rightarrow> nat option" where
  "wrapped_line_continues bytes start stop =
     (if stop < start then None
      else if stop - start < 8 \<or> (stop - start) mod 4 \<noteq> 0 then None
      else if list_ex (\<lambda>b. \<not> is_base64_byte b \<or> b = CHR ''='') (slice bytes start stop) then None
      else let newline = newline_len_at bytes stop
      in if newline = 0 then None
         else case opt_filter is_base64_byte (slice_get bytes (stop + newline)) of
                None \<Rightarrow> None | Some _ \<Rightarrow> Some newline)"

function base64_runs :: "nat \<Rightarrow> string \<Rightarrow> (nat \<times> nat) list" where
  "base64_runs index bytes =
     (let rest = dropWhile (\<lambda>b. \<not> is_base64_byte b) bytes;
          start = index + (length bytes - length rest);
          run = takeWhile is_base64_byte rest
      in if rest = [] then []
         else (start, start + length run) # base64_runs (start + length run) (dropWhile is_base64_byte rest))"
  by pat_completeness auto

termination
proof (relation "measure (\<lambda>(_, bytes). length bytes)", goal_cases)
  case (2 index bytes rest start run)
  then have b: "rest \<noteq> []" and r: "rest = dropWhile (\<lambda>b. \<not> is_base64_byte b) bytes" by simp_all
  then have "is_base64_byte (hd rest)" using hd_dropWhile [of "\<lambda>b. \<not> is_base64_byte b" bytes] by simp
  with b have "length (dropWhile is_base64_byte rest) < length rest"
    by (cases rest) (auto simp: le_imp_less_Suc length_dropWhile_le)
  also have "\<dots> \<le> length bytes" unfolding r by (rule length_dropWhile_le)
  finally show ?case by simp
qed simp

declare base64_runs.simps [simp del]

definition payload_segment :: "string \<Rightarrow> nat \<Rightarrow> nat \<Rightarrow> nat \<times> nat" where
  "payload_segment bytes run_start run_end =
     (let stop = (case rposition (\<lambda>b. b \<noteq> CHR ''='') (slice bytes run_start run_end) of
            Some k \<Rightarrow> run_start + k + 1 | None \<Rightarrow> run_start);
          start = (case rposition (\<lambda>b. b = CHR ''='') (slice bytes run_start stop) of
            Some k \<Rightarrow> run_start + k + 1 | None \<Rightarrow> run_start)
      in (start, stop))"

definition trailing_padding_end :: "string \<Rightarrow> nat \<Rightarrow> nat \<Rightarrow> nat" where
  "trailing_padding_end bytes stop run_end =
     (if stop < run_end \<and> list_all (\<lambda>b. b = CHR ''='') (slice bytes stop run_end) then run_end else stop)"

type_synonym candidate = "nat \<times> nat \<times> string"

definition visit_segment :: "string \<Rightarrow> nat \<Rightarrow> nat \<Rightarrow> nat \<Rightarrow> candidate list" where
  "visit_segment bytes run_end start stop =
     (if stop \<le> start then [] else [(start, trailing_padding_end bytes stop run_end, slice bytes start stop)])"

fun segments_loop :: "string \<Rightarrow> nat \<Rightarrow> alphabet_family option \<Rightarrow> nat \<Rightarrow> nat list \<Rightarrow> candidate list" where
  "segments_loop bytes run_end family segment_start [] = visit_segment bytes run_end segment_start run_end"
| "segments_loop bytes run_end family segment_start (p # ps) =
     (let b = bytes ! p
      in if b = CHR ''='' \<or> (case family of None \<Rightarrow> False | Some fam \<Rightarrow> \<not> family_contains fam b)
         then visit_segment bytes run_end segment_start p @ segments_loop bytes run_end family (p + 1) ps
         else segments_loop bytes run_end family segment_start ps)"

definition visit_run_segments :: "string \<Rightarrow> nat \<Rightarrow> nat \<Rightarrow> alphabet_family option \<Rightarrow> candidate list" where
  "visit_run_segments bytes run_start run_end family =
     segments_loop bytes run_end family run_start [run_start..<run_end]"

text \<open>A chain in progress: where it starts, what it decodes, its end and the end of its last run.\<close>

type_synonym chain = "nat \<times> string \<times> nat \<times> nat"

definition close_chain :: "string \<Rightarrow> chain \<Rightarrow> candidate" where
  "close_chain bytes c = (case c of (chain_start, decode, chain_end, chain_run_end) \<Rightarrow>
     (chain_start, trailing_padding_end bytes chain_end chain_run_end, decode))"

definition chain_step ::
  "string \<Rightarrow> chain option \<Rightarrow> (nat \<times> nat) option \<Rightarrow> nat \<times> nat \<Rightarrow> chain option \<times> candidate list" where
  "chain_step bytes chain previous run =
     (let (segment_start, segment_end) = payload_segment bytes (fst run) (snd run);
          wrap_line = (segment_start \<noteq> segment_end \<and> wrapped_line_continues bytes segment_start segment_end \<noteq> None)
      in case chain of
           Some (chain_start, decode, chain_end, chain_run_end) \<Rightarrow>
             (let newline = newline_len_at bytes chain_end
              in if newline \<noteq> 0 \<and> segment_start < segment_end \<and> segment_start = chain_end + newline
                 then let c = (chain_start, decode @ slice bytes segment_start segment_end, segment_end, snd run)
                      in if wrap_line then (Some c, []) else (None, [close_chain bytes c])
                 else (None, [close_chain bytes (chain_start, decode, chain_end, chain_run_end)]))
         | None \<Rightarrow>
             (let previous_is_wrap = (case previous of
                    None \<Rightarrow> False | Some (a, b) \<Rightarrow> a \<noteq> b \<and> wrapped_line_continues bytes a b \<noteq> None)
              in if wrap_line \<and> \<not> previous_is_wrap
                 then (Some (segment_start, slice bytes segment_start segment_end, segment_end, snd run), [])
                 else (None, [])))"

fun chains_loop :: "string \<Rightarrow> chain option \<Rightarrow> (nat \<times> nat) option \<Rightarrow> (nat \<times> nat) list \<Rightarrow> candidate list" where
  "chains_loop bytes chain previous [] = (case chain of None \<Rightarrow> [] | Some c \<Rightarrow> [close_chain bytes c])"
| "chains_loop bytes chain previous (run # runs) =
     (let (chain', visited) = chain_step bytes chain previous run
      in visited @ chains_loop bytes chain' (Some (payload_segment bytes (fst run) (snd run))) runs)"

definition visit_wrap_chains :: "string \<Rightarrow> candidate list" where
  "visit_wrap_chains bytes = chains_loop bytes None None (base64_runs 0 bytes)"

definition for_each_candidate :: "string \<Rightarrow> bool \<Rightarrow> candidate list" where
  "for_each_candidate bytes join_wraps =
     concat (map (\<lambda>(run_start, run_end).
       let run = slice bytes run_start run_end;
           mixed = list_ex (\<lambda>b. b \<in> set ''+/'') run \<and> list_ex (\<lambda>b. b \<in> set ''-_'') run
       in if mixed
          then visit_run_segments bytes run_start run_end (Some StandardFamily) @
               visit_run_segments bytes run_start run_end (Some UrlSafeFamily)
          else visit_run_segments bytes run_start run_end None) (base64_runs 0 bytes)) @
     (if join_wraps then visit_wrap_chains bytes else [])"

section \<open>Ranges\<close>

fun merge_ranges :: "(nat \<times> nat) list \<Rightarrow> (nat \<times> nat) list \<Rightarrow> (nat \<times> nat) list" where
  "merge_ranges merged [] = rev merged"
| "merge_ranges [] (r # rs) = merge_ranges [r] rs"
| "merge_ranges ((last_start, last_end) # merged) ((start, stop) # rs) =
     (if start < last_end then merge_ranges ((last_start, max last_end stop) # merged) rs
      else merge_ranges ((start, stop) # (last_start, last_end) # merged) rs)"

definition tainted_segment_ranges :: "base64_ext \<Rightarrow> string \<Rightarrow> alignment_scanner \<Rightarrow> bool \<Rightarrow> (nat \<times> nat) list" where
  "tainted_segment_ranges ext txt scanner join_wraps =
     merge_ranges [] (sort (map (\<lambda>(a, b, _). (a, b))
       (filter (\<lambda>(_, _, decode). segment_tainted ext scanner decode) (for_each_candidate txt join_wraps))))"

definition base64_alignment_spans :: "base64_ext \<Rightarrow> string \<Rightarrow> string list \<Rightarrow> (nat \<times> nat) list" where
  "base64_alignment_spans ext input raw_secrets =
     (case new_scanner raw_secrets of
        None \<Rightarrow> []
      | Some scanner \<Rightarrow> tainted_segment_ranges ext input scanner True)"

fun merge_spans :: "(nat \<times> nat) list \<Rightarrow> (nat \<times> nat) list \<Rightarrow> (nat \<times> nat) list" where
  "merge_spans merged [] = rev merged"
| "merge_spans [] (r # rs) = merge_spans [r] rs"
| "merge_spans ((last_start, last_end) # merged) ((start, stop) # rs) =
     (if start \<le> last_end then merge_spans ((last_start, max last_end stop) # merged) rs
      else merge_spans ((start, stop) # (last_start, last_end) # merged) rs)"

definition merge_pattern_spans :: "(nat \<times> nat) list \<Rightarrow> (nat \<times> nat) list" where
  "merge_pattern_spans spans = merge_spans [] (sort spans)"

section \<open>Merged ranges\<close>

text \<open>Both merges walk ranges sorted by their start and differ in when a range joins the one before it.
  What they share: the result covers what the input covers, in disjoint ranges in order.\<close>

definition covers :: "(nat \<times> nat) list \<Rightarrow> nat \<Rightarrow> bool" where
  "covers rs i = list_ex (\<lambda>(a, b). a \<le> i \<and> i < b) rs"

definition in_order :: "(nat \<times> nat) list \<Rightarrow> bool" where
  "in_order rs \<longleftrightarrow> sorted_wrt (\<lambda>p q. snd p \<le> fst q) rs \<and> list_all (\<lambda>(a, b). a < b) rs"

lemma covers_append [simp]: "covers (rs @ rs') i \<longleftrightarrow> covers rs i \<or> covers rs' i"
  by (simp add: covers_def)

lemma covers_Cons [simp]: "covers (r # rs) i \<longleftrightarrow> fst r \<le> i \<and> i < snd r \<or> covers rs i"
  by (auto simp: covers_def split: prod.splits)

lemma covers_Nil [simp]: "\<not> covers [] i"
  by (simp add: covers_def)

lemma covers_rev [simp]: "covers (rev rs) i = covers rs i"
  by (simp add: covers_def list_ex_iff)

lemma in_order_Cons: "in_order (r # rs) \<longleftrightarrow> list_all (\<lambda>q. snd r \<le> fst q) rs \<and> fst r < snd r \<and> in_order rs"
  by (auto simp: in_order_def list_all_iff split: prod.splits)

lemma in_order_snoc:
  "in_order (rs @ [r]) \<longleftrightarrow> list_all (\<lambda>q. snd q \<le> fst r) rs \<and> fst r < snd r \<and> in_order rs"
  by (auto simp: in_order_def list_all_iff sorted_wrt_append split: prod.splits)

locale range_merge =
  fixes joins :: "nat \<Rightarrow> nat \<Rightarrow> bool" and merge :: "(nat \<times> nat) list \<Rightarrow> (nat \<times> nat) list \<Rightarrow> (nat \<times> nat) list"
  assumes overlap_joins: "s < e \<Longrightarrow> joins s e"
    and merge_Nil: "merge m [] = rev m"
    and merge_first: "merge [] (r # rs) = merge [r] rs"
    and merge_next: "merge ((a, b) # m) ((s, e) # rs) =
      (if joins s b then merge ((a, max b e) # m) rs else merge ((s, e) # (a, b) # m) rs)"
begin

lemma merge_covers:
  assumes "sorted (map fst rs)" and "list_all (\<lambda>r. case m of [] \<Rightarrow> True | q # _ \<Rightarrow> fst q \<le> fst r) rs"
  shows "covers (rev m) i \<or> covers rs i \<longrightarrow> covers (merge m rs) i"
  using assms
proof (induction rs arbitrary: m)
  case Nil
  then show ?case by (simp add: merge_Nil)
next
  case (Cons r rs)
  note IH = Cons.IH and P = Cons.prems
  obtain s e where r: "r = (s, e)" by fastforce
  have srt: "sorted (map fst rs)" and above: "list_all (\<lambda>q. s \<le> fst q) rs"
    using P(1) by (auto simp: r list_all_iff)
  show ?case
  proof (cases m)
    case Nil
    show ?thesis using IH [OF srt, of "[r]"] above by (auto simp: Nil merge_first r)
  next
    case (Cons q m')
    obtain a b where q: "q = (a, b)" by fastforce
    have le: "a \<le> s" "list_all (\<lambda>x. a \<le> fst x) rs" using P(2) by (simp_all add: Cons q r)
    show ?thesis
    proof (cases "joins s b")
      case True
      then show ?thesis using IH [OF srt, of "(a, max b e) # m'"] le by (auto simp: Cons q r merge_next)
    next
      case False
      then show ?thesis using IH [OF srt, of "(s, e) # (a, b) # m'"] above by (auto simp: Cons q r merge_next)
    qed
  qed
qed

lemma merge_in_order:
  assumes "sorted (map fst rs)" and "list_all (\<lambda>r. case m of [] \<Rightarrow> True | q # _ \<Rightarrow> fst q \<le> fst r) rs"
    and "list_all (\<lambda>(a, b). a < b) rs" and "in_order (rev m)"
  shows "in_order (merge m rs)"
  using assms
proof (induction rs arbitrary: m)
  case Nil
  then show ?case by (simp add: merge_Nil)
next
  case (Cons r rs)
  note IH = Cons.IH and P = Cons.prems
  obtain s e where r: "r = (s, e)" by fastforce
  have srt: "sorted (map fst rs)" and above: "list_all (\<lambda>q. s \<le> fst q) rs"
    using P(1) by (auto simp: r list_all_iff)
  have se: "s < e" and ne: "list_all (\<lambda>(a, b). a < b) rs" using P(3) by (simp_all add: r)
  show ?case
  proof (cases m)
    case Nil
    show ?thesis using IH [OF srt, of "[r]"] above ne se by (simp add: Nil merge_first r in_order_def)
  next
    case (Cons q m')
    obtain a b where q: "q = (a, b)" by fastforce
    have le: "a \<le> s" "list_all (\<lambda>x. a \<le> fst x) rs" using P(2) by (simp_all add: Cons q r)
    have ord: "in_order (rev m' @ [(a, b)])" using P(4) by (simp add: Cons q)
    show ?thesis
    proof (cases "joins s b")
      case True
      have "in_order (rev ((a, max b e) # m'))" using ord by (auto simp: in_order_snoc)
      then show ?thesis using IH [OF srt, of "(a, max b e) # m'"] le ne True by (simp add: Cons q r merge_next)
    next
      case False
      then have "b \<le> s" using overlap_joins [of s b] by fastforce
      then have "in_order ((rev m' @ [(a, b)]) @ [(s, e)])"
        using ord se unfolding in_order_snoc [of "rev m' @ [(a, b)]"] by (auto simp: in_order_snoc list_all_iff)
      then have "in_order (rev ((s, e) # (a, b) # m'))" by simp
      then show ?thesis using IH [OF srt, of "(s, e) # (a, b) # m'"] above ne False by (simp add: Cons q r merge_next)
    qed
  qed
qed

lemma merge_bound:
  "list_all (\<lambda>(_, b). b \<le> n) m \<Longrightarrow> list_all (\<lambda>(_, b). b \<le> n) rs \<Longrightarrow> list_all (\<lambda>(_, b). b \<le> n) (merge m rs)"
proof (induction rs arbitrary: m)
  case (Cons r rs)
  note IH = Cons.IH and P = Cons.prems
  obtain s e where r: "r = (s, e)" by fastforce
  show ?case
  proof (cases m)
    case Nil
    then show ?thesis using IH [of "[r]"] P by (simp add: merge_first)
  next
    case (Cons q m')
    obtain a b where q: "q = (a, b)" by fastforce
    then show ?thesis using P IH [of "(a, max b e) # m'"] IH [of "(s, e) # (a, b) # m'"] by (simp add: Cons q r merge_next)
  qed
qed (simp add: merge_Nil)

lemma sorted_starts: "sorted (map fst (sort rs :: (nat \<times> nat) list))"
  by (rule sorted_map_mono [OF sorted_sort]) (auto simp: mono_on_def less_eq_prod_def)

lemma merge_sorted:
  assumes "list_all (\<lambda>(a, b). a < b) rs"
  shows "covers rs i \<Longrightarrow> covers (merge [] (sort rs)) i" "in_order (merge [] (sort rs))"
proof -
  show "covers rs i \<Longrightarrow> covers (merge [] (sort rs)) i"
    using merge_covers [OF sorted_starts [of rs], of "[]" i] by (auto simp: list_all_iff covers_def list_ex_iff)
  show "in_order (merge [] (sort rs))"
    using merge_in_order [OF sorted_starts [of rs], of "[]"] assms by (auto simp: list_all_iff in_order_def)
qed

lemma merge_sorted_bound: "list_all (\<lambda>(_, b). b \<le> n) rs \<Longrightarrow> list_all (\<lambda>(_, b). b \<le> n) (merge [] (sort rs))"
  by (rule merge_bound) (simp_all add: list_all_iff)

end

interpretation align: range_merge "\<lambda>s e. s < e" merge_ranges
  by unfold_locales auto

interpretation hints: range_merge "\<lambda>s e. s \<le> e" merge_spans
  by unfold_locales auto

section \<open>Candidates lie in the text\<close>

lemma base64_runs_within: "list_all (\<lambda>(a, b). a < b \<and> index \<le> a \<and> b \<le> index + length bytes) (base64_runs index bytes)"
proof (induction index bytes rule: base64_runs.induct)
  case (1 index bytes)
  let ?rest = "dropWhile (\<lambda>b. \<not> is_base64_byte b) bytes"
  let ?start = "index + (length bytes - length ?rest)" and ?run = "takeWhile is_base64_byte ?rest"
  show ?case
  proof (cases "?rest = []")
    case True
    then show ?thesis by (subst base64_runs.simps) (simp add: Let_def)
  next
    case False
    have b: "is_base64_byte (hd ?rest)" using hd_dropWhile [OF False] by simp
    have pos: "0 < length ?run" using False b by (cases ?rest) auto
    have len: "length ?rest \<le> length bytes" "length ?run + length (dropWhile is_base64_byte ?rest) = length ?rest"
      using length_dropWhile_le [of "\<lambda>b. \<not> is_base64_byte b" bytes]
      by (simp_all flip: length_append)
    have IH: "list_all (\<lambda>(a, b). a < b \<and> ?start + length ?run \<le> a \<and> b \<le> ?start + length ?run + length (dropWhile is_base64_byte ?rest))
        (base64_runs (?start + length ?run) (dropWhile is_base64_byte ?rest))"
      using 1 [OF refl refl refl False] by simp
    have "list_all (\<lambda>(a, b). a < b \<and> index \<le> a \<and> b \<le> index + length bytes)
        (base64_runs (?start + length ?run) (dropWhile is_base64_byte ?rest))"
      by (rule list.pred_mono_strong [OF IH]) (use len in auto)
    moreover have "index \<le> ?start" "?start + length ?run \<le> index + length bytes" using len by linarith+
    ultimately show ?thesis using False pos by (subst base64_runs.simps) (simp add: Let_def)
  qed
qed

definition candidate_within :: "nat \<Rightarrow> candidate \<Rightarrow> bool" where
  "candidate_within n c = (case c of (a, b, _) \<Rightarrow> a < b \<and> b \<le> n)"

lemma trailing_padding_bounds:
  "stop \<le> run_end \<Longrightarrow> stop \<le> trailing_padding_end bytes stop run_end \<and> trailing_padding_end bytes stop run_end \<le> run_end"
  by (simp add: trailing_padding_end_def)

lemma visit_segment_within:
  "stop \<le> run_end \<Longrightarrow> run_end \<le> n \<Longrightarrow> list_all (candidate_within n) (visit_segment bytes run_end start stop)"
  using trailing_padding_bounds [of stop run_end bytes] by (simp add: visit_segment_def candidate_within_def)

lemma segments_loop_within:
  "list_all (\<lambda>p. p < run_end) ps \<Longrightarrow> run_end \<le> n \<Longrightarrow> list_all (candidate_within n) (segments_loop bytes run_end family start ps)"
  by (induction bytes run_end family start ps rule: segments_loop.induct) (auto simp: visit_segment_within Let_def)

lemma rposition_less: "rposition P xs = Some k \<Longrightarrow> k < length xs"
  using position_Some [of P "rev xs"] by (auto simp: rposition_def)

lemma payload_segment_bounds:
  assumes "run_end \<le> length bytes" and "run_start \<le> run_end" and "payload_segment bytes run_start run_end = (a, b)"
  shows "run_start \<le> a" "a \<le> b" "b \<le> run_end"
proof -
  have b: "b = (case rposition (\<lambda>b. b \<noteq> CHR ''='') (slice bytes run_start run_end) of Some k \<Rightarrow> run_start + k + 1 | None \<Rightarrow> run_start)"
    and a: "a = (case rposition (\<lambda>b. b = CHR ''='') (slice bytes run_start b) of Some k \<Rightarrow> run_start + k + 1 | None \<Rightarrow> run_start)"
    using assms(3) by (auto simp: payload_segment_def Let_def)
  have inside: "run_start \<le> m \<and> m \<le> hi"
    if "m = (case rposition P (slice bytes run_start hi) of Some k \<Rightarrow> run_start + k + 1 | None \<Rightarrow> run_start)"
      and "run_start \<le> hi" for m hi and P :: "char \<Rightarrow> bool"
  proof (cases "rposition P (slice bytes run_start hi)")
    case (Some k)
    then have "k < hi - run_start" using rposition_less [OF Some] by (simp add: slice_def)
    then show ?thesis using that by (simp add: Some)
  qed (use that in simp)
  have "run_start \<le> b \<and> b \<le> run_end" using inside [OF b assms(2)] .
  then show "b \<le> run_end" by simp
  show "run_start \<le> a" "a \<le> b" using inside [OF a] \<open>run_start \<le> b \<and> b \<le> run_end\<close> by simp_all
qed

definition chain_ok :: "nat \<Rightarrow> chain option \<Rightarrow> bool" where
  "chain_ok n c = (case c of None \<Rightarrow> True | Some (a, _, b, r) \<Rightarrow> a < b \<and> b \<le> r \<and> r \<le> n)"

lemma close_chain_within:
  assumes "chain_ok n (Some c)"
  shows "candidate_within n (close_chain bytes c)"
proof -
  obtain a d b r where c: "c = (a, d, b, r)" by (cases c)
  have "a < b" "b \<le> r" "r \<le> n" using assms by (simp_all add: chain_ok_def c)
  then show ?thesis using trailing_padding_bounds [of b r bytes] by (simp add: c close_chain_def candidate_within_def)
qed

lemma chain_step_within:
  assumes "chain_ok (length bytes) chain" and "fst run \<le> snd run" and "snd run \<le> length bytes"
    and "chain_step bytes chain previous run = (chain', visited)"
  shows "chain_ok (length bytes) chain' \<and> list_all (candidate_within (length bytes)) visited"
proof -
  obtain a b where ab: "payload_segment bytes (fst run) (snd run) = (a, b)" by fastforce
  note seg = payload_segment_bounds [OF assms(3,2) ab]
  show ?thesis
  proof (cases chain)
    case None
    then show ?thesis using assms(3,4) seg by (auto simp: chain_step_def ab Let_def chain_ok_def split: if_splits)
  next
    case (Some c)
    obtain x d e r where c: "c = (x, d, e, r)" by (cases c)
    have old: "candidate_within (length bytes) (close_chain bytes (x, d, e, r))"
      using close_chain_within assms(1) by (simp add: Some c)
    show ?thesis
    proof (cases "newline_len_at bytes e \<noteq> 0 \<and> a < b \<and> a = e + newline_len_at bytes e")
      case True
      then have "chain_ok (length bytes) (Some (x, d @ slice bytes a b, b, snd run))"
        using assms(1,3) seg by (auto simp: chain_ok_def Some c)
      then show ?thesis using assms(4) True close_chain_within
        by (auto simp: chain_step_def ab Let_def Some c chain_ok_def split: if_splits)
    next
      case False
      then show ?thesis using assms(4) old by (auto simp: chain_step_def ab Let_def Some c chain_ok_def)
    qed
  qed
qed

lemma chains_loop_within:
  "chain_ok (length bytes) chain \<Longrightarrow> list_all (\<lambda>(a, b). a \<le> b \<and> b \<le> length bytes) runs \<Longrightarrow>
   list_all (candidate_within (length bytes)) (chains_loop bytes chain previous runs)"
proof (induction bytes chain previous runs rule: chains_loop.induct)
  case (1 bytes chain previous)
  then show ?case using close_chain_within by (auto split: option.split)
next
  case (2 bytes chain previous run runs)
  obtain c' v where cv: "chain_step bytes chain previous run = (c', v)" by fastforce
  have "fst run \<le> snd run" "snd run \<le> length bytes" using "2.prems"(2) by (auto split: prod.splits)
  then show ?case using chain_step_within [OF "2.prems"(1) _ _ cv] "2.IH" [of "(c', v)" c' v] "2.prems"(2) cv by simp
qed

lemma candidates_within: "list_all (candidate_within (length bytes)) (for_each_candidate bytes join_wraps)"
proof -
  have runs: "list_all (\<lambda>(a, b). a < b \<and> b \<le> length bytes) (base64_runs 0 bytes)"
    using base64_runs_within [of 0 bytes] by (auto simp: list_all_iff)
  have "list_all (candidate_within (length bytes)) (visit_run_segments bytes a b family)" if "b \<le> length bytes" for a b family
    unfolding visit_run_segments_def by (rule segments_loop_within) (use that in \<open>auto simp: list_all_iff\<close>)
  then have "list_all (candidate_within (length bytes)) (for_each_candidate bytes False)"
    using runs by (auto simp: for_each_candidate_def list_all_iff Let_def split: if_splits) 
  moreover have "list_all (candidate_within (length bytes)) (visit_wrap_chains bytes)"
    unfolding visit_wrap_chains_def
    by (rule chains_loop_within) (use runs in \<open>auto simp: chain_ok_def list_all_iff\<close>)
  ultimately show ?thesis by (simp add: for_each_candidate_def)
qed

end
