(* ===== verification/Secret_Masking.thy ===== *)
theory Secret_Masking
  imports Base64_Scan "HOL-Library.Sublist"
begin

text \<open>
  Secret masking, \<^verbatim>\<open>crates/preloop-gha-protocol/src/masking.rs\<close>: the variants of a secret that are masked
  with it, the one scan behind every entry point, and the helpers for URLs. A pattern hint is the
  function from a text to the spans it matches; the \<^verbatim>\<open>base64\<close> crate is an argument.

  A text is the list of its bytes, valid UTF-8 as every \<^verbatim>\<open>str\<close> is (\<open>utf8_ok\<close>). Where no match starts,
  the source copies one character and the model one byte: a secret, like every span that is kept,
  begins at a character boundary, so none begins at the bytes in between.

  The properties: what is shown consists of copied bytes and markers, and no registered secret without an
  asterisk, none of its variants and, in the strength the logs use, none of their spellings in other letter case can
  be read in it; spans of pattern hints and of tainted base64 segments are hidden to the last byte;
  the line-preserving mode keeps every line break; masking twice is masking once. Two gaps are shown
  as well: a value that overlaps the end of another, and one that begins with an asterisk.
\<close>

section \<open>Variants\<close>

definition MASK_MARKER :: string where "MASK_MARKER = ''***''"

definition hex_lower :: "nat \<Rightarrow> char" where
  "hex_lower n = (if n < 10 then char_of (48 + n) else char_of (87 + n))"

definition hex_upper :: "nat \<Rightarrow> char" where
  "hex_upper n = (if n < 10 then char_of (48 + n) else char_of (55 + n))"

definition byte_hex :: "(nat \<Rightarrow> char) \<Rightarrow> char \<Rightarrow> string" where
  "byte_hex digit b = [digit ((of_char b :: nat) div 16), digit ((of_char b :: nat) mod 16)]"

definition percent_encode :: "string \<Rightarrow> string" where
  "percent_encode bytes =
     concat (map (\<lambda>b. if is_ascii_alphanumeric b \<or> b \<in> set ''-_.~'' then [b] else CHR ''%'' # byte_hex hex_upper b) bytes)"

definition push_unique :: "string \<Rightarrow> string \<Rightarrow> string list \<Rightarrow> string list" where
  "push_unique raw v out = (if v \<noteq> [] \<and> v \<noteq> raw \<and> v \<notin> set out then out @ [v] else out)"

definition secret_variants :: "base64_ext \<Rightarrow> string \<Rightarrow> string list" where
  "secret_variants ext secret =
     (if secret = [] then []
      else fold (push_unique secret)
        [std_encode ext secret, std_encode_nopad ext secret, url_encode ext secret, url_encode_nopad ext secret,
         percent_encode secret, concat (map (byte_hex hex_lower) secret), concat (map (byte_hex hex_upper) secret)] [])"

section \<open>The scan\<close>

definition secret_at :: "bool \<Rightarrow> string \<Rightarrow> string \<Rightarrow> bool" where
  "secret_at case_insensitive secret rest \<longleftrightarrow>
     length secret \<le> length rest \<and>
     (if case_insensitive then eq_ignore_ascii_case (take (length secret) rest) secret
      else take (length secret) rest = secret)"

definition match_secret_at :: "string \<Rightarrow> string list \<Rightarrow> bool \<Rightarrow> string option" where
  "match_secret_at rest secrets case_insensitive =
     find (\<lambda>secret. is_char_boundary rest (length secret) \<and> secret_at case_insensitive secret rest) secrets"

fun line_marks :: "string \<Rightarrow> string" where
  "line_marks (c # d # cs) =
     (if c = CHR 0x0D \<and> d = CHR 0x0A then c # d # MASK_MARKER @ line_marks cs
      else if c = CHR 0x0D \<or> c = CHR 0x0A then c # MASK_MARKER @ line_marks (d # cs)
      else line_marks (d # cs))"
| "line_marks [c] = (if c = CHR 0x0D \<or> c = CHR 0x0A then c # MASK_MARKER else [])"
| "line_marks [] = []"

definition push_line_preserving_marker :: "string \<Rightarrow> string" where
  "push_line_preserving_marker span = MASK_MARKER @ line_marks span"

definition is_line_break :: "char \<Rightarrow> bool" where
  "is_line_break c \<longleftrightarrow> c = CHR 0x0A \<or> c = CHR 0x0D"

definition preserving_marker :: "string \<Rightarrow> string" where
  "preserving_marker span =
     MASK_MARKER @ concat (map (\<lambda>c. if is_line_break c then c # MASK_MARKER else []) span)"

definition span_at :: "(nat \<times> nat) list \<Rightarrow> nat \<Rightarrow> nat option" where
  "span_at spans offset =
     (case spans of (start, stop) # _ \<Rightarrow> if start \<le> offset then Some stop else None | [] \<Rightarrow> None)"

definition longest_len :: "nat option \<Rightarrow> nat option \<Rightarrow> nat option" where
  "longest_len v p =
     (case v of
        None \<Rightarrow> p
      | Some n \<Rightarrow> (case p of None \<Rightarrow> Some n | Some k \<Rightarrow> Some (max n k)))"

abbreviation drop_passed :: "nat \<Rightarrow> (nat \<times> nat) list \<Rightarrow> (nat \<times> nat) list" where
  "drop_passed offset \<equiv> dropWhile (\<lambda>(_, stop). stop \<le> offset)"

text \<open>Neither a secret nor a span is empty, so every turn of the loop consumes at least the byte \<open>c\<close>.\<close>

function mask_loop ::
  "bool \<Rightarrow> bool \<Rightarrow> string list \<Rightarrow> (nat \<times> nat) list \<Rightarrow> (nat \<times> nat) list \<Rightarrow> nat \<Rightarrow> string \<Rightarrow> string" where
  "mask_loop preserve_lines ci secrets aligned spans offset [] = []"
| "mask_loop preserve_lines ci secrets aligned spans offset (c # cs) =
     (let aligned = drop_passed offset aligned
      in case span_at aligned offset of
           Some stop \<Rightarrow>
             push_line_preserving_marker (take (stop - offset) (c # cs)) @
             mask_loop preserve_lines ci secrets aligned spans stop (drop (stop - offset - 1) cs)
         | None \<Rightarrow>
             (let value_len = map_option length (match_secret_at (c # cs) secrets ci);
                  spans = drop_passed offset spans;
                  pattern_len = map_option (\<lambda>stop. stop - offset) (span_at spans offset)
              in case longest_len value_len pattern_len of
                   Some n \<Rightarrow>
                     if starts_with MASK_MARKER (c # cs) \<and> n \<le> length MASK_MARKER
                     then MASK_MARKER @ mask_loop preserve_lines ci secrets aligned spans (offset + 3) (drop 2 cs)
                     else (if preserve_lines then preserving_marker (take n (c # cs)) else MASK_MARKER) @
                          mask_loop preserve_lines ci secrets aligned spans (offset + n) (drop (n - 1) cs)
                 | None \<Rightarrow>
                     if starts_with MASK_MARKER (c # cs)
                     then MASK_MARKER @ mask_loop preserve_lines ci secrets aligned spans (offset + 3) (drop 2 cs)
                     else c # mask_loop preserve_lines ci secrets aligned spans (offset + 1) cs))"
  by pat_completeness auto

termination by (relation "measure (\<lambda>(_, _, _, _, _, _, rest). length rest)") auto

declare mask_loop.simps(2) [simp del]

definition push_new :: "'a \<Rightarrow> 'a list \<Rightarrow> 'a list" where
  "push_new x xs = (if x \<in> set xs then xs else xs @ [x])"

definition collect_secrets ::
  "base64_ext \<Rightarrow> string list \<Rightarrow> bool \<Rightarrow> string list \<Rightarrow> string list \<times> string list" where
  "collect_secrets ext exclude transform_aware secrets =
     fold (\<lambda>secret (found, raw).
       if secret = [] \<or> secret \<in> set exclude then (found, raw)
       else let found = push_new secret found; raw = push_new secret raw
            in (if transform_aware then fold push_new (secret_variants ext secret) found else found, raw))
       secrets ([], [])"

definition mask_secrets_inner ::
  "base64_ext \<Rightarrow> string \<Rightarrow> string list \<Rightarrow> (string \<Rightarrow> (nat \<times> nat) list) list \<Rightarrow> string list \<Rightarrow> bool \<Rightarrow> bool \<Rightarrow> string" where
  "mask_secrets_inner ext input secrets patterns exclude preserve_lines transform_aware =
     (let (found, raw_secrets) = collect_secrets ext exclude transform_aware secrets;
          sorted = sort_key (\<lambda>s. - int (length s)) found;
          aligned = (if transform_aware then base64_alignment_spans ext input raw_secrets else []);
          spans = concat (map (\<lambda>pattern. pattern input) patterns);
          spans = filter (\<lambda>(start, stop). start < stop \<and> stop \<le> length input \<and>
            is_char_boundary input start \<and> is_char_boundary input stop) spans;
          spans = merge_pattern_spans spans
      in mask_loop preserve_lines transform_aware sorted aligned spans 0 input)"

text \<open>The entry points.\<close>

definition mask_secrets :: "base64_ext \<Rightarrow> string \<Rightarrow> string list \<Rightarrow> string list \<Rightarrow> string" where
  "mask_secrets ext input secrets exclude = mask_secrets_inner ext input secrets [] exclude False False"

definition mask_secrets_with_patterns where
  "mask_secrets_with_patterns ext input secrets patterns exclude =
     mask_secrets_inner ext input secrets patterns exclude False False"

definition mask_secrets_transform_aware where
  "mask_secrets_transform_aware ext input secrets exclude = mask_secrets_inner ext input secrets [] exclude False True"

definition mask_secrets_transform_aware_with_patterns where
  "mask_secrets_transform_aware_with_patterns ext input secrets patterns exclude =
     mask_secrets_inner ext input secrets patterns exclude False True"

definition mask_secrets_preserving_lines where
  "mask_secrets_preserving_lines ext input secrets exclude = mask_secrets_inner ext input secrets [] exclude True False"

definition mask_secrets_preserving_lines_with_patterns where
  "mask_secrets_preserving_lines_with_patterns ext input secrets patterns exclude =
     mask_secrets_inner ext input secrets patterns exclude True False"

definition mask_secrets_preserving_lines_transform_aware where
  "mask_secrets_preserving_lines_transform_aware ext input secrets exclude =
     mask_secrets_inner ext input secrets [] exclude True True"

definition mask_secrets_preserving_lines_transform_aware_with_patterns where
  "mask_secrets_preserving_lines_transform_aware_with_patterns ext input secrets patterns exclude =
     mask_secrets_inner ext input secrets patterns exclude True True"

section \<open>URLs\<close>

definition authority_len :: "string \<Rightarrow> nat" where
  "authority_len rest = length (takeWhile (\<lambda>c. c \<notin> set ''/?#'') rest)"

definition after_scheme :: "string \<Rightarrow> nat" where
  "after_scheme url = (case find_sub ''://'' url of Some i \<Rightarrow> i + 3 | None \<Rightarrow> 0)"

definition strip_url_userinfo :: "string \<Rightarrow> string" where
  "strip_url_userinfo url =
     (let rest = drop (after_scheme url) url; authority = take (authority_len rest) rest
      in case rposition (\<lambda>c. c = CHR ''@'') authority of
           Some k \<Rightarrow> take (after_scheme url) url @ drop (k + 1) authority @ drop (authority_len rest) rest
         | None \<Rightarrow> url)"

definition hex_value :: "char \<Rightarrow> nat option" where
  "hex_value c =
     (let n = (of_char c :: nat)
      in if 48 \<le> n \<and> n \<le> 57 then Some (n - 48) else if 97 \<le> n \<and> n \<le> 102 then Some (n - 87)
         else if 65 \<le> n \<and> n \<le> 70 then Some (n - 55) else None)"

fun percent_decode_bytes :: "string \<Rightarrow> string" where
  "percent_decode_bytes (c # h # l # cs) =
     (case (c = CHR ''%'', hex_value h, hex_value l) of
        (True, Some high, Some low) \<Rightarrow> char_of (high * 16 + low) # percent_decode_bytes cs
      | _ \<Rightarrow> c # percent_decode_bytes (h # l # cs))"
| "percent_decode_bytes (c # cs) = c # percent_decode_bytes cs"
| "percent_decode_bytes [] = []"

text \<open>\<open>from_utf8\<close> is \<^verbatim>\<open>String::from_utf8\<close>'s check.\<close>

definition percent_decode :: "(string \<Rightarrow> bool) \<Rightarrow> string \<Rightarrow> string option" where
  "percent_decode from_utf8 input =
     (if from_utf8 (percent_decode_bytes input) then Some (percent_decode_bytes input) else None)"

definition url_password_masks :: "(string \<Rightarrow> bool) \<Rightarrow> string \<Rightarrow> string list" where
  "url_password_masks from_utf8 url =
     (let rest = drop (after_scheme url) url; authority = take (authority_len rest) rest
      in case Option.bind (rposition (\<lambda>c. c = CHR ''@'') authority) (\<lambda>k. position (\<lambda>c. c = CHR '':'') (take k authority)) of
           None \<Rightarrow> []
         | Some i \<Rightarrow>
             (let password = drop (i + 1) (take (the (rposition (\<lambda>c. c = CHR ''@'') authority)) authority)
              in if password = [] then []
                 else password # (case percent_decode from_utf8 password of
                        Some decoded \<Rightarrow> if decoded \<noteq> [] \<and> decoded \<noteq> password then [decoded] else []
                      | None \<Rightarrow> [])))"

section \<open>Matches end at character boundaries\<close>

lemma lower_class: "utf8_len (char_lower x) = utf8_len x" "is_continuation (char_lower x) = is_continuation x"
  by (auto simp: char_lower_def utf8_len_def is_continuation_def Let_def)

lemma char_lower_class: "char_lower c = char_lower d \<Longrightarrow> utf8_len c = utf8_len d"
  using lower_class(1) by metis

lemma continuation_lower:
  assumes "to_lower a = to_lower b"
  shows "list_all is_continuation a = list_all is_continuation b"
proof -
  have "list_all is_continuation (to_lower x) = list_all is_continuation x" for x
    by (simp add: list.pred_map comp_def lower_class(2))
  then show ?thesis using assms by metis
qed

lemma utf8_ok_lower: "to_lower s = to_lower t \<Longrightarrow> utf8_ok s \<longleftrightarrow> utf8_ok t"
proof (induction s arbitrary: t rule: utf8_ok.induct)
  case (2 c cs)
  then obtain d ds where t: "t = d # ds" and e: "char_lower c = char_lower d" "to_lower cs = to_lower ds"
    by (cases t) auto
  have n: "utf8_len d = utf8_len c" using char_lower_class [OF e(1)] by simp
  have all: "list_all is_continuation (take k cs) = list_all is_continuation (take k ds)" for k
    by (rule continuation_lower) (metis e(2) take_map)
  have "to_lower (drop k cs) = to_lower (drop k ds)" for k using e(2) by (metis drop_map)
  then have "utf8_ok (drop (utf8_len c - 1) cs) = utf8_ok (drop (utf8_len c - 1) ds)" by (rule "2.IH")
  moreover have "length cs = length ds" using e(2) by (metis length_map)
  ultimately show ?case by (simp add: t n all)
qed simp

lemma secret_at_lower: "secret_at ci s r \<Longrightarrow> length s \<le> length r \<and> to_lower (take (length s) r) = to_lower s"
  by (auto simp: secret_at_def eq_ignore_ascii_case_def split: if_splits)

lemma secret_boundary:
  assumes "utf8_ok (u @ r)" and "utf8_ok s" and "s \<noteq> []" and "secret_at ci s r"
  shows "is_char_boundary r (length s)"
proof -
  have s: "length s \<le> length r" "to_lower (take (length s) r) = to_lower s" using secret_at_lower [OF assms(4)] by simp_all
  have ok: "utf8_ok (take (length s) r)" using utf8_ok_lower [OF s(2)] assms(2) by simp
  have ne: "take (length s) r \<noteq> []" using assms(3) s(1) by auto
  then obtain c cs where r: "r = c # cs" by (cases r) auto
  obtain ds where "take (length s) r = c # ds" using ne by (cases "length s") (auto simp: r)
  then have "\<not> is_continuation c" using ok utf8_hd by metis
  then have "utf8_ok r" using assms(1) utf8_suffix by (simp add: r)
  then have "utf8_ok (drop (length s) r)" using utf8_cancel [OF ok, of "drop (length s) r"] by simp
  show ?thesis
  proof (cases "length s < length r")
    case True
    then have "drop (length s) r = r ! length s # drop (Suc (length s)) r" by (rule Cons_nth_drop_Suc [symmetric])
    then have "\<not> is_continuation (r ! length s)" using \<open>utf8_ok (drop (length s) r)\<close> utf8_hd by metis
    then show ?thesis using True by (simp add: is_char_boundary_def)
  qed (use s(1) in \<open>simp add: is_char_boundary_def\<close>)
qed

section \<open>Copied bytes and markers\<close>

text \<open>The output of a scan in pieces: a byte that was copied, or a span of the input with the marker text
  shown for it. A marker text begins and ends with an asterisk and has nothing but asterisks and line
  breaks.\<close>

datatype piece = Kept char | Masked string string

fun piece_src :: "piece \<Rightarrow> string" where
  "piece_src (Kept c) = [c]"
| "piece_src (Masked span out) = span"

fun piece_out :: "piece \<Rightarrow> string" where
  "piece_out (Kept c) = [c]"
| "piece_out (Masked span out) = out"

abbreviation src_of :: "piece list \<Rightarrow> string" where "src_of ps \<equiv> concat (map piece_src ps)"
abbreviation out_of :: "piece list \<Rightarrow> string" where "out_of ps \<equiv> concat (map piece_out ps)"

definition marker_like :: "string \<Rightarrow> bool" where
  "marker_like out \<longleftrightarrow> out \<noteq> [] \<and> hd out = CHR ''*'' \<and> last out = CHR ''*'' \<and>
     list_all (\<lambda>c. c = CHR ''*'' \<or> is_line_break c) out"

fun marker_ok :: "bool \<Rightarrow> piece \<Rightarrow> bool" where
  "marker_ok keep_lines (Kept c) = True"
| "marker_ok keep_lines (Masked span out) =
     (marker_like out \<and> (keep_lines \<longrightarrow> filter is_line_break out = filter is_line_break span))"

text \<open>A condition on every copied byte: it sees the byte's offset and the input from there on.\<close>

fun clean :: "(nat \<Rightarrow> string \<Rightarrow> bool) \<Rightarrow> nat \<Rightarrow> piece list \<Rightarrow> bool" where
  "clean Q offset [] = True"
| "clean Q offset (Kept c # ps) = (Q offset (c # src_of ps) \<and> clean Q (offset + 1) ps)"
| "clean Q offset (Masked span out # ps) = clean Q (offset + length span) ps"

lemma clean_mono:
  "clean Q offset ps \<Longrightarrow> (\<And>i r. offset \<le> i \<Longrightarrow> Q i r \<Longrightarrow> Q' i r) \<Longrightarrow> clean Q' offset ps"
  by (induction Q offset ps rule: clean.induct) auto

lemma clean_append:
  "clean Q offset (ps @ Kept c # ps') \<Longrightarrow> Q (offset + length (src_of ps)) (c # src_of ps')"
proof (induction ps arbitrary: offset)
  case (Cons p ps)
  then show ?case using Cons.IH [of "offset + length (piece_src p)"] by (cases p) (auto simp: add.assoc)
qed simp

lemma marker_like_marker: "marker_like MASK_MARKER"
  by (simp add: marker_like_def MASK_MARKER_def)

lemma marker_like_join: "marker_like a \<Longrightarrow> is_line_break c \<Longrightarrow> marker_like b \<Longrightarrow> marker_like (a @ c # b)"
  by (auto simp: marker_like_def)

lemma preserving_marker_ok:
  "marker_like (preserving_marker span) \<and> filter is_line_break (preserving_marker span) = filter is_line_break span"
proof -
  have star: "\<not> is_line_break CHR ''*''" by (simp add: is_line_break_def)
  have "marker_like (m @ concat (map (\<lambda>c. if is_line_break c then c # MASK_MARKER else []) span)) \<and>
      filter is_line_break (concat (map (\<lambda>c. if is_line_break c then c # MASK_MARKER else []) span)) =
        filter is_line_break span" if "marker_like m" for m
    using that
  proof (induction span arbitrary: m)
    case (Cons c span)
    then show ?case
      using Cons.IH [of "m @ c # MASK_MARKER"] marker_like_join [OF Cons.prems, of c MASK_MARKER] marker_like_marker star
      by (cases "is_line_break c") (auto simp: MASK_MARKER_def)
  qed simp
  from this [OF marker_like_marker] show ?thesis
    using star by (simp add: preserving_marker_def) (simp add: MASK_MARKER_def)
qed

lemma line_preserving_marker_ok:
  "marker_like (push_line_preserving_marker span) \<and>
   filter is_line_break (push_line_preserving_marker span) = filter is_line_break span"
proof -
  have star: "\<not> is_line_break CHR ''*''" by (simp add: is_line_break_def)
  have "marker_like (m @ line_marks span) \<and> filter is_line_break (line_marks span) = filter is_line_break span"
    if "marker_like m" for m
    using that
  proof (induction span arbitrary: m rule: line_marks.induct)
    case (1 c d cs)
    have two: "marker_like (m @ [c, d] @ MASK_MARKER)" if "c = CHR 0x0D" "d = CHR 0x0A"
      using "1.prems" marker_like_marker that by (auto simp: marker_like_def is_line_break_def)
    show ?case
    proof (cases "c = CHR 0x0D \<and> d = CHR 0x0A")
      case True
      then show ?thesis using "1.IH"(1) [OF True two] star by (simp add: is_line_break_def MASK_MARKER_def)
    next
      case False
      show ?thesis
      proof (cases "c = CHR 0x0D \<or> c = CHR 0x0A")
        case True
        then have c: "is_line_break c" by (auto simp: is_line_break_def)
        have "line_marks (c # d # cs) = c # MASK_MARKER @ line_marks (d # cs)" using False True by auto
        then show ?thesis
          using "1.IH"(2) [OF False True marker_like_join [OF "1.prems" c marker_like_marker]] star c
          by (simp add: MASK_MARKER_def del: line_marks.simps)
      next
        case False'': False
        then show ?thesis using "1.IH"(3) [OF False False'' "1.prems"] False by (simp add: is_line_break_def)
      qed
    qed
  next
    case (2 c)
    then show ?case using marker_like_join [OF 2, of c MASK_MARKER] marker_like_marker
      by (auto simp: is_line_break_def MASK_MARKER_def)
  next
    case 3
    then show ?case by simp
  qed
  from this [OF marker_like_marker] show ?thesis
    using star by (simp add: push_line_preserving_marker_def) (simp add: MASK_MARKER_def)
qed

text \<open>What the loop guarantees of a copied byte other than an asterisk.\<close>

definition safe_byte ::
  "bool \<Rightarrow> string list \<Rightarrow> (nat \<times> nat) list \<Rightarrow> (nat \<times> nat) list \<Rightarrow> nat \<Rightarrow> string \<Rightarrow> bool" where
  "safe_byte ci secrets aligned spans i r =
     (case r of
        [] \<Rightarrow> True
      | c # _ \<Rightarrow> c \<noteq> CHR ''*'' \<longrightarrow> match_secret_at r secrets ci = None \<and> \<not> covers aligned i \<and> \<not> covers spans i)"

lemma covers_drop_passed: "offset \<le> i \<Longrightarrow> covers (drop_passed offset rs) i = covers rs i"
  by (induction rs) auto

lemma in_order_drop_passed: "in_order rs \<Longrightarrow> in_order (drop_passed offset rs)"
  by (induction rs) (auto simp: in_order_Cons)

lemma drop_passed_subset: "set (drop_passed offset rs) \<subseteq> set rs"
  by (meson set_dropWhileD subsetI)

lemma span_at_None:
  assumes "in_order rs" and "span_at rs offset = None"
  shows "\<not> covers rs offset"
proof (cases rs)
  case (Cons r rs')
  then have "offset < fst r" using assms(2) by (auto simp: span_at_def split: prod.splits if_splits)
  moreover have "\<forall>q \<in> set rs'. snd r \<le> fst q" "fst r < snd r" using assms(1) by (auto simp: Cons in_order_Cons list_all_iff)
  ultimately show ?thesis by (fastforce simp: Cons covers_def list_ex_iff)
qed simp

lemma span_at_Some:
  assumes "span_at (drop_passed offset rs) offset = Some stop"
  shows "offset < stop" "\<exists>start. (start, stop) \<in> set rs"
proof -
  obtain start rest where d: "drop_passed offset rs = (start, stop) # rest"
    using assms by (auto simp: span_at_def split: list.splits if_splits)
  show "offset < stop" using hd_dropWhile [of "\<lambda>(_, stop). stop \<le> offset" rs] d by simp
  show "\<exists>start. (start, stop) \<in> set rs" using drop_passed_subset [of offset rs] d by auto
qed

definition within_text :: "(nat \<times> nat) list \<Rightarrow> nat \<Rightarrow> bool" where
  "within_text rs n \<longleftrightarrow> list_all (\<lambda>(_, stop). stop \<le> n) rs"

lemma within_drop_passed: "within_text rs n \<Longrightarrow> within_text (drop_passed offset rs) n"
  by (induction rs) (auto simp: within_text_def)

lemma safe_drop_passed:
  "offset \<le> i \<Longrightarrow> safe_byte ci secrets (drop_passed offset aligned) (drop_passed offset spans) i r \<Longrightarrow>
   safe_byte ci secrets aligned spans i r"
  "offset \<le> i \<Longrightarrow> safe_byte ci secrets (drop_passed offset aligned) spans i r \<Longrightarrow>
   safe_byte ci secrets aligned spans i r"
  by (auto simp: safe_byte_def covers_drop_passed split: list.splits)

definition pieces_of ::
  "bool \<Rightarrow> bool \<Rightarrow> string list \<Rightarrow> (nat \<times> nat) list \<Rightarrow> (nat \<times> nat) list \<Rightarrow> nat \<Rightarrow> string \<Rightarrow> piece list \<Rightarrow> string \<Rightarrow> bool" where
  "pieces_of pl ci secrets aligned spans offset rest ps out \<longleftrightarrow>
     src_of ps = rest \<and> out_of ps = out \<and> list_all (marker_ok pl) ps \<and>
     clean (safe_byte ci secrets aligned spans) offset ps"

lemma pieces_clean:
  assumes "pieces_of pl ci secrets aligned' spans' k rest ps out" and "offset \<le> k"
    and "\<And>i r. offset \<le> i \<Longrightarrow> safe_byte ci secrets aligned' spans' i r \<Longrightarrow> safe_byte ci secrets aligned spans i r"
  shows "clean (safe_byte ci secrets aligned spans) k ps"
proof (rule clean_mono)
  show "clean (safe_byte ci secrets aligned' spans') k ps" using assms(1) by (simp add: pieces_of_def)
  show "safe_byte ci secrets aligned spans i r" if "k \<le> i" "safe_byte ci secrets aligned' spans' i r" for i r
    using assms(2,3) that le_trans by blast
qed

lemma pieces_masked:
  assumes "pieces_of pl ci secrets aligned' spans' (offset + n) (drop (n - 1) cs) ps rest_out"
    and "0 < n" and "n \<le> Suc (length cs)" and "marker_ok pl (Masked (take n (c # cs)) out)"
    and "\<And>i r. offset \<le> i \<Longrightarrow> safe_byte ci secrets aligned' spans' i r \<Longrightarrow> safe_byte ci secrets aligned spans i r"
  shows "pieces_of pl ci secrets aligned spans offset (c # cs) (Masked (take n (c # cs)) out # ps) (out @ rest_out)"
proof -
  have "clean (safe_byte ci secrets aligned spans) (offset + n) ps"
    by (rule pieces_clean [OF assms(1) _ assms(5)]) simp_all
  moreover have "take n (c # cs) @ drop (n - 1) cs = c # cs"
    using assms(2) by (cases n) auto
  ultimately show ?thesis using assms(1,3,4) by (simp add: pieces_of_def min_absorb2)
qed

lemma pieces_marker:
  assumes "pieces_of pl ci secrets aligned' spans' (offset + 3) (drop 2 cs) ps rest_out"
    and "starts_with MASK_MARKER (c # cs)"
    and "\<And>i r. offset \<le> i \<Longrightarrow> safe_byte ci secrets aligned' spans' i r \<Longrightarrow> safe_byte ci secrets aligned spans i r"
  shows "pieces_of pl ci secrets aligned spans offset (c # cs)
    (Kept CHR ''*'' # Kept CHR ''*'' # Kept CHR ''*'' # ps) (MASK_MARKER @ rest_out)"
proof -
  obtain ds where ds: "c = CHR ''*''" "cs = CHR ''*'' # CHR ''*'' # ds"
    using assms(2) unfolding starts_with_iff by (auto simp: MASK_MARKER_def)
  have "clean (safe_byte ci secrets aligned spans) (offset + 3) ps"
    by (rule pieces_clean [OF assms(1) _ assms(3)]) simp_all
  then show ?thesis using assms(1)
    by (simp add: pieces_of_def ds MASK_MARKER_def) (simp add: safe_byte_def eval_nat_numeral)
qed

lemma pieces_kept:
  assumes "pieces_of pl ci secrets aligned' spans' (offset + 1) cs ps rest_out"
    and "safe_byte ci secrets aligned spans offset (c # cs)"
    and "\<And>i r. offset \<le> i \<Longrightarrow> safe_byte ci secrets aligned' spans' i r \<Longrightarrow> safe_byte ci secrets aligned spans i r"
  shows "pieces_of pl ci secrets aligned spans offset (c # cs) (Kept c # ps) (c # rest_out)"
proof -
  have "clean (safe_byte ci secrets aligned spans) (offset + 1) ps"
    by (rule pieces_clean [OF assms(1) _ assms(3)]) simp_all
  then show ?thesis using assms(1,2) by (simp add: pieces_of_def)
qed

lemma match_length:
  assumes "list_all (\<lambda>s. s \<noteq> []) secrets" and "match_secret_at r secrets ci = Some s"
  shows "0 < length s" "length s \<le> length r"
  using assms by (auto simp: match_secret_at_def find_Some_iff secret_at_def list_all_length)

lemma marker_fits: "starts_with MASK_MARKER r \<Longrightarrow> 3 \<le> length r"
  unfolding starts_with_iff by (auto simp: MASK_MARKER_def)

lemma longest_len_Some:
  "longest_len v p = Some n \<Longrightarrow> v = Some n \<or> p = Some n"
  by (auto simp: longest_len_def max_def split: option.splits)

lemma longest_len_None: "longest_len v p = None \<longleftrightarrow> v = None \<and> p = None"
  by (auto simp: longest_len_def split: option.splits)

lemma mask_loop_pieces:
  assumes "list_all (\<lambda>s. s \<noteq> []) secrets" and "in_order aligned" and "in_order spans"
    and "within_text aligned (offset + length rest)" and "within_text spans (offset + length rest)"
  shows "\<exists>ps. pieces_of pl ci secrets aligned spans offset rest ps (mask_loop pl ci secrets aligned spans offset rest)"
  using assms(2-5)
proof (induction rest arbitrary: aligned spans offset rule: length_induct)
  case (1 rest)
  show ?case
  proof (cases rest)
    case Nil
    have "pieces_of pl ci secrets aligned spans offset rest [] (mask_loop pl ci secrets aligned spans offset rest)"
      by (simp add: pieces_of_def Nil)
    then show ?thesis ..
  next
    case (Cons c cs)
    let ?al = "drop_passed offset aligned" and ?sp = "drop_passed offset spans"
    note ord = in_order_drop_passed [OF "1.prems"(1), of offset] in_order_drop_passed [OF "1.prems"(2), of offset]
    note fit = within_drop_passed [OF "1.prems"(3), of offset] within_drop_passed [OF "1.prems"(4), of offset]
    have IH: "\<exists>ps. pieces_of pl ci secrets ?al sp (offset + k) (drop (k - 1) cs) ps
        (mask_loop pl ci secrets ?al sp (offset + k) (drop (k - 1) cs))"
      if "0 < k" "k \<le> Suc (length cs)" "in_order sp" "within_text sp (offset + length rest)" for k sp
    proof -
      have "length (drop (k - 1) cs) < length rest" by (simp add: Cons)
      moreover have "offset + k + length (drop (k - 1) cs) = offset + length rest" using that by (simp add: Cons)
      ultimately show ?thesis using "1.IH" ord(1) fit(1) that(3,4) by metis
    qed
    show ?thesis
    proof (cases "span_at ?al offset")
      case (Some stop)
      let ?n = "stop - offset"
      have n: "0 < ?n" "?n \<le> Suc (length cs)" "offset + ?n = stop"
        using span_at_Some [OF Some] "1.prems"(3) by (auto simp: within_text_def list_all_iff Cons)
      obtain ps where ps: "pieces_of pl ci secrets ?al spans stop (drop (?n - 1) cs) ps
          (mask_loop pl ci secrets ?al spans stop (drop (?n - 1) cs))"
        using IH [OF n(1,2) "1.prems"(2,4)] n(3) by auto
      have "pieces_of pl ci secrets aligned spans offset (c # cs)
          (Masked (take ?n (c # cs)) (push_line_preserving_marker (take ?n (c # cs))) # ps)
          (push_line_preserving_marker (take ?n (c # cs)) @ mask_loop pl ci secrets ?al spans stop (drop (?n - 1) cs))"
        using pieces_masked [of pl ci secrets ?al spans offset ?n cs ps] ps n line_preserving_marker_ok safe_drop_passed(2) by simp
      then show ?thesis using Some by (auto simp: Cons mask_loop.simps(2) Let_def)
    next
      case None
      note mono = safe_drop_passed(1) [of offset _ ci secrets aligned spans]
      show ?thesis
      proof (cases "longest_len (map_option length (match_secret_at (c # cs) secrets ci)) (map_option (\<lambda>stop. stop - offset) (span_at ?sp offset))")
        case (Some n)
        have "0 < n \<and> n \<le> Suc (length cs)"
          using longest_len_Some [OF Some]
        proof
          assume "map_option length (match_secret_at (c # cs) secrets ci) = Some n"
          then show ?thesis using match_length [OF assms(1), of "c # cs" ci] by fastforce
        next
          assume "map_option (\<lambda>stop. stop - offset) (span_at ?sp offset) = Some n"
          then obtain z where z: "span_at ?sp offset = Some z" "n = z - offset" by auto
          then show ?thesis using span_at_Some [OF z(1)] "1.prems"(4) by (auto simp: within_text_def list_all_iff Cons)
        qed
        then have n: "0 < n" "n \<le> Suc (length cs)" by simp_all
        show ?thesis
        proof (cases "starts_with MASK_MARKER (c # cs) \<and> n \<le> length MASK_MARKER")
          case True
          then have "3 \<le> Suc (length cs)" using marker_fits [of "c # cs"] by simp
          then obtain ps where ps: "pieces_of pl ci secrets ?al ?sp (offset + 3) (drop 2 cs) ps (mask_loop pl ci secrets ?al ?sp (offset + 3) (drop 2 cs))"
            using IH [of 3 ?sp] ord(2) fit(2) by auto
          then show ?thesis using pieces_marker [OF ps _ mono] True None Some by (auto simp: Cons mask_loop.simps(2) Let_def)
        next
          case False
          let ?m = "if pl then preserving_marker (take n (c # cs)) else MASK_MARKER"
          obtain ps where ps: "pieces_of pl ci secrets ?al ?sp (offset + n) (drop (n - 1) cs) ps (mask_loop pl ci secrets ?al ?sp (offset + n) (drop (n - 1) cs))"
            using IH [OF n ord(2) fit(2)] by auto
          have "marker_ok pl (Masked (take n (c # cs)) ?m)" using preserving_marker_ok marker_like_marker by simp
          from pieces_masked [OF ps n this mono]
          have "\<exists>ps. pieces_of pl ci secrets aligned spans offset (c # cs) ps
              (?m @ mask_loop pl ci secrets ?al ?sp (offset + n) (drop (n - 1) cs))" by blast
          moreover have "mask_loop pl ci secrets aligned spans offset (c # cs) =
              ?m @ mask_loop pl ci secrets ?al ?sp (offset + n) (drop (n - 1) cs)"
            using False None Some by (simp add: mask_loop.simps(2) Let_def del: One_nat_def) blast
          ultimately show ?thesis by (simp only: Cons)
        qed
      next
        case none: None
        show ?thesis
        proof (cases "starts_with MASK_MARKER (c # cs)")
          case True
          then have "3 \<le> Suc (length cs)" using marker_fits [of "c # cs"] by simp
          then obtain ps where ps: "pieces_of pl ci secrets ?al ?sp (offset + 3) (drop 2 cs) ps (mask_loop pl ci secrets ?al ?sp (offset + 3) (drop 2 cs))"
            using IH [of 3 ?sp] ord(2) fit(2) by auto
          then show ?thesis using pieces_marker [OF ps _ mono] True None none by (auto simp: Cons mask_loop.simps(2) Let_def)
        next
          case False
          obtain ps where ps: "pieces_of pl ci secrets ?al ?sp (offset + 1) cs ps (mask_loop pl ci secrets ?al ?sp (offset + 1) cs)"
            using IH [of 1 ?sp] ord(2) fit(2) by auto
          have "safe_byte ci secrets aligned spans offset (c # cs)"
            using none span_at_None [OF ord(1) None] span_at_None [OF ord(2), of offset]
              covers_drop_passed [of offset offset aligned] covers_drop_passed [of offset offset spans]
            by (simp add: safe_byte_def longest_len_None)
          then show ?thesis using pieces_kept [OF ps _ mono] False None none by (auto simp: Cons mask_loop.simps(2) Let_def)
        qed
      qed
    qed
  qed
qed

section \<open>Nothing registered is shown\<close>

lemma kept_prefix:
  assumes "out_of ps = s @ v" and "CHR ''*'' \<notin> set s" and "list_all (marker_ok pl) ps"
  shows "\<exists>ps'. ps = map Kept s @ ps'"
  using assms
proof (induction s arbitrary: ps)
  case (Cons c s)
  then obtain p ps' where ps: "ps = p # ps'" by (cases ps) auto
  show ?case
  proof (cases p)
    case (Kept d)
    then show ?thesis using Cons.IH [of ps'] Cons.prems by (auto simp: ps)
  next
    case (Masked span out)
    then have "marker_like out" using Cons.prems(3) by (simp add: ps)
    then obtain out' where "out = CHR ''*'' # out'" by (cases out) (auto simp: marker_like_def)
    then show ?thesis using Cons.prems(1,2) by (simp add: ps Masked)
  qed
qed simp

lemma kept_run:
  assumes "out_of ps = u @ s @ v" and "CHR ''*'' \<notin> set s" and "list_ex (\<lambda>c. \<not> is_line_break c) s"
    and "list_all (marker_ok pl) ps"
  shows "\<exists>ps1 ps2. ps = ps1 @ map Kept s @ ps2"
  using assms(1,4)
proof (induction ps arbitrary: u)
  case Nil
  then show ?case using assms(3) by simp
next
  case (Cons p ps)
  show ?case
  proof (cases "\<exists>w. u = piece_out p @ w")
    case True
    then obtain w where "u = piece_out p @ w" ..
    then have "\<exists>ps1 ps2. ps = ps1 @ map Kept s @ ps2" using Cons.IH [of w] Cons.prems by simp
    then show ?thesis by (metis append_Cons)
  next
    case before: False
    show ?thesis
    proof (cases p)
      case (Kept c)
      then have "u = []" using before Cons.prems(1) by (cases u) auto
      then show ?thesis using kept_prefix [of "p # ps" s v pl] Cons.prems assms(2) by (metis append_Nil)
    next
      case (Masked span out)
      have eq: "out @ out_of ps = u @ s @ v" using Cons.prems(1) by (simp add: Masked)
      then obtain w where w: "out = u @ w" "w @ out_of ps = s @ v"
        using before by (auto simp: append_eq_append_conv2 Masked)
      have m: "marker_like out" using Cons.prems(2) by (simp add: Masked)
      have "w \<noteq> []" using before w(1) by (auto simp: Masked)
      then have star: "CHR ''*'' \<in> set w" using m last_in_set [of w] by (simp add: marker_like_def w(1))
      obtain x where "w = s @ x \<or> s = w @ x" using w(2) by (auto simp: append_eq_append_conv2)
      then have "set s \<subseteq> set out" using star assms(2) w(1) by auto
      then have "list_all (\<lambda>c. c = CHR ''*'' \<or> is_line_break c) s" using m by (auto simp: marker_like_def list_all_iff)
      then show ?thesis using assms(2,3) by (auto simp: list_all_iff list_ex_iff)
    qed
  qed
qed

text \<open>A value the scan can hide: a text with a byte that is neither an asterisk nor a line break, and no asterisk.\<close>

definition hideable :: "string \<Rightarrow> bool" where
  "hideable s \<longleftrightarrow> utf8_ok s \<and> CHR ''*'' \<notin> set s \<and> list_ex (\<lambda>c. \<not> is_line_break c) s"

definition spelled :: "bool \<Rightarrow> string \<Rightarrow> string \<Rightarrow> bool" where
  "spelled ci s t \<longleftrightarrow> (if ci then to_lower t = to_lower s else t = s)"

lemma spelled_refl [simp]: "spelled ci s s"
  by (simp add: spelled_def)

lemma char_lower_stable:
  assumes "char_lower c = char_lower d" and "d = CHR ''*'' \<or> is_line_break d"
  shows "c = d"
proof -
  have d: "char_lower d = d" "(of_char d :: nat) < 97" using assms(2) by (auto simp: is_line_break_def char_lower_def)
  then show ?thesis using char_lower_low [of c] assms(1) by simp
qed

lemma spelled_hideable:
  assumes "spelled ci s t" and "hideable s"
  shows "hideable t"
proof -
  have l: "to_lower t = to_lower s" using assms(1) by (auto simp: spelled_def split: if_splits)
  then have n: "length t = length s" by (metis length_map)
  have at: "char_lower (t ! i) = char_lower (s ! i)" if "i < length s" for i
    using that l n by (metis nth_map)
  have "CHR ''*'' \<notin> set t"
    using assms(2) at char_lower_stable n by (metis hideable_def in_set_conv_nth)
  moreover obtain i where "i < length s" "\<not> is_line_break (s ! i)"
    using assms(2) by (auto simp: hideable_def list_ex_length)
  then have "list_ex (\<lambda>c. \<not> is_line_break c) t" using at char_lower_stable n by (metis list_ex_length)
  moreover have "utf8_ok t" using utf8_ok_lower [OF l] assms(2) by (simp add: hideable_def)
  ultimately show ?thesis by (simp add: hideable_def)
qed

lemma hideable_nonempty: "hideable s \<Longrightarrow> s \<noteq> []"
  by (auto simp: hideable_def)

lemma spelled_matches:
  assumes "spelled ci s t" and "utf8_ok (u @ t @ v)" and "hideable s" and "s \<in> set secrets"
  shows "match_secret_at (t @ v) secrets ci \<noteq> None"
proof -
  have n: "length t = length s" using assms(1) by (metis length_map spelled_def)
  then have at: "secret_at ci s (t @ v)" using assms(1) by (simp add: secret_at_def spelled_def eq_ignore_ascii_case_def)
  have "is_char_boundary (t @ v) (length s)"
    using secret_boundary [OF _ _ hideable_nonempty [OF assms(3)] at] assms(2,3) by (simp add: hideable_def)
  then show ?thesis using at assms(4) by (auto simp: match_secret_at_def find_None_iff)
qed

lemma pieces_no_leak:
  assumes "pieces_of pl ci secrets aligned spans 0 input ps out" and "utf8_ok input"
    and "s \<in> set secrets" and "hideable s" and "spelled ci s t"
  shows "\<not> sublist t out"
proof
  assume "sublist t out"
  then obtain u v where out: "out = u @ t @ v" by (auto simp: sublist_def)
  have t: "hideable t" using spelled_hideable assms(4,5) by blast
  then obtain ps1 ps2 where ps: "ps = ps1 @ map Kept t @ ps2"
    using kept_run [of ps u t v pl] assms(1) by (auto simp: pieces_of_def hideable_def out)
  have kept: "concat (map (piece_src \<circ> Kept) x) = x" for x by (induction x) auto
  obtain c cs where c: "t = c # cs" using hideable_nonempty [OF t] by (cases t) auto
  have src: "input = src_of ps1 @ t @ src_of ps2" using assms(1) by (simp add: pieces_of_def ps kept)
  have "safe_byte ci secrets aligned spans (length (src_of ps1)) (t @ src_of ps2)"
    using clean_append [of "safe_byte ci secrets aligned spans" 0 ps1 c "map Kept cs @ ps2"] assms(1)
    by (simp add: pieces_of_def ps c kept)
  then have "match_secret_at (t @ src_of ps2) secrets ci = None" using t by (auto simp: safe_byte_def c hideable_def)
  then show False using spelled_matches [OF assms(5) _ assms(4,3)] assms(2) src by blast
qed

section \<open>The values and spans of a scan\<close>

lemma push_new_set [simp]: "set (push_new x xs) = insert x (set xs)"
  by (auto simp: push_new_def)

lemma fold_push_new_set [simp]: "set (fold push_new xs ys) = set xs \<union> set ys"
  by (induction xs arbitrary: ys) auto

lemma variants_nonempty: "[] \<notin> set (secret_variants ext s)"
proof -
  have step: "[] \<notin> set out \<Longrightarrow> [] \<notin> set (push_unique s v out)" for v out by (auto simp: push_unique_def)
  show ?thesis by (simp add: secret_variants_def step)
qed

text \<open>The values a scan hides: each registered secret that is not excluded and, in the transform-aware
  strength, its variants.\<close>

definition masked_values :: "base64_ext \<Rightarrow> string list \<Rightarrow> bool \<Rightarrow> string list \<Rightarrow> string set" where
  "masked_values ext exclude transform_aware secrets =
     (\<Union>s \<in> {s \<in> set secrets. s \<noteq> [] \<and> s \<notin> set exclude}.
        insert s (if transform_aware then set (secret_variants ext s) else {}))"

lemma collect_secrets_values:
  "set (fst (collect_secrets ext exclude ta secrets)) = masked_values ext exclude ta secrets"
proof -
  let ?f = "\<lambda>secret (found, raw).
       if secret = [] \<or> secret \<in> set exclude then (found, raw)
       else let found = push_new secret found; raw = push_new secret raw
            in (if ta then fold push_new (secret_variants ext secret) found else found, raw)"
  have "set (fst (fold ?f secrets (found, raw))) = set found \<union> masked_values ext exclude ta secrets" for found raw
    by (induction secrets arbitrary: found raw) (auto simp: masked_values_def Let_def)
  then show ?thesis by (simp add: collect_secrets_def)
qed

lemma masked_values_nonempty: "[] \<notin> masked_values ext exclude ta secrets"
  using variants_nonempty by (auto simp: masked_values_def)

definition text_span :: "string \<Rightarrow> nat \<times> nat \<Rightarrow> bool" where
  "text_span input r \<longleftrightarrow> fst r < snd r \<and> snd r \<le> length input \<and> is_char_boundary input (fst r) \<and> is_char_boundary input (snd r)"

definition pattern_spans :: "string \<Rightarrow> (string \<Rightarrow> (nat \<times> nat) list) list \<Rightarrow> (nat \<times> nat) list" where
  "pattern_spans input patterns = filter (text_span input) (concat (map (\<lambda>pattern. pattern input) patterns))"

lemma pattern_spans_ok:
  "in_order (merge_pattern_spans (pattern_spans input patterns))"
  "within_text (merge_pattern_spans (pattern_spans input patterns)) (length input)"
  "covers (pattern_spans input patterns) i \<Longrightarrow> covers (merge_pattern_spans (pattern_spans input patterns)) i"
proof -
  have ok: "list_all (\<lambda>(a, b). a < b) (pattern_spans input patterns)"
    "list_all (\<lambda>(_, b). b \<le> length input) (pattern_spans input patterns)"
    by (auto simp: pattern_spans_def list_all_iff text_span_def)
  show "in_order (merge_pattern_spans (pattern_spans input patterns))"
    "covers (pattern_spans input patterns) i \<Longrightarrow> covers (merge_pattern_spans (pattern_spans input patterns)) i"
    using hints.merge_sorted [OF ok(1)] by (simp_all add: merge_pattern_spans_def)
  show "within_text (merge_pattern_spans (pattern_spans input patterns)) (length input)"
    using hints.merge_sorted_bound [OF ok(2)] by (simp add: merge_pattern_spans_def within_text_def)
qed

text \<open>The ranges of the tainted segments, before they are merged.\<close>

definition tainted_candidates :: "base64_ext \<Rightarrow> string \<Rightarrow> string list \<Rightarrow> (nat \<times> nat) list" where
  "tainted_candidates ext input raw_secrets =
     (case new_scanner raw_secrets of
        None \<Rightarrow> []
      | Some scanner \<Rightarrow> map (\<lambda>(a, b, _). (a, b))
          (filter (\<lambda>(_, _, decode). segment_tainted ext scanner decode) (for_each_candidate input True)))"

lemma alignment_spans_ok:
  "in_order (base64_alignment_spans ext input raw)"
  "within_text (base64_alignment_spans ext input raw) (length input)"
  "covers (tainted_candidates ext input raw) i \<Longrightarrow> covers (base64_alignment_spans ext input raw) i"
proof -
  have eq: "base64_alignment_spans ext input raw = merge_ranges [] (sort (tainted_candidates ext input raw))"
    by (simp add: base64_alignment_spans_def tainted_candidates_def tainted_segment_ranges_def split: option.split)
  have ok: "list_all (\<lambda>(a, b). a < b) (tainted_candidates ext input raw)"
    "list_all (\<lambda>(_, b). b \<le> length input) (tainted_candidates ext input raw)"
    using candidates_within [of input True]
    by (auto simp: tainted_candidates_def list_all_iff candidate_within_def split: option.split)
  show "in_order (base64_alignment_spans ext input raw)"
    "covers (tainted_candidates ext input raw) i \<Longrightarrow> covers (base64_alignment_spans ext input raw) i"
    using align.merge_sorted [OF ok(1)] by (simp_all add: eq)
  show "within_text (base64_alignment_spans ext input raw) (length input)"
    using align.merge_sorted_bound [OF ok(2)] by (simp add: eq within_text_def)
qed

abbreviation aligned_of :: "base64_ext \<Rightarrow> string list \<Rightarrow> bool \<Rightarrow> string list \<Rightarrow> string \<Rightarrow> (nat \<times> nat) list" where
  "aligned_of ext exclude ta secrets input \<equiv>
     (if ta then base64_alignment_spans ext input (snd (collect_secrets ext exclude ta secrets)) else [])"

abbreviation hidden_values :: "base64_ext \<Rightarrow> string list \<Rightarrow> bool \<Rightarrow> string list \<Rightarrow> string list" where
  "hidden_values ext exclude ta secrets \<equiv>
     sort_key (\<lambda>s. - int (length s)) (fst (collect_secrets ext exclude ta secrets))"

lemma mask_inner_loop:
  "mask_secrets_inner ext input secrets patterns exclude pl ta =
   mask_loop pl ta (hidden_values ext exclude ta secrets) (aligned_of ext exclude ta secrets input)
     (merge_pattern_spans (pattern_spans input patterns)) 0 input"
  by (simp add: mask_secrets_inner_def pattern_spans_def text_span_def[abs_def] case_prod_unfold Let_def)

lemma mask_inner_pieces:
  "\<exists>ps. pieces_of pl ta (hidden_values ext exclude ta secrets) (aligned_of ext exclude ta secrets input)
     (merge_pattern_spans (pattern_spans input patterns)) 0 input ps
     (mask_secrets_inner ext input secrets patterns exclude pl ta)"
  unfolding mask_inner_loop
proof (rule mask_loop_pieces)
  show "list_all (\<lambda>s. s \<noteq> []) (hidden_values ext exclude ta secrets)"
    using masked_values_nonempty [of ext exclude ta secrets] collect_secrets_values [of ext exclude ta secrets]
    by (auto simp: list_all_iff)
qed (use alignment_spans_ok pattern_spans_ok in \<open>simp_all add: in_order_def within_text_def\<close>)

section \<open>Properties\<close>

lemma mask_inner_no_leak:
  assumes "utf8_ok input" and "v \<in> masked_values ext exclude transform_aware secrets" and "hideable v"
    and "spelled transform_aware v t"
  shows "\<not> sublist t (mask_secrets_inner ext input secrets patterns exclude preserve_lines transform_aware)"
proof -
  obtain ps where ps: "pieces_of preserve_lines transform_aware (hidden_values ext exclude transform_aware secrets)
      (aligned_of ext exclude transform_aware secrets input) (merge_pattern_spans (pattern_spans input patterns)) 0 input ps
      (mask_secrets_inner ext input secrets patterns exclude preserve_lines transform_aware)"
    using mask_inner_pieces by blast
  show ?thesis by (rule pieces_no_leak [OF ps assms(1) _ assms(3,4)]) (simp add: assms(2) collect_secrets_values)
qed

text \<open>C7. No registered value without an asterisk can be read in what a scan shows: not a secret, in the
  transform-aware strength none of its encodings, and there not in any other letter case either,
  whatever the pattern hints are and whether or not lines are preserved. A value that has an asterisk is
  left out, since it can stay readable (\<open>starred_secret_shown\<close>), and so is one of line breaks only.\<close>

theorem mask_no_leak:
  assumes "utf8_ok input" and "v \<in> masked_values ext exclude transform_aware secrets" and "hideable v"
    and "spelled transform_aware v t"
  shows "\<not> sublist t (mask_secrets_inner ext input secrets patterns exclude preserve_lines transform_aware)"
  by (rule mask_inner_no_leak [OF assms])

theorem mask_no_leak_witness:
  "\<not> sublist ''hunter2'' (mask_secrets_inner
     \<lparr>std_encode = rev, std_encode_nopad = rev, url_encode = rev, url_encode_nopad = rev,
      std_decode = (\<lambda>_. None), url_decode = (\<lambda>_. None)\<rparr>
     ''curl -u me:hunter2 host'' [''Hunter2''] [\<lambda>_. [(0, 4)]] [''x''] False True)"
proof (rule mask_no_leak)
  show "utf8_ok ''curl -u me:hunter2 host''" "hideable ''Hunter2''" "spelled True ''Hunter2'' ''hunter2''"
    by code_simp+
qed (simp add: masked_values_def)

lemma pieces_lines:
  "list_all (marker_ok True) ps \<Longrightarrow> filter is_line_break (out_of ps) = filter is_line_break (src_of ps)"
proof (induction ps)
  case (Cons p ps)
  then show ?case by (cases p) simp_all
qed simp

lemma mask_inner_lines:
  "filter is_line_break (mask_secrets_inner ext input secrets patterns exclude True transform_aware) =
   filter is_line_break input"
  using mask_inner_pieces [of True transform_aware ext exclude secrets input patterns] pieces_lines
  unfolding pieces_of_def by metis

text \<open>In the line-preserving mode the line breaks of the output are the line breaks of the input, the
  same ones in the same order, whatever is hidden: line numbers in a log still count.\<close>

theorem mask_preserves_lines:
  "filter is_line_break (mask_secrets_inner ext input secrets patterns exclude True transform_aware) =
   filter is_line_break input"
  by (rule mask_inner_lines)

definition hides :: "(nat \<times> nat) list \<Rightarrow> nat \<Rightarrow> string \<Rightarrow> bool" where
  "hides rs i r \<longleftrightarrow> (covers rs i \<longrightarrow> hd r = CHR ''*'')"

text \<open>The output is the input cut into copied bytes and hidden spans, each hidden span shown as a marker
  of asterisks; of a span that a pattern hint reports, and of a base64 segment that decodes at some
  alignment to a registered secret, no byte is copied other than asterisks.\<close>

theorem mask_hides_spans:
  "\<exists>ps. src_of ps = input \<and>
     out_of ps = mask_secrets_inner ext input secrets patterns exclude preserve_lines transform_aware \<and>
     list_all (marker_ok preserve_lines) ps \<and>
     clean (hides (pattern_spans input patterns)) 0 ps \<and>
     clean (hides (if transform_aware then tainted_candidates ext input (snd (collect_secrets ext exclude transform_aware secrets))
       else [])) 0 ps"
proof -
  let ?out = "mask_secrets_inner ext input secrets patterns exclude preserve_lines transform_aware"
  let ?safe = "safe_byte transform_aware (hidden_values ext exclude transform_aware secrets)
      (aligned_of ext exclude transform_aware secrets input) (merge_pattern_spans (pattern_spans input patterns))"
  obtain ps where ps: "src_of ps = input" "out_of ps = ?out" "list_all (marker_ok preserve_lines) ps" "clean ?safe 0 ps"
    using mask_inner_pieces [of preserve_lines transform_aware ext exclude secrets input patterns]
    by (auto simp: pieces_of_def)
  have clean: "clean Q 0 ps" if "\<And>i c r. ?safe i (c # r) \<Longrightarrow> Q i (c # r)" for Q
  proof -
    have "clean Q k qs" if "clean ?safe k qs" for k qs
      using that \<open>\<And>i c r. ?safe i (c # r) \<Longrightarrow> Q i (c # r)\<close> by (induction Q k qs rule: clean.induct) auto
    then show ?thesis using ps(4) by blast
  qed
  have "clean (hides (pattern_spans input patterns)) 0 ps"
    by (rule clean) (auto simp: hides_def safe_byte_def dest: pattern_spans_ok(3))
  moreover have "clean (hides (if transform_aware then tainted_candidates ext input (snd (collect_secrets ext exclude transform_aware secrets))
       else [])) 0 ps"
    by (rule clean) (auto simp: hides_def safe_byte_def dest: alignment_spans_ok(3))
  ultimately show ?thesis using ps(1-3) by blast
qed

section \<open>Masking twice\<close>

lemma mask_loop_id:
  assumes "\<And>u r. rest = u @ r \<Longrightarrow> match_secret_at r secrets ci = None"
  shows "mask_loop pl ci secrets [] [] offset rest = rest"
  using assms
proof (induction rest arbitrary: offset rule: length_induct)
  case (1 rest)
  show ?case
  proof (cases rest)
    case (Cons c cs)
    have none: "match_secret_at (c # cs) secrets ci = None" using "1.prems" [of "[]"] Cons by simp
    have IH: "mask_loop pl ci secrets [] [] k (drop n cs) = drop n cs" for k n
    proof -
      have "rest = (c # take n cs) @ drop n cs" by (simp add: Cons)
      then have "match_secret_at r secrets ci = None" if "drop n cs = u @ r" for u r
        using "1.prems" [of "(c # take n cs) @ u" r] that by simp
      moreover have "length (drop n cs) < length rest" by (simp add: Cons)
      ultimately show ?thesis using "1.IH" by blast
    qed
    show ?thesis
    proof (cases "starts_with MASK_MARKER (c # cs)")
      case True
      then obtain ds where "c # cs = MASK_MARKER @ ds" unfolding starts_with_iff by auto
      then have "MASK_MARKER @ drop 2 cs = c # cs" by (auto simp: MASK_MARKER_def)
      then show ?thesis using True none IH [of "offset + 3" 2]
        by (simp add: Cons mask_loop.simps(2) span_at_def longest_len_def)
    next
      case False
      then show ?thesis using none IH [of "offset + 1" 0]
        by (simp add: Cons mask_loop.simps(2) span_at_def longest_len_def)
    qed
  qed simp
qed

text \<open>Masking what has been masked changes nothing, in the exact strength: the second pass finds no
  secret and copies the markers of the first.\<close>

theorem mask_idempotent:
  assumes "utf8_ok input" and "\<forall>s \<in> set secrets. s = [] \<or> s \<in> set exclude \<or> hideable s"
  shows "mask_secrets_inner ext (mask_secrets_inner ext input secrets [] exclude preserve_lines False) secrets [] exclude preserve_lines False =
    mask_secrets_inner ext input secrets [] exclude preserve_lines False"
proof -
  let ?out = "mask_secrets_inner ext input secrets [] exclude preserve_lines False"
  let ?secrets = "hidden_values ext exclude False secrets"
  have hide: "\<not> sublist s ?out" if "s \<in> set ?secrets" for s
  proof -
    have "s \<in> masked_values ext exclude False secrets" using that by (simp add: collect_secrets_values)
    moreover from this have "hideable s" using assms(2) by (auto simp: masked_values_def)
    ultimately show ?thesis
      using pieces_no_leak [OF _ assms(1) that] mask_inner_pieces [of preserve_lines False ext exclude secrets input "[]"]
        spelled_refl by blast
  qed
  have "match_secret_at r ?secrets False = None" if "?out = u @ r" for u r
  proof (rule ccontr)
    assume "match_secret_at r ?secrets False \<noteq> None"
    then obtain s where s: "s \<in> set ?secrets" "secret_at False s r"
      unfolding match_secret_at_def find_None_iff by blast
    then have "r = s @ drop (length s) r" by (metis append_take_drop_id secret_at_def)
    then have "sublist s ?out" using that by (metis sublist_def)
    then show False using hide s(1) by blast
  qed
  then have "mask_loop preserve_lines False ?secrets [] [] 0 ?out = ?out" by (rule mask_loop_id)
  then show ?thesis
    using mask_inner_loop [of ext ?out secrets "[]" exclude preserve_lines False]
    by (simp add: pattern_spans_def merge_pattern_spans_def)
qed

theorem mask_idempotent_witness:
  "mask_secrets_inner undefined (mask_secrets_inner undefined ''a=pw1; b=pw2'' [''pw1'', '''', ''*''] [] [''*''] True False)
     [''pw1'', '''', ''*''] [] [''*''] True False =
   mask_secrets_inner undefined ''a=pw1; b=pw2'' [''pw1'', '''', ''*''] [] [''*''] True False"
  by (rule mask_idempotent) (auto simp: hideable_def utf8_len_def is_line_break_def)

section \<open>Two values that stay readable\<close>

text \<open>A value that begins where another one ends is cut by it, and what follows the cut is shown. A value that
  begins with an asterisk is not seen where it follows two others: they are copied together, as a
  marker.\<close>

lemma overlapping_tail_shown:
  "mask_secrets ext ''abcdefgh'' [''abcd'', ''cdefgh''] [] = ''***efgh''"
  by (simp add: mask_secrets_def mask_inner_loop collect_secrets_def push_new_def pattern_spans_def merge_pattern_spans_def
      mask_loop.simps span_at_def match_secret_at_def secret_at_def is_char_boundary_def is_continuation_def
      longest_len_def starts_with_def MASK_MARKER_def)

lemma starred_secret_shown:
  "mask_secrets ext ''***pass'' [''*pass''] [] = ''***pass''"
  by (simp add: mask_secrets_def mask_inner_loop collect_secrets_def push_new_def pattern_spans_def merge_pattern_spans_def
      mask_loop.simps span_at_def match_secret_at_def secret_at_def is_char_boundary_def is_continuation_def
      longest_len_def starts_with_def MASK_MARKER_def)

text \<open>So it is in the log strength, with the base64 text of that value.\<close>

definition star_codec :: base64_ext where
  "star_codec = \<lparr>std_encode = (\<lambda>_. ''KnBhc3M=''), std_encode_nopad = (\<lambda>_. ''KnBhc3M''), url_encode = (\<lambda>_. ''KnBhc3M=''),
     url_encode_nopad = (\<lambda>_. ''KnBhc3M''), std_decode = (\<lambda>_. None), url_decode = (\<lambda>_. None)\<rparr>"

lemma starred_secret_logged:
  "mask_secrets_inner star_codec ''***pass'' [''*pass''] [] [] preserve_lines True = ''***pass''"
  by (cases preserve_lines) code_simp+

section \<open>URLs\<close>

lemma hex_value_upper: "n < 16 \<Longrightarrow> hex_value (hex_upper n) = Some n"
  by (auto simp: hex_value_def hex_upper_def of_char_of Let_def)

text \<open>Percent decoding undoes the percent encoding a secret is masked in, for every string of bytes.\<close>

theorem percent_roundtrip: "percent_decode_bytes (percent_encode s) = s"
proof -
  have "percent_decode_bytes (percent_encode s) = s"
  proof (induction s)
    case (Cons b s)
    have b: "(of_char b :: nat) < 256" by (metis of_char_of char_of_char mod_less_divisor zero_less_numeral)
    show ?case
    proof (cases "is_ascii_alphanumeric b \<or> b \<in> set ''-_.~''")
      case True
      then have "b \<noteq> CHR ''%''" by (auto simp: is_ascii_alphanumeric_def is_ascii_alphabetic_def is_ascii_digit_def)
      then have "percent_decode_bytes (b # t) = b # percent_decode_bytes t" for t
        by (cases "b # t" rule: percent_decode_bytes.cases) auto
      then show ?thesis using Cons True by (simp add: percent_encode_def)
    next
      case False
      have "(of_char b :: nat) div 16 * 16 + of_char b mod 16 = of_char b" by simp
      moreover have "hex_value (hex_upper (of_char b div 16)) = Some (of_char b div 16)"
        by (rule hex_value_upper) (use b in linarith)
      ultimately show ?thesis using Cons False
        by (simp add: percent_encode_def byte_hex_def hex_value_upper)
    qed
  qed (simp add: percent_encode_def)
  then show ?thesis .
qed

end
