(* ===== verification/Stream_Masker.thy ===== *)
theory Stream_Masker
  imports Secret_Masking
begin

text \<open>
  The masker of chunked writers, \<^verbatim>\<open>StreamingMasker\<close> of \<^verbatim>\<open>crates/preloop-gha-protocol/src/masking.rs\<close>: what
  has been withheld and the next chunk form a window, the window is masked, and what may still become
  part of a secret is withheld again.

  For chunks that end at character boundaries: no registered value or variant without an asterisk, in any
  letter case, can be read in what is written, however the stream is cut; nothing of the stream is lost and its line
  breaks are kept; and what is withheld is bounded whatever is written. The shortest examples
  of what the masker does not do are shown as well: a value that has another as prefix keeps its tail
  readable, and a character that is cut by a chunk is replaced before it is compared.
\<close>

section \<open>Decoding\<close>

text \<open>\<^verbatim>\<open>String::from_utf8_lossy\<close>: each maximal invalid part becomes U+FFFD. \<open>char_tail\<close> is the number of
  bytes after \<open>c\<close> that still fit a character that begins with it.\<close>

definition second_ok :: "char \<Rightarrow> char \<Rightarrow> bool" where
  "second_ok c d =
     (let n = (of_char c :: nat); k = (of_char d :: nat)
      in if n = 0xE0 then 0xA0 \<le> k \<and> k < 0xC0 else if n = 0xED then 0x80 \<le> k \<and> k < 0xA0
         else if n = 0xF0 then 0x90 \<le> k \<and> k < 0xC0 else if n = 0xF4 then 0x80 \<le> k \<and> k < 0x90
         else is_continuation d)"

definition char_tail :: "char \<Rightarrow> string \<Rightarrow> nat" where
  "char_tail c cs =
     (case cs of
        [] \<Rightarrow> 0
      | d # ds \<Rightarrow> if utf8_len c \<le> 1 \<or> \<not> second_ok c d then 0
                 else 1 + length (takeWhile is_continuation (take (utf8_len c - 2) ds)))"

definition replacement_char :: string where
  "replacement_char = [CHR 0xEF, CHR 0xBF, CHR 0xBD]"

function from_utf8_lossy :: "string \<Rightarrow> string" where
  "from_utf8_lossy [] = []"
| "from_utf8_lossy (c # cs) =
     (if utf8_len c = char_tail c cs + 1 then c # take (char_tail c cs) cs else replacement_char) @
     from_utf8_lossy (drop (char_tail c cs) cs)"
  by pat_completeness auto

termination by (relation "measure length") auto

section \<open>The window\<close>

definition USIZE_MAX :: nat where "USIZE_MAX = 2 ^ 64 - 1"

definition is_secret_prefix :: "string \<Rightarrow> string list \<Rightarrow> bool" where
  "is_secret_prefix remaining secrets =
     list_ex (\<lambda>secret. length remaining < length secret \<and> is_char_boundary secret (length remaining) \<and>
       eq_ignore_ascii_case (take (length remaining) secret) remaining) secrets"

text \<open>One character of the text: its first byte and those of its tail.\<close>

definition char_len :: "char \<Rightarrow> nat" where
  "char_len c = (if utf8_len c = 0 then 1 else utf8_len c)"

lemma char_len_pos [simp]: "0 < char_len c"
  by (simp add: char_len_def)

function window_loop ::
  "string list \<Rightarrow> nat \<Rightarrow> nat \<Rightarrow> (nat \<times> nat) list \<Rightarrow> (nat \<times> nat) option \<Rightarrow> string \<Rightarrow> nat \<Rightarrow> string \<Rightarrow>
   string \<times> nat \<times> (nat \<times> nat) option" where
  "window_loop secrets hold_from soft_hold_from ranges speculative out pos rest =
     (if rest = [] then (out, pos, speculative)
      else let ranges = drop_passed pos ranges;
          range_end = span_at ranges pos;
          matched = (case range_end of Some _ \<Rightarrow> None | None \<Rightarrow> match_secret_at rest secrets True)
      in case (case range_end of Some e \<Rightarrow> Some e | None \<Rightarrow> map_option (\<lambda>secret. pos + length secret) matched) of
           Some stop \<Rightarrow>
             if stop \<le> pos then (out, pos, speculative)
             else window_loop secrets hold_from soft_hold_from ranges None
               (out @ push_line_preserving_marker (take (stop - pos) rest)) stop (drop (stop - pos) rest)
         | None \<Rightarrow>
             if soft_hold_from \<le> pos \<and> is_secret_prefix rest secrets then (out, pos, speculative)
             else window_loop secrets hold_from soft_hold_from ranges
               (if speculative = None \<and> hold_from \<le> pos then Some (pos, length out) else speculative)
               (out @ take (char_len (hd rest)) rest) (pos + char_len (hd rest)) (drop (char_len (hd rest)) rest))"
  by pat_completeness auto

termination
  by (relation "measure (\<lambda>(_, _, _, _, _, _, _, rest). length rest)") (auto simp flip: length_greater_0_conv)

declare window_loop.simps [simp del]

definition mask_window ::
  "string \<Rightarrow> string list \<Rightarrow> (nat \<times> nat) list \<Rightarrow> nat \<Rightarrow> nat \<Rightarrow> string \<times> nat" where
  "mask_window txt secrets ranges hold_from soft_hold_from =
     (case window_loop secrets hold_from soft_hold_from ranges None [] 0 txt of
        (out, pos, Some (text_offset, out_len)) \<Rightarrow> (take out_len out, text_offset)
      | (out, pos, None) \<Rightarrow> (out, pos))"

section \<open>The masker\<close>

record streaming_masker =
  sm_secrets :: "string list"
  sm_max_len :: nat
  sm_carry :: string
  sm_scanner :: "alignment_scanner option"

definition masker_new :: "base64_ext \<Rightarrow> string list \<Rightarrow> streaming_masker" where
  "masker_new ext secrets =
     (let (expanded, raw) = fold (\<lambda>secret (expanded, raw).
            (fold push_new (secret_variants ext secret) (push_new secret expanded), push_new secret raw))
            (filter (\<lambda>s. s \<noteq> []) secrets) ([], []);
          expanded = sort_key (\<lambda>s. - int (length s)) expanded
      in \<lparr>sm_secrets = expanded, sm_max_len = fold max (map length expanded) 0, sm_carry = [],
          sm_scanner = new_scanner raw\<rparr>)"

definition pattern_count :: "streaming_masker \<Rightarrow> nat" where
  "pattern_count m = length (sm_secrets m)"

definition alignment_ranges :: "base64_ext \<Rightarrow> streaming_masker \<Rightarrow> string \<Rightarrow> (nat \<times> nat) list" where
  "alignment_ranges ext m txt =
     (case sm_scanner m of Some scanner \<Rightarrow> tainted_segment_ranges ext txt scanner True | None \<Rightarrow> [])"

definition trailing_run_hold :: "streaming_masker \<Rightarrow> string \<Rightarrow> nat" where
  "trailing_run_hold m txt =
     (case sm_scanner m of
        None \<Rightarrow> length txt
      | Some scanner \<Rightarrow>
          (let run_start = length (dropWhile is_base64_byte (rev txt))
           in run_start + (length txt - run_start - hold_bound scanner)))"

definition masker_push :: "base64_ext \<Rightarrow> streaming_masker \<Rightarrow> string \<Rightarrow> string \<times> streaming_masker" where
  "masker_push ext m chunk =
     (let txt = from_utf8_lossy (sm_carry m @ chunk);
          ranges = alignment_ranges ext m txt;
          hold_from = trailing_run_hold m txt;
          soft_hold_from = length txt - (sm_max_len m - 1);
          (out, emitted) = mask_window txt (sm_secrets m) ranges hold_from soft_hold_from
      in (out, m\<lparr>sm_carry := drop emitted txt\<rparr>))"

definition masker_finish :: "base64_ext \<Rightarrow> streaming_masker \<Rightarrow> string \<times> streaming_masker" where
  "masker_finish ext m =
     (let txt = from_utf8_lossy (sm_carry m);
          (out, _) = mask_window txt (sm_secrets m) (alignment_ranges ext m txt) USIZE_MAX USIZE_MAX
      in (out, m\<lparr>sm_carry := []\<rparr>))"

fun masker_run :: "base64_ext \<Rightarrow> streaming_masker \<Rightarrow> string list \<Rightarrow> string" where
  "masker_run ext m [] = fst (masker_finish ext m)"
| "masker_run ext m (chunk # chunks) =
     (case masker_push ext m chunk of (out, m') \<Rightarrow> out @ masker_run ext m' chunks)"

section \<open>Valid text is decoded to itself\<close>

function utf8_valid :: "string \<Rightarrow> bool" where
  "utf8_valid [] = True"
| "utf8_valid (c # cs) \<longleftrightarrow> utf8_len c = char_tail c cs + 1 \<and> utf8_valid (drop (char_tail c cs) cs)"
  by pat_completeness auto

termination by (relation "measure length") auto

lemma lossy_valid: "utf8_valid s \<Longrightarrow> from_utf8_lossy s = s"
  by (induction s rule: utf8_valid.induct) auto

lemma second_continuation: "second_ok c d \<Longrightarrow> is_continuation d"
  by (auto simp: second_ok_def is_continuation_def Let_def split: if_splits)

lemma char_tail_bytes:
  "char_tail c cs \<le> length cs" "list_all is_continuation (take (char_tail c cs) cs)"
proof -
  have "length (takeWhile is_continuation (take k ds)) \<le> length ds" for k ds
    using length_takeWhile_le [of is_continuation "take k ds"] by simp
  then show "char_tail c cs \<le> length cs" by (auto simp: char_tail_def split: list.split)
  have "take (length (takeWhile P (take k ds))) ds = takeWhile P (take k ds)" for k ds and P :: "char \<Rightarrow> bool"
    by (metis (no_types, lifting) append_eq_conv_conj append_take_drop_id takeWhile_dropWhile_id append.assoc)
  then show "list_all is_continuation (take (char_tail c cs) cs)"
    by (auto simp: char_tail_def list_all_iff second_continuation dest: set_takeWhileD split: list.split)
qed

lemma valid_ok: "utf8_valid s \<Longrightarrow> utf8_ok s"
  by (induction s rule: utf8_valid.induct) (auto simp: char_tail_bytes)

lemma char_tail_full:
  assumes "utf8_len c = char_tail c cs + 1"
  shows "char_tail c (cs @ ds) = char_tail c cs"
proof (cases cs)
  case Nil
  then show ?thesis using assms by (auto simp: char_tail_def split: list.split)
next
  case (Cons d es)
  show ?thesis
  proof (cases "utf8_len c \<le> 1 \<or> \<not> second_ok c d")
    case False
    let ?k = "utf8_len c - 2"
    have "length (takeWhile is_continuation (take ?k es)) = ?k" using assms False by (auto simp: char_tail_def Cons)
    then have "?k \<le> length es" using length_takeWhile_le [of is_continuation "take ?k es"] by simp
    then show ?thesis by (simp add: char_tail_def Cons)
  qed (simp add: char_tail_def Cons)
qed

lemma valid_append: "utf8_valid s \<Longrightarrow> utf8_valid t \<Longrightarrow> utf8_valid (s @ t)"
  by (induction s rule: utf8_valid.induct) (auto simp: char_tail_full char_tail_bytes)

lemma valid_suffix:
  assumes "utf8_valid (u @ c # cs)" and "\<not> is_continuation c"
  shows "utf8_valid (c # cs)"
  using assms(1)
proof (induction u rule: length_induct)
  case (1 u)
  show ?case
  proof (cases u)
    case Nil
    then show ?thesis using 1 by simp
  next
    case (Cons x xs)
    let ?n = "char_tail x (xs @ c # cs)"
    have ok: "utf8_valid (drop ?n (xs @ c # cs))" using "1.prems" by (simp add: Cons)
    have "?n \<le> length xs"
    proof (rule ccontr)
      assume "\<not> ?n \<le> length xs"
      then have "take ?n (xs @ c # cs) = xs @ c # take (?n - length xs - 1) cs"
        by (cases "?n - length xs") auto
      then show False using char_tail_bytes(2) [of x "xs @ c # cs"] assms(2) by simp
    qed
    then have "utf8_valid (drop ?n xs @ c # cs)" using ok by simp
    moreover have "length (drop ?n xs) < length u" by (simp add: Cons)
    ultimately show ?thesis using "1.IH" by blast
  qed
qed

lemma valid_drop:
  assumes "utf8_valid s" and "i < length s \<Longrightarrow> \<not> is_continuation (s ! i)"
  shows "utf8_valid (drop i s)"
proof (cases "i < length s")
  case True
  then have "s = take i s @ s ! i # drop (Suc i) s" by (simp add: id_take_nth_drop)
  then show ?thesis using assms True valid_suffix Cons_nth_drop_Suc by metis
qed simp

lemma valid_hd: "utf8_valid s \<Longrightarrow> s \<noteq> [] \<Longrightarrow> \<not> is_continuation (hd s)"
  by (metis list.exhaust_sel utf8_hd valid_ok)

lemma continuation_len: "is_continuation c \<Longrightarrow> char_len c = 1"
  by (auto simp: char_len_def utf8_len_def is_continuation_def Let_def)

lemma char_in_text:
  assumes "utf8_valid txt" and "pos < length txt"
  shows "pos + char_len (txt ! pos) \<le> length txt"
    and "0 < j \<Longrightarrow> j < char_len (txt ! pos) \<Longrightarrow> is_continuation (txt ! (pos + j))"
proof -
  let ?c = "txt ! pos" and ?cs = "drop (Suc pos) txt"
  have split: "drop pos txt = ?c # ?cs" using assms(2) by (simp add: Cons_nth_drop_Suc)
  have tail: "char_len ?c = char_tail ?c ?cs + 1" if "\<not> is_continuation ?c"
    using valid_drop [OF assms(1), of pos] that by (simp add: split char_len_def)
  show "pos + char_len ?c \<le> length txt"
    using tail continuation_len [of ?c] char_tail_bytes(1) [of ?c ?cs] assms(2) by (cases "is_continuation ?c") auto
  show "is_continuation (txt ! (pos + j))" if "0 < j" "j < char_len ?c"
  proof -
    have j: "j - 1 < char_tail ?c ?cs" using that tail continuation_len [of ?c] by (cases "is_continuation ?c") auto
    then have "is_continuation (take (char_tail ?c ?cs) ?cs ! (j - 1))"
      using char_tail_bytes [of ?c ?cs] by (auto simp: list_all_length)
    then show ?thesis using j that char_tail_bytes(1) [of ?c ?cs] by (simp add: nth_append)
  qed
qed

section \<open>One window\<close>

text \<open>The decision at a character that is copied: nothing matches there, and where more may follow it is no
  head of a value.\<close>

definition window_ok :: "string list \<Rightarrow> nat \<Rightarrow> string \<Rightarrow> nat \<Rightarrow> bool" where
  "window_ok secrets soft_hold_from txt i \<longleftrightarrow>
     is_continuation (txt ! i) \<or>
     match_secret_at (drop i txt) secrets True = None \<and> \<not> (soft_hold_from \<le> i \<and> is_secret_prefix (drop i txt) secrets)"

definition written :: "string list \<Rightarrow> nat \<Rightarrow> string \<Rightarrow> nat \<Rightarrow> string \<Rightarrow> bool" where
  "written secrets soft_hold_from txt pos out \<longleftrightarrow> pos \<le> length txt \<and>
     (\<exists>ps. src_of ps = take pos txt \<and> out_of ps = out \<and> list_all (marker_ok True) ps \<and>
           clean (\<lambda>i _. window_ok secrets soft_hold_from txt i) 0 ps)"

lemma clean_append_index:
  "clean (\<lambda>i _. Q i) k (ps @ qs) \<longleftrightarrow> clean (\<lambda>i _. Q i) k ps \<and> clean (\<lambda>i _. Q i) (k + length (src_of ps)) qs"
proof (induction ps arbitrary: k)
  case (Cons p ps)
  then show ?case by (cases p) (simp_all add: add.assoc)
qed simp

lemma clean_kept_index: "clean (\<lambda>i _. Q i) k (map Kept xs) \<longleftrightarrow> (\<forall>j < length xs. Q (k + j))"
  by (induction xs arbitrary: k) (auto simp: All_less_Suc2)

lemma kept_concat [simp]:
  "concat (map (piece_src \<circ> Kept) x) = x" "concat (map (piece_out \<circ> Kept) x) = x" "list_all (marker_ok pl) (map Kept x)"
  by (induction x) auto

lemma written_masked:
  assumes "written secrets soft txt pos out" and "pos < stop" and "stop \<le> length txt"
  shows "written secrets soft txt stop (out @ push_line_preserving_marker (take (stop - pos) (drop pos txt)))"
proof -
  obtain ps where ps: "src_of ps = take pos txt" "out_of ps = out" "list_all (marker_ok True) ps"
    "clean (\<lambda>i _. window_ok secrets soft txt i) 0 ps" using assms(1) by (auto simp: written_def)
  let ?span = "take (stop - pos) (drop pos txt)"
  let ?ps = "ps @ [Masked ?span (push_line_preserving_marker ?span)]"
  have "take pos txt @ ?span = take stop txt" using assms(2) take_add [of pos "stop - pos" "txt"] by simp
  then have "src_of ?ps = take stop txt" "out_of ?ps = out @ push_line_preserving_marker ?span"
    "list_all (marker_ok True) ?ps" "clean (\<lambda>i _. window_ok secrets soft txt i) 0 ?ps"
    using ps line_preserving_marker_ok by (simp_all add: clean_append_index)
  then show ?thesis using assms(3) unfolding written_def by blast
qed

lemma written_kept:
  assumes "written secrets soft txt pos out" and "pos + n \<le> length txt"
    and "\<And>j. j < n \<Longrightarrow> window_ok secrets soft txt (pos + j)"
  shows "written secrets soft txt (pos + n) (out @ take n (drop pos txt))"
proof -
  obtain ps where ps: "src_of ps = take pos txt" "out_of ps = out" "list_all (marker_ok True) ps"
    "clean (\<lambda>i _. window_ok secrets soft txt i) 0 ps" using assms(1) by (auto simp: written_def)
  let ?ps = "ps @ map Kept (take n (drop pos txt))"
  have "src_of ?ps = take (pos + n) txt" "out_of ?ps = out @ take n (drop pos txt)"
    "list_all (marker_ok True) ?ps" "clean (\<lambda>i _. window_ok secrets soft txt i) 0 ?ps"
    using ps assms(2,3) by (simp_all add: clean_append_index clean_kept_index take_add)
  then show ?thesis using assms(2) unfolding written_def by blast
qed

definition spec_ok :: "string list \<Rightarrow> nat \<Rightarrow> nat \<Rightarrow> string \<Rightarrow> string \<Rightarrow> (nat \<times> nat) option \<Rightarrow> bool" where
  "spec_ok secrets hold soft txt out speculative =
     (case speculative of
        None \<Rightarrow> True
      | Some (k, n) \<Rightarrow> hold \<le> k \<and> n \<le> length out \<and> written secrets soft txt k (take n out))"

lemma spec_ok_append: "spec_ok secrets hold soft txt out sp \<Longrightarrow> spec_ok secrets hold soft txt (out @ out2) sp"
  by (auto simp: spec_ok_def split: option.splits)

lemma window_loop_written:
  assumes "utf8_valid txt" and "list_all (\<lambda>s. s \<noteq> []) secrets"
    and "written secrets soft txt pos out" and "spec_ok secrets hold soft txt out sp" and "within_text ranges (length txt)"
    and "window_loop secrets hold soft ranges sp out pos (drop pos txt) = (out', pos', sp')"
  shows "written secrets soft txt pos' out' \<and> spec_ok secrets hold soft txt out' sp' \<and>
    (pos' = length txt \<or> pos' < length txt \<and> soft \<le> pos' \<and> is_secret_prefix (drop pos' txt) secrets)"
  using assms(3-6)
proof (induction "length txt - pos" arbitrary: pos out sp ranges rule: less_induct)
  case less
  show ?case
  proof (cases "pos < length txt")
    case False
    then have "pos = length txt" using less.prems(1) by (simp add: written_def)
    then show ?thesis using less.prems by (subst (asm) window_loop.simps) simp
  next
    case True
    let ?rs = "drop_passed pos ranges" and ?c = "txt ! pos"
    have rest: "drop pos txt \<noteq> []" "hd (drop pos txt) = ?c" using True by (simp_all add: hd_drop_conv_nth)
    have fit: "within_text ?rs (length txt)" using within_drop_passed [OF less.prems(3)] .
    define found where "found = (case span_at ?rs pos of Some e \<Rightarrow> Some e
      | None \<Rightarrow> map_option (\<lambda>secret. pos + length secret) (match_secret_at (drop pos txt) secrets True))"
    have found_eq: "(case span_at ?rs pos of Some e \<Rightarrow> Some e
      | None \<Rightarrow> map_option (\<lambda>secret. pos + length secret)
          (case span_at ?rs pos of Some _ \<Rightarrow> None | None \<Rightarrow> match_secret_at (drop pos txt) secrets True)) = found"
      by (simp add: found_def split: option.split)
    show ?thesis
    proof (cases found)
      case (Some stop)
      have stop: "pos < stop" "stop \<le> length txt"
      proof -
        have "pos < stop \<and> stop \<le> length txt"
        proof (cases "span_at ?rs pos")
          case None
          then obtain secret where secret: "match_secret_at (drop pos txt) secrets True = Some secret" "stop = pos + length secret"
            using Some by (auto simp: found_def)
          then show ?thesis using match_length [OF assms(2) secret(1)] True by simp
        next
          case inner: (Some e)
          then show ?thesis using span_at_Some [OF inner] less.prems(3) Some
            by (auto simp: found_def within_text_def list_all_iff)
        qed
        then show "pos < stop" "stop \<le> length txt" by simp_all
      qed
      let ?out = "out @ push_line_preserving_marker (take (stop - pos) (drop pos txt))"
      have "window_loop secrets hold soft ?rs None ?out stop (drop stop txt) = (out', pos', sp')"
        using less.prems(4) rest(1) Some stop found_eq by (subst (asm) window_loop.simps) (simp add: Let_def)
      then show ?thesis
        using less.hyps [of stop ?out None ?rs] stop True written_masked [OF less.prems(1) stop] fit by (simp add: spec_ok_def)
    next
      case None
      then have none: "match_secret_at (drop pos txt) secrets True = None" by (auto simp: found_def split: option.splits)
      show ?thesis
      proof (cases "soft \<le> pos \<and> is_secret_prefix (drop pos txt) secrets")
        case stop: True
        then have "(out', pos', sp') = (out, pos, sp)"
          using less.prems(4) rest(1) None found_eq by (subst (asm) window_loop.simps) (simp add: Let_def)
        then show ?thesis using less.prems(1,2) stop True by simp
      next
        case go: False
        let ?sp = "if sp = None \<and> hold \<le> pos then Some (pos, length out) else sp"
        let ?n = "char_len ?c"
        have n: "pos + ?n \<le> length txt" using char_in_text(1) [OF assms(1) True] .
        have "window_ok secrets soft txt (pos + j)" if "j < ?n" for j
          using none go char_in_text(2) [OF assms(1) True, of j] that by (cases j) (auto simp: window_ok_def)
        then have w: "written secrets soft txt (pos + ?n) (out @ take ?n (drop pos txt))"
          using written_kept [OF less.prems(1) n] by blast
        have "spec_ok secrets hold soft txt out ?sp" using less.prems(1,2) by (auto simp: spec_ok_def)
        then have s: "spec_ok secrets hold soft txt (out @ take ?n (drop pos txt)) ?sp" by (rule spec_ok_append)
        have more_left: "\<not> length txt \<le> pos" using True by simp
        have "window_loop secrets hold soft ranges sp out pos (drop pos txt) =
            window_loop secrets hold soft ?rs ?sp (out @ take ?n (drop pos txt)) (pos + ?n) (drop (pos + ?n) txt)"
          by (subst window_loop.simps)
            (simp add: Let_def rest found_eq None if_not_P [OF go] add.commute more_left split del: if_split)
        then have "window_loop secrets hold soft ?rs ?sp (out @ take ?n (drop pos txt)) (pos + ?n) (drop (pos + ?n) txt) = (out', pos', sp')"
          using less.prems(4) by simp
        moreover have "length txt - (pos + ?n) < length txt - pos" using True char_len_pos [of ?c] by linarith
        ultimately show ?thesis using less.hyps [OF _ w s fit] by blast
      qed
    qed
  qed
qed

lemma mask_window_written:
  assumes "utf8_valid txt" and "list_all (\<lambda>s. s \<noteq> []) secrets" and "within_text ranges (length txt)"
    and "mask_window txt secrets ranges hold soft = (out, emitted)"
  shows "written secrets soft txt emitted out"
    and "emitted = length txt \<or> hold \<le> emitted \<or> emitted < length txt \<and> soft \<le> emitted \<and> is_secret_prefix (drop emitted txt) secrets"
proof -
  obtain out' pos' sp' where loop: "window_loop secrets hold soft ranges None [] 0 txt = (out', pos', sp')"
    by (metis prod_cases3)
  have "written secrets soft txt 0 []" by (auto simp: written_def intro!: exI [of _ "[]"])
  then have all: "written secrets soft txt pos' out' \<and> spec_ok secrets hold soft txt out' sp' \<and>
    (pos' = length txt \<or> pos' < length txt \<and> soft \<le> pos' \<and> is_secret_prefix (drop pos' txt) secrets)"
    using window_loop_written [OF assms(1,2) _ _ assms(3), of soft 0 "[]" hold None out' pos' sp'] loop by (simp add: spec_ok_def)
  show "written secrets soft txt emitted out"
    "emitted = length txt \<or> hold \<le> emitted \<or> emitted < length txt \<and> soft \<le> emitted \<and> is_secret_prefix (drop emitted txt) secrets"
    using all assms(4) by (auto simp: mask_window_def loop spec_ok_def split: option.splits)
qed

section \<open>The stream\<close>

lemma char_tail_self: "char_tail c (take (char_tail c cs) cs) = char_tail c cs"
proof (cases cs)
  case (Cons d ds)
  have "takeWhile is_continuation (take k (take (length (takeWhile is_continuation (take k ds))) ds)) =
      takeWhile is_continuation (take k ds)" for k
  proof -
    let ?w = "takeWhile is_continuation (take k ds)"
    have n: "length ?w \<le> k" using length_takeWhile_le [of is_continuation "take k ds"] by simp
    have "take (length ?w) (take k ds) = ?w" using takeWhile_eq_take [of is_continuation "take k ds"] by simp
    then have w: "take k (take (length ?w) ds) = ?w" using n by (simp add: min_def)
    have "takeWhile is_continuation ?w = ?w" by (metis takeWhile_eq_all_conv set_takeWhileD)
    then show ?thesis using w by simp
  qed
  then show ?thesis by (simp add: char_tail_def Cons)
qed (simp add: char_tail_def)

lemma lossy_is_valid: "utf8_valid (from_utf8_lossy s)"
proof (induction s rule: from_utf8_lossy.induct)
  case (2 c cs)
  have "utf8_valid replacement_char"
    by (simp add: replacement_char_def utf8_len_def char_tail_def second_ok_def is_continuation_def eval_nat_numeral)
  moreover have "utf8_valid (c # take (char_tail c cs) cs)" if "utf8_len c = char_tail c cs + 1"
    using that by (simp add: char_tail_self)
  ultimately show ?case using valid_append 2 by (simp add: valid_append)
qed simp

definition masker_wf :: "streaming_masker \<Rightarrow> bool" where
  "masker_wf m \<longleftrightarrow> list_all (\<lambda>s. s \<noteq> [] \<and> utf8_valid s \<and> length s \<le> sm_max_len m) (sm_secrets m) \<and> utf8_valid (sm_carry m)"

lemma alignment_ranges_within: "within_text (alignment_ranges ext m txt) (length txt)"
proof -
  have "within_text (tainted_segment_ranges ext txt scanner True) (length txt)" for scanner
    unfolding tainted_segment_ranges_def within_text_def
    by (rule align.merge_sorted_bound) (use candidates_within [of "txt" True] in \<open>auto simp: list_all_iff candidate_within_def\<close>)
  then show ?thesis by (simp add: alignment_ranges_def within_text_def split: option.split)
qed

lemma trailing_run_base64:
  assumes "trailing_run_hold m txt \<le> i" and "i < length txt"
  shows "is_base64_byte (txt ! i)"
proof -
  let ?r = "dropWhile is_base64_byte (rev txt)"
  have "rev txt = takeWhile is_base64_byte (rev txt) @ ?r" by simp
  then have eq: "txt = rev ?r @ rev (takeWhile is_base64_byte (rev txt))" by (metis rev_append rev_rev_ident)
  have "length ?r \<le> i" using assms by (auto simp: trailing_run_hold_def Let_def split: option.splits)
  then have "txt ! i \<in> set (rev (takeWhile is_base64_byte (rev txt)))"
    using assms(2) eq by (metis nth_append length_rev not_le nth_mem length_append add_diff_inverse_nat nat_add_left_cancel_less)
  then show ?thesis by (auto dest: set_takeWhileD)
qed

lemma base64_not_continuation: "is_base64_byte b \<Longrightarrow> \<not> is_continuation b"
  by (auto simp: is_base64_byte_def is_continuation_def is_ascii_alphanumeric_def is_ascii_alphabetic_def is_ascii_digit_def)

lemma secret_prefix_hd:
  assumes "is_secret_prefix r secrets" and "list_all utf8_valid secrets" and "r \<noteq> []"
  shows "\<not> is_continuation (hd r)"
proof -
  obtain s where s: "s \<in> set secrets" "length r < length s" "to_lower (take (length r) s) = to_lower r"
    using assms(1) by (auto simp: is_secret_prefix_def list_ex_iff eq_ignore_ascii_case_def)
  obtain d ds where r: "r = d # ds" using assms(3) by (cases r) auto
  obtain c cs where c: "s = c # cs" using s(2) by (cases s) auto
  have "char_lower c = char_lower d" using s(3) by (simp add: r c)
  moreover have "\<not> is_continuation c" using valid_hd [of s] s(1) assms(2) by (auto simp: list_all_iff c)
  ultimately show ?thesis using lower_class(2) by (metis r list.sel(1))
qed

lemma masker_push_step:
  assumes "masker_wf m" and "masker_push ext m chunk = (out, m')"
  defines "txt \<equiv> from_utf8_lossy (sm_carry m @ chunk)"
  shows "masker_wf m'" "\<exists>e. sm_carry m' = drop e txt \<and> written (sm_secrets m) (length txt - (sm_max_len m - 1)) txt e out"
    "sm_secrets m' = sm_secrets m" "sm_max_len m' = sm_max_len m" "sm_scanner m' = sm_scanner m"
    "length (sm_carry m') \<le> max (sm_max_len m - 1) (case sm_scanner m of None \<Rightarrow> 0 | Some sc \<Rightarrow> hold_bound sc)"
proof -
  let ?soft = "length txt - (sm_max_len m - 1)" and ?hold = "trailing_run_hold m txt"
  obtain e where e: "mask_window txt (sm_secrets m) (alignment_ranges ext m txt) ?hold ?soft = (out, e)"
    and m': "m' = m\<lparr>sm_carry := drop e txt\<rparr>"
    using assms(2) by (auto simp: masker_push_def txt_def Let_def split: prod.splits)
  have valid: "utf8_valid txt" unfolding txt_def by (rule lossy_is_valid)
  have ne: "list_all (\<lambda>s. s \<noteq> []) (sm_secrets m)" and sec: "list_all utf8_valid (sm_secrets m)"
    using assms(1) by (auto simp: masker_wf_def list_all_iff)
  note win = mask_window_written [OF valid ne alignment_ranges_within e]
  have "\<not> is_continuation (txt ! e)" if lt: "e < length txt"
    using win(2)
  proof (elim disjE conjE)
    assume "?hold \<le> e"
    then show ?thesis using trailing_run_base64 lt base64_not_continuation by blast
  next
    assume "is_secret_prefix (drop e txt) (sm_secrets m)"
    then have "\<not> is_continuation (hd (drop e txt))" using secret_prefix_hd [OF _ sec] lt by simp
    then show ?thesis using lt by (simp add: hd_drop_conv_nth)
  qed (use lt in simp)
  then have "utf8_valid (drop e txt)" by (rule valid_drop [OF valid])
  then show "masker_wf m'" using assms(1) by (simp add: masker_wf_def m')
  show "\<exists>e. sm_carry m' = drop e txt \<and> written (sm_secrets m) ?soft txt e out" using win(1) by (auto simp: m')
  show "sm_secrets m' = sm_secrets m" "sm_max_len m' = sm_max_len m" "sm_scanner m' = sm_scanner m" by (simp_all add: m')
  show "length (sm_carry m') \<le> max (sm_max_len m - 1) (case sm_scanner m of None \<Rightarrow> 0 | Some sc \<Rightarrow> hold_bound sc)"
    using win(2)
  proof (elim disjE conjE)
    assume "?hold \<le> e"
    then show ?thesis by (auto simp: m' trailing_run_hold_def Let_def le_max_iff_disj split: option.splits)
  qed (auto simp: m' le_max_iff_disj)
qed

text \<open>No value begins at \<open>r\<close>, in any letter case.\<close>

definition unmatched :: "string list \<Rightarrow> string \<Rightarrow> bool" where
  "unmatched secrets r \<longleftrightarrow> (\<forall>s t. s \<in> set secrets \<and> hideable s \<and> spelled True s t \<longrightarrow> \<not> prefix t r)"

lemma window_ok_unmatched:
  assumes "window_ok secrets soft txt i" and "i < length txt" and "utf8_valid txt"
    and "future = [] \<or> (\<forall>s \<in> set secrets. length s \<le> n) \<and> soft = length txt - (n - 1)"
  shows "unmatched secrets (drop i txt @ future)"
  unfolding unmatched_def
proof (intro allI impI notI, elim conjE)
  fix s t
  assume s: "s \<in> set secrets" "hideable s" "spelled True s t" and "prefix t (drop i txt @ future)"
  then obtain w where w: "drop i txt @ future = t @ w" by (auto simp: prefix_def)
  have t: "hideable t" using spelled_hideable s(2,3) by blast
  then have cont: "\<not> is_continuation (hd t)"
    using utf8_hd hideable_nonempty unfolding hideable_def by (metis list.exhaust_sel)
  obtain c cs where c: "t = c # cs" using hideable_nonempty [OF t] by (cases t) auto
  have "hd (drop i txt @ future) = txt ! i" using assms(2) by (simp add: hd_append hd_drop_conv_nth)
  then have head: "\<not> is_continuation (txt ! i)" using cont w by (simp add: c)
  then have none: "match_secret_at (drop i txt) secrets True = None"
    "\<not> (soft \<le> i \<and> is_secret_prefix (drop i txt) secrets)" using assms(1) by (simp_all add: window_ok_def)
  have low: "to_lower t = to_lower s" using s(3) by (simp add: spelled_def)
  have "\<exists>v. drop i txt = t @ v \<or> t = drop i txt @ v \<and> v \<noteq> [] \<and> future \<noteq> []"
  proof (cases "length t \<le> length (drop i txt)")
    case True
    then have "drop i txt = t @ drop (length t) (drop i txt)"
      using arg_cong [OF w, of "take (length t)"] by (simp add: eq_commute [of _ t]) (metis append_take_drop_id drop_drop)
    then show ?thesis by blast
  next
    case False
    have "take (length (drop i txt)) t = drop i txt"
      using arg_cong [OF w, of "take (length (drop i txt))"] False by simp
    then obtain v where v: "t = drop i txt @ v" by (metis append_take_drop_id)
    then have "future = v @ w" "v \<noteq> []" using w False by simp_all
    then show ?thesis using v by blast
  qed
  then obtain v where "drop i txt = t @ v \<or> t = drop i txt @ v \<and> v \<noteq> [] \<and> future \<noteq> []" ..
  then show False
  proof (elim disjE conjE)
    assume v: "drop i txt = t @ v"
    have "utf8_ok (take i txt @ t @ v)" using valid_ok [OF assms(3)] by (simp flip: v)
    from spelled_matches [OF s(3) this s(2,1)] show False using none(1) v by simp
  next
    assume v: "t = drop i txt @ v" "v \<noteq> []" "future \<noteq> []"
    let ?r = "drop i txt"
    have n: "length s \<le> n" "soft = length txt - (n - 1)" using assms(4) v(3) s(1) by auto
    have len: "length t = length s" using low by (metis length_map)
    then have lt: "length ?r < length s" using v(1,2) by (simp add: v(1) flip: len)
    then have "soft \<le> i" using n assms(2) by simp
    have "utf8_ok ?r" using valid_drop [OF assms(3)] head valid_ok by blast
    then have "utf8_ok v" using utf8_cancel t v(1) unfolding hideable_def by blast
    then have "\<not> is_continuation (hd v)" using utf8_hd v(2) by (metis list.exhaust_sel)
    moreover have "hd v = t ! length ?r" using v by (simp add: hd_conv_nth nth_append)
    moreover have "char_lower (t ! length ?r) = char_lower (s ! length ?r)" using low lt len by (metis nth_map)
    ultimately have "\<not> is_continuation (s ! length ?r)" using lower_class(2) by metis
    then have "is_char_boundary s (length ?r)" using lt by (simp add: is_char_boundary_def)
    moreover have "to_lower (take (length ?r) s) = to_lower ?r" using low v(1) by (metis append_eq_conv_conj take_map)
    ultimately have "is_secret_prefix ?r secrets"
      using lt s(1) by (auto simp: is_secret_prefix_def list_ex_iff eq_ignore_ascii_case_def)
    then show False using none(2) \<open>soft \<le> i\<close> by blast
  qed
qed

lemma clean_index:
  assumes "clean (\<lambda>i _. Q i) k ps" and "drop k txt = src_of ps @ w" and "\<And>i. i < length txt \<Longrightarrow> Q i \<Longrightarrow> Q' (drop i txt)"
  shows "clean (\<lambda>_ r. Q' (r @ w)) j ps"
  using assms(1,2)
proof (induction ps arbitrary: k j)
  case (Cons p ps)
  have rest: "drop (k + length (piece_src p)) txt = src_of ps @ w"
  proof -
    have "drop (length (piece_src p)) (drop k txt) = src_of ps @ w" using Cons.prems(2) by (simp del: drop_drop)
    then show ?thesis by (simp add: add.commute)
  qed
  show ?case
  proof (cases p)
    case (Kept c)
    then have "k < length txt" using Cons.prems(2) by (cases "k < length txt") auto
    moreover have "Q k" using Cons.prems(1) by (simp add: Kept)
    ultimately have "Q' (c # src_of ps @ w)" using assms(3) [of k] Cons.prems(2) by (simp add: Kept)
    then show ?thesis using Cons.IH [of "k + 1" "j + 1"] Cons.prems(1) rest by (simp add: Kept)
  next
    case (Masked span out)
    then show ?thesis using Cons.IH [of "k + length span" "j + length span"] Cons.prems(1) rest by simp
  qed
qed simp

lemma clean_any: "clean (\<lambda>_. Q) k ps = clean (\<lambda>_. Q) j ps"
proof (induction ps arbitrary: k j)
  case (Cons p ps)
  then show ?case by (cases p) auto
qed simp

lemma clean_join:
  "clean (\<lambda>_ r. Q (r @ src_of qs)) k ps \<Longrightarrow> (\<And>j. clean (\<lambda>_. Q) j qs) \<Longrightarrow> clean (\<lambda>_. Q) k (ps @ qs)"
proof (induction ps arbitrary: k)
  case (Cons p ps)
  then show ?case by (cases p) simp_all
qed simp

lemma written_future:
  assumes "written secrets soft txt e out" and "utf8_valid txt"
    and "future = [] \<or> (\<forall>s \<in> set secrets. length s \<le> n) \<and> soft = length txt - (n - 1)"
  shows "\<exists>ps. src_of ps = take e txt \<and> out_of ps = out \<and> list_all (marker_ok True) ps \<and>
    clean (\<lambda>_ r. unmatched secrets (r @ drop e txt @ future)) 0 ps"
proof -
  obtain ps where ps: "src_of ps = take e txt" "out_of ps = out" "list_all (marker_ok True) ps"
    "clean (\<lambda>i _. window_ok secrets soft txt i) 0 ps" using assms(1) by (auto simp: written_def)
  have "clean (\<lambda>_ r. unmatched secrets ((r @ drop e txt) @ future)) 0 ps"
    by (rule clean_index [OF ps(4)]) (use ps(1) window_ok_unmatched [OF _ _ assms(2,3)] in auto)
  then show ?thesis using ps(1-3) by auto
qed

lemma masker_run_pieces:
  assumes "masker_wf m" and "list_all utf8_valid chunks" and "length (sm_carry m @ concat chunks) < USIZE_MAX"
  shows "\<exists>ps. src_of ps = sm_carry m @ concat chunks \<and> out_of ps = masker_run ext m chunks \<and>
    list_all (marker_ok True) ps \<and> (\<forall>k. clean (\<lambda>_. unmatched (sm_secrets m)) k ps)"
  using assms
proof (induction chunks arbitrary: m)
  case Nil
  have valid: "utf8_valid (sm_carry m)" and ne: "list_all (\<lambda>s. s \<noteq> []) (sm_secrets m)"
    using Nil.prems(1) by (auto simp: masker_wf_def list_all_iff)
  obtain out e where e: "mask_window (sm_carry m) (sm_secrets m) (alignment_ranges ext m (sm_carry m)) USIZE_MAX USIZE_MAX = (out, e)"
    by fastforce
  note win = mask_window_written [OF valid ne alignment_ranges_within e]
  have all: "e = length (sm_carry m)" using win Nil.prems(3) by (auto simp: written_def)
  have "masker_run ext m [] = out" by (simp add: masker_finish_def lossy_valid [OF valid] e)
  moreover obtain ps where "src_of ps = take e (sm_carry m)" "out_of ps = out" "list_all (marker_ok True) ps"
    "clean (\<lambda>_ r. unmatched (sm_secrets m) (r @ drop e (sm_carry m) @ [])) 0 ps"
    using written_future [OF win(1) valid, of "[]" 0] by blast
  ultimately show ?case using clean_any [of "unmatched (sm_secrets m)"] all by auto
next
  case (Cons chunk chunks)
  obtain out m' where push: "masker_push ext m chunk = (out, m')" by fastforce
  let ?txt = "sm_carry m @ chunk"
  have valid: "utf8_valid ?txt" using Cons.prems(1,2) valid_append by (simp add: masker_wf_def)
  note step = masker_push_step [OF Cons.prems(1) push, unfolded lossy_valid [OF valid]]
  obtain e where e: "sm_carry m' = drop e ?txt" "written (sm_secrets m) (length ?txt - (sm_max_len m - 1)) ?txt e out"
    using step(2) by blast
  have bound: "\<forall>s \<in> set (sm_secrets m). length s \<le> sm_max_len m" using Cons.prems(1) by (auto simp: masker_wf_def list_all_iff)
  obtain ps where ps: "src_of ps = take e ?txt" "out_of ps = out" "list_all (marker_ok True) ps"
    "clean (\<lambda>_ r. unmatched (sm_secrets m) (r @ drop e ?txt @ concat chunks)) 0 ps"
    using written_future [OF e(2) valid, of "concat chunks" "sm_max_len m"] bound by blast
  have "length (sm_carry m' @ concat chunks) < USIZE_MAX" using Cons.prems(3) by (simp add: e(1))
  then obtain qs where qs: "src_of qs = sm_carry m' @ concat chunks" "out_of qs = masker_run ext m' chunks"
    "list_all (marker_ok True) qs" "\<forall>k. clean (\<lambda>_. unmatched (sm_secrets m)) k qs"
    using Cons.IH [OF step(1)] Cons.prems(2) step(3) by auto
  have "clean (\<lambda>_. unmatched (sm_secrets m)) 0 (ps @ qs)"
    by (rule clean_join) (use ps(4) qs(1,4) e(1) in auto)
  then have "\<forall>k. clean (\<lambda>_. unmatched (sm_secrets m)) k (ps @ qs)" using clean_any by blast
  moreover have "src_of (ps @ qs) = sm_carry m @ concat (chunk # chunks)"
    using ps(1) qs(1) e(1) by (metis append.assoc append_take_drop_id concat.simps(2) concat_append map_append)
  moreover have "out_of (ps @ qs) = masker_run ext m (chunk # chunks)" using ps(2) qs(2) by (simp add: push)
  ultimately show ?case using ps(3) qs(3) by (intro exI [of _ "ps @ qs"]) auto
qed

text \<open>What the \<^verbatim>\<open>base64\<close> crate promises of its encoders: the text is of base64 bytes.\<close>

definition base64_text :: "base64_ext \<Rightarrow> bool" where
  "base64_text ext \<longleftrightarrow> (\<forall>s. list_all is_base64_byte (std_encode ext s) \<and> list_all is_base64_byte (std_encode_nopad ext s) \<and>
     list_all is_base64_byte (url_encode ext s) \<and> list_all is_base64_byte (url_encode_nopad ext s))"

definition ascii_byte :: "char \<Rightarrow> bool" where
  "ascii_byte c \<longleftrightarrow> (of_char c :: nat) < 128"

lemma ascii_valid: "list_all ascii_byte s \<Longrightarrow> utf8_valid s"
proof (induction s)
  case (Cons c s)
  then have one: "utf8_len c = 1" by (simp add: ascii_byte_def utf8_len_def)
  have "char_tail c s = 0" by (cases s) (simp_all add: char_tail_def one)
  then show ?case using Cons one by simp
qed simp

lemma base64_ascii: "list_all is_base64_byte s \<Longrightarrow> list_all ascii_byte s"
  by (auto simp: list_all_iff is_base64_byte_def ascii_byte_def is_ascii_alphanumeric_def is_ascii_alphabetic_def is_ascii_digit_def)

lemma hex_ascii: "n < 16 \<Longrightarrow> ascii_byte (hex_lower n) \<and> ascii_byte (hex_upper n)"
  by (auto simp: ascii_byte_def hex_lower_def hex_upper_def of_char_of)

lemma byte_hex_ascii: "list_all ascii_byte (byte_hex hex_lower b)" "list_all ascii_byte (byte_hex hex_upper b)"
proof -
  have "(of_char b :: nat) < 256" by (metis of_char_of char_of_char mod_less_divisor zero_less_numeral)
  then have "(of_char b :: nat) div 16 < 16" "(of_char b :: nat) mod 16 < 16" by linarith+
  then show "list_all ascii_byte (byte_hex hex_lower b)" "list_all ascii_byte (byte_hex hex_upper b)"
    using hex_ascii by (simp_all add: byte_hex_def)
qed

lemma concat_ascii: "(\<And>b. list_all ascii_byte (f b)) \<Longrightarrow> list_all ascii_byte (concat (map f s))"
  by (induction s) auto

lemma percent_ascii: "list_all ascii_byte (percent_encode s)"
  unfolding percent_encode_def
  by (rule concat_ascii)
    (auto simp: byte_hex_ascii ascii_byte_def is_ascii_alphanumeric_def is_ascii_alphabetic_def is_ascii_digit_def)

lemma variants_valid:
  assumes "base64_text ext" and "v \<in> set (secret_variants ext s)"
  shows "utf8_valid v"
proof -
  have push: "set (push_unique s v out) \<subseteq> insert v (set out)" for v out by (auto simp: push_unique_def)
  have sub: "set (fold (push_unique s) vs out) \<subseteq> set vs \<union> set out" for vs out
  proof (induction vs arbitrary: out)
    case (Cons v vs)
    show ?case using push [of v out] Cons.IH [of "push_unique s v out"] by (simp only: fold_simps comp_apply list.set) blast
  qed simp
  have "s \<noteq> []"
  proof
    assume "s = []"
    then show False using assms(2) by (simp add: secret_variants_def)
  qed
  then have "v \<in> set (fold (push_unique s) [std_encode ext s, std_encode_nopad ext s, url_encode ext s, url_encode_nopad ext s,
         percent_encode s, concat (map (byte_hex hex_lower) s), concat (map (byte_hex hex_upper) s)] [])"
    using assms(2) unfolding secret_variants_def if_not_P [OF \<open>s \<noteq> []\<close>] by blast
  from subsetD [OF sub this]
  have "v = std_encode ext s \<or> v = std_encode_nopad ext s \<or> v = url_encode ext s \<or> v = url_encode_nopad ext s \<or>
      v = percent_encode s \<or> v = concat (map (byte_hex hex_lower) s) \<or> v = concat (map (byte_hex hex_upper) s)"
    by simp
  moreover have "list_all ascii_byte (std_encode ext s)" "list_all ascii_byte (std_encode_nopad ext s)"
    "list_all ascii_byte (url_encode ext s)" "list_all ascii_byte (url_encode_nopad ext s)"
    using assms(1) by (simp_all add: base64_text_def base64_ascii)
  moreover note percent_ascii [of s] concat_ascii [OF byte_hex_ascii(1), where s = s] concat_ascii [OF byte_hex_ascii(2), where s = s]
  ultimately have "list_all ascii_byte v" by (elim disjE) (simp_all only:)
  then show ?thesis by (rule ascii_valid)
qed

lemma fold_max_ge: "k \<le> fold max xs (k :: nat) \<and> (\<forall>x \<in> set xs. x \<le> fold max xs k)"
proof (induction xs arbitrary: k)
  case (Cons y ys)
  show ?case using Cons.IH [of "max y k"] by simp
qed simp

lemma masker_new_secrets: "set (sm_secrets (masker_new ext secrets)) = masked_values ext [] True secrets"
proof -
  let ?f = "\<lambda>secret (expanded, raw). (fold push_new (secret_variants ext secret) (push_new secret expanded), push_new secret raw)"
  have "set (fst (fold ?f (filter (\<lambda>s. s \<noteq> []) secrets) (expanded, raw))) = set expanded \<union> masked_values ext [] True secrets"
    for expanded and raw :: "string list"
    by (induction secrets arbitrary: expanded raw) (auto simp: masked_values_def)
  then show ?thesis by (simp add: masker_new_def Let_def case_prod_unfold)
qed

lemma masker_new_wf:
  assumes "base64_text ext" and "list_all utf8_valid secrets"
  shows "masker_wf (masker_new ext secrets)" "sm_carry (masker_new ext secrets) = []"
proof -
  have "\<exists>k. sm_max_len (masker_new ext secrets) = fold max (map length (sm_secrets (masker_new ext secrets))) 0"
    "sm_carry (masker_new ext secrets) = []"
    by (simp_all add: masker_new_def Let_def case_prod_unfold)
  then show "sm_carry (masker_new ext secrets) = []"
    and "masker_wf (masker_new ext secrets)"
    using masker_new_secrets [of ext secrets] masked_values_nonempty [of ext "[]" True secrets] variants_valid [OF assms(1)] assms(2)
      fold_max_ge [of 0]
    by (auto simp: masker_wf_def list_all_iff masked_values_def)
qed

text \<open>An instance of the codec for the witnesses: bytes in hexadecimal are base64 bytes, and nothing decodes.\<close>

definition hex_codec :: base64_ext where
  "hex_codec = (let enc = (\<lambda>s. concat (map (byte_hex hex_lower) s))
     in \<lparr>std_encode = enc, std_encode_nopad = enc, url_encode = enc, url_encode_nopad = enc,
         std_decode = (\<lambda>_. None), url_decode = (\<lambda>_. None)\<rparr>)"

lemma hex_codec_text: "base64_text hex_codec"
proof -
  have digit: "is_base64_byte (hex_lower n)" if "n < 16" for n
  proof (cases "n < 10")
    case True
    then show ?thesis by (simp add: is_base64_byte_def is_ascii_alphanumeric_def is_ascii_digit_def hex_lower_def of_char_of)
  next
    case False
    then show ?thesis using that
      by (simp add: is_base64_byte_def is_ascii_alphanumeric_def is_ascii_alphabetic_def hex_lower_def of_char_of)
  qed
  have "(of_char b :: nat) < 256" for b by (metis of_char_of char_of_char mod_less_divisor zero_less_numeral)
  then have "(of_char b :: nat) div 16 < 16" "(of_char b :: nat) mod 16 < 16" for b by (simp_all add: less_mult_imp_div_less)
  then have "list_all is_base64_byte (concat (map (byte_hex hex_lower) s))" for s
    by (induction s) (simp_all add: byte_hex_def digit)
  then show ?thesis by (simp add: base64_text_def hex_codec_def Let_def)
qed

section \<open>Properties\<close>

text \<open>C8. However a stream is cut into chunks that end at character boundaries, what the masker writes for it
  never contains a registered value that has no asterisk, or such an encoding of one, in any letter case:
  a value cut by a chunk is found in the window in which it ends, and its head has been withheld until
  then. Values with an asterisk, which the scan can leave readable, and values of line breaks only are
  left out.\<close>

theorem stream_no_leak:
  assumes "base64_text ext" and "list_all utf8_valid secrets" and "list_all utf8_valid chunks"
    and "length (concat chunks) < USIZE_MAX"
    and "v \<in> masked_values ext [] True secrets" and "hideable v" and "spelled True v t"
  shows "\<not> sublist t (masker_run ext (masker_new ext secrets) chunks)"
proof
  let ?m = "masker_new ext secrets"
  assume "sublist t (masker_run ext ?m chunks)"
  then obtain u w where out: "masker_run ext ?m chunks = u @ t @ w" by (auto simp: sublist_def)
  note wf = masker_new_wf [OF assms(1,2)]
  obtain ps where ps: "out_of ps = masker_run ext ?m chunks" "list_all (marker_ok True) ps"
    "clean (\<lambda>_. unmatched (sm_secrets ?m)) 0 ps"
    using masker_run_pieces [OF wf(1) assms(3), of ext] assms(4) wf(2) by auto
  have t: "hideable t" using spelled_hideable assms(6,7) by blast
  then obtain ps1 ps2 where run: "ps = ps1 @ map Kept t @ ps2"
    using kept_run [of ps u t w True] ps(1,2) out by (auto simp: hideable_def)
  obtain c cs where c: "t = c # cs" using hideable_nonempty [OF t] by (cases t) auto
  have "unmatched (sm_secrets ?m) (t @ src_of ps2)"
    using clean_append [of "\<lambda>_. unmatched (sm_secrets ?m)" 0 ps1 c "map Kept cs @ ps2"] ps(3) by (simp add: run c)
  moreover have "prefix t (t @ src_of ps2)" by simp
  ultimately show False using assms(5-7) unfolding unmatched_def masker_new_secrets by blast
qed

theorem stream_no_leak_witness:
  "\<not> sublist ''PassWord'' (masker_run hex_codec (masker_new hex_codec [''password'']) [''my Pas'', ''sWo'', ''rd, mine''])"
proof (rule stream_no_leak [OF hex_codec_text])
  show "list_all utf8_valid [''password'']" "list_all utf8_valid [''my Pas'', ''sWo'', ''rd, mine'']"
    by (simp_all add: ascii_valid ascii_byte_def del: utf8_valid.simps)
  show "hideable ''password''" by (simp add: hideable_def utf8_len_def is_line_break_def)
  show "spelled True ''password'' ''PassWord''" by code_simp
qed (simp_all add: masked_values_def USIZE_MAX_def)

text \<open>Nothing but hidden values is missing from what the masker writes: the line breaks of the whole stream
  come out, the same ones in the same order, whatever the chunks are.\<close>

theorem stream_preserves_lines:
  assumes "base64_text ext" and "list_all utf8_valid secrets" and "list_all utf8_valid chunks"
    and "length (concat chunks) < USIZE_MAX"
  shows "filter is_line_break (masker_run ext (masker_new ext secrets) chunks) = filter is_line_break (concat chunks)"
proof -
  note wf = masker_new_wf [OF assms(1,2)]
  obtain ps where "src_of ps = concat chunks" "out_of ps = masker_run ext (masker_new ext secrets) chunks" "list_all (marker_ok True) ps"
    using masker_run_pieces [OF wf(1) assms(3), of ext] assms(4) wf(2) by auto
  then show ?thesis using pieces_lines by metis
qed

theorem stream_preserves_lines_witness:
  "filter is_line_break (masker_run hex_codec (masker_new hex_codec [''password'']) [''a pas'', ''sword'', [CHR 0x0A]]) =
   filter is_line_break (concat [''a pas'', ''sword'', [CHR 0x0A]])"
proof (rule stream_preserves_lines [OF hex_codec_text])
  show "list_all utf8_valid [''password'']" "list_all utf8_valid [''a pas'', ''sword'', [CHR 0x0A]]"
    by (simp_all add: ascii_valid ascii_byte_def del: utf8_valid.simps)
qed (simp add: USIZE_MAX_def)

fun masker_after :: "base64_ext \<Rightarrow> streaming_masker \<Rightarrow> string list \<Rightarrow> streaming_masker" where
  "masker_after ext m [] = m"
| "masker_after ext m (chunk # chunks) = masker_after ext (snd (masker_push ext m chunk)) chunks"

text \<open>Whatever bytes are pushed, valid text or not, the withheld tail is valid text again and never longer
  than the longest value less one byte or, where values are long enough for the base64 scan, the bound
  of that scan: nothing is held back for ever.\<close>

theorem stream_carry_bounded:
  assumes "base64_text ext" and "list_all utf8_valid secrets"
  shows "utf8_valid (sm_carry (masker_after ext (masker_new ext secrets) chunks)) \<and>
    length (sm_carry (masker_after ext (masker_new ext secrets) chunks)) \<le>
      max (sm_max_len (masker_new ext secrets) - 1)
        (case sm_scanner (masker_new ext secrets) of None \<Rightarrow> 0 | Some scanner \<Rightarrow> hold_bound scanner)"
proof -
  have "utf8_valid (sm_carry (masker_after ext m chunks)) \<and> length (sm_carry (masker_after ext m chunks)) \<le> n"
    if "masker_wf m" "length (sm_carry m) \<le> n"
      "n = max (sm_max_len m - 1) (case sm_scanner m of None \<Rightarrow> 0 | Some scanner \<Rightarrow> hold_bound scanner)" for m n
    using that
  proof (induction chunks arbitrary: m)
    case (Cons chunk chunks)
    obtain out m' where push: "masker_push ext m chunk = (out, m')" by fastforce
    note step = masker_push_step [OF Cons.prems(1) push]
    then show ?case using Cons.IH [OF step(1)] step Cons.prems(3) by (simp add: push)
  qed (simp add: masker_wf_def)
  from this [OF masker_new_wf(1) [OF assms]] show ?thesis using masker_new_wf(2) [OF assms] by simp
qed

theorem stream_carry_bounded_witness:
  "utf8_valid (sm_carry (masker_after hex_codec (masker_new hex_codec [''password'']) [[CHR 0xC3], ''xpas''])) \<and>
    length (sm_carry (masker_after hex_codec (masker_new hex_codec [''password'']) [[CHR 0xC3], ''xpas''])) \<le>
      max (sm_max_len (masker_new hex_codec [''password'']) - 1)
        (case sm_scanner (masker_new hex_codec [''password'']) of None \<Rightarrow> 0 | Some scanner \<Rightarrow> hold_bound scanner)"
proof (rule stream_carry_bounded [OF hex_codec_text])
  show "list_all utf8_valid [''password'']" by (simp add: ascii_valid ascii_byte_def del: utf8_valid.simps)
qed

section \<open>Two streams that stay readable\<close>

text \<open>In one piece the longer value is hidden as a whole; cut after the value that is its prefix, the prefix
  is a complete match and the rest is shown.\<close>

definition two_values :: streaming_masker where
  "two_values = \<lparr>sm_secrets = [''pwd'', ''pw''], sm_max_len = 3, sm_carry = [], sm_scanner = None\<rparr>"

lemmas run_simps = masker_push_def masker_finish_def mask_window_def window_loop.simps alignment_ranges_def trailing_run_hold_def
  Let_def span_at_def match_secret_at_def secret_at_def eq_ignore_ascii_case_def char_lower_def is_char_boundary_def
  is_continuation_def is_secret_prefix_def char_len_def utf8_len_def char_tail_def second_ok_def
  push_line_preserving_marker_def MASK_MARKER_def replacement_char_def USIZE_MAX_def

lemma prefix_value_tail_shown:
  "masker_run ext two_values [''pwd''] = ''***''"
  "masker_run ext two_values [''pw'', ''d''] = ''***d''"
  by (simp_all add: two_values_def run_simps)

text \<open>A chunk that ends within a character: each half is replaced before anything is compared, and the value
  that has the character is not found.\<close>

definition accented_value :: streaming_masker where
  "accented_value = \<lparr>sm_secrets = [[CHR 0xC3, CHR 0xA9, CHR ''w'']], sm_max_len = 3, sm_carry = [], sm_scanner = None\<rparr>"

lemma cut_character_shown:
  "masker_run ext accented_value [[CHR 0xC3, CHR 0xA9, CHR ''w'']] = ''***''"
  "masker_run ext accented_value [[CHR 0xC3], [CHR 0xA9, CHR ''w'']] = replacement_char @ replacement_char @ ''w''"
  by (simp_all add: accented_value_def run_simps)

end
