(* ===== verification/Workflow_Commands.thy ===== *)
theory Workflow_Commands
  imports Rust_Base
begin

text \<open>
  Workflow commands in step output, \<^verbatim>\<open>crates/preloop-runner/src/worker/commands.rs\<close>: the two formats of a
  command line and the escapes of data and properties.

  Shown: a command written with the escapes of the official toolkit is read back exactly, whatever
  bytes its data and property values contain; and unescaping is one pass, in that no escape is decoded
  twice.
\<close>

section \<open>Text\<close>

text \<open>\<^verbatim>\<open>str::replace\<close> of a non-empty pattern, and \<^verbatim>\<open>str::split\<close> at a character.\<close>

function str_replace :: "string \<Rightarrow> string \<Rightarrow> string \<Rightarrow> string" where
  "str_replace pat rep [] = []"
| "str_replace pat rep (c # cs) =
     (if starts_with pat (c # cs) then rep @ str_replace pat rep (drop (length pat - 1) cs)
      else c # str_replace pat rep cs)"
  by pat_completeness auto

termination by (relation "measure (\<lambda>(_, _, s). length s)") auto

fun split_char :: "char \<Rightarrow> string \<Rightarrow> string list" where
  "split_char d [] = [[]]"
| "split_char d (c # cs) =
     (if c = d then [] # split_char d cs
      else case split_char d cs of p # ps \<Rightarrow> (c # p) # ps | [] \<Rightarrow> [[c]])"

lemma split_char_nonempty: "split_char d s \<noteq> []"
  by (induction s) (auto split: list.split)

lemma split_char_plain: "d \<notin> set p \<Longrightarrow> split_char d (p @ d # s) = p # split_char d s"
  by (induction p) auto

lemma split_char_last: "d \<notin> set p \<Longrightarrow> split_char d p = [p]"
  by (induction p) auto

section \<open>Commands\<close>

record workflow_command =
  cmd_name :: string
  cmd_properties :: "string \<rightharpoonup> string"
  cmd_data :: string

definition unescape_data :: "string \<Rightarrow> string" where
  "unescape_data s = str_replace ''%25'' ''%'' (str_replace ''%0D'' [CHR 0x0D] (str_replace ''%0A'' [CHR 0x0A] s))"

definition unescape_property :: "string \<Rightarrow> string" where
  "unescape_property s =
     str_replace ''%25'' ''%'' (str_replace ''%0D'' [CHR 0x0D] (str_replace ''%0A'' [CHR 0x0A]
       (str_replace ''%2C'' '','' (str_replace ''%3A'' '':'' s))))"

definition insert_pair :: "string \<Rightarrow> (string \<rightharpoonup> string) \<Rightarrow> (string \<rightharpoonup> string)" where
  "insert_pair pair properties =
     (case position (\<lambda>c. c = CHR ''='') pair of
        None \<Rightarrow> properties
      | Some eq_pos \<Rightarrow>
          (let key = take eq_pos pair; val = drop (eq_pos + 1) pair
           in if key \<noteq> [] \<and> val \<noteq> [] then properties(to_lower key \<mapsto> unescape_property val) else properties))"

definition parse_double_colon :: "string \<Rightarrow> workflow_command option" where
  "parse_double_colon input =
     (let line = trim_start input
      in if \<not> starts_with ''::'' line then None
         else let rest = drop 2 line
         in case find_sub ''::'' rest of
              None \<Rightarrow> None
            | Some end_pos \<Rightarrow>
                (let command_part = take end_pos rest;
                     data = (if end_pos + 2 < length rest then drop (end_pos + 2) rest else []);
                     (name, props_str) = (case position (\<lambda>c. c = CHR '' '') command_part of
                        Some space_pos \<Rightarrow> (take space_pos command_part, Some (drop (space_pos + 1) command_part))
                      | None \<Rightarrow> (command_part, None))
                 in if name = [] then None
                    else Some \<lparr>cmd_name = to_lower name,
                      cmd_properties = (case props_str of
                          None \<Rightarrow> Map.empty
                        | Some props \<Rightarrow> fold insert_pair (split_char CHR '','' (trim props)) Map.empty),
                      cmd_data = unescape_data data\<rparr>))"

definition parse_legacy :: "string \<Rightarrow> workflow_command option" where
  "parse_legacy input =
     (let line = trim input
      in if \<not> starts_with ''##['' line then None
         else case position (\<lambda>c. c = CHR '']'') line of
                None \<Rightarrow> None
              | Some close \<Rightarrow>
                  Some \<lparr>cmd_name = to_lower (drop 3 (take close line)), cmd_properties = Map.empty,
                        cmd_data = drop (close + 1) line\<rparr>)"

definition parse_command :: "string \<Rightarrow> workflow_command option" where
  "parse_command line =
     (case parse_double_colon line of Some cmd \<Rightarrow> Some cmd | None \<Rightarrow> parse_legacy line)"

section \<open>Escapes\<close>

text \<open>The escapes of the official toolkit, which a script uses to write a command.\<close>

fun escape_data_char :: "char \<Rightarrow> string" where
  "escape_data_char c =
     (if c = CHR ''%'' then ''%25'' else if c = CHR 0x0D then ''%0D'' else if c = CHR 0x0A then ''%0A'' else [c])"

fun escape_property_char :: "char \<Rightarrow> string" where
  "escape_property_char c =
     (if c = CHR '','' then ''%2C'' else if c = CHR '':'' then ''%3A'' else escape_data_char c)"

definition escape_data :: "string \<Rightarrow> string" where
  "escape_data s = concat (map escape_data_char s)"

definition escape_property :: "string \<Rightarrow> string" where
  "escape_property s = concat (map escape_property_char s)"

text \<open>An escaped text is made of tokens: a character other than the percent sign, or an escape of three. A
  replacement of one escape acts on the tokens.\<close>

definition escape_token :: "string \<Rightarrow> bool" where
  "escape_token t \<longleftrightarrow> (\<exists>c. t = [c] \<and> c \<noteq> CHR ''%'') \<or> (\<exists>x y. t = [CHR ''%'', x, y] \<and> x \<noteq> CHR ''%'' \<and> y \<noteq> CHR ''%'')"

lemma replace_tokens:
  assumes "list_all escape_token ts"
  shows "str_replace [CHR ''%'', a, b] rep (concat ts) = concat (map (\<lambda>t. if t = [CHR ''%'', a, b] then rep else t) ts)"
  using assms
proof (induction ts)
  case (Cons t ts)
  then consider c where "t = [c]" "c \<noteq> CHR ''%''" | x y where "t = [CHR ''%'', x, y]" "x \<noteq> CHR ''%''" "y \<noteq> CHR ''%''"
    by (auto simp: escape_token_def)
  then show ?case
  proof cases
    case 1
    then show ?thesis using Cons by (auto simp: starts_with_def)
  next
    case 2
    then show ?thesis using Cons by (auto simp: starts_with_def eval_nat_numeral)
  qed
qed simp

lemma token_char: "c \<noteq> CHR ''%'' \<Longrightarrow> escape_token [c]"
  by (simp add: escape_token_def)

lemma token_escape: "x \<noteq> CHR ''%'' \<Longrightarrow> y \<noteq> CHR ''%'' \<Longrightarrow> escape_token [CHR ''%'', x, y]"
  by (simp add: escape_token_def)

lemma replace_escapes:
  assumes "\<And>c. escape_token (f c)"
  shows "str_replace [CHR ''%'', a, b] rep (concat (map f s)) = concat (map (\<lambda>c. if f c = [CHR ''%'', a, b] then rep else f c) s)"
  using replace_tokens [of "map f s" a b rep] assms by (simp add: list_all_iff comp_def)

lemma concat_single: "(\<And>c. f c = [c]) \<Longrightarrow> concat (map f s) = s"
  by (induction s) auto

lemma unescape_escape_data: "unescape_data (escape_data s) = s"
proof -
  let ?f1 = "\<lambda>c. if escape_data_char c = ''%0A'' then [CHR 0x0A] else escape_data_char c"
  let ?f2 = "\<lambda>c. if ?f1 c = ''%0D'' then [CHR 0x0D] else ?f1 c"
  have "str_replace ''%0A'' [CHR 0x0A] (escape_data s) = concat (map ?f1 s)"
    unfolding escape_data_def by (rule replace_escapes) (simp add: escape_token_def)
  moreover have "str_replace ''%0D'' [CHR 0x0D] (concat (map ?f1 s)) = concat (map ?f2 s)"
    by (rule replace_escapes) (simp add: escape_token_def)
  moreover have "str_replace ''%25'' ''%'' (concat (map ?f2 s)) = concat (map (\<lambda>c. if ?f2 c = ''%25'' then ''%'' else ?f2 c) s)"
    by (rule replace_escapes) (simp add: escape_token_def)
  moreover have "concat (map (\<lambda>c. if ?f2 c = ''%25'' then ''%'' else ?f2 c) s) = s"
    by (rule concat_single) simp
  ultimately show ?thesis by (simp only: unescape_data_def)
qed

lemma unescape_escape_property: "unescape_property (escape_property s) = s"
proof -
  let ?g = "\<lambda>c. if escape_property_char c = ''%3A'' then '':'' else escape_property_char c"
  let ?f0 = "\<lambda>c. if ?g c = ''%2C'' then '','' else ?g c"
  have "str_replace ''%3A'' '':'' (escape_property s) = concat (map ?g s)"
    unfolding escape_property_def by (rule replace_escapes) (simp add: escape_token_def)
  moreover have "str_replace ''%2C'' '','' (concat (map ?g s)) = concat (map ?f0 s)"
    by (rule replace_escapes) (simp add: escape_token_def)
  moreover have "?f0 c = escape_data_char c" for c by simp
  then have "concat (map ?f0 s) = escape_data s" by (simp only: escape_data_def)
  ultimately have "unescape_property (escape_property s) = unescape_data (escape_data s)"
    by (simp only: unescape_property_def unescape_data_def)
  then show ?thesis by (simp only: unescape_escape_data)
qed

section \<open>Reading back\<close>

definition key_ok :: "string \<Rightarrow> bool" where
  "key_ok k \<longleftrightarrow> k \<noteq> [] \<and> list_all (\<lambda>c. \<not> is_whitespace c \<and> c \<notin> set '',=:'') k"

definition render_pair :: "string \<times> string \<Rightarrow> string" where
  "render_pair p = fst p @ CHR ''='' # escape_property (snd p)"

definition render_info :: "string \<Rightarrow> (string \<times> string) list \<Rightarrow> string" where
  "render_info name pairs = name @ (if pairs = [] then [] else CHR '' '' # join '','' (map render_pair pairs))"

definition render_command :: "string \<Rightarrow> (string \<times> string) list \<Rightarrow> string \<Rightarrow> string" where
  "render_command name pairs data = ''::'' @ render_info name pairs @ ''::'' @ escape_data data"

lemma escape_property_clean: "CHR '':'' \<notin> set (escape_property s)" "CHR '','' \<notin> set (escape_property s)"
  by (induction s) (auto simp: escape_property_def split: if_splits)

lemma escape_property_nonempty: "s \<noteq> [] \<Longrightarrow> escape_property s \<noteq> []"
  by (cases s) (auto simp: escape_property_def)

lemma position_char: "d \<notin> set p \<Longrightarrow> position (\<lambda>c. c = d) (p @ d # s) = Some (length p)"
  by (induction p) auto

lemma position_char_None: "d \<notin> set p \<Longrightarrow> position (\<lambda>c. c = d) p = None"
  by (induction p) auto

lemma insert_render_pair:
  assumes "key_ok k" and "v \<noteq> []"
  shows "insert_pair (render_pair (k, v)) m = m(to_lower k \<mapsto> v)"
proof -
  have "CHR ''='' \<notin> set k" "k \<noteq> []" using assms(1) by (auto simp: key_ok_def list_all_iff)
  then show ?thesis using escape_property_nonempty [OF assms(2)]
    by (simp add: insert_pair_def render_pair_def position_char unescape_escape_property)
qed

lemma render_pair_clean:
  assumes "key_ok (fst p)"
  shows "CHR '','' \<notin> set (render_pair p)" "CHR '':'' \<notin> set (render_pair p)"
  using assms escape_property_clean [of "snd p"] by (auto simp: render_pair_def key_ok_def list_all_iff)

lemma split_rendered:
  assumes "list_all (\<lambda>p. key_ok (fst p)) pairs" and "pairs \<noteq> []"
  shows "split_char CHR '','' (join '','' (map render_pair pairs)) = map render_pair pairs"
  using assms
proof (induction pairs)
  case (Cons p ps)
  then show ?case
    using split_char_plain [OF render_pair_clean(1)] split_char_last [OF render_pair_clean(1)] by (cases ps) auto
qed simp

lemma find_double_colon:
  assumes "CHR '':'' \<notin> set s"
  shows "find_sub ''::'' (s @ ''::'' @ r) = Some (length s)"
  using assms by (induction s) (auto simp: starts_with_def)

lemma trim_start_id: "s \<noteq> [] \<Longrightarrow> \<not> is_whitespace (hd s) \<Longrightarrow> trim_start s = s"
  by (cases s) (simp_all add: trim_start_def)

lemma trim_end_id: "s \<noteq> [] \<Longrightarrow> \<not> is_whitespace (last s) \<Longrightarrow> trim_end s = s"
proof -
  assume a: "s \<noteq> []" "\<not> is_whitespace (last s)"
  then obtain t c where "s = t @ [c]" by (cases s rule: rev_cases) auto
  then show ?thesis using a by (simp add: trim_end_def)
qed

lemma join_ends:
  assumes "ss \<noteq> []" and "list_all (\<lambda>s. s \<noteq> []) ss"
  shows "join sep ss \<noteq> []" "hd (join sep ss) = hd (hd ss)" "last (join sep ss) = last (last ss)"
proof -
  have "join sep ss \<noteq> [] \<and> hd (join sep ss) = hd (hd ss) \<and> last (join sep ss) = last (last ss)"
    using assms
  proof (induction ss rule: list_nonempty_induct)
    case (cons s ss)
    then show ?case by (cases ss) auto
  qed simp
  then show "join sep ss \<noteq> []" "hd (join sep ss) = hd (hd ss)" "last (join sep ss) = last (last ss)" by simp_all
qed

text \<open>What a script may write: a name without colon or space, keys without separators, values that are not
  empty, and no space at the end of the last one.\<close>

definition writable :: "string \<Rightarrow> (string \<times> string) list \<Rightarrow> bool" where
  "writable name pairs \<longleftrightarrow> name \<noteq> [] \<and> CHR '':'' \<notin> set name \<and> CHR '' '' \<notin> set name \<and>
     list_all (\<lambda>p. key_ok (fst p) \<and> snd p \<noteq> []) pairs \<and>
     (pairs = [] \<or> \<not> is_whitespace (last (escape_property (snd (last pairs)))))"

lemma fold_insert_rendered:
  "list_all (\<lambda>p. key_ok (fst p) \<and> snd p \<noteq> []) pairs \<Longrightarrow>
   fold insert_pair (map render_pair pairs) m = fold (\<lambda>(k, v) m. m(to_lower k \<mapsto> v)) pairs m"
  by (induction pairs arbitrary: m) (auto simp: insert_render_pair)

lemma trim_rendered:
  assumes "writable name pairs" and "pairs \<noteq> []"
  shows "trim (join '','' (map render_pair pairs)) = join '','' (map render_pair pairs)"
proof -
  let ?s = "join '','' (map render_pair pairs)"
  have ne: "list_all (\<lambda>s. s \<noteq> []) (map render_pair pairs)" by (simp add: list_all_iff render_pair_def)
  note ends = join_ends [OF _ ne, of "'',''", simplified, OF assms(2)]
  have keys: "key_ok (fst p) \<and> snd p \<noteq> []" if "p \<in> set pairs" for p using assms(1) that by (auto simp: writable_def list_all_iff)
  have "\<not> is_whitespace (hd ?s)"
    using ends(2) keys [of "hd pairs"] assms(2) by (cases "fst (hd pairs)") (auto simp: hd_map render_pair_def key_ok_def)
  moreover have "\<not> is_whitespace (last ?s)"
    using ends(3) assms escape_property_nonempty keys [of "last pairs"]
    by (auto simp: last_map render_pair_def writable_def)
  ultimately show ?thesis using ends(1) trim_start_id trim_end_id by (simp add: trim_def)
qed

lemma render_info_clean:
  assumes "writable name pairs"
  shows "CHR '':'' \<notin> set (render_info name pairs)"
proof -
  have "CHR '':'' \<notin> set (join '','' (map render_pair ps))" if "list_all (\<lambda>p. key_ok (fst p)) ps" for ps
    using that
  proof (induction ps)
    case (Cons p ps)
    then show ?case using render_pair_clean(2) [of p] by (cases ps) auto
  qed simp
  moreover have "list_all (\<lambda>p. key_ok (fst p)) pairs" using assms by (auto simp: writable_def list_all_iff)
  ultimately show ?thesis using assms by (auto simp: render_info_def writable_def)
qed

lemma parse_info:
  assumes "list_all is_whitespace indent" and "CHR '':'' \<notin> set info"
  shows "parse_double_colon (indent @ ''::'' @ info @ ''::'' @ rest) =
    (case position (\<lambda>c. c = CHR '' '') info of
       Some k \<Rightarrow> if take k info = [] then None
                else Some \<lparr>cmd_name = to_lower (take k info),
                  cmd_properties = fold insert_pair (split_char CHR '','' (trim (drop (k + 1) info))) Map.empty,
                  cmd_data = unescape_data rest\<rparr>
     | None \<Rightarrow> if info = [] then None else Some \<lparr>cmd_name = to_lower info, cmd_properties = Map.empty, cmd_data = unescape_data rest\<rparr>)"
proof -
  have "trim_start (indent @ ''::'' @ r) = ''::'' @ r" for r
    using assms(1) by (induction indent) (auto simp: trim_start_def is_whitespace_def)
  then have line: "trim_start (indent @ ''::'' @ info @ ''::'' @ rest) = ''::'' @ info @ ''::'' @ rest" by simp
  have data: "(if length info + 2 < length (info @ ''::'' @ rest) then drop (length info + 2) (info @ ''::'' @ rest) else []) = rest"
    by (cases rest) auto
  show ?thesis
    unfolding parse_double_colon_def line Let_def
    by (simp add: starts_with_def find_double_colon [OF assms(2), simplified] data [simplified] split: option.split)
qed

section \<open>Properties\<close>

text \<open>C25. A command written with the toolkit's escapes, behind any indentation, is read back: the name and the
  property names in lower case, every property value and the data byte for byte, and of two values for one
  property the later.\<close>

theorem command_roundtrip:
  assumes "writable name pairs" and "list_all is_whitespace indent"
  shows "parse_command (indent @ render_command name pairs data) =
    Some \<lparr>cmd_name = to_lower name, cmd_properties = fold (\<lambda>(k, v) m. m(to_lower k \<mapsto> v)) pairs Map.empty, cmd_data = data\<rparr>"
proof -
  have name: "name \<noteq> []" "CHR '' '' \<notin> set name" using assms(1) by (auto simp: writable_def)
  have "parse_double_colon (indent @ render_command name pairs data) =
    Some \<lparr>cmd_name = to_lower name, cmd_properties = fold (\<lambda>(k, v) m. m(to_lower k \<mapsto> v)) pairs Map.empty, cmd_data = data\<rparr>"
  proof (cases "pairs = []")
    case True
    then show ?thesis using name unfolding render_command_def parse_info [OF assms(2) render_info_clean [OF assms(1)]]
      by (simp add: render_info_def position_char_None unescape_escape_data)
  next
    case False
    have ok: "list_all (\<lambda>p. key_ok (fst p)) pairs" "list_all (\<lambda>p. key_ok (fst p) \<and> snd p \<noteq> []) pairs"
      using assms(1) by (auto simp: writable_def list_all_iff)
    have "fold insert_pair (split_char CHR '','' (trim (join '','' (map render_pair pairs)))) Map.empty =
        fold (\<lambda>(k, v) m. m(to_lower k \<mapsto> v)) pairs Map.empty"
      unfolding trim_rendered [OF assms(1) False] split_rendered [OF ok(1) False] by (rule fold_insert_rendered [OF ok(2)])
    then show ?thesis using name False unfolding render_command_def parse_info [OF assms(2) render_info_clean [OF assms(1)]]
      by (simp add: render_info_def position_char unescape_escape_data)
  qed
  then show ?thesis by (simp add: parse_command_def)
qed

theorem command_roundtrip_witness:
  "parse_command (''  '' @ render_command ''Error'' [(''File'', ''a,b:c''), (''LINE'', ''7'')] ''100%0A'') =
    Some \<lparr>cmd_name = to_lower ''Error'',
      cmd_properties = fold (\<lambda>(k, v) m. m(to_lower k \<mapsto> v)) [(''File'', ''a,b:c''), (''LINE'', ''7'')] Map.empty,
      cmd_data = ''100%0A''\<rparr>"
  by (rule command_roundtrip) (auto simp: writable_def key_ok_def is_whitespace_def escape_property_def)

end
