(* ===== verification/Problem_Matchers.thy ===== *)
theory Problem_Matchers
  imports Workflow_Commands
begin

text \<open>
  Problem matchers, \<^verbatim>\<open>crates/preloop-runner/src/worker/matchers.rs\<close>: definitions are validated and
  registered, every log line is offered to the registered matchers, and a match becomes an annotation
  with the file it names resolved to a path in the repository.

  The \<^verbatim>\<open>regex\<close> crate is an argument: the number of groups of a valid expression and the captures of an
  expression on a line. So are the file system and the order in which the hash map of matchers is
  walked. Paths are lists of components, rooted or not, as \<^verbatim>\<open>std::path\<close> reads them on Unix.

  An index out of range is a panic in the source: indexing gives an option here and a panic is \<open>None\<close>,
  through every function up to \<^verbatim>\<open>match_line\<close>.

  Shown: whatever is registered and removed and whatever lines arrive, no index is out of range and the
  registered matchers stay well formed; with up to three patterns a matcher reports exactly when its patterns match consecutive
  lines, with the values of the earlier lines taken first; a fourth pattern breaks that, since a
  running match survives a line in between.
\<close>

section \<open>Data\<close>

datatype annotation_level = AnnNotice | AnnWarning | AnnError

record annotation =
  ann_level :: annotation_level
  ann_message :: string
  ann_title :: "string option"
  ann_file :: "string option"
  ann_line :: "nat option"
  ann_end_line :: "nat option"
  ann_col :: "nat option"
  ann_end_column :: "nat option"

record pattern_match =
  pm_file :: "string option"
  pm_line :: "string option"
  pm_column :: "string option"
  pm_end_line :: "string option"
  pm_end_column :: "string option"
  pm_severity :: "string option"
  pm_code :: "string option"
  pm_message :: "string option"
  pm_from_path :: "string option"

datatype severity_spec = Capture nat | Literal string

record matcher_pattern =
  mp_regexp :: string
  mp_file :: "nat option"
  mp_line :: "nat option"
  mp_column :: "nat option"
  mp_end_line :: "nat option"
  mp_end_column :: "nat option"
  mp_severity :: "severity_spec option"
  mp_message :: "nat option"
  mp_code :: "nat option"
  mp_from_path :: "nat option"
  mp_loop :: bool

record problem_matcher =
  pr_owner :: string
  pr_patterns :: "matcher_pattern list"
  pr_from_path :: string
  pr_state :: "pattern_match option list"

record matcher_definition =
  md_owner :: string
  md_pattern :: "matcher_pattern list"
  md_from_path :: "string option"

record regex_ext =
  re_groups :: "string \<Rightarrow> nat option"
  re_captures :: "string \<Rightarrow> string \<Rightarrow> string option list option"

section \<open>Matches\<close>

definition matcher_reset :: "problem_matcher \<Rightarrow> problem_matcher" where
  "matcher_reset m = m\<lparr>pr_state := (if 1 < length (pr_patterns m) then replicate (length (pr_patterns m) - 1) None else [])\<rparr>"

definition captures_get :: "string option list \<Rightarrow> nat \<Rightarrow> string option" where
  "captures_get caps i = (if i < length caps then caps ! i else None)"

definition get_group_value :: "string option list \<Rightarrow> nat option \<Rightarrow> string option" where
  "get_group_value caps index = Option.bind index (captures_get caps)"

definition carried :: "pattern_match option \<Rightarrow> (pattern_match \<Rightarrow> string option) \<Rightarrow> string option \<Rightarrow> string option" where
  "carried running field fresh = or_else (Option.bind running field) fresh"

definition with_default :: "string \<Rightarrow> string option \<Rightarrow> string option" where
  "with_default dflt v = (if (v = None \<or> v = Some []) \<and> dflt \<noteq> [] then Some dflt else v)"

definition new_match ::
  "pattern_match option \<Rightarrow> matcher_pattern \<Rightarrow> string option list \<Rightarrow> string \<Rightarrow> string \<Rightarrow> pattern_match" where
  "new_match running pattern caps default_severity default_from_path =
     \<lparr>pm_file = carried running pm_file (get_group_value caps (mp_file pattern)),
      pm_line = carried running pm_line (get_group_value caps (mp_line pattern)),
      pm_column = carried running pm_column (get_group_value caps (mp_column pattern)),
      pm_end_line = carried running pm_end_line (get_group_value caps (mp_end_line pattern)),
      pm_end_column = carried running pm_end_column (get_group_value caps (mp_end_column pattern)),
      pm_severity = with_default default_severity (carried running pm_severity
        (case mp_severity pattern of
           Some (Capture g) \<Rightarrow> captures_get caps g
         | Some (Literal value) \<Rightarrow> Some value
         | None \<Rightarrow> None)),
      pm_code = carried running pm_code (get_group_value caps (mp_code pattern)),
      pm_message = carried running pm_message (get_group_value caps (mp_message pattern)),
      pm_from_path = with_default default_from_path (carried running pm_from_path (get_group_value caps (mp_from_path pattern)))\<rparr>"

section \<open>Definitions\<close>

datatype matcher_error =
    OwnerRequired
  | PatternRequired
  | LoopOnSingle
  | LoopNotLast
  | LoopWithoutMessage
  | InvalidRegex string
  | OutOfRange string nat
  | SetTwice string
  | MessageRequired
  | MatcherFileError string

definition check_range :: "nat \<Rightarrow> string \<Rightarrow> nat option \<Rightarrow> matcher_error + unit" where
  "check_range groups name val =
     (case val of None \<Rightarrow> Inr () | Some idx \<Rightarrow> if groups \<le> idx then Inl (OutOfRange name idx) else Inr ())"

definition check_loop :: "nat \<Rightarrow> nat \<Rightarrow> matcher_pattern \<Rightarrow> matcher_error + unit" where
  "check_loop n idx pattern =
     (if \<not> mp_loop pattern then Inr ()
      else if n = 1 then Inl LoopOnSingle
      else if idx = 0 \<or> idx \<noteq> n - 1 then Inl LoopNotLast
      else if mp_message pattern = None then Inl LoopWithoutMessage
      else Inr ())"

definition severity_group :: "matcher_pattern \<Rightarrow> nat option" where
  "severity_group pattern = (case mp_severity pattern of Some (Capture idx) \<Rightarrow> Some idx | _ \<Rightarrow> None)"

definition check_pattern :: "regex_ext \<Rightarrow> nat \<Rightarrow> nat \<times> matcher_pattern \<Rightarrow> matcher_error + unit" where
  "check_pattern ext n ip =
     (case ip of (idx, pattern) \<Rightarrow>
        and_then (check_loop n idx pattern) (\<lambda>_.
          case re_groups ext (mp_regexp pattern) of
            None \<Rightarrow> Inl (InvalidRegex (mp_regexp pattern))
          | Some groups \<Rightarrow>
              map_sum id (\<lambda>_. ()) (try_map (\<lambda>(name, val). check_range groups name val)
                [(''file'', mp_file pattern), (''line'', mp_line pattern), (''column'', mp_column pattern),
                 (''endLine'', mp_end_line pattern), (''endColumn'', mp_end_column pattern), (''code'', mp_code pattern),
                 (''message'', mp_message pattern), (''fromPath'', mp_from_path pattern),
                 (''severity'', severity_group pattern)])))"

definition set_count :: "(matcher_pattern \<Rightarrow> 'a option) \<Rightarrow> matcher_pattern list \<Rightarrow> nat" where
  "set_count field patterns = length (filter (\<lambda>p. field p \<noteq> None) patterns)"

definition check_once :: "string \<times> nat \<Rightarrow> matcher_error + unit" where
  "check_once nc = (if 1 < snd nc then Inl (SetTwice (fst nc)) else Inr ())"

definition validate_matcher_definition :: "regex_ext \<Rightarrow> matcher_definition \<Rightarrow> matcher_error + unit" where
  "validate_matcher_definition ext def =
     (let ps = md_pattern def
      in if trim (md_owner def) = [] then Inl OwnerRequired
         else if ps = [] then Inl PatternRequired
         else and_then (try_map (check_pattern ext (length ps)) (enumerate 0 ps)) (\<lambda>_.
              and_then (try_map check_once
                [(''file'', set_count mp_file ps), (''line'', set_count mp_line ps), (''column'', set_count mp_column ps),
                 (''severity'', set_count mp_severity ps), (''code'', set_count mp_code ps),
                 (''message'', set_count mp_message ps), (''fromPath'', set_count mp_from_path ps)]) (\<lambda>_.
              if set_count mp_message ps = 0 then Inl MessageRequired else Inr ())))"

section \<open>The registry\<close>

type_synonym matchers = "string \<rightharpoonup> problem_matcher"

definition new_matcher :: "matcher_definition \<Rightarrow> problem_matcher" where
  "new_matcher def =
     \<lparr>pr_owner = md_owner def, pr_patterns = md_pattern def, pr_from_path = unwrap_or (md_from_path def) [],
      pr_state = (if 1 < length (md_pattern def) then replicate (length (md_pattern def) - 1) None else [])\<rparr>"

text \<open>\<open>read\<close> is what reading and deserializing the file gives. Definitions before a refused one stay
  registered.\<close>

fun register_all :: "regex_ext \<Rightarrow> matchers \<Rightarrow> matcher_definition list \<Rightarrow> matchers \<times> (matcher_error + unit)" where
  "register_all ext reg [] = (reg, Inr ())"
| "register_all ext reg (def # defs) =
     (case validate_matcher_definition ext def of
        Inl e \<Rightarrow> (reg, Inl e)
      | Inr _ \<Rightarrow> register_all ext (reg(md_owner def \<mapsto> new_matcher def)) defs)"

definition add_from_file ::
  "regex_ext \<Rightarrow> matchers \<Rightarrow> string + matcher_definition list \<Rightarrow> matchers \<times> (matcher_error + unit)" where
  "add_from_file ext reg read =
     (case read of Inl e \<Rightarrow> (reg, Inl (MatcherFileError e)) | Inr defs \<Rightarrow> register_all ext reg defs)"

definition remove_matcher :: "matchers \<Rightarrow> string \<Rightarrow> matchers" where
  "remove_matcher reg owner = reg(owner := None)"

section \<open>One line\<close>

text \<open>Indexing a vector and assigning to one of its elements; \<open>i - 1\<close> of zero is no index.\<close>

definition slot :: "'a list \<Rightarrow> nat \<Rightarrow> 'a option" where
  "slot xs i = (if i < length xs then Some (xs ! i) else None)"

definition assign :: "'a list \<Rightarrow> nat \<Rightarrow> 'a \<Rightarrow> 'a list option" where
  "assign xs i v = (if i < length xs then Some (xs[i := v]) else None)"

fun assign_before :: "'a list \<Rightarrow> nat \<Rightarrow> 'a \<Rightarrow> 'a list option" where
  "assign_before xs 0 v = None"
| "assign_before xs (Suc i) v = assign xs i v"

text \<open>The patterns of one matcher from the last to the first; the argument counts those still to try.\<close>

fun match_patterns ::
  "regex_ext \<Rightarrow> string \<Rightarrow> nat \<Rightarrow> problem_matcher \<Rightarrow> (problem_matcher \<times> pattern_match option) option" where
  "match_patterns ext line 0 m = Some (m, None)"
| "match_patterns ext line (Suc i) m =
     Option.bind (if 0 < i then slot (pr_state m) (i - 1) else Some None) (\<lambda>running.
       if i = 0 \<or> running \<noteq> None
       then Option.bind (slot (pr_patterns m) i) (\<lambda>pattern.
              let is_last = (i = length (pr_patterns m) - 1)
              in case re_captures ext (mp_regexp pattern) line of
                   Some caps \<Rightarrow>
                     if is_last
                     then let pm = new_match running pattern caps ''error'' (pr_from_path m); m' = matcher_reset m
                          in if mp_loop pattern
                             then map_option (\<lambda>st. (m'\<lparr>pr_state := st\<rparr>, Some pm)) (assign_before (pr_state m') i running)
                             else Some (m', Some pm)
                     else Option.bind (assign (pr_state m) i (Some (new_match running pattern caps [] [])))
                            (\<lambda>st. match_patterns ext line i (m\<lparr>pr_state := st\<rparr>))
                 | None \<Rightarrow>
                     Option.bind (if is_last then assign_before (pr_state m) i None else assign (pr_state m) i None)
                       (\<lambda>st. match_patterns ext line i (m\<lparr>pr_state := st\<rparr>)))
       else match_patterns ext line i m)"

definition match_one :: "regex_ext \<Rightarrow> string \<Rightarrow> problem_matcher \<Rightarrow> (problem_matcher \<times> pattern_match option) option" where
  "match_one ext line m =
     (if pr_patterns m = [] then Some (m, None)
      else if length (pr_patterns m) = 1
      then Option.bind (slot (pr_patterns m) 0) (\<lambda>pattern.
             Some (m, map_option (\<lambda>caps. new_match None pattern caps ''error'' (pr_from_path m))
                        (re_captures ext (mp_regexp pattern) line)))
      else match_patterns ext line (length (pr_patterns m)) m)"

fun match_first :: "regex_ext \<Rightarrow> string \<Rightarrow> string list \<Rightarrow> matchers \<Rightarrow> (matchers \<times> (string \<times> pattern_match) option) option" where
  "match_first ext line [] reg = Some (reg, None)"
| "match_first ext line (key # order) reg =
     (case reg key of
        None \<Rightarrow> match_first ext line order reg
      | Some m \<Rightarrow>
          Option.bind (match_one ext line m) (\<lambda>(m', found).
            case found of
              Some pm \<Rightarrow> Some (reg(key \<mapsto> m'), Some (pr_owner m', pm))
            | None \<Rightarrow> match_first ext line order (reg(key \<mapsto> m'))))"

definition reset_others :: "string \<Rightarrow> matchers \<Rightarrow> matchers" where
  "reset_others owner reg = (\<lambda>key. map_option (\<lambda>m. if pr_owner m \<noteq> owner then matcher_reset m else m) (reg key))"

fun skip_escape :: "string \<Rightarrow> string" where
  "skip_escape [] = []"
| "skip_escape (c # cs) = (if 64 \<le> (of_char c :: nat) \<and> (of_char c :: nat) \<le> 126 then cs else skip_escape cs)"

lemma skip_escape_length: "length (skip_escape s) \<le> length s"
  by (induction s) auto

function strip_ansi_loop :: "string \<Rightarrow> string" where
  "strip_ansi_loop [] = []"
| "strip_ansi_loop (c # cs) =
     (if c \<noteq> CHR 0x1B then c # strip_ansi_loop cs
      else case cs of
             d # ds \<Rightarrow> if d = CHR ''['' then strip_ansi_loop (skip_escape ds) else strip_ansi_loop cs
           | [] \<Rightarrow> [])"
  by pat_completeness auto

termination
  by (relation "measure length") (auto simp: le_imp_less_Suc le_SucI skip_escape_length)

definition strip_ansi_codes :: "string \<Rightarrow> string option" where
  "strip_ansi_codes line = (if CHR 0x1B \<notin> set line then None else Some (strip_ansi_loop line))"

definition convert_to_annotation :: "pattern_match \<Rightarrow> annotation option" where
  "convert_to_annotation pm =
     (case pm_message pm of
        None \<Rightarrow> None
      | Some message \<Rightarrow>
          if trim message = [] then None
          else let level = (case map_option to_lower (pm_severity pm) of
                   Some s \<Rightarrow> if s = ''warning'' then AnnWarning else if s = ''notice'' then AnnNotice else AnnError
                 | None \<Rightarrow> AnnError)
          in Some \<lparr>ann_level = level, ann_message = message, ann_title = None, ann_file = None,
               ann_line = Option.bind (pm_line pm) (parse_unsigned 32),
               ann_end_line = Option.bind (pm_end_line pm) (parse_unsigned 32),
               ann_col = Option.bind (pm_column pm) (parse_unsigned 32),
               ann_end_column = Option.bind (pm_end_column pm) (parse_unsigned 32)\<rparr>)"

section \<open>Files\<close>

type_synonym path = "bool \<times> string list"

definition path_of :: "string \<Rightarrow> path" where
  "path_of s = (starts_with ''/'' s, filter (\<lambda>c. c \<noteq> [] \<and> c \<noteq> ''.'') (split_char CHR ''/'' s))"

definition path_string :: "path \<Rightarrow> string" where
  "path_string p = (if fst p then ''/'' else []) @ join ''/'' (snd p)"

definition path_parent :: "path \<Rightarrow> path option" where
  "path_parent p = (if snd p = [] then None else Some (fst p, butlast (snd p)))"

definition path_join :: "path \<Rightarrow> path \<Rightarrow> path" where
  "path_join p q = (if fst q then q else (fst p, snd p @ snd q))"

definition normalize_path :: "path \<Rightarrow> path" where
  "normalize_path p = (fst p, fold (\<lambda>c ret. if c = ''..'' then butlast ret else ret @ [c]) (snd p) [])"

definition translate_to_host_path :: "string \<Rightarrow> string \<Rightarrow> string" where
  "translate_to_host_path container_path host_work =
     (case strip_prefix ''/__w'' container_path of
        None \<Rightarrow> container_path
      | Some relative \<Rightarrow>
          host_work @ (if host_work = [] \<or> last host_work = CHR ''/'' then [] else ''/'') @
          dropWhile (\<lambda>c. c = CHR ''/'') relative)"

definition get_url_host :: "string \<Rightarrow> string" where
  "get_url_host server_url =
     (let s = (case strip_prefix ''https://'' server_url of
                 Some rest \<Rightarrow> rest
               | None \<Rightarrow> (case strip_prefix ''http://'' server_url of Some rest \<Rightarrow> rest | None \<Rightarrow> server_url))
      in hd (split_char CHR '':'' (hd (split_char CHR ''/'' s))))"

record fs_view =
  fs_is_file :: "path \<Rightarrow> bool"
  fs_read :: "path \<Rightarrow> string option"

fun repository_loop :: "fs_view \<Rightarrow> string list \<Rightarrow> nat \<Rightarrow> path \<Rightarrow> path option" where
  "repository_loop fs urls 0 current = None"
| "repository_loop fs urls (Suc n) current =
     (if current = (False, []) then None
      else if (case fs_read fs (path_join current (False, [''.git'', ''config''])) of
                 None \<Rightarrow> False
               | Some content \<Rightarrow>
                   list_ex (\<lambda>l. list_ex (eq_ignore_ascii_case (trim l)) urls) (split_char CHR 0x0A content))
      then Some current
      else case path_parent current of None \<Rightarrow> None | Some parent \<Rightarrow> repository_loop fs urls n parent)"

definition get_repository_path :: "fs_view \<Rightarrow> path \<Rightarrow> string \<Rightarrow> string \<Rightarrow> nat \<Rightarrow> path option" where
  "get_repository_path fs file_path repository server_url failsafe =
     (case path_parent file_path of
        None \<Rightarrow> None
      | Some current \<Rightarrow>
          repository_loop fs
            [''url = '' @ rev (dropWhile (\<lambda>c. c = CHR ''/'') (rev server_url)) @ ''/'' @ repository,
             ''url = git@'' @ get_url_host server_url @ '':'' @ repository @ ''.git'']
            (failsafe + 1) current)"

definition path_strip_prefix :: "path \<Rightarrow> path \<Rightarrow> path option" where
  "path_strip_prefix base p =
     (if fst base = fst p \<and> take (length (snd base)) (snd p) = snd base then Some (False, drop (length (snd base)) (snd p))
      else None)"

definition host_work_of :: "string \<Rightarrow> string" where
  "host_work_of workspace =
     (if workspace = [] then []
      else case Option.bind (path_parent (path_of workspace)) path_parent of Some p \<Rightarrow> path_string p | None \<Rightarrow> [])"

definition resolve_file ::
  "fs_view \<Rightarrow> nat \<Rightarrow> string \<Rightarrow> string \<Rightarrow> string \<Rightarrow> bool \<Rightarrow> pattern_match \<Rightarrow> string \<Rightarrow> string option" where
  "resolve_file fs failsafe workspace repository server_url translate pm f =
     (let p = path_of f;
          p = (if fst p then p
               else case Option.bind (pm_from_path pm) (\<lambda>from. path_parent (path_of from)) of
                      Some dir \<Rightarrow> if dir = (False, []) then p else path_join dir p
                    | None \<Rightarrow> p);
          p = (if \<not> fst p \<and> workspace \<noteq> [] then path_join (path_of workspace) p else p);
          p = normalize_path p;
          p = (if translate \<and> host_work_of workspace \<noteq> []
               then normalize_path (path_of (translate_to_host_path (path_string p) (host_work_of workspace))) else p)
      in if workspace = [] then Some (path_string p)
         else if fs_is_file fs p
         then map_option (\<lambda>rel. map (\<lambda>c. if c = CHR 0x5C then CHR ''/'' else c) (path_string rel))
                (Option.bind (get_repository_path fs p repository server_url failsafe) (\<lambda>repo. path_strip_prefix repo p))
         else None)"

definition match_line ::
  "regex_ext \<Rightarrow> fs_view \<Rightarrow> nat \<Rightarrow> string list \<Rightarrow> matchers \<Rightarrow> string \<Rightarrow> string \<Rightarrow> string \<Rightarrow> string \<Rightarrow> bool \<Rightarrow>
   (matchers \<times> annotation list) option" where
  "match_line ext fs failsafe order reg line workspace repository server_url translate =
     Option.bind (match_first ext (unwrap_or (strip_ansi_codes line) line) order reg) (\<lambda>(reg', found).
       Some (case found of
          None \<Rightarrow> (reg', [])
        | Some (owner, pm) \<Rightarrow>
            (reset_others owner reg',
             case convert_to_annotation pm of
               None \<Rightarrow> []
             | Some ann \<Rightarrow>
                 [ann\<lparr>ann_file := Option.bind (pm_file pm)
                    (resolve_file fs failsafe workspace repository server_url translate pm)\<rparr>])))"

section \<open>Registered matchers stay well formed\<close>

definition matcher_wf :: "problem_matcher \<Rightarrow> bool" where
  "matcher_wf m \<longleftrightarrow> pr_patterns m \<noteq> [] \<and> length (pr_state m) = length (pr_patterns m) - 1"

definition matchers_wf :: "matchers \<Rightarrow> bool" where
  "matchers_wf reg \<longleftrightarrow> (\<forall>key m. reg key = Some m \<longrightarrow> pr_owner m = key \<and> matcher_wf m)"

lemma matcher_reset_keeps [simp]:
  "pr_patterns (matcher_reset m) = pr_patterns m" "pr_owner (matcher_reset m) = pr_owner m"
  "pr_from_path (matcher_reset m) = pr_from_path m" "length (pr_state (matcher_reset m)) = length (pr_patterns m) - 1"
  by (auto simp: matcher_reset_def)

lemma assign_before_pos: "0 < i \<Longrightarrow> assign_before xs i v = assign xs (i - 1) v"
  by (cases i) simp_all

text \<open>Every index of a well formed matcher's patterns and states is in range.\<close>

lemma match_patterns_total:
  "k \<le> length (pr_patterns m) \<Longrightarrow> 1 < length (pr_patterns m) \<Longrightarrow> matcher_wf m \<Longrightarrow>
   \<exists>m' r. match_patterns ext line k m = Some (m', r) \<and> pr_owner m' = pr_owner m \<and> matcher_wf m'"
proof (induction k arbitrary: m)
  case (Suc i)
  let ?n = "length (pr_patterns m)"
  have wf: "length (pr_state m) = ?n - 1" using Suc.prems(3) by (simp add: matcher_wf_def)
  define running where "running = (if 0 < i then pr_state m ! (i - 1) else None)"
  have "0 < i \<Longrightarrow> i - 1 < length (pr_state m)" using Suc.prems(1) wf by simp
  then have running: "(if 0 < i then slot (pr_state m) (i - 1) else Some None) = Some running"
    by (simp add: slot_def running_def)
  have slot: "slot (pr_patterns m) i = Some (pr_patterns m ! i)" using Suc.prems(1) by (simp add: slot_def)
  have step: "\<exists>m' r. match_patterns ext line i (m\<lparr>pr_state := st\<rparr>) = Some (m', r) \<and> pr_owner m' = pr_owner m \<and> matcher_wf m'"
    if "length st = ?n - 1" for st
    using Suc.IH [of "m\<lparr>pr_state := st\<rparr>"] Suc.prems that by (simp add: matcher_wf_def)
  have skip: "\<exists>m' r. match_patterns ext line i m = Some (m', r) \<and> pr_owner m' = pr_owner m \<and> matcher_wf m'"
    using Suc.IH [of m] Suc.prems by simp
  have last: "assign_before st i v = Some (st[i - 1 := v])" if "i = ?n - 1" "length st = ?n - 1" for st and v :: "pattern_match option"
    using that Suc.prems(2) by (simp add: assign_before_pos assign_def)
  have other: "assign (pr_state m) i v = Some ((pr_state m)[i := v])" if "i \<noteq> ?n - 1" for v
    using that Suc.prems(1) wf by (simp add: assign_def)
  have reset: "matcher_wf (matcher_reset m)" "matcher_wf (matcher_reset m\<lparr>pr_state := (pr_state (matcher_reset m))[j := v]\<rparr>)" for j v
    using Suc.prems(3) by (auto simp: matcher_wf_def)
  note eq = match_patterns.simps(2) [of ext line i m, unfolded running slot, unfolded Option.bind.simps Let_def]
  show ?case
  proof (cases "i = 0 \<or> running \<noteq> None")
    case False
    then show ?thesis using skip unfolding eq by simp
  next
    case go: True
    note eq = eq [unfolded if_P [OF go]]
    show ?thesis
    proof (cases "re_captures ext (mp_regexp (pr_patterns m ! i)) line"; cases "i = ?n - 1")
      assume "re_captures ext (mp_regexp (pr_patterns m ! i)) line = None" "i = ?n - 1"
      then show ?thesis using step [of "(pr_state m)[i - 1 := None]"] last [of "pr_state m" None] wf unfolding eq by simp
    next
      assume "re_captures ext (mp_regexp (pr_patterns m ! i)) line = None" "i \<noteq> ?n - 1"
      then show ?thesis using step [of "(pr_state m)[i := None]"] other [of None] wf unfolding eq by simp
    next
      fix caps
      assume "re_captures ext (mp_regexp (pr_patterns m ! i)) line = Some caps" "i = ?n - 1"
      then show ?thesis using last [of "pr_state (matcher_reset m)" running] reset unfolding eq by simp
    next
      fix caps
      assume "re_captures ext (mp_regexp (pr_patterns m ! i)) line = Some caps" "i \<noteq> ?n - 1"
      then show ?thesis using step [of "(pr_state m)[i := _]"] other wf unfolding eq by simp
    qed
  qed
qed simp

lemma match_one_total:
  assumes "matcher_wf m"
  shows "\<exists>m' r. match_one ext line m = Some (m', r) \<and> pr_owner m' = pr_owner m \<and> matcher_wf m'"
proof (cases "1 < length (pr_patterns m)")
  case True
  then show ?thesis using match_patterns_total [OF order_refl True assms, of ext line] True by (auto simp: match_one_def)
next
  case False
  then have "length (pr_patterns m) = 1" using assms by (cases "pr_patterns m") (auto simp: matcher_wf_def)
  then show ?thesis using assms by (simp add: match_one_def slot_def)
qed

lemma match_first_total: "matchers_wf reg \<Longrightarrow> \<exists>reg' r. match_first ext line order reg = Some (reg', r) \<and> matchers_wf reg'"
proof (induction order arbitrary: reg)
  case (Cons key order)
  show ?case
  proof (cases "reg key")
    case None
    then show ?thesis using Cons by simp
  next
    case (Some m)
    then have m: "pr_owner m = key" "matcher_wf m" using Cons.prems by (auto simp: matchers_wf_def)
    obtain m' r where m': "match_one ext line m = Some (m', r)" "pr_owner m' = pr_owner m" "matcher_wf m'"
      using match_one_total [OF m(2)] by blast
    have wf: "matchers_wf (reg(key \<mapsto> m'))" using m m'(2,3) Cons.prems by (auto simp: matchers_wf_def)
    show ?thesis using Cons.IH [OF wf] wf by (cases r) (simp_all add: Some m'(1) del: fun_upd_apply)
  qed
qed simp

lemma match_line_total:
  assumes "matchers_wf reg"
  shows "\<exists>reg' anns. match_line ext fs failsafe order reg line workspace repository server_url translate = Some (reg', anns) \<and>
    matchers_wf reg'"
proof -
  obtain reg' r where first: "match_first ext (unwrap_or (strip_ansi_codes line) line) order reg = Some (reg', r)" "matchers_wf reg'"
    using match_first_total [OF assms] by blast
  have "matchers_wf (reset_others owner reg')" for owner
    using first(2) by (auto simp: matchers_wf_def reset_others_def matcher_wf_def)
  then show ?thesis using first by (cases r) (auto simp: match_line_def)
qed

lemma validated_patterns: "validate_matcher_definition ext def = Inr u \<Longrightarrow> md_pattern def \<noteq> []"
  by (auto simp: validate_matcher_definition_def Let_def split: if_splits)

lemma register_all_wf: "matchers_wf reg \<Longrightarrow> matchers_wf (fst (register_all ext reg defs))"
proof (induction defs arbitrary: reg)
  case (Cons def defs)
  show ?case
  proof (cases "validate_matcher_definition ext def")
    case (Inr u)
    have "matchers_wf (reg(md_owner def \<mapsto> new_matcher def))"
      using Cons.prems validated_patterns [OF Inr] by (auto simp: matchers_wf_def new_matcher_def matcher_wf_def)
    then show ?thesis using Cons.IH by (simp add: Inr)
  qed (use Cons.prems in simp)
qed simp

text \<open>What a step does with its registry. A file may be missing or hold definitions, valid or not; each line
  comes with the order in which the hash map is walked and with the file system it is resolved in.\<close>

datatype matcher_op =
    AddFromFile "string + matcher_definition list"
  | RemoveMatcher string
  | MatchLine "string list" fs_view string string

definition run_matcher_op :: "regex_ext \<Rightarrow> matcher_op \<Rightarrow> matchers \<Rightarrow> matchers option" where
  "run_matcher_op ext mop reg =
     (case mop of
        AddFromFile read \<Rightarrow> Some (fst (add_from_file ext reg read))
      | RemoveMatcher owner \<Rightarrow> Some (remove_matcher reg owner)
      | MatchLine order fs line workspace \<Rightarrow>
          map_option fst (match_line ext fs 50 order reg line workspace ''o/r'' ''https://github.com'' False))"

fun run_matcher_ops :: "regex_ext \<Rightarrow> matcher_op list \<Rightarrow> matchers \<Rightarrow> matchers option" where
  "run_matcher_ops ext [] reg = Some reg"
| "run_matcher_ops ext (mop # mops) reg = Option.bind (run_matcher_op ext mop reg) (run_matcher_ops ext mops)"

lemma matchers_wf_empty: "matchers_wf Map.empty"
  by (simp add: matchers_wf_def)

lemma run_matcher_op_total:
  assumes "matchers_wf reg"
  shows "\<exists>reg'. run_matcher_op ext mop reg = Some reg' \<and> matchers_wf reg'"
proof (cases mop)
  case (AddFromFile read)
  then show ?thesis using assms register_all_wf by (simp add: run_matcher_op_def add_from_file_def split: sum.split)
next
  case (RemoveMatcher owner)
  then show ?thesis using assms by (simp add: run_matcher_op_def remove_matcher_def matchers_wf_def)
next
  case (MatchLine order fs line workspace)
  then show ?thesis using match_line_total [OF assms, of ext fs 50 order line workspace "''o/r''" "''https://github.com''" False]
    by (auto simp: run_matcher_op_def)
qed

text \<open>C23. No log line can panic the matcher: after any sequence of registrations, removals and lines, in
  whatever order the hash map is walked, the next line is matched without an index out of range, and the
  registry is well formed after it: each matcher is under its owner, has patterns, and has one slot of
  state for each pattern but the last.\<close>

theorem matcher_registry_wf:
  "\<exists>reg reg' anns. run_matcher_ops ext mops Map.empty = Some reg \<and> matchers_wf reg \<and>
     match_line ext fs failsafe order reg line workspace repository server_url translate = Some (reg', anns) \<and> matchers_wf reg'"
proof -
  have "\<exists>reg'. run_matcher_ops ext mops reg = Some reg' \<and> matchers_wf reg'" if "matchers_wf reg" for reg
    using that
  proof (induction mops arbitrary: reg)
    case (Cons mop mops)
    obtain reg1 where "run_matcher_op ext mop reg = Some reg1" "matchers_wf reg1" using run_matcher_op_total [OF Cons.prems] by blast
    then show ?case using Cons.IH by simp
  qed simp
  then obtain reg where "run_matcher_ops ext mops Map.empty = Some reg" "matchers_wf reg" using matchers_wf_empty by blast
  then show ?thesis using match_line_total by blast
qed

section \<open>Consecutive lines\<close>

text \<open>The reference: the first \<open>i + 1\<close> patterns match the last \<open>i + 1\<close> lines, the newest first in \<open>h\<close>.\<close>

definition severity_default :: "problem_matcher \<Rightarrow> nat \<Rightarrow> string" where
  "severity_default m i = (if i = length (pr_patterns m) - 1 then ''error'' else [])"

definition from_default :: "problem_matcher \<Rightarrow> nat \<Rightarrow> string" where
  "from_default m i = (if i = length (pr_patterns m) - 1 then pr_from_path m else [])"

fun chain_ref :: "regex_ext \<Rightarrow> problem_matcher \<Rightarrow> nat \<Rightarrow> string list \<Rightarrow> pattern_match option" where
  "chain_ref ext m i [] = None"
| "chain_ref ext m 0 (l # h) =
     map_option (\<lambda>caps. new_match None (pr_patterns m ! 0) caps (severity_default m 0) (from_default m 0))
       (re_captures ext (mp_regexp (pr_patterns m ! 0)) l)"
| "chain_ref ext m (Suc i) (l # h) =
     (case chain_ref ext m i h of
        None \<Rightarrow> None
      | Some r \<Rightarrow>
          map_option (\<lambda>caps. new_match (Some r) (pr_patterns m ! Suc i) caps (severity_default m (Suc i)) (from_default m (Suc i)))
            (re_captures ext (mp_regexp (pr_patterns m ! Suc i)) l))"

fun spec_run :: "regex_ext \<Rightarrow> problem_matcher \<Rightarrow> string list \<Rightarrow> string list \<Rightarrow> pattern_match option list" where
  "spec_run ext m h [] = []"
| "spec_run ext m h (l # ls) =
     (let r = chain_ref ext m (length (pr_patterns m) - 1) (l # h)
      in r # spec_run ext m (if r = None then l # h else []) ls)"

fun matcher_run :: "regex_ext \<Rightarrow> problem_matcher \<Rightarrow> string list \<Rightarrow> pattern_match option list option" where
  "matcher_run ext m [] = Some []"
| "matcher_run ext m (l # ls) =
     Option.bind (match_one ext l m) (\<lambda>(m', r). map_option (Cons r) (matcher_run ext m' ls))"

definition tracks :: "regex_ext \<Rightarrow> problem_matcher \<Rightarrow> string list \<Rightarrow> problem_matcher \<Rightarrow> bool" where
  "tracks ext m0 h m \<longleftrightarrow> pr_patterns m = pr_patterns m0 \<and> pr_from_path m = pr_from_path m0 \<and>
     pr_state m = map (\<lambda>i. chain_ref ext m0 i h) [0..<length (pr_patterns m0) - 1]"

definition no_loop :: "problem_matcher \<Rightarrow> bool" where
  "no_loop m \<longleftrightarrow> list_all (\<lambda>p. \<not> mp_loop p) (pr_patterns m)"

lemma tracks_reset: "tracks ext m0 h m \<Longrightarrow> tracks ext m0 [] (matcher_reset m)"
  by (auto simp: tracks_def matcher_reset_def map_replicate_const)

lemma match_two:
  assumes "tracks ext m0 h m" and "pr_patterns m0 = [a, b]" and "no_loop m0" and "match_one ext l m = Some (m', r)"
  shows "r = chain_ref ext m0 1 (l # h) \<and> tracks ext m0 (if r = None then l # h else []) m'"
proof -
  have ps: "pr_patterns m = [a, b]" "pr_from_path m = pr_from_path m0" "pr_state m = [chain_ref ext m0 0 h]" "\<not> mp_loop b"
    using assms(1-3) by (auto simp: tracks_def no_loop_def)
  show ?thesis
  proof (cases "chain_ref ext m0 0 h")
    case None
    then show ?thesis using assms(2,4) ps
      by (auto simp: match_one_def slot_def assign_def numeral_2_eq_2 Let_def tracks_def severity_default_def from_default_def split: option.splits)
  next
    case (Some x)
    show ?thesis
    proof (cases "re_captures ext (mp_regexp b) l")
      case none: None
      then show ?thesis using assms(2,4) ps Some
        by (auto simp: match_one_def slot_def assign_def numeral_2_eq_2 Let_def tracks_def severity_default_def from_default_def split: option.splits)
    next
      case caps: (Some caps)
      then have "m' = matcher_reset m \<and> r = chain_ref ext m0 1 (l # h)"
        using assms(2,4) ps Some
        by (auto simp: match_one_def slot_def assign_def numeral_2_eq_2 Let_def severity_default_def from_default_def)
      then show ?thesis using tracks_reset [OF assms(1)] Some caps assms(2) by auto
    qed
  qed
qed

lemma match_three:
  assumes "tracks ext m0 h m" and "pr_patterns m0 = [a, b, c]" and "no_loop m0" and "match_one ext l m = Some (m', r)"
  shows "r = chain_ref ext m0 2 (l # h) \<and> tracks ext m0 (if r = None then l # h else []) m'"
proof -
  have ps: "pr_patterns m = [a, b, c]" "pr_from_path m = pr_from_path m0"
    "pr_state m = [chain_ref ext m0 0 h, chain_ref ext m0 1 h]" "\<not> mp_loop c"
    using assms(1-3) by (auto simp: tracks_def no_loop_def upt_rec)
  show ?thesis
  proof (cases "chain_ref ext m0 1 h = None \<or> re_captures ext (mp_regexp c) l = None")
    case True
    then have "r = None \<and> pr_patterns m' = [a, b, c] \<and> pr_from_path m' = pr_from_path m0 \<and>
        pr_state m' = [chain_ref ext m0 0 (l # h), chain_ref ext m0 1 (l # h)]"
      using assms(2,4) ps
      by (cases "chain_ref ext m0 0 h"; cases "re_captures ext (mp_regexp b) l"; cases "re_captures ext (mp_regexp a) l";
          cases "chain_ref ext m0 1 h")
        (auto simp: match_one_def slot_def assign_def numeral_3_eq_3 Let_def severity_default_def from_default_def)
    moreover have "chain_ref ext m0 2 (l # h) = None"
      using True assms(2) by (auto simp: numeral_2_eq_2 split: option.split)
    ultimately show ?thesis using assms(2) by (simp add: tracks_def upt_rec)
  next
    case False
    then obtain x caps where x: "chain_ref ext m0 1 h = Some x" "re_captures ext (mp_regexp c) l = Some caps" by auto
    then have "m' = matcher_reset m \<and> r = chain_ref ext m0 2 (l # h)"
      using assms(2,4) ps
      by (auto simp: match_one_def slot_def assign_def numeral_3_eq_3 numeral_2_eq_2 Let_def severity_default_def from_default_def)
    then show ?thesis using tracks_reset [OF assms(1)] x assms(2) by (auto simp: numeral_2_eq_2)
  qed
qed

text \<open>A matcher of up to three patterns without a loop reports on a line exactly when its patterns match
  that line and the ones just before it, in order, since its last report; and what it reports is what the
  patterns give from those lines, a value of an earlier line before that of a later one.\<close>

theorem matcher_consecutive:
  assumes "1 \<le> length (pr_patterns m)" and "length (pr_patterns m) \<le> 3" and "no_loop m" and "m = matcher_reset m"
  shows "matcher_run ext m lines = Some (spec_run ext m [] lines)"
proof -
  have step: "r = chain_ref ext m (length (pr_patterns m) - 1) (l # h) \<and> tracks ext m (if r = None then l # h else []) m''"
    if "tracks ext m h m'" "match_one ext l m' = Some (m'', r)" for m' m'' h l r
  proof -
    have "length (pr_patterns m) = 1 \<or> length (pr_patterns m) = 2 \<or> length (pr_patterns m) = 3" using assms(1,2) by linarith
    then consider a where "pr_patterns m = [a]" | a b where "pr_patterns m = [a, b]" | a b c where "pr_patterns m = [a, b, c]"
      by (auto simp: length_Suc_conv eval_nat_numeral)
    then show ?thesis
    proof cases
      case 1
      then show ?thesis using that by (auto simp: match_one_def slot_def tracks_def severity_default_def from_default_def)
    next
      case 2
      then have n: "length (pr_patterns m) - 1 = 1" by simp
      show ?thesis unfolding n by (rule match_two [OF that(1) 2 assms(3) that(2)])
    next
      case 3
      then have n: "length (pr_patterns m) - 1 = 2" by simp
      show ?thesis unfolding n by (rule match_three [OF that(1) 3 assms(3) that(2)])
    qed
  qed
  have "matcher_run ext m' lines = Some (spec_run ext m h lines)" if "tracks ext m h m'" for m' h
    using that
  proof (induction lines arbitrary: m' h)
    case (Cons l ls)
    have "matcher_wf m'" using Cons.prems assms(1) by (auto simp: matcher_wf_def tracks_def)
    then obtain m'' r where one: "match_one ext l m' = Some (m'', r)" using match_one_total by blast
    note st = step [OF Cons.prems one]
    have "matcher_run ext m'' ls = Some (spec_run ext m (if r = None then l # h else []) ls)" using Cons.IH st by blast
    moreover have "spec_run ext m h (l # ls) = r # spec_run ext m (if r = None then l # h else []) ls"
      using st by (simp only: spec_run.simps Let_def)
    ultimately show ?case by (simp add: one)
  qed simp
  moreover have "pr_state m = (if 1 < length (pr_patterns m) then replicate (length (pr_patterns m) - 1) None else [])"
    using arg_cong [OF assms(4), of pr_state] by (simp add: matcher_reset_def)
  then have "tracks ext m [] m" by (auto simp: tracks_def map_replicate_const)
  ultimately show ?thesis by blast
qed

text \<open>An engine that knows literal expressions, for examples.\<close>

definition literal_regex :: regex_ext where
  "literal_regex = \<lparr>re_groups = (\<lambda>_. Some 1), re_captures = (\<lambda>r l. if r = l then Some [Some l] else None)\<rparr>"

definition line_pattern :: "string \<Rightarrow> nat option \<Rightarrow> matcher_pattern" where
  "line_pattern r message =
     \<lparr>mp_regexp = r, mp_file = None, mp_line = None, mp_column = None, mp_end_line = None, mp_end_column = None,
      mp_severity = None, mp_message = message, mp_code = None, mp_from_path = None, mp_loop = False\<rparr>"

definition lines_matcher :: "string list \<Rightarrow> problem_matcher" where
  "lines_matcher rs =
     \<lparr>pr_owner = ''m'', pr_patterns = map (\<lambda>r. line_pattern r None) (butlast rs) @ [line_pattern (last rs) (Some 0)],
      pr_from_path = [], pr_state = replicate (length rs - 1) None\<rparr>"

text \<open>A matcher of two patterns, the last one looping: after its first line two more lines are reported.\<close>

definition two_lines :: matcher_definition where
  "two_lines = \<lparr>md_owner = ''gcc'', md_pattern = [line_pattern ''head'' None, line_pattern ''tail'' (Some 0)\<lparr>mp_loop := True\<rparr>],
     md_from_path = None\<rparr>"

definition no_files :: fs_view where
  "no_files = \<lparr>fs_is_file = (\<lambda>_. False), fs_read = (\<lambda>_. None)\<rparr>"

definition two_lines_run :: "matcher_op list" where
  "two_lines_run = [AddFromFile (Inr [two_lines]), MatchLine [''gcc''] no_files ''head'' [], MatchLine [''gcc''] no_files ''tail'' []]"

theorem matcher_registry_wf_witness:
  "\<exists>reg reg' anns. run_matcher_ops literal_regex two_lines_run Map.empty = Some reg \<and> matchers_wf reg \<and>
     match_line literal_regex no_files 50 [''gcc''] reg ''tail'' [] ''o/r'' [] False = Some (reg', anns) \<and> matchers_wf reg' \<and>
     map ann_message anns = [''tail'']"
proof -
  obtain reg reg' anns where r: "run_matcher_ops literal_regex two_lines_run Map.empty = Some reg" "matchers_wf reg"
    "match_line literal_regex no_files 50 [''gcc''] reg ''tail'' [] ''o/r'' [] False = Some (reg', anns)" "matchers_wf reg'"
    using matcher_registry_wf by blast
  have "Option.bind (run_matcher_ops literal_regex two_lines_run Map.empty) (\<lambda>reg.
      map_option (\<lambda>(_, anns). map ann_message anns) (match_line literal_regex no_files 50 [''gcc''] reg ''tail'' [] ''o/r'' [] False)) = Some [''tail'']"
    by code_simp
  then show ?thesis using r by auto
qed

theorem matcher_consecutive_witness:
  "matcher_run literal_regex (lines_matcher [''a'', ''b'', ''c'']) [''a'', ''b'', ''x'', ''c'', ''a'', ''b'', ''c''] =
   Some (spec_run literal_regex (lines_matcher [''a'', ''b'', ''c'']) [] [''a'', ''b'', ''x'', ''c'', ''a'', ''b'', ''c''])"
  by (rule matcher_consecutive)
    (simp_all add: lines_matcher_def no_loop_def line_pattern_def matcher_reset_def eval_nat_numeral)

text \<open>With a fourth pattern a running match of the first two survives a line that matches nothing, and the
  matcher reports over lines that are not consecutive.\<close>

lemma four_patterns_not_consecutive:
  "map_option (map (\<lambda>r. r \<noteq> None)) (matcher_run literal_regex (lines_matcher [''a'', ''b'', ''c'', ''d'']) [''a'', ''b'', ''x'', ''c'', ''d'']) =
     Some [False, False, False, False, True]"
  "map (\<lambda>r. r \<noteq> None) (spec_run literal_regex (lines_matcher [''a'', ''b'', ''c'', ''d'']) [] [''a'', ''b'', ''x'', ''c'', ''d'']) =
     [False, False, False, False, False]"
  by code_simp+

end
