(* ===== verification/Live_Logs.thy ===== *)
theory Live_Logs
  imports Secret_Masking Workflow_Commands "HOL-Library.Char_ord" "HOL-Library.List_Lexorder"
begin

text \<open>
  The live console feed, \<^verbatim>\<open>crates/preloop-runner/src/worker/live_logs.rs\<close>: the queue of lines, what a drain
  takes from it, the batches it sends, what goes unsent when a batch is not sent, and the masking of
  lines that are queued or about to be sent.

  The socket is an argument: for each batch, whether each of its attempts succeeds and which masks are
  registered when it is made. Between taking lines and putting them unsent other threads may
  have queued more; the queue at that moment is an argument.

  Shown: nothing is lost, repeated or reordered within a step, whatever is sent and whatever fails; at
  shutdown each step keeps its last lines; masking a batch keeps its lines apart and no value without an
  asterisk that is registered when it is sent can be read in it, not even across two lines. Two gaps are
  shown: a batch of one empty line is sent without it, and a value with an asterisk can stay readable.
\<close>

record console_line =
  cl_step :: string
  cl_text :: string
  cl_number :: nat

record feed_wrapper =
  fw_step :: string
  fw_start :: nat
  fw_count :: nat
  fw_value :: "string list"

record mask_set =
  ms_values :: "string list"
  ms_patterns :: "(string \<Rightarrow> (nat \<times> nat) list) list"

definition QUEUE_DROP_THRESHOLD :: nat where "QUEUE_DROP_THRESHOLD = 1024"
definition LINE_TRUNCATE_CHARS :: nat where "LINE_TRUNCATE_CHARS = 1024"
definition DRAIN_LIMIT :: nat where "DRAIN_LIMIT = 500"
definition LINES_PER_BATCH :: nat where "LINES_PER_BATCH = 100"
definition SHUTDOWN_LINES_PER_STEP :: nat where "SHUTDOWN_LINES_PER_STEP = 200"
definition RETRIES :: nat where "RETRIES = 3"

section \<open>The queue\<close>

text \<open>\<open>take_chars n\<close> is the first \<open>n\<close> characters of a text: a byte that is no continuation begins one.\<close>

fun take_chars :: "nat \<Rightarrow> string \<Rightarrow> string" where
  "take_chars n [] = []"
| "take_chars n (c # cs) =
     (if is_continuation c then c # take_chars n cs
      else case n of 0 \<Rightarrow> [] | Suc k \<Rightarrow> c # take_chars k cs)"

definition truncate_line :: "string \<Rightarrow> string" where
  "truncate_line line = take_chars LINE_TRUNCATE_CHARS line"

definition enqueue :: "console_line list \<Rightarrow> string \<Rightarrow> string \<Rightarrow> nat \<Rightarrow> console_line list" where
  "enqueue lines step_id line line_number =
     (if QUEUE_DROP_THRESHOLD < length lines then lines
      else lines @ [\<lparr>cl_step = step_id, cl_text = truncate_line line, cl_number = line_number\<rparr>])"

definition mask_lines ::
  "base64_ext \<Rightarrow> string list \<Rightarrow> string list \<Rightarrow> (string \<Rightarrow> (nat \<times> nat) list) list \<Rightarrow> string list" where
  "mask_lines ext lines secrets patterns =
     (let joined = join [CHR 0x0A] lines
      in if joined = [] then []
         else split_char CHR 0x0A
           (mask_secrets_preserving_lines_transform_aware_with_patterns ext joined secrets patterns []))"

definition remask_with ::
  "base64_ext \<Rightarrow> (string \<Rightarrow> (nat \<times> nat) list) list \<Rightarrow> string list \<Rightarrow> console_line list \<Rightarrow> console_line list" where
  "remask_with ext patterns secrets lines =
     (let masked = mask_lines ext (map cl_text lines) secrets patterns
      in map (\<lambda>(entry, line). entry\<lparr>cl_text := line\<rparr>) (zip lines masked) @ drop (length masked) lines)"

definition dequeue :: "nat \<Rightarrow> console_line list \<Rightarrow> console_line list \<times> console_line list" where
  "dequeue limit lines = (let count = min (length lines) limit in (take count lines, drop count lines))"

fun tail_loop :: "nat \<Rightarrow> (string \<Rightarrow> nat) \<Rightarrow> console_line list \<Rightarrow> console_line list \<Rightarrow> console_line list" where
  "tail_loop limit per_step kept [] = kept"
| "tail_loop limit per_step kept (line # lines) =
     (if per_step (cl_step line) < limit
      then tail_loop limit (per_step(cl_step line := per_step (cl_step line) + 1)) (kept @ [line]) lines
      else tail_loop limit per_step kept lines)"

definition tail_by_step :: "console_line list \<Rightarrow> nat \<Rightarrow> console_line list" where
  "tail_by_step lines limit = rev (tail_loop limit (\<lambda>_. 0) [] (rev lines))"

definition dequeue_shutdown_tail :: "console_line list \<Rightarrow> console_line list \<times> console_line list" where
  "dequeue_shutdown_tail lines = (tail_by_step lines SHUTDOWN_LINES_PER_STEP, [])"

section \<open>Batches\<close>

function chunks :: "nat \<Rightarrow> 'a list \<Rightarrow> 'a list list" where
  "chunks n xs = (if xs = [] \<or> n = 0 then [] else take n xs # chunks n (drop n xs))"
  by pat_completeness auto

termination by (relation "measure (\<lambda>(_, xs). length xs)") auto

declare chunks.simps [simp del]

definition group_lines :: "console_line list \<Rightarrow> (string \<times> console_line list) list" where
  "group_lines lines =
     fold (\<lambda>line grouped. btree_insert (cl_step line) (unwrap_or (map_of grouped (cl_step line)) [] @ [line]) grouped) lines []"

definition line_batches :: "console_line list \<Rightarrow> console_line list list" where
  "line_batches lines =
     concat (map (\<lambda>(_, ls). filter (\<lambda>chunk. chunk \<noteq> []) (chunks LINES_PER_BATCH ls)) (group_lines lines))"

definition wrapper_from_lines :: "console_line list \<Rightarrow> feed_wrapper" where
  "wrapper_from_lines lines =
     \<lparr>fw_step = cl_step (hd lines), fw_start = cl_number (hd lines), fw_count = length lines, fw_value = map cl_text lines\<rparr>"

text \<open>\<open>None\<close> when a mask lock is poisoned.\<close>

definition mask_wrapper :: "base64_ext \<Rightarrow> feed_wrapper \<Rightarrow> mask_set option \<Rightarrow> feed_wrapper option" where
  "mask_wrapper ext wrapper masks =
     map_option (\<lambda>ms. wrapper\<lparr>fw_value := mask_lines ext (fw_value wrapper) (ms_values ms) (ms_patterns ms)\<rparr>) masks"

section \<open>Sending\<close>

record ws_sender =
  failed_batches :: nat
  total_batches :: nat

text \<open>An attempt: the masks registered when it is made, and whether the socket takes the message.\<close>

type_synonym attempts = "(mask_set option \<times> bool) list"

fun send_attempts :: "base64_ext \<Rightarrow> feed_wrapper \<Rightarrow> attempts \<Rightarrow> feed_wrapper option" where
  "send_attempts ext wrapper [] = None"
| "send_attempts ext wrapper ((masks, sent) # attempts) =
     (case mask_wrapper ext wrapper masks of
        None \<Rightarrow> None
      | Some masked \<Rightarrow> if sent then Some masked else send_attempts ext wrapper attempts)"

definition ws_send :: "base64_ext \<Rightarrow> ws_sender \<Rightarrow> feed_wrapper \<Rightarrow> attempts \<Rightarrow> ws_sender \<times> feed_wrapper option" where
  "ws_send ext s wrapper attempts =
     (let s = s\<lparr>total_batches := total_batches s + 1\<rparr>
      in case send_attempts ext wrapper (take RETRIES attempts) of
           Some masked \<Rightarrow> (s, Some masked)
         | None \<Rightarrow> (s\<lparr>failed_batches := failed_batches s + 1\<rparr>, None))"

definition should_disable :: "ws_sender \<Rightarrow> bool" where
  "should_disable s \<longleftrightarrow> 5 < total_batches s \<and> total_batches s < failed_batches s * 2"

definition requeue_front :: "console_line list list \<Rightarrow> console_line list \<Rightarrow> console_line list" where
  "requeue_front batches queue = fold (\<lambda>batch queue. fold (\<lambda>line queue. line # queue) (rev batch) queue) (rev batches) queue"

text \<open>The result: the sender, the messages that were sent, and the batches put unsent.\<close>

fun send_batches ::
  "base64_ext \<Rightarrow> ws_sender option \<Rightarrow> console_line list list \<Rightarrow> attempts list \<Rightarrow>
   ws_sender option \<times> feed_wrapper list \<times> console_line list list" where
  "send_batches ext ws [] outcomes = (ws, [], [])"
| "send_batches ext None (batch # batches) outcomes = (None, [], batch # batches)"
| "send_batches ext (Some s) (batch # batches) outcomes =
     (case ws_send ext s (wrapper_from_lines batch) (case outcomes of [] \<Rightarrow> [] | attempts # _ \<Rightarrow> attempts) of
        (s', Some masked) \<Rightarrow>
          (case send_batches ext (Some s') batches (tl outcomes) of
             (ws', sent, unsent) \<Rightarrow> (ws', masked # sent, unsent))
      | (s', None) \<Rightarrow> (if should_disable s' then None else Some s', [], batch # batches))"

definition send_grouped ::
  "base64_ext \<Rightarrow> ws_sender option \<Rightarrow> console_line list \<Rightarrow> attempts list \<Rightarrow> console_line list \<Rightarrow>
   ws_sender option \<times> feed_wrapper list \<times> console_line list" where
  "send_grouped ext ws lines outcomes queue =
     (case send_batches ext ws (line_batches lines) outcomes of
        (ws', sent, unsent) \<Rightarrow> (ws', sent, requeue_front unsent queue))"

text \<open>One drain: \<open>arrived\<close> is what other threads queue while the batches are sent.\<close>

definition drain_once ::
  "base64_ext \<Rightarrow> nat \<Rightarrow> ws_sender option \<Rightarrow> console_line list \<Rightarrow> attempts list \<Rightarrow> console_line list \<Rightarrow>
   ws_sender option \<times> feed_wrapper list \<times> console_line list" where
  "drain_once ext limit ws lines outcomes arrived =
     (if ws = None then (None, [], lines @ arrived)
      else case dequeue limit lines of
             (batch, rest) \<Rightarrow> send_grouped ext ws batch outcomes (rest @ arrived))"

definition drain_shutdown ::
  "base64_ext \<Rightarrow> ws_sender option \<Rightarrow> console_line list \<Rightarrow> attempts list \<Rightarrow>
   feed_wrapper list \<times> console_line list" where
  "drain_shutdown ext ws lines outcomes =
     (case dequeue_shutdown_tail lines of
        (last_lines, rest) \<Rightarrow> (case send_grouped ext ws last_lines outcomes rest of (_, sent, queue) \<Rightarrow> (sent, queue)))"

section \<open>Masked lines\<close>

lemma join_split_char: "join [d] (split_char d s) = s"
proof (induction s)
  case (Cons c s)
  obtain p ps where "split_char d s = p # ps" using split_char_nonempty [of d s] by (cases "split_char d s") auto
  then show ?case using Cons by (cases ps) auto
qed simp

lemma length_split_char: "length (split_char d s) = Suc (length (filter (\<lambda>c. c = d) s))"
proof (induction s)
  case (Cons c s)
  then show ?case using split_char_nonempty [of d s] by (auto split: list.split)
qed simp

lemma count_join:
  "ss \<noteq> [] \<Longrightarrow> list_all (\<lambda>s. d \<notin> set s) ss \<Longrightarrow> Suc (length (filter (\<lambda>c. c = d) (join [d] ss))) = length ss"
proof (induction ss)
  case (Cons s ss)
  have "filter (\<lambda>c. c = d) s = []" using Cons.prems(2) by (auto simp: filter_empty_conv)
  then show ?case using Cons by (cases ss) auto
qed simp

lemma mask_lines_join:
  "join [CHR 0x0A] (mask_lines ext lines secrets patterns) =
   (if join [CHR 0x0A] lines = [] then []
    else mask_secrets_inner ext (join [CHR 0x0A] lines) secrets patterns [] True True)"
  by (simp add: mask_lines_def Let_def join_split_char mask_secrets_preserving_lines_transform_aware_with_patterns_def)

lemma filter_newline: "filter (\<lambda>c. c = CHR 0x0A) s = filter (\<lambda>c. c = CHR 0x0A) (filter is_line_break s)"
  by (simp add: is_line_break_def cong: filter_cong) (metis (mono_tags, lifting) filter_cong)

lemma mask_lines_length:
  assumes "list_all (\<lambda>l. CHR 0x0A \<notin> set l) lines" and "join [CHR 0x0A] lines \<noteq> []"
  shows "length (mask_lines ext lines secrets patterns) = length lines"
proof -
  let ?j = "join [CHR 0x0A] lines"
  have "filter (\<lambda>c. c = CHR 0x0A) (mask_secrets_inner ext ?j secrets patterns [] True True) = filter (\<lambda>c. c = CHR 0x0A) ?j"
    using mask_inner_lines [of ext ?j secrets patterns "[]" True] filter_newline by metis
  moreover have "lines \<noteq> []" using assms(2) by auto
  ultimately show ?thesis using assms count_join [of lines "CHR 0x0A"]
    by (simp add: mask_lines_def Let_def length_split_char mask_secrets_preserving_lines_transform_aware_with_patterns_def)
qed

section \<open>Nothing is lost\<close>

abbreviation of_step :: "string \<Rightarrow> console_line list \<Rightarrow> console_line list" where
  "of_step s \<equiv> filter (\<lambda>l. cl_step l = s)"

lemma concat_chunks: "0 < n \<Longrightarrow> concat (chunks n xs) = xs"
  by (induction n xs rule: chunks.induct) (subst chunks.simps, auto)

definition grouped_ok :: "(string \<times> console_line list) list \<Rightarrow> console_line list \<Rightarrow> bool" where
  "grouped_ok g lines \<longleftrightarrow> btree_wf g \<and> (\<forall>s. map_of g s = (if of_step s lines = [] then None else Some (of_step s lines)))"

lemma group_lines_ok: "grouped_ok (group_lines lines) lines"
proof -
  let ?add = "\<lambda>line grouped. btree_insert (cl_step line) (unwrap_or (map_of grouped (cl_step line)) [] @ [line]) grouped"
  have "grouped_ok (fold ?add ls g) (seen @ ls)" if "grouped_ok g seen" for ls g seen
    using that
  proof (induction ls arbitrary: g seen)
    case (Cons l ls)
    have "grouped_ok (?add l g) (seen @ [l])"
      using Cons.prems btree_wf_insert [of g] by (auto simp: grouped_ok_def unwrap_or_def fun_upd_def)
    then show ?case using Cons.IH by fastforce
  qed simp
  from this [of "[]" "[]"] show ?thesis by (simp add: group_lines_def grouped_ok_def)
qed

lemma of_step_groups:
  assumes "distinct (map fst g)" and "list_all (\<lambda>(k, ls). list_all (\<lambda>l. cl_step l = k) ls) g"
  shows "of_step s (concat (map snd g)) = (case map_of g s of None \<Rightarrow> [] | Some ls \<Rightarrow> ls)"
  using assms
proof (induction g)
  case (Cons q g)
  obtain k ls where q: "q = (k, ls)" by fastforce
  have none: "map_of g k = None" using Cons.prems(1) by (auto simp: q map_of_eq_None_iff)
  have "of_step s ls = (if s = k then ls else [])" using Cons.prems(2) by (auto simp: q list_all_iff filter_id_conv)
  then show ?case using Cons none by (auto simp: q)
qed simp

lemma of_step_batches: "of_step s (concat (line_batches lines)) = of_step s lines"
proof -
  have wf: "distinct (map fst (group_lines lines))"
    and of: "\<And>s. map_of (group_lines lines) s = (if of_step s lines = [] then None else Some (of_step s lines))"
    using group_lines_ok [of lines] by (simp_all add: grouped_ok_def btree_wf_def)
  have hom: "list_all (\<lambda>(k, ls). list_all (\<lambda>l. cl_step l = k) ls) (group_lines lines)"
  proof (clarsimp simp: list_all_iff)
    fix k ls l
    assume "(k, ls) \<in> set (group_lines lines)" "l \<in> set ls"
    then show "cl_step l = k" using map_of_is_SomeI [OF wf] of [of k] by (auto split: if_splits)
  qed
  have nonempty: "concat (filter (\<lambda>c. c \<noteq> []) xs) = concat xs" for xs :: "console_line list list" by (induction xs) auto
  have "concat (concat (map (\<lambda>(_, ls). filter (\<lambda>chunk. chunk \<noteq> []) (chunks LINES_PER_BATCH ls)) g)) = concat (map snd g)"
    for g :: "(string \<times> console_line list) list"
    by (induction g) (auto simp: nonempty concat_chunks LINES_PER_BATCH_def)
  then have "concat (line_batches lines) = concat (map snd (group_lines lines))" by (simp only: line_batches_def)
  then show ?thesis using of_step_groups [OF wf hom, of s] of by simp
qed

lemma requeue_front_concat: "requeue_front batches queue = concat batches @ queue"
proof -
  have "fold (\<lambda>line queue. line # queue) (rev b) q = b @ q" for b q :: "console_line list"
    by (simp add: fold_Cons_rev)
  then show ?thesis unfolding requeue_front_def
    by (induction batches arbitrary: queue rule: rev_induct) auto
qed

text \<open>A message for a batch: the step and the number of its first line, how many lines it has, and their texts
  under the masks of some attempt. There are as many texts as lines, except that a batch of one empty
  line has none.\<close>

definition carries :: "base64_ext \<Rightarrow> console_line list \<Rightarrow> feed_wrapper \<Rightarrow> bool" where
  "carries ext batch w \<longleftrightarrow> batch \<noteq> [] \<and> list_all (\<lambda>l. cl_step l = fw_step w) batch \<and> fw_start w = cl_number (hd batch) \<and>
     fw_count w = length batch \<and> (\<exists>values patterns. fw_value w = mask_lines ext (map cl_text batch) values patterns) \<and>
     (list_all (\<lambda>l. CHR 0x0A \<notin> set (cl_text l)) batch \<longrightarrow> map cl_text batch \<noteq> [[]] \<longrightarrow> length (fw_value w) = length batch)"

lemma chunk_of: "c \<in> set (chunks n xs) \<Longrightarrow> set c \<subseteq> set xs"
proof (induction n xs rule: chunks.induct)
  case (1 n xs)
  have "c = take n xs \<or> c \<in> set (chunks n (drop n xs)) \<and> \<not> (xs = [] \<or> n = 0)"
    using "1.prems" by (subst (asm) chunks.simps) (auto split: if_splits)
  then show ?case using "1.IH" by (meson order_trans set_drop_subset set_take_subset)
qed

lemma batch_of_step:
  assumes "batch \<in> set (line_batches lines)"
  shows "batch \<noteq> []" and "list_all (\<lambda>l. cl_step l = cl_step (hd batch)) batch"
proof -
  obtain k ls where kls: "(k, ls) \<in> set (group_lines lines)" "batch \<in> set (chunks LINES_PER_BATCH ls)" "batch \<noteq> []"
    using assms by (auto simp: line_batches_def)
  have "distinct (map fst (group_lines lines))" "map_of (group_lines lines) k = (if of_step k lines = [] then None else Some (of_step k lines))"
    using group_lines_ok [of lines] by (simp_all add: grouped_ok_def btree_wf_def)
  then have "\<forall>l \<in> set ls. cl_step l = k" using map_of_is_SomeI [OF _ kls(1)] by (auto split: if_splits)
  then have all: "\<forall>l \<in> set batch. cl_step l = k" using chunk_of [OF kls(2)] by blast
  show "batch \<noteq> []" by (rule kls(3))
  show "list_all (\<lambda>l. cl_step l = cl_step (hd batch)) batch" using all kls(3) by (simp add: list_all_iff)
qed

lemma send_attempts_masks:
  "send_attempts ext wrapper attempts = Some masked \<Longrightarrow>
   \<exists>ms. (Some ms, True) \<in> set attempts \<and> masked = wrapper\<lparr>fw_value := mask_lines ext (fw_value wrapper) (ms_values ms) (ms_patterns ms)\<rparr>"
proof (induction attempts)
  case (Cons a attempts)
  obtain masks sent where a: "a = (masks, sent)" by fastforce
  show ?case using Cons by (cases masks; cases sent) (auto simp: a mask_wrapper_def)
qed simp

lemma join_newline_Nil: "join [CHR 0x0A] ls = [] \<longleftrightarrow> ls = [] \<or> ls = [[]]"
  by (cases ls; cases "tl ls") auto

lemma ws_send_carries:
  assumes "ws_send ext s (wrapper_from_lines batch) attempts = (s', Some masked)"
    and "batch \<noteq> []" and "list_all (\<lambda>l. cl_step l = cl_step (hd batch)) batch"
  shows "carries ext batch masked"
proof -
  have "send_attempts ext (wrapper_from_lines batch) (take RETRIES attempts) = Some masked"
    using assms(1) by (auto simp: ws_send_def Let_def split: option.splits)
  then obtain ms :: mask_set where ms: "masked = (wrapper_from_lines batch)\<lparr>fw_value := mask_lines ext (fw_value (wrapper_from_lines batch)) (ms_values ms) (ms_patterns ms)\<rparr>"
    by (blast dest: send_attempts_masks)
  have "length (mask_lines ext (map cl_text batch) (ms_values ms) (ms_patterns ms)) = length batch"
    if "list_all (\<lambda>l. CHR 0x0A \<notin> set (cl_text l)) batch" "map cl_text batch \<noteq> [[]]"
    using mask_lines_length [of "map cl_text batch" ext "ms_values ms" "ms_patterns ms"] that assms(2)
    by (simp add: join_newline_Nil list.pred_map comp_def)
  then show ?thesis using assms(2,3) by (auto simp: carries_def ms wrapper_from_lines_def)
qed

lemma send_batches_carry:
  "send_batches ext ws batches outcomes = (ws', sent, unsent) \<Longrightarrow>
   \<forall>b \<in> set batches. b \<noteq> [] \<and> list_all (\<lambda>l. cl_step l = cl_step (hd b)) b \<Longrightarrow>
   \<exists>done_batches. batches = done_batches @ unsent \<and> list_all2 (carries ext) done_batches sent"
proof (induction ext ws batches outcomes arbitrary: ws' sent unsent rule: send_batches.induct)
  case (3 ext s batch batches outcomes)
  obtain s' r where send: "ws_send ext s (wrapper_from_lines batch) (case outcomes of [] \<Rightarrow> [] | attempts # _ \<Rightarrow> attempts) = (s', r)"
    by fastforce
  show ?case
  proof (cases r)
    case None
    then show ?thesis using "3.prems"(1) send by auto
  next
    case (Some masked)
    obtain ws2 sent2 unsent2 where more: "send_batches ext (Some s') batches (tl outcomes) = (ws2, sent2, unsent2)"
      by (metis prod_cases3)
    obtain ds where ds: "batches = ds @ unsent2" "list_all2 (carries ext) ds sent2"
      using "3.IH" [OF send [symmetric] Some more] "3.prems"(2) by auto
    have "carries ext batch masked" using ws_send_carries [OF send [unfolded Some]] "3.prems"(2) by simp
    then show ?thesis using "3.prems"(1) send Some more ds by (intro exI [of _ "batch # ds"]) auto
  qed
qed auto

text \<open>C26. Whatever a drain manages to send, whatever fails, and whatever is queued meanwhile, no line is lost,
  repeated or reordered within its step: the lines that the sent messages carry, each message with the
  masked text of its lines in order, followed by the lines still queued are for every step the lines that
  were queued before followed by those that arrived. The one line whose text is not in its message is an
  empty line that is a batch alone.\<close>

theorem drain_conserves:
  "case drain_once ext limit ws lines outcomes arrived of (ws', sent, queue) \<Rightarrow>
     \<exists>batches. list_all2 (carries ext) batches sent \<and>
       (\<forall>s. of_step s (concat batches @ queue) = of_step s (lines @ arrived))"
proof (cases "ws = None")
  case True
  then show ?thesis by (simp add: drain_once_def)
next
  case False
  let ?batch = "take (min (length lines) limit) lines" and ?rest = "drop (min (length lines) limit) lines"
  obtain ws' sent unsent where send: "send_batches ext ws (line_batches ?batch) outcomes = (ws', sent, unsent)"
    by (metis prod_cases3)
  obtain ds where ds: "line_batches ?batch = ds @ unsent" "list_all2 (carries ext) ds sent"
    using send_batches_carry [OF send] batch_of_step by blast
  have "of_step s (concat ds @ concat unsent @ ?rest @ arrived) = of_step s (?batch @ ?rest @ arrived)" for s
    using arg_cong [OF ds(1), of concat] of_step_batches [of s ?batch] by (metis append.assoc concat_append filter_append)
  then show ?thesis using False ds(2)
    by (auto simp: drain_once_def dequeue_def Let_def send_grouped_def send requeue_front_concat simp flip: append_assoc)
qed

text \<open>One batch goes out with its secret masked; the socket refuses the second, which stays queued.\<close>

theorem drain_conserves_witness:
  "\<exists>ws' sent queue batches. drain_once undefined 10 (Some \<lparr>failed_batches = 0, total_batches = 0\<rparr>)
       [\<lparr>cl_step = ''b'', cl_text = ''two'', cl_number = 7\<rparr>, \<lparr>cl_step = ''a'', cl_text = ''one'', cl_number = 3\<rparr>]
       [[(Some \<lparr>ms_values = [], ms_patterns = []\<rparr>, True)], []] [\<lparr>cl_step = ''a'', cl_text = ''new'', cl_number = 4\<rparr>] = (ws', sent, queue) \<and>
     list_all2 (carries undefined) batches sent \<and> length sent = 1 \<and> length queue = 2"
proof -
  let ?lines = "[\<lparr>cl_step = ''b'', cl_text = ''two'', cl_number = 7\<rparr>, \<lparr>cl_step = ''a'', cl_text = ''one'', cl_number = 3\<rparr>]"
  let ?new = "[\<lparr>cl_step = ''a'', cl_text = ''new'', cl_number = 4\<rparr>]"
  let ?out = "[[(Some \<lparr>ms_values = [], ms_patterns = []\<rparr>, True)], []]"
  have b: "line_batches ?lines = [[?lines ! 1], [?lines ! 0]]" by code_simp
  obtain w ws' where d: "drain_once undefined 10 (Some \<lparr>failed_batches = 0, total_batches = 0\<rparr>) ?lines ?out ?new =
      (ws', [w], ?lines ! 0 # ?new)"
    using b by (simp add: drain_once_def dequeue_def Let_def send_grouped_def ws_send_def RETRIES_def numeral_3_eq_3
        mask_wrapper_def requeue_front_def)
  obtain bs where "list_all2 (carries undefined) bs [w]" using drain_conserves [where ext = undefined and limit = 10 and ws = "Some \<lparr>failed_batches = 0, total_batches = 0\<rparr>"
        and lines = ?lines and outcomes = ?out and arrived = ?new] d by auto
  with d show ?thesis by (intro exI [of _ ws'] exI [of _ "[w]"] exI [of _ "?lines ! 0 # ?new"] exI [of _ bs]) simp
qed

lemma tail_loop_of_step:
  "of_step s (tail_loop limit per_step kept lines) = of_step s kept @ take (limit - per_step s) (of_step s lines)"
proof (induction lines arbitrary: per_step kept)
  case (Cons line lines)
  show ?case
  proof (cases "per_step (cl_step line) < limit")
    case True
    then have "limit - per_step (cl_step line) = Suc (limit - Suc (per_step (cl_step line)))" by simp
    then show ?thesis using Cons.IH [of "per_step(cl_step line := per_step (cl_step line) + 1)" "kept @ [line]"] True
      by (cases "cl_step line = s") (auto simp: fun_upd_def)
  next
    case False
    then show ?thesis using Cons.IH [of per_step kept] by auto
  qed
qed simp

text \<open>At shutdown each step keeps its last 200 lines, in order, however the lines of the steps are
  interleaved in the queue.\<close>

theorem shutdown_keeps_tails:
  "of_step s (tail_by_step lines limit) = drop (length (of_step s lines) - limit) (of_step s lines)"
proof -
  have "of_step s (tail_by_step lines limit) = rev (take limit (rev (of_step s lines)))"
    by (simp add: tail_by_step_def rev_filter [symmetric] tail_loop_of_step)
  then show ?thesis by (simp add: take_rev)
qed

text \<open>Masking the lines of a batch together keeps them apart: there are as many lines after it as before,
  also where a value that spans lines was hidden.\<close>

theorem mask_lines_one_to_one:
  assumes "list_all (\<lambda>l. CHR 0x0A \<notin> set l) lines" and "join [CHR 0x0A] lines \<noteq> []"
  shows "length (mask_lines ext lines secrets patterns) = length lines"
  by (rule mask_lines_length [OF assms])

theorem mask_lines_one_to_one_witness:
  "length (mask_lines undefined [''user'', ''name=x'', [], ''secret''] [''name=x''] [\<lambda>_. [(0, 9)]]) =
   length [''user'', ''name=x'', [], ''secret'']"
  by (rule mask_lines_one_to_one) simp_all

lemma empty_line_not_sent: "mask_lines ext [[]] secrets patterns = []"
  by (simp add: mask_lines_def)

lemma starred_line_shown: "mask_lines star_codec [''***pass''] [''*pass''] [] = [''***pass'']"
  by code_simp

lemma join_Nil_sublist: "t \<noteq> [] \<Longrightarrow> \<not> sublist t []"
  by (simp add: sublist_def)

text \<open>C27. A batch that is sent shows no value without an asterisk that was registered when its first attempt was
  made, no such encoding of one and no other spelling, not even across two of its lines, however many
  attempts it took. Values with an asterisk are left out, since the scan can leave them readable
  (\<open>starred_line_shown\<close>), and so are values of line breaks only.\<close>

theorem feed_no_leak:
  assumes "ws_send ext s (wrapper_from_lines batch) attempts = (s', Some masked)"
    and "utf8_ok (join [CHR 0x0A] (map cl_text batch))"
    and "\<forall>(masks, _) \<in> set attempts. masks = None \<or> v \<in> masked_values ext [] True (ms_values (the masks))"
    and "hideable v" and "spelled True v t"
  shows "\<not> sublist t (join [CHR 0x0A] (fw_value masked))"
proof -
  have "send_attempts ext (wrapper_from_lines batch) (take RETRIES attempts) = Some masked"
    using assms(1) by (auto simp: ws_send_def Let_def split: option.splits)
  then obtain ms where ms: "(Some ms, True) \<in> set attempts"
    "fw_value masked = mask_lines ext (map cl_text batch) (ms_values ms) (ms_patterns ms)"
    using send_attempts_masks [of ext _ "take RETRIES attempts"] in_set_takeD by (fastforce simp: wrapper_from_lines_def)
  have v: "v \<in> masked_values ext [] True (ms_values ms)" using assms(3) ms(1) by force
  have "t \<noteq> []" using spelled_hideable [OF assms(5,4)] hideable_nonempty by blast
  then show ?thesis unfolding ms(2) mask_lines_join
    using mask_inner_no_leak [OF assms(2) v assms(4,5)] join_Nil_sublist by auto
qed

definition sample_masks :: mask_set where
  "sample_masks = \<lparr>ms_values = [''hunter2''], ms_patterns = []\<rparr>"

theorem feed_no_leak_witness:
  "\<exists>s' masked. ws_send undefined \<lparr>failed_batches = 0, total_batches = 0\<rparr>
      (wrapper_from_lines [\<lparr>cl_step = ''s'', cl_text = ''pw hunter2'', cl_number = 1\<rparr>])
      [(Some sample_masks, False), (Some sample_masks, True)] = (s', Some masked) \<and>
    \<not> sublist ''Hunter2'' (join [CHR 0x0A] (fw_value masked))"
proof -
  let ?batch = "[\<lparr>cl_step = ''s'', cl_text = ''pw hunter2'', cl_number = 1\<rparr>]"
  let ?attempts = "[(Some sample_masks, False), (Some sample_masks, True)]"
  obtain s' masked where send: "ws_send undefined \<lparr>failed_batches = 0, total_batches = 0\<rparr> (wrapper_from_lines ?batch) ?attempts = (s', Some masked)"
    by (simp add: ws_send_def RETRIES_def eval_nat_numeral mask_wrapper_def Let_def)
  have "utf8_ok (join [CHR 0x0A] (map cl_text ?batch))" "hideable ''hunter2''" "spelled True ''hunter2'' ''Hunter2''" by code_simp+
  then have "\<not> sublist ''Hunter2'' (join [CHR 0x0A] (fw_value masked))"
    by (intro feed_no_leak [OF send]) (auto simp: sample_masks_def masked_values_def)
  then show ?thesis using send by blast
qed

lemma remask_keeps:
  assumes "list_all (\<lambda>l. CHR 0x0A \<notin> set (cl_text l)) lines"
  shows "map cl_step (remask_with ext patterns secrets lines) = map cl_step lines"
    "map cl_number (remask_with ext patterns secrets lines) = map cl_number lines"
proof -
  let ?m = "mask_lines ext (map cl_text lines) secrets patterns"
  have texts: "list_all (\<lambda>l. CHR 0x0A \<notin> set l) (map cl_text lines)" using assms by (simp add: list_all_iff)
  have "map cl_step (map (\<lambda>(entry, line). entry\<lparr>cl_text := line\<rparr>) (zip ls ms) @ drop (length ms) ls) = map cl_step ls \<and>
      map cl_number (map (\<lambda>(entry, line). entry\<lparr>cl_text := line\<rparr>) (zip ls ms) @ drop (length ms) ls) = map cl_number ls"
    if "length ms \<le> length ls" for ls ms
    using that
  proof (induction ls arbitrary: ms)
    case (Cons l ls)
    then show ?case by (cases ms) auto
  qed simp
  moreover have "length ?m \<le> length lines"
    using mask_lines_length [OF texts, of ext secrets patterns] by (cases "join [CHR 0x0A] (map cl_text lines) = []") (auto simp: mask_lines_def)
  ultimately show "map cl_step (remask_with ext patterns secrets lines) = map cl_step lines"
    "map cl_number (remask_with ext patterns secrets lines) = map cl_number lines"
    unfolding remask_with_def Let_def by blast+
qed

end
