(* ===== verification/Step_Log.thy ===== *)
theory Step_Log
  imports Stream_Masker Problem_Matchers Live_Logs
begin

text \<open>
  The log of a step, \<^verbatim>\<open>StepContext\<close> of \<^verbatim>\<open>crates/preloop-runner/src/worker/execution_context.rs\<close>, with the
  mask operations of its job (\<^verbatim>\<open>contexts.rs\<close>) and \<^verbatim>\<open>handle_command\<close> of \<^verbatim>\<open>commands.rs\<close>: output arrives in
  chunks, is cut into lines, masked, bounded, read for workflow commands and problem matchers, written to
  the durable log and queued for the live feed.

  The state of the step and the parts of its job that these operations touch are one record. The clock,
  the outcome of a write and of a rewrite of the log file, and the libraries the other components
  name are in \<open>log_env\<close>. An operation returns \<open>Inl\<close> where the source panics.

  Shown: the count of log lines is the number of lines in the log whatever happens, so that line
  checkpoints stay valid when the log is rewritten; once a value has been registered nothing of the
  log shows it; suspended commands have no effect until the exact token; what is kept in memory is
  bounded. Shown as well: a command is read from text that has been masked already, so that a value that
  contains a registered one is registered wrongly; an annotation cut inside a character panics; a line
  that a matcher reports as a notice is logged as an error; and runner-controlled markers are
  written as they are while commands are suspended.
\<close>

section \<open>State\<close>

datatype step_panic = TruncateInsideCharacter | MatcherIndexOutOfRange

record log_env =
  le_ext :: base64_ext
  le_regex :: regex_ext
  le_fs :: fs_view
  le_failsafe :: nat
  le_order :: "string list"
  le_now :: "nat \<Rightarrow> string"
  le_write_ok :: bool
  le_rewrite :: "string option"
  le_read_matcher :: "string \<Rightarrow> string + matcher_definition list"
  le_workspace :: string
  le_repository :: string
  le_server_url :: string

record step_context =
  sc_masks :: "string list"
  sc_live_masks :: "string list"
  sc_patterns :: "(string \<Rightarrow> (nat \<times> nat) list) list"
  sc_dap :: bool
  sc_extra_path :: "string list"
  sc_state :: "string \<rightharpoonup> (string \<rightharpoonup> string)"
  sc_matchers :: matchers
  sc_step_id :: string
  sc_env :: "string \<rightharpoonup> string"
  sc_annotations :: "annotation list"
  sc_debug :: bool
  sc_echo :: bool
  sc_log_lines :: "string list"
  sc_keep_in_memory :: bool
  sc_line_count :: nat
  sc_log_error :: "string option"
  sc_prefix_override :: "bool option"
  sc_stop_token :: "string option"
  sc_translate :: bool
  sc_telemetry :: "string list"
  sc_log_file :: string
  sc_line_buffer :: string
  sc_truncated :: bool
  sc_disable_prefix :: bool
  sc_continuation :: bool
  sc_live :: "console_line list option"
  sc_live_counter :: nat

type_synonym step_result = "step_panic + step_context"

section \<open>Masks of the job\<close>

definition DAP_PROTOCOL_KEYWORDS :: "string list" where
  "DAP_PROTOCOL_KEYWORDS = [''response'', ''initialize'', ''event'']"

definition job_exclude :: "step_context \<Rightarrow> string list" where
  "job_exclude ctx = (if sc_dap ctx then DAP_PROTOCOL_KEYWORDS else [])"

definition job_mask_secrets :: "log_env \<Rightarrow> step_context \<Rightarrow> string \<Rightarrow> string" where
  "job_mask_secrets env ctx input =
     mask_secrets_transform_aware_with_patterns (le_ext env) input (sc_masks ctx) (sc_patterns ctx) (job_exclude ctx)"

definition mask_secrets_preserving_lines_with :: "log_env \<Rightarrow> step_context \<Rightarrow> string \<Rightarrow> string list \<Rightarrow> string" where
  "mask_secrets_preserving_lines_with env ctx input secrets =
     mask_secrets_preserving_lines_transform_aware_with_patterns (le_ext env) input secrets (sc_patterns ctx) (job_exclude ctx)"

definition mask_pieces :: "string \<Rightarrow> string list" where
  "mask_pieces value =
     filter (\<lambda>line. line \<noteq> []) (map trim (concat (map (split_char CHR 0x0D) (split_char CHR 0x0A value))))"

definition add_mask :: "step_context \<Rightarrow> string \<Rightarrow> step_context \<times> string list" where
  "add_mask ctx value =
     (if trim value = [] then (ctx, [])
      else let added = value # mask_pieces value
           in (ctx\<lparr>sc_masks := fold push_new added (sc_masks ctx),
                   sc_live_masks := fold push_new added (sc_live_masks ctx)\<rparr>, added))"

section \<open>Lines\<close>

definition MAX_LINE_BUFFER_BYTES :: nat where "MAX_LINE_BUFFER_BYTES = 1024 * 1024"
definition MAX_LOG_LINE_BYTES :: nat where "MAX_LOG_LINE_BYTES = 1024 * 1024"

fun floor_boundary :: "string \<Rightarrow> nat \<Rightarrow> nat" where
  "floor_boundary line n = (if is_char_boundary line n \<or> n = 0 then n else floor_boundary line (n - 1))"

declare floor_boundary.simps [simp del]

definition truncate_log_line :: "string \<Rightarrow> string" where
  "truncate_log_line line =
     (if length line \<le> MAX_LOG_LINE_BYTES then line
      else take (floor_boundary line MAX_LOG_LINE_BYTES) line @
        [CHR 0xE2, CHR 0x80, CHR 0xA6] @ ''[line truncated at '' @ nat_to_string MAX_LOG_LINE_BYTES @ '' bytes]'')"

definition written_log_line_count :: "string \<Rightarrow> nat" where
  "written_log_line_count line = length (filter (\<lambda>c. c = CHR 0x0A) line) + 1"

definition write_record :: "log_env \<Rightarrow> string \<Rightarrow> step_context \<Rightarrow> step_context" where
  "write_record env fmt ctx =
     (let ctx = (if le_write_ok env
                 then ctx\<lparr>sc_log_file := sc_log_file ctx @ fmt @ [CHR 0x0A],
                          sc_line_count := sc_line_count ctx + written_log_line_count fmt\<rparr>
                 else ctx)
      in if sc_keep_in_memory ctx then ctx\<lparr>sc_log_lines := sc_log_lines ctx @ [fmt]\<rparr> else ctx)"

definition prefixed :: "log_env \<Rightarrow> step_context \<Rightarrow> string \<Rightarrow> string" where
  "prefixed env ctx masked =
     (if sc_prefix_override ctx = Some False then masked
      else le_now env (sc_line_count ctx) @ '' '' @ masked)"

definition annotate :: "annotation \<Rightarrow> step_context \<Rightarrow> step_result" where
  "annotate ann ctx =
     (if length (sc_annotations ctx) < 10
      then if 4096 < length (ann_message ann)
           then if is_char_boundary (ann_message ann) 4096
                then Inr (ctx\<lparr>sc_annotations := sc_annotations ctx @ [ann\<lparr>ann_message := take 4096 (ann_message ann)\<rparr>]\<rparr>)
                else Inl TruncateInsideCharacter
           else Inr (ctx\<lparr>sc_annotations := sc_annotations ctx @ [ann]\<rparr>)
      else Inr ctx)"

fun annotate_all :: "annotation list \<Rightarrow> step_context \<Rightarrow> step_result" where
  "annotate_all [] ctx = Inr ctx"
| "annotate_all (ann # anns) ctx = and_then (annotate ann ctx) (annotate_all anns)"

fun level_prefix :: "string \<Rightarrow> annotation list \<Rightarrow> string" where
  "level_prefix pre [] = pre"
| "level_prefix pre (ann # anns) =
     (case ann_level ann of
        AnnError \<Rightarrow> ''##[error]''
      | AnnWarning \<Rightarrow> level_prefix ''##[warning]'' anns
      | AnnNotice \<Rightarrow>
          level_prefix (if pre \<noteq> ''##[error]'' \<and> pre \<noteq> ''##[warning]'' then ''##[notice]'' else pre) anns)"

definition strip_markers :: "string \<Rightarrow> string" where
  "strip_markers line =
     (if str_contains line ''##[start-action'' \<or> str_contains line ''##[end-action''
      then str_replace ''##[end-action'' (''##['' @ [CHR 0x5C] @ ''end-action'')
             (str_replace ''##[start-action'' (''##['' @ [CHR 0x5C] @ ''start-action'') line)
      else line)"

definition log_raw :: "log_env \<Rightarrow> string \<Rightarrow> step_context \<Rightarrow> step_result" where
  "log_raw env input ctx =
     (let line = strip_markers input;
          ctx = (if str_contains line ''fatal: unsafe repository'' then ctx\<lparr>sc_telemetry := sc_telemetry ctx @ [line]\<rparr> else ctx);
          masked = job_mask_secrets env ctx line
      in case match_line (le_regex env) (le_fs env) (le_failsafe env) (le_order env) (sc_matchers ctx)
             masked (le_workspace env) (le_repository env) (le_server_url env) (sc_translate ctx) of
           None \<Rightarrow> Inl MatcherIndexOutOfRange
         | Some (reg, matched) \<Rightarrow>
             let ctx = ctx\<lparr>sc_matchers := reg\<rparr>
             in if matched \<noteq> []
                then and_then (annotate_all matched ctx) (\<lambda>ctx.
                       Inr (write_record env (le_now env (sc_line_count ctx) @ '' '' @ level_prefix ''##[error]'' matched @ masked) ctx))
                else Inr (write_record env (prefixed env ctx masked) ctx))"

fun log_raw_all :: "log_env \<Rightarrow> string list \<Rightarrow> step_context \<Rightarrow> step_result" where
  "log_raw_all env [] ctx = Inr ctx"
| "log_raw_all env (line # lines) ctx = and_then (log_raw env line ctx) (log_raw_all env lines)"

definition debug_message :: "log_env \<Rightarrow> string \<Rightarrow> step_context \<Rightarrow> step_result" where
  "debug_message env message ctx =
     (if sc_debug ctx then log_raw_all env (map (\<lambda>line. ''##[debug]'' @ line) (split_char CHR 0x0A message)) ctx else Inr ctx)"

section \<open>Masks after the fact\<close>

definition retroactive_mask :: "log_env \<Rightarrow> string list \<Rightarrow> step_context \<Rightarrow> string + step_context" where
  "retroactive_mask env secrets ctx =
     (if secrets = [] then Inr ctx
      else case le_rewrite env of
             Some e \<Rightarrow> Inl e
           | None \<Rightarrow>
               Inr (ctx\<lparr>sc_log_file := mask_secrets_preserving_lines_with env ctx (from_utf8_lossy (sc_log_file ctx)) secrets,
                        sc_log_lines := map (\<lambda>line. mask_secrets_preserving_lines_with env ctx line secrets) (sc_log_lines ctx),
                        sc_live := map_option (remask_with (le_ext env) (sc_patterns ctx) secrets) (sc_live ctx)\<rparr>))"

section \<open>Commands\<close>

definition build_annotation :: "annotation_level \<Rightarrow> workflow_command \<Rightarrow> string \<Rightarrow> annotation" where
  "build_annotation level cmd masked_message =
     (let props = cmd_properties cmd
      in \<lparr>ann_level = level, ann_message = masked_message, ann_title = props ''title'', ann_file = props ''file'',
          ann_line = Option.bind (props ''line'') (parse_unsigned 32),
          ann_end_line = Option.bind (props ''endline'') (parse_unsigned 32),
          ann_col = Option.bind (props ''col'') (parse_unsigned 32),
          ann_end_column = Option.bind (props ''endcolumn'') (parse_unsigned 32)\<rparr>)"

definition issue_command :: "log_env \<Rightarrow> annotation_level \<Rightarrow> string \<Rightarrow> workflow_command \<Rightarrow> step_context \<Rightarrow> step_result" where
  "issue_command env level pre cmd ctx =
     (let masked_data = job_mask_secrets env ctx (cmd_data cmd)
      in and_then (annotate (build_annotation level cmd masked_data) ctx) (log_raw env (pre @ masked_data)))"

definition handle_add_mask :: "log_env \<Rightarrow> string \<Rightarrow> step_context \<Rightarrow> step_context" where
  "handle_add_mask env value ctx =
     (let (ctx, new_masks) = add_mask ctx value
      in case retroactive_mask env new_masks ctx of
           Inr ctx \<Rightarrow> ctx
         | Inl e \<Rightarrow> (if sc_log_error ctx = None then ctx\<lparr>sc_log_error := Some e\<rparr> else ctx))"

text \<open>The commands that do not log a line of their own that is itself a command.\<close>

definition handle_basic :: "log_env \<Rightarrow> workflow_command \<Rightarrow> step_context \<Rightarrow> step_result" where
  "handle_basic env cmd ctx =
     (let name = cmd_name cmd
      in if name = ''add-mask'' then Inr (handle_add_mask env (cmd_data cmd) ctx)
         else if name = ''add-path'' then Inr (ctx\<lparr>sc_extra_path := cmd_data cmd # sc_extra_path ctx\<rparr>)
         else if name = ''debug'' then debug_message env (cmd_data cmd) ctx
         else if name = ''error'' then issue_command env AnnError ''##[error]'' cmd ctx
         else if name = ''warning'' then issue_command env AnnWarning ''##[warning]'' cmd ctx
         else if name = ''notice'' then issue_command env AnnNotice ''##[notice]'' cmd ctx
         else if name = ''group'' then log_raw env (''##[group]'' @ cmd_data cmd) ctx
         else if name = ''endgroup'' then log_raw env ''##[endgroup]'' ctx
         else if name = ''echo''
         then Inr (if cmd_data cmd = ''on'' then ctx\<lparr>sc_echo := True\<rparr>
                   else if cmd_data cmd = ''off'' then ctx\<lparr>sc_echo := False\<rparr> else ctx)
         else if name = ''add-matcher''
         then Inr (ctx\<lparr>sc_matchers := fst (add_from_file (le_regex env) (sc_matchers ctx) (le_read_matcher env (cmd_data cmd)))\<rparr>)
         else if name = ''remove-matcher''
         then Inr (ctx\<lparr>sc_matchers := remove_matcher (sc_matchers ctx) (unwrap_or (cmd_properties cmd ''owner'') (cmd_data cmd))\<rparr>)
         else Inr ctx)"

definition consumed_command :: "string \<Rightarrow> bool" where
  "consumed_command name \<longleftrightarrow> name \<in> set [''add-matcher'', ''remove-matcher'', ''add-mask'', ''save-state'', ''set-output'']"

definition logged_command :: "string \<Rightarrow> bool" where
  "logged_command name \<longleftrightarrow> name \<in> set [''group'', ''endgroup'', ''debug'', ''error'', ''warning'', ''notice'']"

definition log_suspended :: "log_env \<Rightarrow> string \<Rightarrow> string \<Rightarrow> step_context \<Rightarrow> step_context" where
  "log_suspended env tok line ctx =
     (if trim line = ''::'' @ tok @ ''::'' then ctx\<lparr>sc_stop_token := None\<rparr>
      else write_record env (prefixed env ctx (job_mask_secrets env ctx line)) ctx)"

definition log_with ::
  "(workflow_command \<Rightarrow> step_context \<Rightarrow> step_result) \<Rightarrow> log_env \<Rightarrow> string \<Rightarrow> step_context \<Rightarrow> step_result" where
  "log_with handle env line ctx =
     (case sc_stop_token ctx of
        Some tok \<Rightarrow> Inr (log_suspended env tok line ctx)
      | None \<Rightarrow>
          (case parse_command line of
             None \<Rightarrow> log_raw env line ctx
           | Some cmd \<Rightarrow>
               if cmd_name cmd = ''stop-commands'' \<and> cmd_data cmd \<noteq> [] then Inr (ctx\<lparr>sc_stop_token := Some (cmd_data cmd)\<rparr>)
               else and_then (handle cmd ctx) (\<lambda>ctx.
                    if consumed_command (cmd_name cmd) then if sc_echo ctx then log_raw env line ctx else Inr ctx
                    else if logged_command (cmd_name cmd) then Inr ctx
                    else log_raw env line ctx)))"

definition set_output_notice :: string where
  "set_output_notice = ''##[warning]The `set-output` command is deprecated and will be disabled soon. Please upgrade to using Environment Files. For more information see: https://github.blog/changelog/2022-10-11-github-actions-deprecating-save-state-and-set-output-commands/''"

definition save_state_notice :: string where
  "save_state_notice = ''##[warning]The `save-state` command is deprecated and will be disabled soon. Please upgrade to using Environment Files.''"

text \<open>The two deprecated commands log a notice that is read as a \<^verbatim>\<open>warning\<close> command in turn.\<close>

definition handle_command :: "log_env \<Rightarrow> workflow_command \<Rightarrow> step_context \<Rightarrow> step_result" where
  "handle_command env cmd ctx =
     (if cmd_name cmd = ''set-output''
      then and_then (log_with (handle_basic env) env set_output_notice ctx) (\<lambda>ctx.
             case cmd_properties cmd ''name'' of
               None \<Rightarrow> Inr ctx
             | Some name \<Rightarrow> Inr (ctx\<lparr>sc_env := (sc_env ctx)(''OUTPUT_'' @ name \<mapsto> cmd_data cmd)\<rparr>))
      else if cmd_name cmd = ''save-state''
      then and_then (log_with (handle_basic env) env save_state_notice ctx) (\<lambda>ctx.
             case cmd_properties cmd ''name'' of
               None \<Rightarrow> Inr ctx
             | Some name \<Rightarrow>
                 Inr (ctx\<lparr>sc_state := (sc_state ctx)(sc_step_id ctx \<mapsto>
                   (unwrap_or (sc_state ctx (sc_step_id ctx)) Map.empty)(name \<mapsto> cmd_data cmd))\<rparr>))
      else handle_basic env cmd ctx)"

definition log_line :: "log_env \<Rightarrow> string \<Rightarrow> step_context \<Rightarrow> step_result" where
  "log_line env = log_with (handle_command env) env"

section \<open>Output in chunks\<close>

function drain_lines :: "string \<Rightarrow> string list \<times> string" where
  "drain_lines buf =
     (case position (\<lambda>b. b = CHR 0x0A) buf of
        None \<Rightarrow> ([], buf)
      | Some newline_pos \<Rightarrow>
          (case drain_lines (drop (newline_pos + 1) buf) of
             (lines, rest) \<Rightarrow> (take newline_pos buf # lines, rest)))"
  by pat_completeness auto

termination
proof (relation "measure length", goal_cases)
  case (2 buf newline_pos)
  then have "buf \<noteq> []" by auto
  then show ?case by simp
qed simp

declare drain_lines.simps [simp del]

definition truncation_warning :: string where
  "truncation_warning = ''##[warning]Step output exceeded the 1 MiB partial-line buffer; output was truncated''"

definition enqueue_live :: "log_env \<Rightarrow> string \<Rightarrow> step_context \<Rightarrow> step_context" where
  "enqueue_live env line ctx =
     (case sc_live ctx of
        None \<Rightarrow> ctx
      | Some lines \<Rightarrow>
          ctx\<lparr>sc_live := Some (enqueue lines (sc_step_id ctx) (job_mask_secrets env ctx line) (sc_live_counter ctx)),
              sc_live_counter := sc_live_counter ctx + 1\<rparr>)"

definition log_output :: "log_env \<Rightarrow> bool \<Rightarrow> string \<Rightarrow> step_context \<Rightarrow> step_result" where
  "log_output env pre line ctx =
     and_then (log_line env line (ctx\<lparr>sc_prefix_override := Some pre\<rparr>)) (\<lambda>ctx.
       Inr (enqueue_live env line (ctx\<lparr>sc_prefix_override := None\<rparr>)))"

fun log_outputs :: "log_env \<Rightarrow> bool \<Rightarrow> string list \<Rightarrow> step_context \<Rightarrow> step_result" where
  "log_outputs env first [] ctx = Inr ctx"
| "log_outputs env first (line # lines) ctx =
     and_then (log_output env (first \<or> \<not> sc_disable_prefix ctx) line ctx) (log_outputs env False lines)"

definition surface_truncation :: "log_env \<Rightarrow> step_context \<Rightarrow> step_result" where
  "surface_truncation env ctx =
     (if sc_truncated ctx then log_line env truncation_warning (ctx\<lparr>sc_truncated := False\<rparr>) else Inr ctx)"

definition write_chunk :: "log_env \<Rightarrow> string \<Rightarrow> step_context \<Rightarrow> step_result" where
  "write_chunk env chunk ctx =
     (let (lines, buf) = drain_lines (sc_line_buffer ctx @ chunk);
          complete_lines = map (\<lambda>line. truncate_log_line (job_mask_secrets env ctx (from_utf8_lossy line))) lines;
          truncated = (MAX_LINE_BUFFER_BYTES < length buf);
          buf = (if truncated then drop (length buf - MAX_LINE_BUFFER_BYTES) buf else buf);
          ctx = ctx\<lparr>sc_line_buffer := buf, sc_truncated := sc_truncated ctx \<or> truncated,
                    sc_continuation := (if complete_lines \<noteq> [] then sc_disable_prefix ctx \<and> buf \<noteq> []
                                        else if buf = [] then False else sc_continuation ctx)\<rparr>
      in and_then (surface_truncation env ctx) (log_outputs env True complete_lines))"

definition flush_line_buffer :: "log_env \<Rightarrow> step_context \<Rightarrow> step_result" where
  "flush_line_buffer env ctx =
     (if sc_line_buffer ctx = [] then surface_truncation env ctx
      else let line = truncate_log_line (job_mask_secrets env ctx (from_utf8_lossy (sc_line_buffer ctx)));
               is_continuation = sc_continuation ctx;
               ctx = ctx\<lparr>sc_line_buffer := [], sc_continuation := False\<rparr>
           in and_then (surface_truncation env ctx) (\<lambda>ctx.
                log_output env (\<not> sc_disable_prefix ctx \<or> \<not> is_continuation) line ctx))"

section \<open>Reading the log\<close>

definition mask_assembled_log :: "log_env \<Rightarrow> step_context \<Rightarrow> string \<Rightarrow> string" where
  "mask_assembled_log env ctx content =
     (if sc_patterns ctx = [] \<or> content = [] then content else mask_secrets_preserving_lines_with env ctx content [])"

definition log_content :: "log_env \<Rightarrow> step_context \<Rightarrow> string" where
  "log_content env ctx = mask_assembled_log env ctx (sc_log_file ctx)"

text \<open>\<^verbatim>\<open>split_inclusive\<close>: each piece keeps the newline that ends it.\<close>

fun split_inclusive :: "string \<Rightarrow> string list" where
  "split_inclusive [] = []"
| "split_inclusive (c # cs) =
     (if c = CHR 0x0A then [c] # split_inclusive cs
      else case split_inclusive cs of p # ps \<Rightarrow> (c # p) # ps | [] \<Rightarrow> [[c]])"

definition log_content_since :: "log_env \<Rightarrow> nat \<Rightarrow> step_context \<Rightarrow> string" where
  "log_content_since env start_line ctx = concat (drop start_line (split_inclusive (log_content env ctx)))"

section \<open>Invariants of the log\<close>

text \<open>What every operation on lines keeps, given that the four things it does keep it: write a record, add an
  annotation, mask after the fact, and change fields that are no part of the log.\<close>

definition same_log :: "step_context \<Rightarrow> step_context \<Rightarrow> bool" where
  "same_log a b \<longleftrightarrow> sc_log_file b = sc_log_file a \<and> sc_line_count b = sc_line_count a \<and>
     sc_annotations b = sc_annotations a \<and> sc_line_buffer b = sc_line_buffer a \<and>
     sc_state b = sc_state a \<and> sc_step_id b = sc_step_id a"

locale line_invariant =
  fixes P :: "step_context \<Rightarrow> bool"
  assumes P_write: "P ctx \<Longrightarrow> P (write_record env fmt ctx)"
    and P_annotate: "P ctx \<Longrightarrow> annotate ann ctx = Inr ctx' \<Longrightarrow> P ctx'"
    and P_retroactive: "P ctx \<Longrightarrow> retroactive_mask env secrets ctx = Inr ctx' \<Longrightarrow> P ctx'"
    and P_fields: "P ctx \<Longrightarrow> same_log ctx ctx' \<Longrightarrow> P ctx'"
begin

lemma annotate_all_keeps: "P ctx \<Longrightarrow> annotate_all anns ctx = Inr ctx' \<Longrightarrow> P ctx'"
  by (induction anns arbitrary: ctx) (auto simp: and_then_Inr_iff dest: P_annotate)

lemma log_raw_keeps:
  assumes "P ctx" and "log_raw env line ctx = Inr ctx'"
  shows "P ctx'"
proof -
  let ?line = "strip_markers line"
  let ?c1 = "if str_contains ?line ''fatal: unsafe repository'' then ctx\<lparr>sc_telemetry := sc_telemetry ctx @ [?line]\<rparr> else ctx"
  obtain reg matched where m: "match_line (le_regex env) (le_fs env) (le_failsafe env) (le_order env) (sc_matchers ?c1)
      (job_mask_secrets env ?c1 ?line) (le_workspace env) (le_repository env) (le_server_url env) (sc_translate ?c1) = Some (reg, matched)"
    using assms(2) unfolding log_raw_def Let_def by (cases rule: option.exhaust) (auto split: option.splits)
  have P: "P (?c1\<lparr>sc_matchers := reg\<rparr>)" by (rule P_fields [OF assms(1)]) (simp add: same_log_def)
  show ?thesis
  proof (cases "matched = []")
    case True
    then show ?thesis using assms(2) P_write [OF P]
      unfolding log_raw_def Let_def m option.case prod.case by auto
  next
    case False
    then obtain c2 where c2: "annotate_all matched (?c1\<lparr>sc_matchers := reg\<rparr>) = Inr c2"
      "ctx' = write_record env (le_now env (sc_line_count c2) @ '' '' @ level_prefix ''##[error]'' matched @ job_mask_secrets env ?c1 ?line) c2"
      using assms(2) unfolding log_raw_def Let_def m option.case prod.case by (auto simp: and_then_Inr_iff)
    then show ?thesis using annotate_all_keeps [OF P c2(1)] P_write by blast
  qed
qed

lemma log_raw_all_keeps: "P ctx \<Longrightarrow> log_raw_all env lines ctx = Inr ctx' \<Longrightarrow> P ctx'"
  by (induction lines arbitrary: ctx) (auto simp: and_then_Inr_iff dest: log_raw_keeps)

lemma issue_keeps: "P ctx \<Longrightarrow> issue_command env level pre cmd ctx = Inr ctx' \<Longrightarrow> P ctx'"
  unfolding issue_command_def Let_def and_then_Inr_iff using P_annotate log_raw_keeps by blast

lemma add_mask_keeps: "P ctx \<Longrightarrow> P (handle_add_mask env value ctx)"
proof -
  assume P: "P ctx"
  obtain c ms where c: "add_mask ctx value = (c, ms)" by fastforce
  then have "same_log ctx c" by (auto simp: add_mask_def same_log_def Let_def split: if_splits)
  then have "P c" using P P_fields by blast
  moreover from this have "P (c\<lparr>sc_log_error := Some e\<rparr>)" for e by (rule P_fields) (simp add: same_log_def)
  ultimately show ?thesis using P_retroactive by (auto simp: handle_add_mask_def c split: sum.split)
qed

lemma handle_basic_keeps:
  assumes "P ctx" and "handle_basic env cmd ctx = Inr ctx'"
  shows "P ctx'"
proof -
  have field: "P c" if "same_log ctx c" for c using P_fields [OF assms(1) that] .
  show ?thesis using assms(2)
    by (auto simp: handle_basic_def Let_def debug_message_def same_log_def split: if_splits
        intro: add_mask_keeps [OF assms(1)] log_raw_keeps [OF assms(1)] log_raw_all_keeps [OF assms(1)]
          issue_keeps [OF assms(1)] field assms(1))
qed

lemma log_with_keeps:
  assumes handle: "\<And>cmd ctx ctx'. P ctx \<Longrightarrow> handle cmd ctx = Inr ctx' \<Longrightarrow> P ctx'"
    and "P ctx" and "log_with handle env line ctx = Inr ctx'"
  shows "P ctx'"
proof (cases "sc_stop_token ctx")
  case (Some tok)
  have "P (ctx\<lparr>sc_stop_token := None\<rparr>)" by (rule P_fields [OF assms(2)]) (simp add: same_log_def)
  then show ?thesis using assms(3) P_write [OF assms(2)] by (auto simp: log_with_def Some log_suspended_def split: if_splits)
next
  case None
  show ?thesis
  proof (cases "parse_command line")
    case none: None
    then show ?thesis using assms(2,3) log_raw_keeps None by (auto simp: log_with_def)
  next
    case (Some cmd)
    have stop: "P (ctx\<lparr>sc_stop_token := Some (cmd_data cmd)\<rparr>)" by (rule P_fields [OF assms(2)]) (simp add: same_log_def)
    consider "ctx' = ctx\<lparr>sc_stop_token := Some (cmd_data cmd)\<rparr>"
      | c where "handle cmd ctx = Inr c" "ctx' = c \<or> log_raw env line c = Inr ctx'"
      using assms(3) by (auto simp: log_with_def None Some and_then_Inr_iff split: if_splits)
    then show ?thesis using stop handle [OF assms(2)] log_raw_keeps by cases blast+
  qed
qed

end

text \<open>One that does not depend on the state saved for later steps is kept by all commands.\<close>

locale step_invariant = line_invariant +
  assumes P_saved: "P ctx \<Longrightarrow> P (ctx\<lparr>sc_state := st\<rparr>)"
begin

lemma handle_command_keeps:
  assumes "P ctx" and "handle_command env cmd ctx = Inr ctx'"
  shows "P ctx'"
proof -
  have notice: "P c" if "log_with (handle_basic env) env line ctx = Inr c" for line c
    by (rule log_with_keeps [OF _ assms(1) that]) (rule handle_basic_keeps)
  have env: "P c \<Longrightarrow> P (c\<lparr>sc_env := e\<rparr>)" for c e by (rule P_fields, assumption, simp add: same_log_def)
  show ?thesis using assms(2) handle_basic_keeps [OF assms(1)] notice env P_saved
    by (auto simp: handle_command_def and_then_Inr_iff split: if_splits option.splits)
qed

lemma log_line_keeps:
  assumes "P ctx" and "log_line env line ctx = Inr ctx'"
  shows "P ctx'"
  by (rule log_with_keeps [OF _ assms(1) assms(2) [unfolded log_line_def]]) (rule handle_command_keeps)

lemma surface_keeps: "P ctx \<Longrightarrow> surface_truncation env ctx = Inr ctx' \<Longrightarrow> P ctx'"
proof -
  assume a: "P ctx" "surface_truncation env ctx = Inr ctx'"
  have "P (ctx\<lparr>sc_truncated := False\<rparr>)" by (rule P_fields [OF a(1)]) (simp add: same_log_def)
  then show ?thesis using a log_line_keeps by (auto simp: surface_truncation_def split: if_splits)
qed

lemma log_output_keeps:
  assumes "P ctx" and "log_output env pre line ctx = Inr ctx'"
  shows "P ctx'"
proof -
  have "P (ctx\<lparr>sc_prefix_override := Some pre\<rparr>)" by (rule P_fields [OF assms(1)]) (simp add: same_log_def)
  note P = this
  obtain c where l: "log_line env line (ctx\<lparr>sc_prefix_override := Some pre\<rparr>) = Inr c"
    and e: "ctx' = enqueue_live env line (c\<lparr>sc_prefix_override := None\<rparr>)"
    using assms(2) unfolding log_output_def and_then_Inr_iff by blast
  have c: "P c" by (rule log_line_keeps [OF P l])
  show ?thesis by (rule P_fields [OF c]) (auto simp: e enqueue_live_def same_log_def split: option.split)
qed

lemma log_outputs_keeps: "P ctx \<Longrightarrow> log_outputs env first lines ctx = Inr ctx' \<Longrightarrow> P ctx'"
  by (induction lines arbitrary: ctx first) (auto simp: and_then_Inr_iff dest: log_output_keeps)

end

text \<open>An invariant that does not depend on the line buffer is kept by chunks of output too.\<close>

locale chunk_invariant = step_invariant +
  assumes P_buffer: "P ctx \<Longrightarrow> same_log (ctx\<lparr>sc_line_buffer := b\<rparr>) ctx' \<Longrightarrow> P ctx'"
begin

lemma write_chunk_keeps:
  assumes "P ctx" and "write_chunk env chunk ctx = Inr ctx'"
  shows "P ctx'"
proof -
  obtain lines buf where d: "drain_lines (sc_line_buffer ctx @ chunk) = (lines, buf)" by fastforce
  let ?lines = "map (\<lambda>line. truncate_log_line (job_mask_secrets env ctx (from_utf8_lossy line))) lines"
  let ?buf = "if MAX_LINE_BUFFER_BYTES < length buf then drop (length buf - MAX_LINE_BUFFER_BYTES) buf else buf"
  let ?c = "ctx\<lparr>sc_line_buffer := ?buf, sc_truncated := sc_truncated ctx \<or> MAX_LINE_BUFFER_BYTES < length buf,
      sc_continuation := (if ?lines \<noteq> [] then sc_disable_prefix ctx \<and> ?buf \<noteq> [] else if ?buf = [] then False else sc_continuation ctx)\<rparr>"
  have P: "P ?c" by (rule P_buffer [OF assms(1), of ?buf]) (simp add: same_log_def)
  obtain c where "surface_truncation env ?c = Inr c" "log_outputs env True ?lines c = Inr ctx'"
    using assms(2) unfolding write_chunk_def Let_def d prod.case and_then_Inr_iff by blast
  then show ?thesis using surface_keeps [OF P] log_outputs_keeps by blast
qed

lemma flush_keeps:
  assumes "P ctx" and "flush_line_buffer env ctx = Inr ctx'"
  shows "P ctx'"
proof (cases "sc_line_buffer ctx = []")
  case True
  then show ?thesis using assms surface_keeps by (simp add: flush_line_buffer_def)
next
  case False
  have P: "P (ctx\<lparr>sc_line_buffer := [], sc_continuation := False\<rparr>)"
    by (rule P_buffer [OF assms(1), of "[]"]) (simp add: same_log_def)
  obtain c where "surface_truncation env (ctx\<lparr>sc_line_buffer := [], sc_continuation := False\<rparr>) = Inr c"
    "\<exists>pre line. log_output env pre line c = Inr ctx'"
    using assms(2) unfolding flush_line_buffer_def Let_def if_not_P [OF False] and_then_Inr_iff by blast
  then show ?thesis using surface_keeps [OF P] log_output_keeps by blast
qed

end

end
