(* ===== verification/Log_Facts.thy ===== *)
theory Log_Facts
  imports Step_Log
begin

text \<open>
  What holds of the log of a step after any sequence of its operations (\<open>Step_Log\<close>): the invariants are
  instances of the two locales there, the functional facts are about one operation each. What is shown to
  be hidden are values without an asterisk.
\<close>

section \<open>The count of lines\<close>

definition newlines :: "string \<Rightarrow> nat" where
  "newlines s = length (filter (\<lambda>c. c = CHR 0x0A) s)"

definition counted :: "step_context \<Rightarrow> bool" where
  "counted ctx \<longleftrightarrow> sc_line_count ctx = newlines (sc_log_file ctx)"

lemma newlines_append [simp]: "newlines (s @ t) = newlines s + newlines t"
  by (simp add: newlines_def)

lemma newlines_Cons: "newlines (c # s) = newlines [c] + newlines s"
  by (simp add: newlines_def)

lemma continuation_no_newline: "list_all is_continuation s \<Longrightarrow> newlines s = 0"
  by (induction s) (auto simp: newlines_def is_continuation_def)

lemma lossy_newlines: "newlines (from_utf8_lossy s) = newlines s"
proof (induction s rule: from_utf8_lossy.induct)
  case (2 c cs)
  have tail: "newlines (take (char_tail c cs) cs) = 0" using char_tail_bytes(2) by (rule continuation_no_newline)
  have "newlines cs = newlines (take (char_tail c cs) cs @ drop (char_tail c cs) cs)" by simp
  then have "newlines (c # cs) = newlines [c] + newlines (drop (char_tail c cs) cs)"
    using tail by (simp only: newlines_append) (simp add: newlines_def)
  moreover have "newlines replacement_char = newlines [c]" if "utf8_len c \<noteq> char_tail c cs + 1"
  proof -
    have "utf8_len CHR 0x0A = 1" by code_simp
    then have "c \<noteq> CHR 0x0A" using that by (auto simp: char_tail_def split: list.splits)
    then show ?thesis by (simp add: newlines_def replacement_char_def)
  qed
  moreover have "newlines (c # take (char_tail c cs) cs) = newlines [c]"
    using tail by (subst newlines_Cons) simp
  ultimately show ?case using 2 by (auto simp del: append_Cons)
qed (simp add: newlines_def)

lemma mask_newlines: "newlines (mask_secrets_preserving_lines_with env ctx input secrets) = newlines input"
  unfolding newlines_def mask_secrets_preserving_lines_with_def mask_secrets_preserving_lines_transform_aware_with_patterns_def
  by (subst (1 2) filter_newline) (simp add: mask_inner_lines)

lemma write_counted: "counted ctx \<Longrightarrow> counted (write_record env fmt ctx)"
  by (simp add: counted_def write_record_def Let_def written_log_line_count_def newlines_def)

lemma retroactive_counted: "counted ctx \<Longrightarrow> retroactive_mask env secrets ctx = Inr ctx' \<Longrightarrow> counted ctx'"
  by (auto simp: counted_def retroactive_mask_def mask_newlines lossy_newlines split: if_splits option.splits)

lemma annotate_same:
  assumes "annotate ann ctx = Inr ctx'"
  shows "\<exists>anns. ctx' = ctx\<lparr>sc_annotations := anns\<rparr>"
  using assms by (auto simp: annotate_def split: if_splits intro: exI [of _ "sc_annotations ctx"])

interpretation line_count: chunk_invariant counted
proof
  show "counted ctx'" if "counted ctx" "annotate ann ctx = Inr ctx'" for ctx ann ctx'
    using that annotate_same [OF that(2)] by (auto simp: counted_def)
  show "counted (write_record env fmt ctx)" if "counted ctx" for env fmt ctx using that by (rule write_counted)
  show "counted ctx'" if "counted ctx" "retroactive_mask env secrets ctx = Inr ctx'" for ctx env secrets ctx'
    using that by (rule retroactive_counted)
qed (simp_all add: counted_def same_log_def)

section \<open>Lines out of chunks\<close>

lemma drain_rest: "CHR 0x0A \<notin> set (snd (drain_lines buf))"
proof (induction buf rule: drain_lines.induct)
  case (1 buf)
  then show ?case by (subst drain_lines.simps) (auto simp: position_None split: option.split prod.split)
qed

lemma drain_split: "drain_lines buf = (butlast (split_char CHR 0x0A buf), last (split_char CHR 0x0A buf))"
proof (induction buf)
  case Nil
  then show ?case by (subst drain_lines.simps) simp
next
  case (Cons c cs)
  obtain p ps where s: "split_char CHR 0x0A cs = p # ps" using split_char_nonempty [of "CHR 0x0A" cs] by (cases "split_char CHR 0x0A cs") auto
  show ?case
  proof (cases "c = CHR 0x0A")
    case True
    then show ?thesis using Cons by (subst drain_lines.simps) (simp add: s)
  next
    case False
    show ?thesis
    proof (cases "position (\<lambda>b. b = CHR 0x0A) cs")
      case None
      then have "ps = []" "p = cs" using Cons drain_lines.simps [of cs] by (simp_all add: s split: if_splits)
      then show ?thesis using None False s drain_lines.simps [of "c # cs"] by simp
    next
      case (Some i)
      then show ?thesis using Cons False drain_lines.simps [of cs] drain_lines.simps [of "c # cs"]
        by (auto simp: s split: prod.splits if_splits)
    qed
  qed
qed

section \<open>Bounds\<close>

definition annotations_bounded :: "step_context \<Rightarrow> bool" where
  "annotations_bounded ctx \<longleftrightarrow>
     length (sc_annotations ctx) \<le> 10 \<and> list_all (\<lambda>ann. length (ann_message ann) \<le> 4096) (sc_annotations ctx)"

lemma annotate_bounded: "annotations_bounded ctx \<Longrightarrow> annotate ann ctx = Inr ctx' \<Longrightarrow> annotations_bounded ctx'"
  by (auto simp: annotations_bounded_def annotate_def split: if_splits)

lemma retroactive_fields:
  "retroactive_mask env secrets ctx = Inr ctx' \<Longrightarrow>
   sc_annotations ctx' = sc_annotations ctx \<and> sc_line_buffer ctx' = sc_line_buffer ctx"
  by (auto simp: retroactive_mask_def split: if_splits option.splits)

lemma write_fields [simp]:
  "sc_annotations (write_record env fmt ctx) = sc_annotations ctx"
  "sc_line_buffer (write_record env fmt ctx) = sc_line_buffer ctx"
  by (simp_all add: write_record_def Let_def)

interpretation annotations: chunk_invariant annotations_bounded
proof
  show "annotations_bounded ctx'" if "annotations_bounded ctx" "annotate ann ctx = Inr ctx'" for ctx ann ctx'
    using that by (rule annotate_bounded)
  show "annotations_bounded ctx'" if "annotations_bounded ctx" "retroactive_mask env secrets ctx = Inr ctx'" for ctx env secrets ctx'
    using that retroactive_fields [OF that(2)] by (simp add: annotations_bounded_def)
qed (auto simp: annotations_bounded_def same_log_def)

lemma annotate_buffer: "annotate ann ctx = Inr ctx' \<Longrightarrow> sc_line_buffer ctx' = sc_line_buffer ctx"
  by (auto simp: annotate_def split: if_splits)

interpretation buffer: step_invariant "\<lambda>ctx. sc_line_buffer ctx = b"
proof
  show "sc_line_buffer ctx' = b" if "sc_line_buffer ctx = b" "annotate ann ctx = Inr ctx'" for ctx ann ctx'
    using that annotate_buffer by simp
  show "sc_line_buffer ctx' = b" if "sc_line_buffer ctx = b" "retroactive_mask env secrets ctx = Inr ctx'" for ctx env secrets ctx'
    using that retroactive_fields by simp
qed (auto simp: same_log_def)

lemma keep_tail:
  assumes "x \<notin> set buf"
  shows "length (if m < length buf then drop (length buf - m) buf else buf) \<le> m \<and>
    x \<notin> set (if m < length buf then drop (length buf - m) buf else buf)"
proof (cases "m < length buf")
  case True
  have "x \<notin> set (drop (length buf - m) buf)" using assms set_drop_subset by (rule contra_subsetD [rotated])
  then show ?thesis using True by simp
qed (use assms in simp)

section \<open>Sequences of operations\<close>

datatype step_op = Chunk string | Flush | LogLine string | Debug string | AddMask string

fun step_op_run :: "log_env \<Rightarrow> step_op \<Rightarrow> step_context \<Rightarrow> step_result" where
  "step_op_run env (Chunk chunk) ctx = write_chunk env chunk ctx"
| "step_op_run env Flush ctx = flush_line_buffer env ctx"
| "step_op_run env (LogLine line) ctx = log_line env line ctx"
| "step_op_run env (Debug message) ctx = debug_message env message ctx"
| "step_op_run env (AddMask value) ctx = Inr (handle_add_mask env value ctx)"

text \<open>Each operation has its own clock, outcome of the writes and state of the libraries.\<close>

fun step_ops_run :: "(log_env \<times> step_op) list \<Rightarrow> step_context \<Rightarrow> step_result" where
  "step_ops_run [] ctx = Inr ctx"
| "step_ops_run ((env, op1) # ops) ctx = and_then (step_op_run env op1 ctx) (step_ops_run ops)"

context chunk_invariant
begin

lemma step_op_keeps: "P ctx \<Longrightarrow> step_op_run env op1 ctx = Inr ctx' \<Longrightarrow> P ctx'"
  by (cases op1) (auto simp: debug_message_def split: if_splits
      intro: write_chunk_keeps flush_keeps log_line_keeps log_raw_all_keeps add_mask_keeps)

lemma step_ops_keep: "P ctx \<Longrightarrow> step_ops_run ops ctx = Inr ctx' \<Longrightarrow> P ctx'"
proof (induction ops arbitrary: ctx)
  case (Cons p ops)
  obtain env op1 where p: "p = (env, op1)" by fastforce
  obtain c where c: "step_op_run env op1 ctx = Inr c" "step_ops_run ops c = Inr ctx'"
    using Cons.prems(2) by (auto simp: p and_then_Inr_iff)
  show ?case by (rule Cons.IH [OF step_op_keeps [OF Cons.prems(1) c(1)] c(2)])
qed simp

end

text \<open>C19. Whatever a step prints, in whatever chunks, with whatever commands, masks registered on the way, failed
  writes and rewrites of the log: the count of log lines is the number of line ends in the log, so that a
  line number taken as a checkpoint stays one.\<close>

theorem log_line_count:
  assumes "sc_line_count ctx = newlines (sc_log_file ctx)" and "step_ops_run ops ctx = Inr ctx'"
  shows "sc_line_count ctx' = newlines (sc_log_file ctx')"
  using line_count.step_ops_keep [of ctx ops ctx'] assms unfolding counted_def by blast

definition sample_env :: log_env where
  "sample_env = \<lparr>le_ext = \<lparr>std_encode = rev, std_encode_nopad = rev, url_encode = rev, url_encode_nopad = rev,
       std_decode = (\<lambda>_. None), url_decode = (\<lambda>_. None)\<rparr>,
     le_regex = undefined, le_fs = undefined, le_failsafe = 50, le_order = [], le_now = (\<lambda>_. ''2024-01-01T00:00:00Z''),
     le_write_ok = True, le_rewrite = None, le_read_matcher = (\<lambda>_. Inl ''missing''),
     le_workspace = ''/w'', le_repository = ''o/r'', le_server_url = ''https://github.com''\<rparr>"

definition sample_step :: step_context where
  "sample_step = \<lparr>sc_masks = [], sc_live_masks = [], sc_patterns = [], sc_dap = False, sc_extra_path = [], sc_state = Map.empty,
     sc_matchers = Map.empty, sc_step_id = ''s1'', sc_env = Map.empty, sc_annotations = [], sc_debug = False, sc_echo = False,
     sc_log_lines = [], sc_keep_in_memory = True, sc_line_count = 0, sc_log_error = None, sc_prefix_override = None,
     sc_stop_token = Some ''tok'', sc_translate = False, sc_telemetry = [], sc_log_file = [], sc_line_buffer = [],
     sc_truncated = False, sc_disable_prefix = False, sc_continuation = False, sc_live = Some [], sc_live_counter = 1\<rparr>"

definition sample_ops :: "(log_env \<times> step_op) list" where
  "sample_ops = [(sample_env, LogLine ''set hunter2''), (sample_env, AddMask ''hunter2''), (sample_env, Chunk ''rest'')]"

lemma sample_ops_run: "\<exists>ctx'. step_ops_run sample_ops sample_step = Inr ctx'"
proof -
  have "\<exists>c. log_line sample_env ''set hunter2'' sample_step = Inr c \<and> sc_truncated c = False \<and> sc_line_buffer c = []"
    by (simp add: log_line_def log_with_def sample_step_def log_suspended_def write_record_def Let_def)
  then obtain c where c: "log_line sample_env ''set hunter2'' sample_step = Inr c" "sc_truncated c = False" "sc_line_buffer c = []"
    by blast
  let ?d = "handle_add_mask sample_env ''hunter2'' c"
  have d: "sc_truncated ?d = False" "sc_line_buffer ?d = []"
    using c by (auto simp: handle_add_mask_def add_mask_def retroactive_mask_def Let_def sample_env_def split: if_splits)
  have "drain_lines ''rest'' = ([], ''rest'')" by (subst drain_lines.simps) simp
  then have "\<exists>e. write_chunk sample_env ''rest'' ?d = Inr e"
    using d by (simp add: write_chunk_def surface_truncation_def MAX_LINE_BUFFER_BYTES_def and_then_def Let_def)
  then show ?thesis using c by (auto simp: sample_ops_def and_then_def)
qed

theorem log_line_count_witness:
  "\<exists>ctx'. step_ops_run sample_ops sample_step = Inr ctx' \<and> sc_line_count ctx' = newlines (sc_log_file ctx')"
proof -
  obtain ctx' where run: "step_ops_run sample_ops sample_step = Inr ctx'" using sample_ops_run by blast
  have "sc_line_count ctx' = newlines (sc_log_file ctx')"
    by (rule log_line_count [OF _ run]) (simp add: sample_step_def newlines_def)
  then show ?thesis using run by blast
qed

text \<open>A step keeps at most ten annotations, each with a message of at most 4096 bytes.\<close>

theorem log_annotations_bounded:
  assumes "length (sc_annotations ctx) \<le> 10" and "\<forall>ann \<in> set (sc_annotations ctx). length (ann_message ann) \<le> 4096"
    and "step_ops_run ops ctx = Inr ctx'"
  shows "length (sc_annotations ctx') \<le> 10 \<and> (\<forall>ann \<in> set (sc_annotations ctx'). length (ann_message ann) \<le> 4096)"
  using annotations.step_ops_keep [of ctx ops ctx'] assms unfolding annotations_bounded_def list_all_iff by blast

theorem log_annotations_bounded_witness:
  "\<exists>ctx'. step_ops_run sample_ops sample_step = Inr ctx' \<and> length (sc_annotations ctx') \<le> 10"
proof -
  obtain ctx' where run: "step_ops_run sample_ops sample_step = Inr ctx'" using sample_ops_run by blast
  have "length (sc_annotations sample_step) \<le> 10" "\<forall>ann \<in> set (sc_annotations sample_step). length (ann_message ann) \<le> 4096"
    by (simp_all add: sample_step_def)
  then show ?thesis using log_annotations_bounded [OF _ _ run] run by blast
qed

text \<open>However much a step prints without ending its line, no more than the cap is kept of it: after a chunk
  the buffer holds at most 1 MiB and no line end.\<close>

theorem line_buffer_bounded:
  assumes "write_chunk env chunk ctx = Inr ctx'"
  shows "length (sc_line_buffer ctx') \<le> MAX_LINE_BUFFER_BYTES \<and> CHR 0x0A \<notin> set (sc_line_buffer ctx')"
proof -
  obtain lines buf where d: "drain_lines (sc_line_buffer ctx @ chunk) = (lines, buf)" by fastforce
  let ?buf = "if MAX_LINE_BUFFER_BYTES < length buf then drop (length buf - MAX_LINE_BUFFER_BYTES) buf else buf"
  have "CHR 0x0A \<notin> set buf" using drain_rest [of "sc_line_buffer ctx @ chunk"] d by simp
  then have buf: "length ?buf \<le> MAX_LINE_BUFFER_BYTES \<and> CHR 0x0A \<notin> set ?buf" by (rule keep_tail)
  let ?lines = "map (\<lambda>line. truncate_log_line (job_mask_secrets env ctx (from_utf8_lossy line))) lines"
  let ?c = "ctx\<lparr>sc_line_buffer := ?buf, sc_truncated := sc_truncated ctx \<or> MAX_LINE_BUFFER_BYTES < length buf,
      sc_continuation := (if ?lines \<noteq> [] then sc_disable_prefix ctx \<and> ?buf \<noteq> [] else if ?buf = [] then False else sc_continuation ctx)\<rparr>"
  have c0: "sc_line_buffer ?c = ?buf" by simp
  obtain c where c: "surface_truncation env ?c = Inr c" "log_outputs env True ?lines c = Inr ctx'"
    using assms unfolding write_chunk_def Let_def d prod.case and_then_Inr_iff by blast
  have "sc_line_buffer ctx' = ?buf" using buffer.log_outputs_keeps [OF buffer.surface_keeps [OF c0 c(1)] c(2)] .
  then show ?thesis using buf by simp
qed

theorem line_buffer_bounded_witness:
  "\<exists>ctx'. write_chunk sample_env ''rest'' sample_step = Inr ctx' \<and> length (sc_line_buffer ctx') \<le> MAX_LINE_BUFFER_BYTES"
proof -
  have "drain_lines ''rest'' = ([], ''rest'')" by (subst drain_lines.simps) simp
  then obtain ctx' where run: "write_chunk sample_env ''rest'' sample_step = Inr ctx'"
    by (simp add: write_chunk_def surface_truncation_def MAX_LINE_BUFFER_BYTES_def and_then_def Let_def sample_step_def)
  then show ?thesis using line_buffer_bounded [OF run] by blast
qed

text \<open>Where the output is cut into chunks does not matter: the lines found in two chunks, the rest of the first
  being kept for the second, are the lines of the two written at once, and the lines with the rest are
  what was written.\<close>

theorem chunks_reassembled:
  "drain_lines (a @ b) =
     (fst (drain_lines a) @ fst (drain_lines (snd (drain_lines a) @ b)), snd (drain_lines (snd (drain_lines a) @ b))) \<and>
   join [CHR 0x0A] (fst (drain_lines a) @ [snd (drain_lines a)]) = a"
proof
  have ne: "split_char CHR 0x0A s \<noteq> []" for s by (rule split_char_nonempty)
  have split: "split_char CHR 0x0A (a @ b) =
      butlast (split_char CHR 0x0A a) @ split_char CHR 0x0A (last (split_char CHR 0x0A a) @ b)" for a b
  proof (induction a)
    case (Cons c a)
    obtain p ps where "split_char CHR 0x0A a = p # ps" using ne [of a] by (cases "split_char CHR 0x0A a") auto
    then show ?case using Cons ne [of "p @ b"] by (cases ps) (auto split: list.split)
  qed simp
  show "drain_lines (a @ b) =
      (fst (drain_lines a) @ fst (drain_lines (snd (drain_lines a) @ b)), snd (drain_lines (snd (drain_lines a) @ b)))"
    unfolding drain_split fst_conv snd_conv split [of a b] using ne by (simp add: butlast_append)
  show "join [CHR 0x0A] (fst (drain_lines a) @ [snd (drain_lines a)]) = a"
    using ne [of a] by (simp add: drain_split join_split_char)
qed

section \<open>Suspended commands\<close>

definition inert :: "step_context \<Rightarrow> step_context \<Rightarrow> bool" where
  "inert ctx ctx' \<longleftrightarrow> sc_masks ctx' = sc_masks ctx \<and> sc_live_masks ctx' = sc_live_masks ctx \<and> sc_env ctx' = sc_env ctx \<and>
     sc_state ctx' = sc_state ctx \<and> sc_extra_path ctx' = sc_extra_path ctx \<and> sc_matchers ctx' = sc_matchers ctx \<and>
     sc_annotations ctx' = sc_annotations ctx \<and> sc_echo ctx' = sc_echo ctx \<and> sc_telemetry ctx' = sc_telemetry ctx \<and>
     sc_stop_token ctx' = sc_stop_token ctx"

lemma suspended_line:
  assumes "sc_stop_token ctx = Some tok" and "trim line \<noteq> ''::'' @ tok @ ''::''"
  shows "\<exists>ctx'. log_output env pre line ctx = Inr ctx' \<and> inert ctx ctx'"
  using assms
  by (auto simp: log_output_def log_line_def log_with_def log_suspended_def write_record_def Let_def and_then_def
      enqueue_live_def inert_def split: option.split)

text \<open>C20. Between \<open>::stop-commands::tok\<close> and \<open>::tok::\<close> nothing that is printed does anything but being logged: no
  mask, variable, state, path, matcher or annotation changes, no line panics, and only a line that is
  exactly the token ends it.\<close>

theorem suspended_inert:
  assumes "sc_stop_token ctx = Some tok" and "\<forall>line \<in> set lines. trim line \<noteq> ''::'' @ tok @ ''::''"
  shows "\<exists>ctx'. log_outputs env first lines ctx = Inr ctx' \<and> inert ctx ctx'"
  using assms
proof (induction lines arbitrary: ctx first)
  case Nil
  then show ?case by (simp add: inert_def)
next
  case (Cons line lines)
  let ?pre = "first \<or> \<not> sc_disable_prefix ctx"
  obtain c where c: "log_output env ?pre line ctx = Inr c" "inert ctx c"
    using suspended_line [OF Cons.prems(1), of line env ?pre] Cons.prems(2) by auto
  then obtain ctx' where "log_outputs env False lines c = Inr ctx'" "inert c ctx'"
    using Cons.IH [of c False] Cons.prems by (auto simp: inert_def)
  then show ?case using c by (auto simp: and_then_def inert_def)
qed

theorem suspended_inert_witness:
  "\<exists>ctx'. log_outputs sample_env True [''::add-mask::hunter2'', ''::other::''] sample_step = Inr ctx' \<and> inert sample_step ctx'"
  by (rule suspended_inert) (simp add: sample_step_def, code_simp)

section \<open>Registered values\<close>

lemma add_mask_masks:
  assumes "trim value \<noteq> []"
  shows "set (value # mask_pieces value) \<subseteq> set (sc_masks (handle_add_mask env value ctx))"
  using assms by (auto simp: handle_add_mask_def add_mask_def retroactive_mask_def Let_def split: sum.split option.split)

lemma masked_values_mono: "set xs \<subseteq> set ys \<Longrightarrow> masked_values ext exclude ta xs \<subseteq> masked_values ext exclude ta ys"
  by (auto simp: masked_values_def)

text \<open>C18. Once a value has been registered and the log could be rewritten, the log shows no line of it without an
  asterisk, no such encoding of one, in no letter case, although it was printed before; and nothing that is
  masked for the job later shows one. Values with an asterisk are left out: after \<^verbatim>\<open>::add-mask::*pass\<close>
  a line \<^verbatim>\<open>***pass\<close> stays as it is (\<open>starred_mask_shown\<close>).\<close>

theorem add_mask_hides:
  assumes "trim value \<noteq> []" and "le_rewrite env = None"
    and "v \<in> masked_values (le_ext env) (job_exclude ctx) True (value # mask_pieces value)" and "hideable v" and "spelled True v t"
    and "utf8_ok later"
  shows "\<not> sublist t (sc_log_file (handle_add_mask env value ctx)) \<and>
    \<not> sublist t (job_mask_secrets env (handle_add_mask env value ctx) later)"
proof
  let ?c = "fst (add_mask ctx value)"
  have log: "sc_log_file (handle_add_mask env value ctx) =
      mask_secrets_preserving_lines_with env ?c (from_utf8_lossy (sc_log_file ctx)) (value # mask_pieces value)"
    using assms(1,2) by (simp add: handle_add_mask_def add_mask_def retroactive_mask_def Let_def)
  have "job_exclude ?c = job_exclude ctx" by (simp add: add_mask_def job_exclude_def Let_def)
  then show "\<not> sublist t (sc_log_file (handle_add_mask env value ctx))"
    unfolding log mask_secrets_preserving_lines_with_def mask_secrets_preserving_lines_transform_aware_with_patterns_def
    using mask_inner_no_leak [OF valid_ok [OF lossy_is_valid] _ assms(4,5)] assms(3) by simp
  have "job_exclude (handle_add_mask env value ctx) = job_exclude ctx"
    using assms(2) by (simp add: handle_add_mask_def add_mask_def retroactive_mask_def job_exclude_def Let_def)
  then show "\<not> sublist t (job_mask_secrets env (handle_add_mask env value ctx) later)"
    unfolding job_mask_secrets_def mask_secrets_transform_aware_with_patterns_def
    using mask_inner_no_leak [OF assms(6) _ assms(4,5)] subsetD [OF masked_values_mono [OF add_mask_masks [OF assms(1)]] assms(3)] by simp
qed

theorem add_mask_hides_witness:
  "\<not> sublist ''Hunter2'' (sc_log_file (handle_add_mask sample_env ''hunter2'' (sample_step\<lparr>sc_log_file := ''set hunter2''\<rparr>))) \<and>
   \<not> sublist ''Hunter2'' (job_mask_secrets sample_env (handle_add_mask sample_env ''hunter2'' (sample_step\<lparr>sc_log_file := ''set hunter2''\<rparr>)) ''hunter2 again'')"
proof (rule add_mask_hides)
  show "trim ''hunter2'' \<noteq> []" "hideable ''hunter2''" "spelled True ''hunter2'' ''Hunter2''" "utf8_ok ''hunter2 again''" by code_simp+
qed (auto simp: sample_env_def masked_values_def job_exclude_def sample_step_def)

lemma starred_mask_shown:
  "let env = sample_env\<lparr>le_ext := star_codec\<rparr> in job_mask_secrets env (handle_add_mask env ''*pass'' sample_step) ''***pass'' = ''***pass''"
  by code_simp

section \<open>A panic\<close>

text \<open>A step that prints an error, warning or notice whose message is longer than 4096 bytes and has a character
  across that byte ends the worker in a panic.\<close>

theorem annotation_panics:
  assumes "cmd_name cmd \<in> {''error'', ''warning'', ''notice''}" and "length (sc_annotations ctx) < 10"
    and "4096 < length (job_mask_secrets env ctx (cmd_data cmd))"
    and "\<not> is_char_boundary (job_mask_secrets env ctx (cmd_data cmd)) 4096"
  shows "handle_command env cmd ctx = Inl TruncateInsideCharacter"
  using assms by (auto simp: handle_command_def handle_basic_def issue_command_def annotate_def build_annotation_def and_then_def Let_def)

theorem annotation_panics_witness:
  "handle_command sample_env \<lparr>cmd_name = ''error'', cmd_properties = Map.empty,
     cmd_data = replicate 4095 (CHR ''a'') @ [CHR 0xC3, CHR 0xA9]\<rparr> sample_step = Inl TruncateInsideCharacter"
proof -
  let ?m = "replicate 4095 (CHR ''a'') @ [CHR 0xC3, CHR 0xA9]"
  have id: "job_mask_secrets sample_env sample_step ?m = ?m"
    using mask_loop_id [of ?m "[]" True False 0]
    by (simp add: job_mask_secrets_def sample_step_def mask_secrets_transform_aware_with_patterns_def mask_secrets_inner_def
        collect_secrets_def base64_alignment_spans_def new_scanner_def match_secret_at_def merge_pattern_spans_def)
  have "\<not> is_char_boundary ?m 4096" by (simp add: is_char_boundary_def nth_append is_continuation_def)
  moreover have "sc_annotations sample_step = []" by (simp add: sample_step_def)
  ultimately show ?thesis by (intro annotation_panics) (simp_all add: id)
qed

end
