(* ===== verification/File_Commands.thy ===== *)
theory File_Commands
  imports Log_Facts
begin

text \<open>
  The files through which a step talks to its job, \<^verbatim>\<open>crates/preloop-runner/src/worker/file_commands.rs\<close>
  (\<^verbatim>\<open>GITHUB_ENV\<close>, \<^verbatim>\<open>GITHUB_PATH\<close>, \<^verbatim>\<open>GITHUB_OUTPUT\<close>, \<^verbatim>\<open>GITHUB_STATE\<close>, \<^verbatim>\<open>GITHUB_ARTIFACTS\<close>), and the environment
  that the processes of a step get, \<^verbatim>\<open>StepContext::build_env\<close> of \<^verbatim>\<open>execution_context.rs\<close>.

  A file is absent, unreadable (with its length), no regular file (with the length it reports), or its bytes. The parts of the job that the step log
  does not have are in \<open>step_job\<close>. An operation that fails keeps the changes it has made: it returns the
  job and the error. The digest of a file and the working directory are in \<open>artifact_env\<close>, the variables
  and directories of the worker's machine in \<open>machine\<close>.
\<close>

section \<open>Reading\<close>

datatype command_file = Absent | Unreadable nat | Special nat | Regular string

datatype file_error =
    ReadFailed
  | NotRegularFile
  | FileTooLarge nat
  | EmptyName string
  | EmptyNameOrDelimiter string
  | DelimiterNotFound string
  | DelimiterWithoutNewline
  | InvalidCommandLine string

definition FILE_COMMAND_MAX_BYTES :: nat where "FILE_COMMAND_MAX_BYTES = 1048576"

definition read_file_command :: "command_file \<Rightarrow> file_error + string" where
  "read_file_command file =
     (case file of
        Absent \<Rightarrow> Inl ReadFailed
      | Unreadable _ \<Rightarrow> Inl ReadFailed
      | Special _ \<Rightarrow> Inl NotRegularFile
      | Regular bytes \<Rightarrow>
          (let body = take (FILE_COMMAND_MAX_BYTES + 1) bytes
           in if \<not> utf8_valid body then Inl ReadFailed
              else if FILE_COMMAND_MAX_BYTES < length body then Inl (FileTooLarge (length body div 1024))
              else Inr body))"

text \<open>A line from an offset of the text, the line end that was found, and the offset after it.\<close>

definition read_line :: "string \<Rightarrow> nat \<Rightarrow> string option \<times> string option \<times> nat" where
  "read_line body index =
     (if length body \<le> index then (None, None, index)
      else case position (\<lambda>c. c = CHR 0x0A) (drop index body) of
             Some lf_offset \<Rightarrow>
               (let lf_index = index + lf_offset
                in if 0 < lf_offset \<and> body ! (lf_index - 1) = CHR 0x0D
                   then (Some (take (lf_offset - 1) (drop index body)), Some [CHR 0x0D, CHR 0x0A], lf_index + 1)
                   else (Some (take lf_offset (drop index body)), Some [CHR 0x0A], lf_index + 1))
           | None \<Rightarrow> (Some (drop index body), None, length body))"

lemma read_line_step:
  "read_line body index = (Some line, nl, index') \<Longrightarrow> index < index' \<and> index' \<le> length body"
  using position_Some [of "\<lambda>c. c = CHR 0x0A" "drop index body"]
  by (auto simp: read_line_def Let_def split: if_splits option.splits)

function heredoc_loop :: "string \<Rightarrow> string \<Rightarrow> nat \<Rightarrow> nat \<Rightarrow> nat \<Rightarrow> file_error + string \<times> nat" where
  "heredoc_loop body delimiter start_index end_index index =
     (case read_line body index of
        (None, _, _) \<Rightarrow> Inl (DelimiterNotFound delimiter)
      | (Some t_line, newline, index') \<Rightarrow>
          if t_line = delimiter
          then Inr (if start_index < end_index then take (end_index - start_index) (drop start_index body) else [], index')
          else case newline of
                 None \<Rightarrow> Inl DelimiterWithoutNewline
               | Some nl \<Rightarrow> heredoc_loop body delimiter start_index (index' - length nl) index')"
  by pat_completeness auto

termination
proof (relation "measure (\<lambda>(body, _, _, _, index). length body - index)", goal_cases)
  case (2 body delimiter start_index end_index index x y line newline index' nl)
  then have "read_line body index = (Some line, newline, index')" by simp
  then show ?case using read_line_step by fastforce
qed simp

declare heredoc_loop.simps [simp del]

text \<open>One entry: the line at hand and, for a value of several lines, those from \<open>index\<close> on.\<close>

definition precedes :: "nat option \<Rightarrow> nat option \<Rightarrow> bool" where
  "precedes a b = (case a of None \<Rightarrow> False | Some i \<Rightarrow> (case b of None \<Rightarrow> True | Some j \<Rightarrow> i < j))"

definition kv_entry :: "string \<Rightarrow> string \<Rightarrow> nat \<Rightarrow> file_error + (string \<times> string) \<times> nat" where
  "kv_entry body line index =
     (let equals_index = position (\<lambda>c. c = CHR ''='') line;
          heredoc_index = find_sub ''<<'' line
      in if precedes equals_index heredoc_index
         then let eq_pos = the equals_index; key = take eq_pos line
              in if key = [] then Inl (EmptyName line) else Inr ((key, drop (eq_pos + 1) line), index)
         else if precedes heredoc_index equals_index
         then let heredoc_pos = the heredoc_index; key = take heredoc_pos line; delimiter = drop (heredoc_pos + 2) line
              in if key = [] \<or> delimiter = [] then Inl (EmptyNameOrDelimiter line)
                 else and_then (heredoc_loop body delimiter index index index) (\<lambda>(output, index). Inr ((key, output), index))
         else Inl (InvalidCommandLine line))"

lemma heredoc_loop_index:
  "heredoc_loop body d s e index = Inr (output, index') \<Longrightarrow> index < index'"
proof (induction body d s e index rule: heredoc_loop.induct)
  case (1 body d s e index)
  obtain line nl i where r: "read_line body index = (line, nl, i)" by (cases "read_line body index")
  show ?case
  proof (cases line)
    case None
    then show ?thesis using "1.prems" r by (subst (asm) heredoc_loop.simps) simp
  next
    case (Some l)
    have i: "index < i" using read_line_step r Some by blast
    show ?thesis
    proof (cases "l = d")
      case True
      then show ?thesis using "1.prems" r Some i by (subst (asm) heredoc_loop.simps) simp
    next
      case False
      obtain n where n: "nl = Some n" "heredoc_loop body d s (i - length n) i = Inr (output, index')"
        using "1.prems" r Some False by (subst (asm) heredoc_loop.simps) (simp split: option.splits)
      have "i < index'" by (rule "1.IH" [OF r [symmetric] Some refl False n])
      then show ?thesis using i by simp
    qed
  qed
qed

lemma kv_entry_index: "kv_entry body line index = Inr (kv, index') \<Longrightarrow> index \<le> index'"
  using heredoc_loop_index by (fastforce simp: kv_entry_def Let_def and_then_Inr_iff split: if_splits)

text \<open>The \<^verbatim>\<open>HashMap\<close> of the result is an association list with distinct keys; of its order nothing is used.\<close>

function kv_loop :: "string \<Rightarrow> nat \<Rightarrow> (string \<times> string) list \<Rightarrow> file_error + (string \<times> string) list" where
  "kv_loop body index result =
     (case read_line body index of
        (None, _, _) \<Rightarrow> Inr result
      | (Some line, _, index') \<Rightarrow>
          if line = [] then kv_loop body index' result
          else case kv_entry body line index' of
                 Inl e \<Rightarrow> Inl e
               | Inr ((key, val), index'') \<Rightarrow> kv_loop body index'' (AList.update key val result))"
  by pat_completeness auto

termination
proof (relation "measure (\<lambda>(body, index, _). length body - index)", goal_cases)
  case prems: (2 body index result x y line nl index')
  then have "read_line body index = (Some line, nl, index')" by simp
  then show ?case using read_line_step by fastforce
next
  case prems: (3 body index result x y line nl index' p kv index'' key val)
  then have "read_line body index = (Some line, nl, index')" "kv_entry body line index' = Inr ((key, val), index'')" by simp_all
  then show ?case using read_line_step [of body index] kv_entry_index [of body line index'] by fastforce
qed simp

declare kv_loop.simps [simp del]

definition parse_kv_file :: "command_file \<Rightarrow> file_error + (string \<times> string) list" where
  "parse_kv_file file =
     (if file = Absent then Inr [] else and_then (read_file_command file) (\<lambda>body. kv_loop body 0 []))"

text \<open>\<^verbatim>\<open>str::lines\<close>: the text after the last line end is a line when it is not empty, and a carriage
  return before a line end belongs to the line end.\<close>

definition strip_cr :: "string \<Rightarrow> string" where
  "strip_cr l = (if l \<noteq> [] \<and> last l = CHR 0x0D then butlast l else l)"

definition str_lines :: "string \<Rightarrow> string list" where
  "str_lines body = (let ps = split_char CHR 0x0A body in map strip_cr (butlast ps) @ (if last ps = [] then [] else [last ps]))"

definition parse_path_file :: "command_file \<Rightarrow> file_error + string list" where
  "parse_path_file file =
     (if file = Absent then Inr []
      else and_then (read_file_command file) (\<lambda>content. Inr (filter (\<lambda>l. l \<noteq> []) (map trim (str_lines content)))))"

section \<open>The job\<close>

record artifact_subject =
  sub_name :: string
  sub_digest :: string
  sub_kind :: string

datatype artifact_error =
    ReservedEquals
  | MissingFilePath
  | MissingOciDigest
  | UnsupportedScheme
  | UnsupportedAlgorithm
  | WrongDigestLength string nat nat
  | MissingReference
  | FileDoesNotExist string
  | FileNotRegular string
  | FileUnreadable
  | ConflictingDigest string string string
  | TooManyArtifacts

datatype step_file_error =
    CommandFile file_error
  | ArtifactsTooLarge nat
  | ArtifactsUnreadable
  | ArtifactEntry nat artifact_error
  | ArtifactsListNotWritten

text \<open>What a declared path leads to.\<close>

datatype file_probe = ProbeMissing | ProbeUnreadable | ProbeSpecial | ProbeSha256 string

record artifact_env =
  ae_cwd :: string
  ae_probe :: "path \<Rightarrow> file_probe"
  ae_flag :: "string option"
  ae_list_written :: bool

record step_job =
  sj_ctx :: step_context
  sj_env :: "string \<rightharpoonup> string"
  sj_outputs :: "string \<rightharpoonup> (string \<rightharpoonup> string)"
  sj_flag :: "string option"
  sj_subjects :: "(string \<times> artifact_subject) list"
  sj_workspace :: "string option"
  sj_artifacts_list :: "artifact_subject list"

record command_files =
  cf_env :: command_file
  cf_path :: command_file
  cf_output :: command_file
  cf_state :: command_file
  cf_artifacts :: command_file

section \<open>Artifacts\<close>

definition expected_hex_len :: "string \<Rightarrow> nat option" where
  "expected_hex_len algo =
     (if to_lower algo = ''sha256'' then Some 64 else if to_lower algo = ''sha384'' then Some 96
      else if to_lower algo = ''sha512'' then Some 128 else None)"

text \<open>The two patterns. A greedy reference ends at the last at sign, since neither the algorithm nor a digit
  is one.\<close>

definition scheme_match :: "string \<Rightarrow> bool" where
  "scheme_match s =
     (case s of
        [] \<Rightarrow> False
      | c # cs \<Rightarrow> is_ascii_alphabetic c \<and>
          starts_with ''://'' (dropWhile (\<lambda>d. is_ascii_alphanumeric d \<or> d \<in> set ''+.-'') cs))"

definition is_hex_digit :: "char \<Rightarrow> bool" where
  "is_hex_digit c \<longleftrightarrow> c \<in> set ''0123456789abcdefABCDEF''"

definition oci_captures :: "string \<Rightarrow> (string \<times> string \<times> string) option" where
  "oci_captures s =
     (case position (\<lambda>c. c = CHR ''@'') (rev s) of
        None \<Rightarrow> None
      | Some i \<Rightarrow>
          (let ref_name = take (length s - i - 1) s; rest = drop (length s - i) s; algo = take 6 rest; hex = drop 7 rest
           in if ref_name \<noteq> [] \<and> CHR 0x0A \<notin> set ref_name \<and> algo \<in> {''sha256'', ''sha384'', ''sha512''} \<and>
                 drop 6 (take 7 rest) = '':'' \<and> hex \<noteq> [] \<and> list_all is_hex_digit hex
              then Some (ref_name, algo, hex) else None))"

definition make_oci_subject :: "string \<times> string \<times> string \<Rightarrow> artifact_error + artifact_subject" where
  "make_oci_subject caps =
     (case caps of (ref_name, algo0, hex0) \<Rightarrow>
        let algo = to_lower algo0; hex = to_lower hex0
        in case expected_hex_len algo of
             None \<Rightarrow> Inl UnsupportedAlgorithm
           | Some expected \<Rightarrow>
               if length hex \<noteq> expected then Inl (WrongDigestLength algo expected (length hex))
               else if ref_name = [] then Inl MissingReference
               else Inr \<lparr>sub_name = ref_name, sub_digest = algo @ '':'' @ hex, sub_kind = ''oci''\<rparr>)"

definition file_name_of :: "path \<Rightarrow> string option" where
  "file_name_of p = (if snd p = [] \<or> last (snd p) = ''..'' then None else Some (last (snd p)))"

definition make_file_subject :: "artifact_env \<Rightarrow> string \<Rightarrow> string option \<Rightarrow> artifact_error + artifact_subject" where
  "make_file_subject env declared_path workspace =
     (let file_path = (if fst (path_of declared_path) then path_of declared_path
                       else path_join (path_of (unwrap_or workspace (ae_cwd env))) (path_of declared_path))
      in case ae_probe env file_path of
           ProbeMissing \<Rightarrow> Inl (FileDoesNotExist declared_path)
         | ProbeUnreadable \<Rightarrow> Inl FileUnreadable
         | ProbeSpecial \<Rightarrow> Inl (FileNotRegular declared_path)
         | ProbeSha256 digest \<Rightarrow>
             Inr \<lparr>sub_name = unwrap_or (file_name_of file_path) declared_path,
                  sub_digest = ''sha256:'' @ digest, sub_kind = ''file''\<rparr>)"

definition strip_either :: "string \<Rightarrow> string \<Rightarrow> string \<Rightarrow> string option" where
  "strip_either a b s = (case strip_prefix a s of Some r \<Rightarrow> Some r | None \<Rightarrow> strip_prefix b s)"

definition parse_artifact_entry :: "artifact_env \<Rightarrow> string \<Rightarrow> string option \<Rightarrow> artifact_error + artifact_subject" where
  "parse_artifact_entry env line workspace =
     (let trimmed = trim line
      in if CHR ''='' \<in> set trimmed then Inl ReservedEquals
         else case strip_either ''file://'' ''FILE://'' trimmed of
           Some file \<Rightarrow> if trim file = [] then Inl MissingFilePath else make_file_subject env file workspace
         | None \<Rightarrow>
             (case strip_either ''oci://'' ''OCI://'' trimmed of
                Some rest \<Rightarrow> (case oci_captures rest of None \<Rightarrow> Inl MissingOciDigest | Some caps \<Rightarrow> make_oci_subject caps)
              | None \<Rightarrow>
                  if scheme_match trimmed then Inl UnsupportedScheme
                  else case oci_captures trimmed of
                         Some (ref_name, algo, hex) \<Rightarrow>
                           if expected_hex_len algo = Some (length hex) then make_oci_subject (ref_name, algo, hex)
                           else make_file_subject env trimmed workspace
                       | None \<Rightarrow> make_file_subject env trimmed workspace))"

definition matches_official_bool :: "string \<Rightarrow> bool" where
  "matches_official_bool v \<longleftrightarrow> to_lower (trim v) \<in> {''1'', ''true'', ''t'', ''y'', ''yes'', ''on''}"

definition artifacts_feature_enabled :: "artifact_env \<Rightarrow> step_job \<Rightarrow> bool" where
  "artifacts_feature_enabled env job \<longleftrightarrow>
     (case sj_flag job of Some v \<Rightarrow> matches_official_bool v | None \<Rightarrow> False) \<or>
     (case ae_flag env of Some v \<Rightarrow> matches_official_bool v | None \<Rightarrow> False)"

definition write_artifacts_list_file :: "artifact_env \<Rightarrow> step_job \<Rightarrow> step_job \<times> step_file_error option" where
  "write_artifacts_list_file env job =
     (if ae_list_written env then (job\<lparr>sj_artifacts_list := sort_key sub_name (map snd (sj_subjects job))\<rparr>, None)
      else (job, Some ArtifactsListNotWritten))"

definition ARTIFACTS_MAX_FILE_BYTES :: nat where "ARTIFACTS_MAX_FILE_BYTES = 1024 * 1024"
definition ARTIFACTS_MAX_AGGREGATE :: nat where "ARTIFACTS_MAX_AGGREGATE = 500"

fun parse_artifact_lines ::
  "artifact_env \<Rightarrow> string option \<Rightarrow> nat \<Rightarrow> string list \<Rightarrow> step_file_error + (nat \<times> artifact_subject) list" where
  "parse_artifact_lines env workspace line_number [] = Inr []"
| "parse_artifact_lines env workspace line_number (raw # lines) =
     (let trimmed = trim raw
      in if trimmed = [] \<or> starts_with ''#'' trimmed then parse_artifact_lines env workspace (line_number + 1) lines
         else case parse_artifact_entry env trimmed workspace of
                Inl e \<Rightarrow> Inl (ArtifactEntry line_number e)
              | Inr subject \<Rightarrow> and_then (parse_artifact_lines env workspace (line_number + 1) lines) (\<lambda>subjects.
                  Inr ((line_number, subject) # subjects)))"

fun add_subjects ::
  "(nat \<times> artifact_subject) list \<Rightarrow> (string \<times> artifact_subject) list \<Rightarrow> (string \<times> artifact_subject) list \<times> step_file_error option" where
  "add_subjects [] subjects = (subjects, None)"
| "add_subjects ((line_number, subject) # parsed) subjects =
     (case map_of subjects (sub_name subject) of
        Some existing \<Rightarrow>
          if sub_digest existing = sub_digest subject then add_subjects parsed subjects
          else (subjects, Some (ArtifactEntry line_number
            (ConflictingDigest (sub_name subject) (sub_digest existing) (sub_digest subject))))
      | None \<Rightarrow>
          if ARTIFACTS_MAX_AGGREGATE \<le> length subjects then (subjects, Some (ArtifactEntry line_number TooManyArtifacts))
          else add_subjects parsed (im_insert (sub_name subject) subject subjects))"

text \<open>What a file that cannot be read leads to: nothing when it reports no length.\<close>

definition artifacts_length :: "nat \<Rightarrow> step_file_error option" where
  "artifacts_length n =
     (if n = 0 then None else if ARTIFACTS_MAX_FILE_BYTES < n then Some (ArtifactsTooLarge (n div 1024))
      else Some ArtifactsUnreadable)"

definition process_artifacts_file :: "artifact_env \<Rightarrow> command_file \<Rightarrow> step_job \<Rightarrow> step_job \<times> step_file_error option" where
  "process_artifacts_file env file job =
     (case file of
        Regular bytes \<Rightarrow>
          if bytes = [] then (job, None)
          else if ARTIFACTS_MAX_FILE_BYTES < length bytes then (job, Some (ArtifactsTooLarge (length bytes div 1024)))
          else if \<not> utf8_valid bytes then (job, Some ArtifactsUnreadable)
          else (case parse_artifact_lines env (sj_workspace job) 1 (str_lines bytes) of
                  Inl e \<Rightarrow> (job, Some e)
                | Inr parsed \<Rightarrow>
                    (case add_subjects parsed (sj_subjects job) of
                       (subjects, Some e) \<Rightarrow> (job\<lparr>sj_subjects := subjects\<rparr>, Some e)
                     | (subjects, None) \<Rightarrow> write_artifacts_list_file env (job\<lparr>sj_subjects := subjects\<rparr>)))
      | Absent \<Rightarrow> (job, Some ArtifactsUnreadable)
      | Special n \<Rightarrow> (job, artifacts_length n)
      | Unreadable n \<Rightarrow> (job, artifacts_length n))"

section \<open>Applying the files\<close>

text \<open>The entries of \<^verbatim>\<open>GITHUB_ENV\<close> have distinct keys: in which order they are taken does not matter.\<close>

definition allowed_env :: "(string \<times> string) list \<Rightarrow> (string \<rightharpoonup> string)" where
  "allowed_env vars = map_of (filter (\<lambda>(k, v). \<not> eq_ignore_ascii_case k ''NODE_OPTIONS'') vars)"

definition prepend_paths :: "string list \<Rightarrow> step_job \<Rightarrow> step_job" where
  "prepend_paths paths job =
     job\<lparr>sj_ctx := (sj_ctx job)\<lparr>sc_extra_path := fold (\<lambda>p ps. p # ps) (rev paths) (sc_extra_path (sj_ctx job))\<rparr>\<rparr>"

definition apply_file_commands_to_job :: "command_files \<Rightarrow> step_job \<Rightarrow> step_job \<times> file_error option" where
  "apply_file_commands_to_job files job =
     (case parse_kv_file (cf_env files) of
        Inl e \<Rightarrow> (job, Some e)
      | Inr vars \<Rightarrow>
          (let job = job\<lparr>sj_env := sj_env job ++ allowed_env vars\<rparr>
           in case parse_path_file (cf_path files) of
                Inl e \<Rightarrow> (job, Some e)
              | Inr paths \<Rightarrow> (prepend_paths paths job, None)))"

definition state_owner :: "string \<Rightarrow> string" where
  "state_owner step_id = unwrap_or (strip_either ''__pre_'' ''__post_'' step_id) step_id"

definition apply_outputs :: "string \<Rightarrow> (string \<times> string) list \<Rightarrow> step_job \<Rightarrow> step_job" where
  "apply_outputs step_id outputs job =
     (case sj_outputs job step_id of
        None \<Rightarrow> job
      | Some outs \<Rightarrow> job\<lparr>sj_outputs := (sj_outputs job)(step_id \<mapsto> outs ++ map_of outputs)\<rparr>)"

definition apply_state :: "string \<Rightarrow> (string \<times> string) list \<Rightarrow> step_job \<Rightarrow> step_job" where
  "apply_state step_id st job =
     (if st = [] then job
      else job\<lparr>sj_ctx := (sj_ctx job)\<lparr>sc_state := (sc_state (sj_ctx job))(state_owner step_id \<mapsto>
             unwrap_or (sc_state (sj_ctx job) (state_owner step_id)) Map.empty ++ map_of st)\<rparr>\<rparr>)"

definition apply_file_commands ::
  "artifact_env \<Rightarrow> command_files \<Rightarrow> string \<Rightarrow> step_job \<Rightarrow> step_job \<times> step_file_error option" where
  "apply_file_commands env files step_id job =
     (case apply_file_commands_to_job files job of
        (job, Some e) \<Rightarrow> (job, Some (CommandFile e))
      | (job, None) \<Rightarrow>
          (case parse_kv_file (cf_output files) of
             Inl e \<Rightarrow> (job, Some (CommandFile e))
           | Inr outputs \<Rightarrow>
               (let job = apply_outputs step_id outputs job
                in case parse_kv_file (cf_state files) of
                     Inl e \<Rightarrow> (job, Some (CommandFile e))
                   | Inr st \<Rightarrow>
                       (let job = apply_state step_id st job
                        in if artifacts_feature_enabled env job \<and> cf_artifacts files \<noteq> Absent
                           then process_artifacts_file env (cf_artifacts files) job else (job, None)))))"

section \<open>The environment of a process\<close>

definition DEFAULT_PATH :: string where
  "DEFAULT_PATH = ''/usr/local/sbin:/usr/local/bin:/usr/sbin:/usr/bin:/sbin:/bin''"

record machine =
  mc_vars :: "string \<rightharpoonup> string"
  mc_dir :: "string \<Rightarrow> bool"
  mc_certificates :: bool

definition ensure_path :: "(string \<rightharpoonup> string) \<Rightarrow> string option \<Rightarrow> (string \<rightharpoonup> string)" where
  "ensure_path env worker_path =
     (case env ''PATH'' of
        Some p \<Rightarrow> if trim p \<noteq> [] then env
                  else env(''PATH'' \<mapsto> (case worker_path of Some w \<Rightarrow> if trim w \<noteq> [] then w else DEFAULT_PATH | None \<Rightarrow> DEFAULT_PATH))
      | None \<Rightarrow> env(''PATH'' \<mapsto> (case worker_path of Some w \<Rightarrow> if trim w \<noteq> [] then w else DEFAULT_PATH | None \<Rightarrow> DEFAULT_PATH)))"

definition add_shim :: "machine \<Rightarrow> string \<Rightarrow> (string \<rightharpoonup> string) \<Rightarrow> (string \<rightharpoonup> string)" where
  "add_shim mc tool_bin env =
     (if mc_dir mc tool_bin
      then let p = unwrap_or (env ''PATH'') []
           in if tool_bin \<in> set (split_char CHR '':'' p) then env else env(''PATH'' \<mapsto> tool_bin @ '':'' @ p)
      else env)"

definition or_insert :: "string \<Rightarrow> string \<Rightarrow> (string \<rightharpoonup> string) \<Rightarrow> (string \<rightharpoonup> string)" where
  "or_insert k v env = (case env k of Some _ \<Rightarrow> env | None \<Rightarrow> env(k \<mapsto> v))"

definition runner_user :: "machine \<Rightarrow> string" where
  "runner_user mc =
     (case mc_vars mc ''PRELOOP_RUNNER_USER'' of
        Some user \<Rightarrow> if user \<noteq> [] then user else unwrap_or (mc_vars mc ''USER'') ''root''
      | None \<Rightarrow> unwrap_or (mc_vars mc ''USER'') ''root'')"

definition host_env :: "machine \<Rightarrow> (string \<rightharpoonup> string) \<Rightarrow> (string \<rightharpoonup> string)" where
  "host_env mc env0 =
     (let explicit_path = (env0 ''PATH'' \<noteq> None);
          env = ensure_path env0 (mc_vars mc ''PATH'');
          env = (if explicit_path then env
                 else add_shim mc ''/home/runner/go/bin'' (add_shim mc ''/home/runner/.cargo/bin'' env));
          env = (if mc_certificates mc
                 then or_insert ''REQUESTS_CA_BUNDLE'' ''/etc/ssl/certs/ca-certificates.crt''
                   (or_insert ''PIP_CERT'' ''/etc/ssl/certs/ca-certificates.crt''
                     (or_insert ''NODE_OPTIONS'' ''--use-openssl-ca'' env))
                 else env);
          uid = unwrap_or (Option.bind (mc_vars mc ''PRELOOP_RUNNER_UID'') (parse_unsigned 32)) 0
      in or_insert ''XDG_RUNTIME_DIR'' (''/run/user/'' @ nat_to_string uid)
           (env(''USER'' \<mapsto> runner_user mc, ''LOGNAME'' \<mapsto> runner_user mc)))"

definition state_env :: "(string \<rightharpoonup> string) \<Rightarrow> (string \<rightharpoonup> string)" where
  "state_env st = (\<lambda>k. Option.bind (strip_prefix ''STATE_'' k) st)"

definition with_extra_path :: "machine \<Rightarrow> bool \<Rightarrow> string list \<Rightarrow> (string \<rightharpoonup> string) \<Rightarrow> (string \<rightharpoonup> string)" where
  "with_extra_path mc for_container extra env =
     (if extra = [] then env
      else let base_path = (case env ''PATH'' of Some p \<Rightarrow> p
                            | None \<Rightarrow> if for_container then [] else unwrap_or (mc_vars mc ''PATH'') [])
           in env(''PATH'' \<mapsto> join '':'' (extra @ (if base_path \<noteq> [] then [base_path] else []))))"

definition build_env :: "machine \<Rightarrow> step_job \<Rightarrow> (string \<rightharpoonup> string)" where
  "build_env mc job =
     (let ctx = sj_ctx job;
          env = sj_env job ++ sc_env ctx;
          for_container = sc_translate ctx;
          env = (if for_container then env else host_env mc env);
          state_step_id = unwrap_or (strip_prefix ''__post_'' (sc_step_id ctx)) (sc_step_id ctx);
          env = (case sc_state ctx state_step_id of Some st \<Rightarrow> env ++ state_env st | None \<Rightarrow> env)
      in with_extra_path mc for_container (sc_extra_path ctx) env)"

definition update_debug_flag :: "machine \<Rightarrow> step_job \<Rightarrow> step_context" where
  "update_debug_flag mc job =
     (let is_debug = (\<lambda>v. v = Some ''true'' \<or> v = Some ''1''); ctx = sj_ctx job
      in ctx\<lparr>sc_debug := sc_debug ctx \<or> is_debug (mc_vars mc ''ACTIONS_STEP_DEBUG'') \<or> is_debug (mc_vars mc ''RUNNER_DEBUG'') \<or>
           is_debug (sj_env job ''ACTIONS_STEP_DEBUG'') \<or> is_debug (sj_env job ''RUNNER_DEBUG'') \<or>
           is_debug (sc_env ctx ''ACTIONS_STEP_DEBUG'') \<or> is_debug (sc_env ctx ''RUNNER_DEBUG'')\<rparr>)"

end
