(* ===== verification/Command_File_Facts.thy ===== *)
theory Command_File_Facts
  imports File_Commands
begin

text \<open>
  What holds of the command files and of the environment of a process (\<open>File_Commands\<close>).
\<close>

section \<open>Reading back what was written\<close>

definition heredoc :: "string \<Rightarrow> string \<Rightarrow> string \<Rightarrow> string" where
  "heredoc key delimiter val = key @ ''<<'' @ delimiter @ CHR 0x0A # val @ CHR 0x0A # delimiter @ [CHR 0x0A]"

definition heredoc_ok :: "string \<times> string \<times> string \<Rightarrow> bool" where
  "heredoc_ok p = (case p of (key, delimiter, val) \<Rightarrow>
     key \<noteq> [] \<and> CHR 0x0A \<notin> set key \<and> CHR ''='' \<notin> set key \<and> CHR ''<'' \<notin> set key \<and>
     delimiter \<noteq> [] \<and> CHR 0x0A \<notin> set delimiter \<and> last delimiter \<noteq> CHR 0x0D \<and>
     (val = [] \<or> last val \<noteq> CHR 0x0D) \<and> delimiter \<notin> set (map strip_cr (split_char CHR 0x0A val)))"

definition kv_text :: "(string \<times> string \<times> string) list \<Rightarrow> string" where
  "kv_text entries = concat (map (\<lambda>(key, delimiter, val). heredoc key delimiter val) entries)"

lemma position_newline: "CHR 0x0A \<notin> set l \<Longrightarrow> position (\<lambda>c. c = CHR 0x0A) (l @ CHR 0x0A # rest) = Some (length l)"
  by (induction l) auto

lemma read_line_at:
  assumes "CHR 0x0A \<notin> set l"
  shows "read_line (a @ l @ CHR 0x0A # rest) (length a) =
    (Some (strip_cr l), Some (if strip_cr l = l then [CHR 0x0A] else [CHR 0x0D, CHR 0x0A]), length a + length l + 1)"
proof (cases l rule: rev_cases)
  case Nil
  then show ?thesis by (simp add: read_line_def strip_cr_def)
next
  case (snoc l' c)
  have p: "position (\<lambda>c. c = CHR 0x0A) (l @ CHR 0x0A # rest) = Some (length l)" using assms by (rule position_newline)
  have nth: "(a @ l @ CHR 0x0A # rest) ! (length a + length l - 1) = c" by (simp add: snoc nth_append)
  show ?thesis using p nth by (simp add: read_line_def strip_cr_def Let_def snoc)
qed

lemma heredoc_loop_reads:
  assumes "ls \<noteq> []" and "list_all (\<lambda>l. CHR 0x0A \<notin> set l) ls" and "delimiter \<notin> set (map strip_cr ls)"
    and "last ls = [] \<or> last (last ls) \<noteq> CHR 0x0D"
    and "CHR 0x0A \<notin> set delimiter" and "delimiter \<noteq> []" and "last delimiter \<noteq> CHR 0x0D"
  shows "heredoc_loop (a @ u @ join [CHR 0x0A] ls @ CHR 0x0A # delimiter @ CHR 0x0A # rest) delimiter (length a) e (length (a @ u)) =
    Inr (u @ join [CHR 0x0A] ls, length (a @ u @ join [CHR 0x0A] ls @ CHR 0x0A # delimiter @ [CHR 0x0A]))"
  using assms(1-4)
proof (induction ls arbitrary: u e)
  case (Cons l ls)
  have nl: "CHR 0x0A \<notin> set l" and other: "strip_cr l \<noteq> delimiter" using Cons.prems by auto
  show ?case
  proof (cases ls)
    case Nil
    let ?body = "a @ u @ l @ CHR 0x0A # delimiter @ CHR 0x0A # rest"
    have l: "strip_cr l = l" using Cons.prems(4) Nil by (auto simp: strip_cr_def)
    have r: "read_line ?body (length (a @ u)) = (Some l, Some [CHR 0x0A], length (a @ u) + length l + 1)"
      using read_line_at [OF nl, of "a @ u"] l by simp
    have "read_line ((a @ u @ l @ [CHR 0x0A]) @ delimiter @ CHR 0x0A # rest) (length (a @ u @ l @ [CHR 0x0A])) =
        (Some delimiter, Some [CHR 0x0A], length (a @ u @ l @ [CHR 0x0A]) + length delimiter + 1)"
      using read_line_at [OF assms(5), of "a @ u @ l @ [CHR 0x0A]" rest] assms(7) by (simp add: strip_cr_def)
    then have d: "read_line ?body (length (a @ u) + length l + 1) =
        (Some delimiter, Some [CHR 0x0A], length (a @ u) + length l + 1 + length delimiter + 1)" by (simp add: add.assoc)
    have "heredoc_loop ?body delimiter (length a) (length (a @ u) + length l) (length (a @ u) + length l + 1) =
        Inr (u @ l, length (a @ u) + length l + 1 + length delimiter + 1)"
      by (subst heredoc_loop.simps) (simp add: d [simplified])
    moreover have "heredoc_loop ?body delimiter (length a) e (length (a @ u)) =
        heredoc_loop ?body delimiter (length a) (length (a @ u) + length l) (length (a @ u) + length l + 1)"
      using other l by (subst heredoc_loop.simps) (simp add: r [simplified])
    ultimately show ?thesis by (simp add: Nil)
  next
    case (Cons l' ls')
    let ?v = "join [CHR 0x0A] ls"
    let ?body = "a @ u @ l @ CHR 0x0A # ?v @ CHR 0x0A # delimiter @ CHR 0x0A # rest"
    obtain n where r: "read_line ?body (length (a @ u)) = (Some (strip_cr l), Some n, length (a @ u) + length l + 1)"
      using read_line_at [OF nl, of "a @ u"] by simp
    have "heredoc_loop ?body delimiter (length a) e (length (a @ u)) =
        heredoc_loop ?body delimiter (length a) (length (a @ u) + length l + 1 - length n) (length (a @ u) + length l + 1)"
      using other by (subst heredoc_loop.simps) (simp add: r [simplified])
    also have "\<dots> = Inr ((u @ l @ [CHR 0x0A]) @ ?v, length (a @ (u @ l @ [CHR 0x0A]) @ ?v @ CHR 0x0A # delimiter @ [CHR 0x0A]))"
      using Cons.IH [of "u @ l @ [CHR 0x0A]" "length (a @ u) + length l + 1 - length n"] Cons.prems Cons by (simp add: add.assoc)
    finally show ?thesis by (simp add: Cons)
  qed
qed simp

lemma split_char_free: "list_all (\<lambda>l. d \<notin> set l) (split_char d s)"
  by (induction s) (auto split: list.split)

lemma last_split_char:
  "last (split_char d s) = [] \<or> s \<noteq> [] \<and> last (last (split_char d s)) = last s"
proof (induction s)
  case (Cons c s)
  obtain p ps where p: "split_char d s = p # ps" using split_char_nonempty [of d s] by (cases "split_char d s") auto
  show ?case
  proof (cases ps)
    case Nil
    have "split_char d (c # s) = (if c = d then [[], p] else [c # p])" by (simp add: p Nil)
    moreover have "p = s" using join_split_char [of d s] by (simp add: p Nil)
    ultimately show ?thesis by (auto split: if_splits)
  next
    case (Cons q qs)
    then show ?thesis using Cons.IH by (auto simp: p)
  qed
qed simp

lemma find_marker: "CHR ''<'' \<notin> set key \<Longrightarrow> find_sub ''<<'' (key @ ''<<'' @ rest) = Some (length key)"
  by (induction key) (auto simp: starts_with_def)

lemma position_skip:
  "\<forall>x \<in> set xs. \<not> p x \<Longrightarrow> position p (xs @ ys) = map_option (\<lambda>i. length xs + i) (position p ys)"
  by (induction xs) (cases "position p ys"; auto)+

lemma heredoc_precedes:
  assumes "CHR ''<'' \<notin> set key" and "CHR ''='' \<notin> set key"
  shows "precedes (find_sub ''<<'' (key @ ''<<'' @ rest)) (position (\<lambda>c. c = CHR ''='') (key @ ''<<'' @ rest))"
    "\<not> precedes (position (\<lambda>c. c = CHR ''='') (key @ ''<<'' @ rest)) (find_sub ''<<'' (key @ ''<<'' @ rest))"
proof -
  have "position (\<lambda>c. c = CHR ''='') ((key @ ''<<'') @ rest) =
      map_option (\<lambda>i. length (key @ ''<<'') + i) (position (\<lambda>c. c = CHR ''='') rest)"
    by (rule position_skip) (use assms(2) in auto)
  then show "precedes (find_sub ''<<'' (key @ ''<<'' @ rest)) (position (\<lambda>c. c = CHR ''='') (key @ ''<<'' @ rest))"
    "\<not> precedes (position (\<lambda>c. c = CHR ''='') (key @ ''<<'' @ rest)) (find_sub ''<<'' (key @ ''<<'' @ rest))"
    using find_marker [OF assms(1), of rest] by (auto simp: precedes_def split: option.splits)
qed

lemma kv_loop_entry:
  assumes "heredoc_ok (key, delimiter, val)"
  shows "kv_loop (a @ heredoc key delimiter val @ rest) (length a) m =
    kv_loop (a @ heredoc key delimiter val @ rest) (length (a @ heredoc key delimiter val)) (AList.update key val m)"
proof -
  let ?line = "key @ ''<<'' @ delimiter"
  let ?body = "a @ heredoc key delimiter val @ rest"
  note ok = assms [unfolded heredoc_ok_def prod.case]
  have line: "CHR 0x0A \<notin> set ?line" "strip_cr ?line = ?line" "?line \<noteq> []" using ok by (auto simp: strip_cr_def)
  have body: "?body = a @ ?line @ CHR 0x0A # (val @ CHR 0x0A # delimiter @ CHR 0x0A # rest)" by (simp add: heredoc_def)
  have r: "read_line ?body (length a) = (Some ?line, Some [CHR 0x0A], length (a @ ?line @ [CHR 0x0A]))"
    unfolding body by (subst read_line_at [OF line(1)]) (use line(2) in simp)
  let ?ls = "split_char CHR 0x0A val"
  have join: "join [CHR 0x0A] ?ls = val" by (rule join_split_char)
  have ls: "?ls \<noteq> []" "list_all (\<lambda>l. CHR 0x0A \<notin> set l) ?ls" by (rule split_char_nonempty, rule split_char_free)
  have last: "last ?ls = [] \<or> last (last ?ls) \<noteq> CHR 0x0D" using ok last_split_char [of "CHR 0x0A" val] by auto
  have h: "heredoc_loop ?body delimiter (length (a @ ?line @ [CHR 0x0A])) (length (a @ ?line @ [CHR 0x0A])) (length (a @ ?line @ [CHR 0x0A])) =
      Inr (val, length (a @ heredoc key delimiter val))"
    using heredoc_loop_reads [OF ls _ last, of delimiter "a @ ?line @ [CHR 0x0A]" "[]"] ok
    by (simp add: join heredoc_def)
  have "kv_entry ?body ?line (length (a @ ?line @ [CHR 0x0A])) = Inr ((key, val), length (a @ heredoc key delimiter val))"
    using heredoc_precedes [of key delimiter] find_marker [of key delimiter] ok h by (simp add: kv_entry_def Let_def)
  then show ?thesis using r line(3) by (subst kv_loop.simps) simp
qed

lemma kv_loop_entries:
  "list_all heredoc_ok entries \<Longrightarrow>
   \<exists>m'. kv_loop (a @ kv_text entries) (length a) m = Inr m' \<and>
     map_of m' = fold (\<lambda>(key, delimiter, val) m. m(key \<mapsto> val)) entries (map_of m)"
proof (induction entries arbitrary: a m)
  case Nil
  then show ?case by (subst kv_loop.simps) (simp add: read_line_def kv_text_def)
next
  case (Cons p entries)
  obtain key delimiter val where p: "p = (key, delimiter, val)" by (cases p)
  have split: "kv_text (p # entries) = heredoc key delimiter val @ kv_text entries" by (simp add: kv_text_def p)
  have "heredoc_ok (key, delimiter, val)" using Cons.prems p by simp
  then have "kv_loop (a @ kv_text (p # entries)) (length a) m =
      kv_loop ((a @ heredoc key delimiter val) @ kv_text entries) (length (a @ heredoc key delimiter val)) (AList.update key val m)"
    unfolding split using kv_loop_entry [of key delimiter val a "kv_text entries" m] by simp
  moreover have "list_all heredoc_ok entries" using Cons.prems by simp
  ultimately show ?case using Cons.IH [of "a @ heredoc key delimiter val" "AList.update key val m"] by (simp add: p update_conv')
qed

text \<open>C21. A step that writes values to a command file in the multi-line form gets exactly these values, line ends
  included, the last one for a name that is written twice: whatever the values are, as long as none has
  the delimiter as a line of its own or ends in a carriage return.\<close>

theorem kv_roundtrip:
  assumes "list_all heredoc_ok entries" and "utf8_valid (kv_text entries)" and "length (kv_text entries) \<le> FILE_COMMAND_MAX_BYTES"
  shows "\<exists>m. parse_kv_file (Regular (kv_text entries)) = Inr m \<and>
    map_of m = fold (\<lambda>(key, delimiter, val) m. m(key \<mapsto> val)) entries Map.empty"
proof -
  have "read_file_command (Regular (kv_text entries)) = Inr (kv_text entries)" using assms(2,3) by (simp add: read_file_command_def)
  then show ?thesis using kv_loop_entries [OF assms(1), of "[]" "[]"] by (simp add: parse_kv_file_def)
qed

theorem kv_roundtrip_witness:
  "\<exists>m. parse_kv_file (Regular (kv_text [(''A'', ''EOF'', ''x=1'' @ [CHR 0x0A, CHR 0x0A] @ ''<<''), (''B'', ''==='', []), (''A'', ''E'', ''y'')])) = Inr m \<and>
    map_of m = fold (\<lambda>(key, delimiter, val) m. m(key \<mapsto> val))
      [(''A'', ''EOF'', ''x=1'' @ [CHR 0x0A, CHR 0x0A] @ ''<<''), (''B'', ''==='', []), (''A'', ''E'', ''y'')] Map.empty"
proof (rule kv_roundtrip)
  let ?es = "[(''A'', ''EOF'', ''x=1'' @ [CHR 0x0A, CHR 0x0A] @ ''<<''), (''B'', ''==='', []), (''A'', ''E'', ''y'')]"
  show "list_all heredoc_ok ?es" by (simp add: heredoc_ok_def strip_cr_def)
  have "list_all ascii_byte (kv_text ?es)" by code_simp
  then show "utf8_valid (kv_text ?es)" by (rule ascii_valid)
  show "length (kv_text ?es) \<le> FILE_COMMAND_MAX_BYTES" by (simp add: kv_text_def heredoc_def FILE_COMMAND_MAX_BYTES_def)
qed

section \<open>What the files can change\<close>

definition sample_job :: step_job where
  "sample_job = \<lparr>sj_ctx = sample_step, sj_env = [''USER'' \<mapsto> ''me''], sj_outputs = Map.empty, sj_flag = Some ''true'',
     sj_subjects = [], sj_workspace = Some ''/w'', sj_artifacts_list = []\<rparr>"

definition sample_artifacts :: artifact_env where
  "sample_artifacts = \<lparr>ae_cwd = ''/'', ae_probe = (\<lambda>p. if snd p = [''w'', ''a''] then ProbeSha256 ''aa''
       else if snd p = [''tmp'', ''a''] then ProbeSha256 ''bb'' else ProbeMissing), ae_flag = None, ae_list_written = True\<rparr>"

definition sample_files :: command_files where
  "sample_files = \<lparr>cf_env = Absent, cf_path = Absent, cf_output = Absent, cf_state = Regular ''k=v'',
     cf_artifacts = Absent\<rparr>"

lemma read_ascii:
  "list_all ascii_byte s \<Longrightarrow> length s \<le> FILE_COMMAND_MAX_BYTES \<Longrightarrow> read_file_command (Regular s) = Inr s"
  by (simp add: read_file_command_def ascii_valid)

lemma sample_kv: "parse_kv_file (Regular ''k=v'') = Inr [(''k'', ''v'')]"
proof -
  have "list_all ascii_byte ''k=v''" "kv_loop ''k=v'' 0 [] = Inr [(''k'', ''v'')]" by code_simp+
  then show ?thesis by (simp add: parse_kv_file_def read_ascii FILE_COMMAND_MAX_BYTES_def)
qed

lemma add_subjects_keep:
  assumes "add_subjects parsed subjects = (subjects', e)" and "length subjects \<le> ARTIFACTS_MAX_AGGREGATE"
    and "distinct (map fst subjects)"
  shows "map_of subjects \<subseteq>\<^sub>m map_of subjects' \<and> length subjects' \<le> ARTIFACTS_MAX_AGGREGATE \<and> distinct (map fst subjects')"
  using assms
proof (induction parsed subjects rule: add_subjects.induct)
  case (2 line_number subject parsed subjects)
  note step = "2.prems"(1) [simplified add_subjects.simps]
  show ?case
  proof (cases "map_of subjects (sub_name subject)")
    case (Some existing)
    show ?thesis
    proof (cases "sub_digest existing = sub_digest subject")
      case True
      show ?thesis by (rule "2.IH"(2) [OF Some True _ "2.prems"(2,3)]) (use step Some True in simp)
    next
      case False
      then show ?thesis using step Some "2.prems" by auto
    qed
  next
    case None
    have new: "sub_name subject \<notin> fst ` set subjects" using None by (simp add: map_of_eq_None_iff)
    show ?thesis
    proof (cases "ARTIFACTS_MAX_AGGREGATE \<le> length subjects")
      case True
      then show ?thesis using step None "2.prems" by auto
    next
      case False
      let ?s = "im_insert (sub_name subject) subject subjects"
      have s: "?s = subjects @ [(sub_name subject, subject)]" using new by (rule im_insert_fresh)
      have "map_of ?s \<subseteq>\<^sub>m map_of subjects' \<and> length subjects' \<le> ARTIFACTS_MAX_AGGREGATE \<and> distinct (map fst subjects')"
        by (rule "2.IH"(1) [OF None False]) (use step None False "2.prems" new in \<open>auto simp: s\<close>)
      moreover have "map_of subjects \<subseteq>\<^sub>m map_of ?s" using None by (auto simp: update_conv' map_le_def)
      ultimately show ?thesis using map_le_trans by blast
    qed
  qed
qed auto

lemma process_artifacts_subjects:
  assumes "process_artifacts_file env file job = (job', e)" and "length (sj_subjects job) \<le> ARTIFACTS_MAX_AGGREGATE"
    and "distinct (map fst (sj_subjects job))"
  shows "map_of (sj_subjects job) \<subseteq>\<^sub>m map_of (sj_subjects job') \<and>
    length (sj_subjects job') \<le> ARTIFACTS_MAX_AGGREGATE \<and> distinct (map fst (sj_subjects job')) \<and> sj_env job' = sj_env job"
  using assms add_subjects_keep [OF _ assms(2,3)]
  by (auto simp: process_artifacts_file_def write_artifacts_list_file_def split: command_file.splits if_splits sum.splits prod.splits option.splits)

lemma apply_env_fields:
  "apply_file_commands_to_job files job = (job', e) \<Longrightarrow> sj_subjects job' = sj_subjects job \<and>
   (\<exists>vars. sj_env job' = sj_env job ++ allowed_env vars)"
  by (auto simp: apply_file_commands_to_job_def Let_def prepend_paths_def allowed_env_def split: sum.splits
      intro: exI [of _ "[]"])

lemma apply_outputs_fields [simp]:
  "sj_subjects (apply_outputs i outs job) = sj_subjects job" "sj_env (apply_outputs i outs job) = sj_env job"
  "sj_ctx (apply_outputs i outs job) = sj_ctx job"
  by (auto simp: apply_outputs_def split: option.split)

lemma apply_state_fields [simp]:
  "sj_subjects (apply_state i st job) = sj_subjects job" "sj_env (apply_state i st job) = sj_env job"
  by (auto simp: apply_state_def)

text \<open>A run of the files goes through the variables and paths, and then keeps the variables.\<close>

lemma apply_files_cases:
  assumes "apply_file_commands env files i job = (job', e)"
  obtains job1 e1 where "apply_file_commands_to_job files job = (job1, e1)" and "sj_env job' = sj_env job1"
    and "sj_subjects job' = sj_subjects job1 \<or>
      (\<exists>job2. sj_subjects job2 = sj_subjects job1 \<and> sj_env job2 = sj_env job1 \<and> process_artifacts_file env (cf_artifacts files) job2 = (job', e))"
proof -
  obtain job1 e1 where r: "apply_file_commands_to_job files job = (job1, e1)" by fastforce
  have envs: "process_artifacts_file env file job2 = (job', e) \<Longrightarrow> sj_env job' = sj_env job2" for "file" job2
    by (auto simp: process_artifacts_file_def write_artifacts_list_file_def split: command_file.splits if_splits sum.splits prod.splits option.splits)
  show ?thesis
    by (rule that [OF r]) (use assms r envs in \<open>auto simp: apply_file_commands_def Let_def split: option.splits sum.splits if_splits\<close>)
qed

text \<open>C22. No step sets \<^verbatim>\<open>NODE_OPTIONS\<close> for later steps through its file of variables, in whatever letter case
  and form it writes the name, and not when another of its files is refused either.\<close>

theorem node_options_blocked:
  assumes "apply_file_commands env files i job = (job', e)" and "eq_ignore_ascii_case k ''NODE_OPTIONS''"
  shows "sj_env job' k = sj_env job k"
proof -
  obtain job1 e1 where r: "apply_file_commands_to_job files job = (job1, e1)" "sj_env job' = sj_env job1"
    using apply_files_cases [OF assms(1)] by metis
  obtain vars where "sj_env job1 = sj_env job ++ allowed_env vars" using apply_env_fields [OF r(1)] by blast
  moreover have "allowed_env vars k = None" using assms(2) by (auto simp: allowed_env_def map_of_eq_None_iff)
  ultimately show ?thesis using r(2) by (simp add: map_add_def)
qed

theorem node_options_blocked_witness:
  "sj_env (fst (apply_file_commands sample_artifacts sample_files ''main'' sample_job)) ''node_options'' = sj_env sample_job ''node_options''"
proof (rule node_options_blocked)
  show "eq_ignore_ascii_case ''node_options'' ''NODE_OPTIONS''" by code_simp
qed (rule prod.collapse [symmetric])

text \<open>Whatever a step declares, and also when its file is refused in the middle: an artifact that was declared
  keeps its digest, no name is declared twice, and there are at most 500.\<close>

theorem artifacts_kept:
  assumes "apply_file_commands env files i job = (job', e)" and "length (sj_subjects job) \<le> ARTIFACTS_MAX_AGGREGATE"
    and "distinct (map fst (sj_subjects job))"
  shows "map_of (sj_subjects job) \<subseteq>\<^sub>m map_of (sj_subjects job') \<and>
    length (sj_subjects job') \<le> ARTIFACTS_MAX_AGGREGATE \<and> distinct (map fst (sj_subjects job'))"
proof (rule apply_files_cases [OF assms(1)])
  fix job1 e1 assume r: "apply_file_commands_to_job files job = (job1, e1)" "sj_env job' = sj_env job1"
    "sj_subjects job' = sj_subjects job1 \<or>
      (\<exists>job2. sj_subjects job2 = sj_subjects job1 \<and> sj_env job2 = sj_env job1 \<and> process_artifacts_file env (cf_artifacts files) job2 = (job', e))"
  have same: "sj_subjects job1 = sj_subjects job" using apply_env_fields [OF r(1)] by simp
  show ?thesis using r(3)
  proof
    assume "sj_subjects job' = sj_subjects job1"
    then show ?thesis using same assms(2,3) by simp
  next
    assume "\<exists>job2. sj_subjects job2 = sj_subjects job1 \<and> sj_env job2 = sj_env job1 \<and> process_artifacts_file env (cf_artifacts files) job2 = (job', e)"
    then obtain job2 where "sj_subjects job2 = sj_subjects job" "process_artifacts_file env (cf_artifacts files) job2 = (job', e)"
      using same by auto
    then show ?thesis using process_artifacts_subjects [of env "cf_artifacts files" job2 job' e] assms(2,3) by simp
  qed
qed

theorem artifacts_kept_witness:
  "distinct (map fst (sj_subjects (fst (apply_file_commands sample_artifacts sample_files ''main'' sample_job))))"
  using artifacts_kept [OF prod.collapse [symmetric], of sample_job sample_artifacts sample_files "''main''"]
  by (simp add: sample_job_def)

section \<open>The environment of a process\<close>

lemma trim_Nil_iff: "trim s = [] \<longleftrightarrow> list_all is_whitespace s"
proof
  assume "trim s = []"
  then have "dropWhile is_whitespace (rev (dropWhile is_whitespace s)) = []" by (simp add: trim_def trim_start_def trim_end_def)
  then have "\<forall>x \<in> set (dropWhile is_whitespace s). is_whitespace x" by (simp add: dropWhile_eq_Nil_conv)
  then have "dropWhile is_whitespace s = []" by (metis hd_dropWhile hd_in_set)
  then show "list_all is_whitespace s" by (simp add: dropWhile_eq_Nil_conv list_all_iff)
next
  assume "list_all is_whitespace s"
  then show "trim s = []" by (auto simp: trim_def trim_start_def trim_end_def list_all_iff dest: set_dropWhileD)
qed

definition usable_path :: "(string \<rightharpoonup> string) \<Rightarrow> bool" where
  "usable_path env \<longleftrightarrow> (\<exists>p. env ''PATH'' = Some p \<and> trim p \<noteq> [])"

lemma ensure_path_usable: "usable_path (ensure_path env worker)"
  by (auto simp: usable_path_def ensure_path_def DEFAULT_PATH_def trim_Nil_iff is_whitespace_def split: option.split)

lemma add_shim_usable: "usable_path env \<Longrightarrow> usable_path (add_shim mc tool env)"
  by (auto simp: usable_path_def add_shim_def Let_def trim_Nil_iff unwrap_or_def)

lemma or_insert_usable: "usable_path env \<Longrightarrow> usable_path (or_insert k v env)"
  by (auto simp: usable_path_def or_insert_def split: option.split)

lemma host_env_usable: "usable_path (host_env mc env)"
proof -
  have upd: "usable_path e \<Longrightarrow> usable_path (e(''USER'' \<mapsto> u, ''LOGNAME'' \<mapsto> u))" for e u by (simp add: usable_path_def)
  show ?thesis unfolding host_env_def Let_def
    by (intro or_insert_usable upd) (auto intro!: or_insert_usable add_shim_usable ensure_path_usable)
qed

lemma state_env_add: "\<not> starts_with ''STATE_'' k \<Longrightarrow> (env ++ state_env st) k = env k"
  by (simp add: state_env_def strip_prefix_def starts_with_def map_add_def)

lemma join_usable: "trim p \<noteq> [] \<Longrightarrow> trim (join d (ps @ [p])) \<noteq> []"
proof (induction ps)
  case (Cons q ps)
  then show ?case by (cases "ps @ [p]") (auto simp: trim_Nil_iff)
qed simp

lemma with_extra_usable: "usable_path env \<Longrightarrow> usable_path (with_extra_path mc c extra env)"
  using join_usable by (auto simp: usable_path_def with_extra_path_def Let_def trim_Nil_iff)

text \<open>A step on the host always has a path to find programs on: whatever the workflow, the files of earlier
  steps and the environment of the worker set or leave empty, \<^verbatim>\<open>PATH\<close> is present and not blank.\<close>

theorem host_path_usable:
  assumes "\<not> sc_translate (sj_ctx job)"
  shows "\<exists>p. build_env mc job ''PATH'' = Some p \<and> trim p \<noteq> []"
proof -
  have "usable_path (host_env mc (sj_env job ++ sc_env (sj_ctx job)))" by (rule host_env_usable)
  then have "usable_path (host_env mc (sj_env job ++ sc_env (sj_ctx job)) ++ state_env st)" for st
    by (simp add: usable_path_def state_env_add starts_with_def)
  then have "usable_path (build_env mc job)"
    using assms host_env_usable unfolding build_env_def Let_def by (auto intro!: with_extra_usable split: option.split)
  then show ?thesis unfolding usable_path_def .
qed

theorem host_path_usable_witness:
  "\<exists>p. build_env \<lparr>mc_vars = Map.empty, mc_dir = (\<lambda>_. True), mc_certificates = False\<rparr> (sample_job\<lparr>sj_env := [''PATH'' \<mapsto> '' '']\<rparr>) ''PATH'' = Some p \<and> trim p \<noteq> []"
  by (rule host_path_usable) (simp add: sample_job_def sample_step_def)

text \<open>A process in a container gets nothing of the machine the worker runs on: its environment is the same on
  every machine.\<close>

theorem container_env_no_host:
  assumes "sc_translate (sj_ctx job)"
  shows "build_env mc job = build_env mc' job"
  using assms by (auto simp: build_env_def Let_def with_extra_path_def split: option.split)

theorem container_env_no_host_witness:
  "build_env \<lparr>mc_vars = [''PATH'' \<mapsto> ''/bin''], mc_dir = (\<lambda>_. True), mc_certificates = False\<rparr> (sample_job\<lparr>sj_ctx := sample_step\<lparr>sc_translate := True\<rparr>\<rparr>) =
   build_env \<lparr>mc_vars = Map.empty, mc_dir = (\<lambda>_. False), mc_certificates = True\<rparr> (sample_job\<lparr>sj_ctx := sample_step\<lparr>sc_translate := True\<rparr>\<rparr>)"
  by (rule container_env_no_host) simp

text \<open>On the host the account names are those of the runner, also where the workflow sets others.\<close>

theorem account_overrides_workflow:
  assumes "\<not> sc_translate (sj_ctx job)"
  shows "build_env mc job ''USER'' = Some (runner_user mc) \<and> build_env mc job ''LOGNAME'' = Some (runner_user mc)"
proof -
  have other: "or_insert ''XDG_RUNTIME_DIR'' v e k = e k" if "k \<noteq> ''XDG_RUNTIME_DIR''" for v e k
    using that by (auto simp: or_insert_def split: option.split)
  have host: "host_env mc e ''USER'' = Some (runner_user mc)" "host_env mc e ''LOGNAME'' = Some (runner_user mc)" for e
    by (simp_all add: host_env_def Let_def other)
  have extra: "with_extra_path mc c x e k = e k" if "k \<noteq> ''PATH''" for c x e k using that by (simp add: with_extra_path_def Let_def)
  show ?thesis using assms by (auto simp: build_env_def Let_def extra host state_env_add starts_with_def split: option.split)
qed

theorem account_overrides_workflow_witness:
  "sj_env sample_job ''USER'' = Some ''me'' \<and>
   build_env \<lparr>mc_vars = Map.empty, mc_dir = (\<lambda>_. True), mc_certificates = False\<rparr> sample_job ''USER'' = Some ''root''"
  using account_overrides_workflow [of sample_job "\<lparr>mc_vars = Map.empty, mc_dir = (\<lambda>_. True), mc_certificates = False\<rparr>"]
  by (simp add: sample_job_def sample_step_def runner_user_def)

section \<open>State of an action\<close>

definition plain_id :: "string \<Rightarrow> bool" where
  "plain_id i \<longleftrightarrow> \<not> starts_with ''__pre_'' i \<and> \<not> starts_with ''__post_'' i"

lemma state_key:
  "state_env st (''STATE_'' @ k) = st k" "starts_with ''STATE_'' (''STATE_'' @ k)"
  unfolding state_env_def strip_prefix_append by (simp_all add: starts_with_def)

lemma host_env_other:
  assumes "starts_with ''STATE_'' k"
  shows "host_env mc env k = env k"
proof -
  have k: "k \<notin> {''PATH'', ''NODE_OPTIONS'', ''PIP_CERT'', ''REQUESTS_CA_BUNDLE'', ''USER'', ''LOGNAME'', ''XDG_RUNTIME_DIR''}"
    using assms by (auto simp: starts_with_def)
  have ins: "or_insert j v e k = e k" if "k \<noteq> j" for j v e using that by (auto simp: or_insert_def split: option.split)
  have shim: "add_shim mc t e k = e k" for t e using k by (auto simp: add_shim_def Let_def)
  have path: "ensure_path e w k = e k" for e w using k by (auto simp: ensure_path_def split: option.split)
  show ?thesis using k by (simp add: host_env_def Let_def ins shim path)
qed

lemma build_env_state:
  assumes "unwrap_or (strip_prefix ''__post_'' (sc_step_id (sj_ctx job))) (sc_step_id (sj_ctx job)) = a"
  shows "build_env mc job (''STATE_'' @ k) =
    (case Option.bind (sc_state (sj_ctx job) a) (\<lambda>st. st k) of
       Some v \<Rightarrow> Some v | None \<Rightarrow> (sj_env job ++ sc_env (sj_ctx job)) (''STATE_'' @ k))"
proof -
  define key where "key = ''STATE_'' @ k"
  have key: "state_env st key = st k" "starts_with ''STATE_'' key" for st using state_key by (simp_all add: key_def)
  then have "key \<noteq> ''PATH''" by (auto simp: starts_with_def)
  then have "build_env mc job key =
      (case Option.bind (sc_state (sj_ctx job) a) (\<lambda>st. st k) of Some v \<Rightarrow> Some v | None \<Rightarrow> (sj_env job ++ sc_env (sj_ctx job)) key)"
    using assms key host_env_other [OF key(2)]
    by (simp add: build_env_def Let_def with_extra_path_def map_add_def split: option.split)
  then show ?thesis unfolding key_def .
qed

lemma state_owner_simps:
  "plain_id i \<Longrightarrow> state_owner i = i" "state_owner (''__pre_'' @ i) = i" "state_owner (''__post_'' @ i) = i"
proof -
  show "plain_id i \<Longrightarrow> state_owner i = i"
    by (simp add: state_owner_def strip_either_def plain_id_def strip_prefix_def starts_with_def)
  show "state_owner (''__pre_'' @ i) = i" by (simp add: state_owner_def strip_either_def strip_prefix_def)
  show "state_owner (''__post_'' @ i) = i" by (simp add: state_owner_def strip_either_def strip_prefix_def)
qed

lemma apply_files_state:
  assumes "apply_file_commands env files i job = (job', None)" and "parse_kv_file (cf_state files) = Inr st"
    and "map_of st k = Some v"
  shows "\<exists>s. sc_state (sj_ctx job') (state_owner i) = Some s \<and> s k = Some v"
proof -
  obtain job1 where r: "apply_file_commands_to_job files job = (job1, None)"
    using assms(1) by (auto simp: apply_file_commands_def split: prod.splits option.splits)
  obtain outputs where o: "parse_kv_file (cf_output files) = Inr outputs"
    using assms(1) r by (auto simp: apply_file_commands_def split: sum.splits)
  let ?job2 = "apply_state i st (apply_outputs i outputs job1)"
  have ctx: "sj_ctx job' = sj_ctx ?job2"
    using assms(1) r o assms(2)
    by (auto simp: apply_file_commands_def Let_def process_artifacts_file_def write_artifacts_list_file_def
        split: command_file.splits if_splits sum.splits prod.splits option.splits)
  have "st \<noteq> []" using assms(3) by auto
  then show ?thesis unfolding ctx using assms(3) by (simp add: apply_state_def map_add_def)
qed

text \<open>What the part before an action, the action or the part after it writes to its file of state is in the
  environment of the action and of the part after it.\<close>

theorem state_file_reaches_action:
  assumes "apply_file_commands env files i job = (job', None)" and "i \<in> {a, ''__pre_'' @ a, ''__post_'' @ a}" and "plain_id a"
    and "parse_kv_file (cf_state files) = Inr st" and "map_of st k = Some v"
    and "later \<in> {a, ''__post_'' @ a}"
  shows "build_env mc (job'\<lparr>sj_ctx := (sj_ctx job')\<lparr>sc_step_id := later\<rparr>\<rparr>) (''STATE_'' @ k) = Some v"
proof -
  have "state_owner i = a" using assms(2) state_owner_simps assms(3) by auto
  then obtain s where s: "sc_state (sj_ctx job') a = Some s" "s k = Some v"
    using apply_files_state [OF assms(1,4,5)] by auto
  have "unwrap_or (strip_prefix ''__post_'' later) later = a"
    using assms(3,6) by (auto simp: plain_id_def strip_prefix_def starts_with_def)
  then show ?thesis using build_env_state [of "job'\<lparr>sj_ctx := (sj_ctx job')\<lparr>sc_step_id := later\<rparr>\<rparr>" a mc k] s by simp
qed

theorem state_file_reaches_action_witness:
  "\<exists>job'. apply_file_commands sample_artifacts sample_files ''__pre_main'' sample_job = (job', None) \<and>
    build_env undefined (job'\<lparr>sj_ctx := (sj_ctx job')\<lparr>sc_step_id := ''__post_main''\<rparr>\<rparr>) ''STATE_k'' = Some ''v''"
proof -
  obtain job' where run: "apply_file_commands sample_artifacts sample_files (''__pre_'' @ ''main'') sample_job = (job', None)"
    using sample_kv by (simp add: apply_file_commands_def apply_file_commands_to_job_def sample_files_def parse_kv_file_def parse_path_file_def Let_def)
  have st: "parse_kv_file (cf_state sample_files) = Inr [(''k'', ''v'')]" using sample_kv by (simp add: sample_files_def)
  have "build_env undefined (job'\<lparr>sj_ctx := (sj_ctx job')\<lparr>sc_step_id := ''__post_'' @ ''main''\<rparr>\<rparr>) (''STATE_'' @ ''k'') = Some ''v''"
    by (rule state_file_reaches_action [OF run _ _ st, where a = "''main''"]) (simp_all add: plain_id_def starts_with_def eval_nat_numeral)
  then show ?thesis using run by simp
qed

interpretation saved: line_invariant "\<lambda>ctx. sc_state ctx = st \<and> sc_step_id ctx = i"
proof
  show "sc_state ctx' = st \<and> sc_step_id ctx' = i" if "sc_state ctx = st \<and> sc_step_id ctx = i" "annotate ann ctx = Inr ctx'" for ctx ann ctx'
    using that annotate_same [OF that(2)] by auto
  show "sc_state ctx' = st \<and> sc_step_id ctx' = i"
    if "sc_state ctx = st \<and> sc_step_id ctx = i" "retroactive_mask env secrets ctx = Inr ctx'" for ctx env secrets ctx'
    using that by (auto simp: retroactive_mask_def split: if_splits option.splits)
qed (auto simp: same_log_def write_record_def Let_def)

lemma save_state_files:
  assumes "handle_command env cmd ctx = Inr ctx'" and "cmd_name cmd = ''save-state''" and "cmd_properties cmd ''name'' = Some k"
  shows "sc_state ctx' = (sc_state ctx)(sc_step_id ctx \<mapsto> (unwrap_or (sc_state ctx (sc_step_id ctx)) Map.empty)(k \<mapsto> cmd_data cmd))"
proof -
  obtain c where c: "log_with (handle_basic env) env save_state_notice ctx = Inr c"
    "ctx' = c\<lparr>sc_state := (sc_state c)(sc_step_id c \<mapsto> (unwrap_or (sc_state c (sc_step_id c)) Map.empty)(k \<mapsto> cmd_data cmd))\<rparr>"
    using assms by (auto simp: handle_command_def and_then_Inr_iff)
  have "sc_state c = sc_state ctx \<and> sc_step_id c = sc_step_id ctx"
    by (rule saved.log_with_keeps [OF _ _ c(1)]) (rule saved.handle_basic_keeps, simp_all)
  then show ?thesis using c(2) by simp
qed

text \<open>C24. What the part before an action saves with the command instead of the file is lost: it is filed under the
  name of that part, where neither the action nor the part after it looks.\<close>

theorem save_state_before_action_lost:
  assumes "handle_command env cmd ctx = Inr ctx'" and "cmd_name cmd = ''save-state''" and "cmd_properties cmd ''name'' = Some k"
    and "sc_step_id ctx = ''__pre_'' @ a" and "plain_id a" and "sc_state ctx a = None" and "later \<in> {a, ''__post_'' @ a}"
  shows "build_env mc (job\<lparr>sj_ctx := ctx'\<lparr>sc_step_id := later\<rparr>\<rparr>) (''STATE_'' @ k) =
    (sj_env job ++ sc_env ctx') (''STATE_'' @ k)"
proof -
  have later: "unwrap_or (strip_prefix ''__post_'' later) later = a"
    using assms(5,7) by (auto simp: plain_id_def strip_prefix_def starts_with_def)
  have "''__pre_'' @ a \<noteq> a" by (metis append_self_conv2 list.distinct(1))
  then have "sc_state ctx' a = None" using save_state_files [OF assms(1-3)] assms(4,6) by simp
  then show ?thesis using later by (subst build_env_state [of _ a]) simp_all
qed

theorem save_state_before_action_lost_witness:
  "\<exists>ctx'. handle_command sample_env \<lparr>cmd_name = ''save-state'', cmd_properties = [''name'' \<mapsto> ''k''], cmd_data = ''v''\<rparr>
      (sample_step\<lparr>sc_step_id := ''__pre_main''\<rparr>) = Inr ctx' \<and>
    build_env undefined (sample_job\<lparr>sj_ctx := ctx'\<lparr>sc_step_id := ''__post_main''\<rparr>\<rparr>) ''STATE_k'' =
      (sj_env sample_job ++ sc_env ctx') ''STATE_k''"
proof -
  let ?cmd = "\<lparr>cmd_name = ''save-state'', cmd_properties = [''name'' \<mapsto> ''k''], cmd_data = ''v''\<rparr>"
  let ?ctx = "sample_step\<lparr>sc_step_id := ''__pre_'' @ ''main''\<rparr>"
  obtain ctx' where run: "handle_command sample_env ?cmd ?ctx = Inr ctx'"
    by (simp add: handle_command_def log_with_def sample_step_def)
  have "build_env undefined (sample_job\<lparr>sj_ctx := ctx'\<lparr>sc_step_id := ''__post_'' @ ''main''\<rparr>\<rparr>) (''STATE_'' @ ''k'') =
      (sj_env sample_job ++ sc_env ctx') (''STATE_'' @ ''k'')"
    by (rule save_state_before_action_lost [OF run, where a = "''main''"]) (simp_all add: sample_step_def plain_id_def starts_with_def eval_nat_numeral)
  then show ?thesis using run by simp
qed

text \<open>The entries of an artifacts file are parsed before any is taken, but they are taken one by one: a
  file that is refused for its second entry leaves the first declared.\<close>

theorem refused_artifacts_stay:
  "process_artifacts_file sample_artifacts (Regular (''a'' @ [CHR 0x0A] @ ''/tmp/a'')) sample_job =
   (sample_job\<lparr>sj_subjects := [(''a'', \<lparr>sub_name = ''a'', sub_digest = ''sha256:aa'', sub_kind = ''file''\<rparr>)]\<rparr>,
    Some (ArtifactEntry 2 (ConflictingDigest ''a'' ''sha256:aa'' ''sha256:bb'')))"
proof -
  let ?text = "''a'' @ [CHR 0x0A] @ ''/tmp/a''"
  have ascii: "list_all ascii_byte ?text" by code_simp
  have parsed: "parse_artifact_lines sample_artifacts (Some ''/w'') 1 (str_lines ?text) =
      Inr [(1, \<lparr>sub_name = ''a'', sub_digest = ''sha256:aa'', sub_kind = ''file''\<rparr>),
           (2, \<lparr>sub_name = ''a'', sub_digest = ''sha256:bb'', sub_kind = ''file''\<rparr>)]" by code_simp
  show ?thesis using ascii_valid [OF ascii] parsed
    by (simp add: process_artifacts_file_def ARTIFACTS_MAX_FILE_BYTES_def ARTIFACTS_MAX_AGGREGATE_def sample_job_def)
qed

end
