(* ===== verification/Spec2Isabelle.thy ===== *)
theory Spec2Isabelle
  imports Needs_Graph Run_Status Runner_Match Rerun_Set Glob_Trigger Env_Gate Matrix_Expand Trust_Tier
    Concurrency_Groups Lite_Gates Expr_Conditions Secret_Scope Oci_Registry Stream_Masker Problem_Matchers Command_File_Facts
begin

text \<open>
  A verification library for preloop, a self-hosted control plane and runner for GitHub Actions
  workflows.

  \<^bold>\<open>The program.\<close> A workflow file is parsed and expanded into a graph of jobs by
  \<^verbatim>\<open>crates/preloop-gha-parser\<close>: triggers and their glob filters decide whether an event runs it
  (\<^verbatim>\<open>trigger.rs\<close>), matrices multiply jobs (\<^verbatim>\<open>matrix_expand.rs\<close>), \<^verbatim>\<open>needs\<close> orders them (\<^verbatim>\<open>dag.rs\<close>),
  and declared permissions are resolved (\<^verbatim>\<open>expand.rs\<close>). The server,
  \<^verbatim>\<open>crates/preloop-runner-server\<close>, keeps runs and jobs in a database and schedules them: the pure
  decisions that both database backends share are in \<^verbatim>\<open>control/logic.rs\<close> and
  \<^verbatim>\<open>runtime_scheduling.rs\<close>, the concurrency groups in \<^verbatim>\<open>concurrency.rs\<close> and, for SQLite, in
  \<^verbatim>\<open>control/lite/concurrency.rs\<close>, the authority of a job in \<^verbatim>\<open>events/trust_tier.rs\<close> and
  \<^verbatim>\<open>github_app.rs\<close>. Its calls to GitHub go through one funnel with circuit breakers
  (\<^verbatim>\<open>github_breaker.rs\<close>). Runners poll for jobs whose labels they match. The worker,
  \<^verbatim>\<open>crates/preloop-runner/src/worker\<close>, runs the steps of a job: their output is masked
  (\<^verbatim>\<open>crates/preloop-gha-protocol/src/masking.rs\<close>), read for commands (\<^verbatim>\<open>commands.rs\<close>) and problem
  matchers (\<^verbatim>\<open>matchers.rs\<close>), logged (\<^verbatim>\<open>execution_context.rs\<close>) and streamed (\<^verbatim>\<open>live_logs.rs\<close>), and what
  they write to their command files (\<^verbatim>\<open>file_commands.rs\<close>) is applied to the job. The orchestrator
  pulls images from registries (\<^verbatim>\<open>crates/preloop-orchestrator/src/oci.rs\<close>).

  \<^bold>\<open>The theories.\<close>
  \<^item> \<^verbatim>\<open>Rust_Base\<close> is the prelude: results and the question-mark operator, strings, slices, ordered
    maps, saturating integers. \<^verbatim>\<open>Json_Value\<close> is \<^verbatim>\<open>serde_json::Value\<close>.
  \<^item> \<^verbatim>\<open>Needs_Graph\<close> models the needs graph (\<^verbatim>\<open>dag.rs\<close>): cycle detection by depth-first search,
    Kahn's layers, dependency closure. Detection accepts exactly the acyclic graphs, its witness
    lies on a cycle, layers exist exactly when there is no cycle and order every job after its
    needs. The search recursion carries its own termination proof.
  \<^item> \<^verbatim>\<open>Run_Status\<close> models statuses and their decisions: aggregation of needs, completion
    (a terminal status never changes), max-parallel admission, fail-fast, outbox stamps.
  \<^item> \<^verbatim>\<open>Runner_Match\<close> models label and group matching, claim preference, submit-time refusal and
    starvation. \<^verbatim>\<open>Rerun_Set\<close> models the selection of jobs to run again: exactly
    what GitHub's rules, given as an inductive definition, reset.
  \<^item> \<^verbatim>\<open>Glob_Trigger\<close> models glob patterns on the characters of UTF-8 texts (the automaton equals a
    recursive specification) and the matching of events against a workflow's triggers, with what an
    event is refused for.
  \<^item> \<^verbatim>\<open>Env_Gate\<close> models environment protection: branch policy, wait timer, approvals.
  \<^item> \<^verbatim>\<open>Matrix_Expand\<close> models the bounded production expansion and the unbounded reference and
    shows them equal within the limits.
  \<^item> \<^verbatim>\<open>Trust_Tier\<close> models trust tiers, permissions and their narrowing: no step adds authority.
  \<^item> \<^verbatim>\<open>Concurrency_Groups\<close> models holders, group keys, event order and the shared decisions;
    \<^verbatim>\<open>Lite_Gates\<close> the SQLite tables and \<^verbatim>\<open>acquire\<close>. The hold table refines one mutex per group.
  \<^item> The expression language (\<^verbatim>\<open>crates/preloop-gha-expressions\<close>) is in nine theories.
    \<^verbatim>\<open>Expr_Syntax\<close> models the lexer, the parser with its two depth limits and the cache of parsed
    expressions, which is transparent under any interleaving; \<^verbatim>\<open>Expr_Print\<close> gives a printer and shows
    that the parser reads back what it prints. \<^verbatim>\<open>Expr_Value\<close> models contexts, values, comparisons and the
    budget; \<^verbatim>\<open>Expr_Format\<close> shows that the capped \<^verbatim>\<open>format\<close> and \<^verbatim>\<open>join\<close> compute the uncapped text when it
    fits; \<^verbatim>\<open>Lenient_Json\<close> models the normalization before \<^verbatim>\<open>fromJSON\<close>; \<^verbatim>\<open>Hash_Files\<close> shows that
    \<^verbatim>\<open>hashFiles\<close> hashes exactly the matched files below the workspace and reads only through handles there. \<^verbatim>\<open>Expr_Eval\<close> models the evaluator: its
    values fit the budget and a parsed expression never meets its recursion ceiling.
    \<^verbatim>\<open>Expr_Conditions\<close> models conditions: the implicit gate holds the job back when needs failed, for every
    condition that is an expression by itself; \<^verbatim>\<open>Expr_Enclosed\<close> shows for that what the parser makes of an
    expression in parentheses. A text that is none by itself can escape the gate.
  \<^item> \<^verbatim>\<open>Secret_Reads\<close> models the static analysis of expressions and shows it sound by non-interference;
    \<^verbatim>\<open>Template_Render\<close> models the renderer of texts with expressions (\<^verbatim>\<open>expr_scan.rs\<close>, the worker's
    \<^verbatim>\<open>template.rs\<close>). \<^verbatim>\<open>Secret_Scope\<close> models the reads of a job, the narrowing of its secrets (\<^verbatim>\<open>secrets.rs\<close>,
    \<^verbatim>\<open>runs.rs\<close>), their place in the claimed job (\<^verbatim>\<open>message_template.rs\<close>) and in the runner's context
    (\<^verbatim>\<open>contexts.rs\<close>): the narrowing changes none of the texts of a job that the runner renders.
    Conditions are excepted, where a quoted marker hides a read.

  \<^item> \<^verbatim>\<open>Github_Breaker\<close> models the circuit breaker of one kind of call and \<^verbatim>\<open>Github_Funnel\<close> the registry of
    breakers, the accounting and a whole outbound call: at most one probe is under way, an open
    breaker recovers, calls of one installation do not close those of another, and the
    registry is a bounded least-recently-used map. \<^verbatim>\<open>Oci_Registry\<close> models references, the challenge
    of a registry and the token handshake, which never recovers from a refusal.
  \<^item> \<^verbatim>\<open>Base64_Scan\<close> and \<^verbatim>\<open>Secret_Masking\<close> model the masking of a text: no registered value without an
    asterisk, encoding of one or other spelling can be read in the output, line ends are kept, and masking
    twice is masking once. A value with an asterisk can stay readable beside the asterisks of a mask, so
    every statement that something is hidden is about values without one. \<^verbatim>\<open>Stream_Masker\<close> models the masker of a byte stream: the same for the joined output,
    however the stream is cut, with a bounded carry.
  \<^item> \<^verbatim>\<open>Workflow_Commands\<close> models the two forms of a command line and shows that an escaped command is read
    back exactly. \<^verbatim>\<open>Problem_Matchers\<close> models matchers, with an index out of range as a value of its own:
    no line panics a registered matcher, and one of up to three patterns reports exactly on consecutive lines. \<^verbatim>\<open>Live_Logs\<close> models the live feed: no line is lost,
    repeated or reordered by a drain, as counted in the messages that are sent, and a batch shows no registered
    value without an asterisk.
  \<^item> \<^verbatim>\<open>Step_Log\<close> models the log of a step, all commands included, with two locales for its invariants, one
    for lines and one for chunks of output; \<^verbatim>\<open>Log_Facts\<close> instantiates them (the count of
    lines, the bounds on annotations and on the line buffer) and shows that a registered value without an
    asterisk disappears from what was logged and that suspended commands do nothing. \<^verbatim>\<open>File_Commands\<close> models the command files
    and the environment of a process; \<^verbatim>\<open>Command_File_Facts\<close> shows that written values are read back, what
    the files can and cannot change, and what reaches a process on the host and in a container.

  \<^bold>\<open>Interfaces.\<close> A locale states what a client needs of its provider and is interpreted on the model of
  the code in the theory that provides it: the merging of spans for masks, the queue policy of
  concurrency groups, their table of slots, the least-recently-used index of breakers, the invariants of
  parsed trees, and those of a step log.

  \<^bold>\<open>How the code is modelled.\<close> Structs are records, enums datatypes, \<^verbatim>\<open>Result\<close> is a sum with
  the error on the left, mutated arguments are returned. Rust's machine integers are naturals or
  integers with the saturation, wrap-around or bound of the source written out. Strings are lists
  of bytes. Third-party code (JSON and UUID codecs, the RFC 3339 parser, \<^verbatim>\<open>glob\<close>, SHA-256), Unicode's
  tables and effects outside the
  process (GitHub's rules, cancellation of a run's jobs) are arguments of the definitions that
  use them. Lines that only log are left out.

  \<^bold>\<open>Fuel and recursion.\<close> The loops of the expression parser take the number of remaining tokens as
  fuel; every round consumes a token, and the lemmas show that more fuel changes nothing. Its
  recursion ends because every level uses one of the 128 allowed. All other loops have their own
  termination proofs.

  \<^bold>\<open>Not modelled.\<close> The HTTP servers, the bodies of the requests to GitHub, the PostgreSQL backend and the
  rest of the SQLite backend (SQL text around the decisions modelled here), sandboxes and virtual machines,
  the command line, the storage of caches and artifacts, telemetry and the debug adapter: they are input
  and output, or glue around the components above. Of the worker, the processes it starts, the
  timers and sockets of its tasks and the handlers of actions are not modelled; where a component needs
  their outcome (whether a write succeeded, what arrived meanwhile, what the clock shows) it is an argument.
  The regex engine, serde, SHA-256 and the base64 alphabet tables are third-party code and arguments. The
  YAML front end is third-party parsing followed by deserialization.
\<close>

end
